(* ===== verification/Cspx_Prelude.thy ===== *)
theory Cspx_Prelude
  imports Main "HOL-Library.Word" "HOL-Library.Char_ord" "HOL-Library.List_Lexorder"
    "HOL-Library.Product_Lexorder" "HOL-Library.Monad_Syntax"
begin

unbundle bit_operations_syntax

text \<open>
  What the components share. The parts of Rust's standard library the sources use are
  modelled here once: machine integers with the saturating and wrapping operations, decimal
  formatting, big-endian byte encodings, UTF-8 validation, and the ordered containers
  \<^verbatim>\<open>BTreeSet\<close> and \<^verbatim>\<open>BTreeMap\<close>, represented by the strictly ascending list of
  their elements (so that equality of the Rust values is equality of the lists).

  A Rust \<^verbatim>\<open>String\<close> is the list of its UTF-8 bytes, a \<open>string\<close>; its \<^verbatim>\<open>Ord\<close> is bytewise
  lexicographic, which is the order \<open>List_Lexorder\<close> and \<open>Char_ord\<close> give to \<open>string\<close>.
  A computation that may fail to return, or may panic, has type \<open>'a option\<close>: \<open>None\<close> means that
  the call yields no value. A fallible call that returns a \<^verbatim>\<open>Result\<close> has type
  \<open>error + 'a\<close>.
\<close>

section \<open>Machine integers\<close>

type_synonym u8 = "8 word"
type_synonym u32 = "32 word"
type_synonym u64 = "64 word"

text \<open>The collections the component theories add their facts to: unfoldings of the record and
  dictionary wrappers, and introduction rules for the well-formedness invariants.\<close>

named_theorems cspx_simps \<open>unfoldings the component proofs share\<close>
named_theorems cspx_wf \<open>introduction rules for well-formedness invariants\<close>

text \<open>Rust's \<^verbatim>\<open>u64::saturating_add\<close>, and the saturated value of a natural number.\<close>

definition sat_add :: "u64 \<Rightarrow> u64 \<Rightarrow> u64" where
  "sat_add a b = (if unat a + unat b < 2 ^ 64 then a + b else - 1)"

definition sat_of_nat :: "nat \<Rightarrow> u64" where
  "sat_of_nat n = (if n < 2 ^ 64 then of_nat n else - 1)"

lemma unat_max64: "unat (- 1 :: u64) = 2 ^ 64 - 1"
  by (simp add: unsigned_minus_1_eq_mask mask_eq_exp_minus_1)

lemma sat_add_code [code]: "sat_add a b = (if b \<le> - 1 - a then a + b else - 1)"
proof -
  have "unat (- 1 - a) = unat (- 1 :: u64) - unat a" by (rule unat_sub) simp
  then have "b \<le> - 1 - a \<longleftrightarrow> unat b \<le> 2 ^ 64 - 1 - unat a" by (simp add: word_le_nat_alt unat_max64)
  moreover have "unat a < 2 ^ 64" using unsigned_less [of a] by simp
  ultimately show ?thesis by (auto simp: sat_add_def)
qed

lemma unat_of_nat64: "unat (of_nat n :: u64) = n mod 2 ^ 64"
  by (simp add: unat_of_nat)

lemma unat_sat_of_nat: "unat (sat_of_nat n) = min n (2 ^ 64 - 1)"
  by (auto simp: sat_of_nat_def unat_max64 unat_of_nat64 min_def)

lemma sat_of_nat_0 [simp]: "sat_of_nat 0 = 0"
  by (simp add: sat_of_nat_def)

lemma sat_add_sat_of_nat:
  assumes "n < 2 ^ 64"
  shows "sat_add (sat_of_nat m) (of_nat n) = sat_of_nat (m + n)"
proof (cases "m + n < 2 ^ 64")
  case True
  then have "unat (of_nat m :: u64) + unat (of_nat n :: u64) = m + n"
    by (simp add: unat_of_nat64)
  with True show ?thesis
    by (simp add: sat_add_def sat_of_nat_def)
next
  case False
  have "\<not> unat (sat_of_nat m) + unat (of_nat n :: u64) < 2 ^ 64 \<or> (n = 0 \<and> \<not> m < 2 ^ 64)"
    using False assms by (auto simp: unat_sat_of_nat unat_of_nat64)
  then show ?thesis
    using False by (auto simp: sat_add_def sat_of_nat_def)
qed

lemma sat_of_nat_small: "n < 2 ^ 64 \<Longrightarrow> of_nat n = sat_of_nat n"
  by (simp add: sat_of_nat_def)

lemma sat_add_sat [simp]: "sat_add (sat_of_nat m) (sat_of_nat n) = sat_of_nat (m + n)"
proof (cases "n < 2 ^ 64")
  case True
  then show ?thesis
    using sat_add_sat_of_nat [OF True, of m] by (simp add: sat_of_nat_small)
next
  case False
  then have "\<not> unat (sat_of_nat m) + unat (sat_of_nat n) < 2 ^ 64 \<or> m = 0"
    by (auto simp: unat_sat_of_nat)
  moreover have "sat_of_nat n = - 1" using False by (simp add: sat_of_nat_def)
  ultimately show ?thesis
    using False by (auto simp: sat_add_def sat_of_nat_def)
qed

section \<open>Decimal formatting\<close>

text \<open>\<^verbatim>\<open>Display\<close> of an unsigned integer.\<close>

definition digit_char :: "nat \<Rightarrow> char" where
  "digit_char d = char_of (48 + d)"

fun show_nat :: "nat \<Rightarrow> string" where
  "show_nat n = (if n < 10 then [digit_char n] else show_nat (n div 10) @ [digit_char (n mod 10)])"

declare show_nat.simps [simp del]

definition show_u64 :: "u64 \<Rightarrow> string" where
  "show_u64 w = show_nat (unat w)"

definition show_u32 :: "u32 \<Rightarrow> string" where
  "show_u32 w = show_nat (unat w)"

lemma digit_char_inj: "a < 10 \<Longrightarrow> b < 10 \<Longrightarrow> digit_char a = digit_char b \<longleftrightarrow> a = b"
  by (auto simp: digit_char_def dest: arg_cong [where f = "of_char :: char \<Rightarrow> nat"])

lemma show_nat_nonempty [simp]: "show_nat n \<noteq> []"
  by (subst show_nat.simps) simp

lemma show_nat_nonempty' [simp]: "[] \<noteq> show_nat n"
  using show_nat_nonempty [of n] by metis

lemma show_nat_inj: "show_nat m = show_nat n \<longleftrightarrow> m = n"
proof (induction m arbitrary: n rule: show_nat.induct)
  case (1 m)
  show ?case
  proof (cases "m < 10")
    case True
    then show ?thesis
      by (subst (1 2) show_nat.simps) (auto simp: digit_char_inj)
  next
    case False
    note m = show_nat.simps [of m] and n = show_nat.simps [of n]
    have "m = n" if eq: "show_nat m = show_nat n"
    proof (cases "n < 10")
      case True
      with eq False m n show ?thesis
        by (simp add: append_eq_Cons_conv)
    next
      case n10: False
      with eq False m n have "show_nat (m div 10) = show_nat (n div 10)"
        and "digit_char (m mod 10) = digit_char (n mod 10)" by simp_all
      then have "m div 10 = n div 10" "m mod 10 = n mod 10"
        using False 1 by (blast, simp add: digit_char_inj)
      then show ?thesis by (metis div_mult_mod_eq)
    qed
    then show ?thesis by auto
  qed
qed

section \<open>Bytes\<close>

text \<open>\<^verbatim>\<open>str::as_bytes\<close> and its inverse on single bytes.\<close>

definition byte_of_char :: "char \<Rightarrow> u8" where
  "byte_of_char c = of_nat (of_char c)"

definition char_of_byte :: "u8 \<Rightarrow> char" where
  "char_of_byte b = char_of (unat b)"

lemma char_of_byte_of_char [simp]: "char_of_byte (byte_of_char c) = c"
proof -
  have "unat (of_nat (of_char c) :: u8) = (of_char c :: nat)"
    using of_char_mod_256 [of c, where ?'a = nat] by (simp add: unat_of_nat)
  then show ?thesis by (simp add: char_of_byte_def byte_of_char_def)
qed

lemma map_char_of_byte_of_char [simp]: "map (char_of_byte \<circ> byte_of_char) s = s"
  by (induction s) auto

text \<open>\<^verbatim>\<open>to_be_bytes\<close> and \<^verbatim>\<open>from_be_bytes\<close> at 32 and 64 bits.\<close>

definition be_bytes :: "nat \<Rightarrow> 'a::len word \<Rightarrow> u8 list" where
  "be_bytes n w = map (\<lambda>i. ucast (drop_bit (8 * i) w)) (rev [0..<n])"

definition from_be_bytes :: "u8 list \<Rightarrow> 'a::len word" where
  "from_be_bytes bs = foldl (\<lambda>acc b. push_bit 8 acc OR ucast b) 0 bs"

definition u32_be :: "u32 \<Rightarrow> u8 list" where
  "u32_be = be_bytes 4"

definition u64_be :: "u64 \<Rightarrow> u8 list" where
  "u64_be = be_bytes 8"

lemma length_u32_be [simp]: "length (u32_be w) = 4"
  by (simp add: u32_be_def be_bytes_def)

lemma length_u64_be [simp]: "length (u64_be w) = 8"
  by (simp add: u64_be_def be_bytes_def)

lemma be_bytes_Suc: "be_bytes (Suc n) w = ucast (drop_bit (8 * n) w) # be_bytes n w"
  by (simp add: be_bytes_def)

lemma foldl_be_bytes:
  fixes w acc :: "'a::len word"
  shows "foldl (\<lambda>acc b. push_bit 8 acc OR ucast b) acc (be_bytes n w)
         = push_bit (8 * n) acc OR take_bit (8 * n) w"
proof (induction n arbitrary: acc)
  case 0
  then show ?case by (simp add: be_bytes_def)
next
  case (Suc n)
  have "push_bit (8 * n) (push_bit 8 acc OR ucast (ucast (drop_bit (8 * n) w) :: u8))
          OR take_bit (8 * n) w
        = push_bit (8 * Suc n) acc OR take_bit (8 * Suc n) w"
  proof (rule bit_word_eqI)
    fix i assume i: "i < LENGTH('a)"
    consider "i < 8 * n" | "8 * n \<le> i" "i < 8 * n + 8" | "8 * n + 8 \<le> i" by linarith
    then show "bit (push_bit (8 * n) (push_bit 8 acc OR ucast (ucast (drop_bit (8 * n) w) :: u8))
          OR take_bit (8 * n) w) i
        = bit (push_bit (8 * Suc n) acc OR take_bit (8 * Suc n) w) i"
      using i by cases (auto simp: bit_simps algebra_simps)
  qed
  then show ?case by (simp add: be_bytes_Suc Suc.IH)
qed

lemma from_be_bytes_u32 [simp]: "from_be_bytes (u32_be w) = w"
  by (simp add: from_be_bytes_def u32_be_def foldl_be_bytes)
    (simp add: take_bit_length_eq [where 'a = 32, simplified])

lemma from_be_bytes_u64 [simp]: "from_be_bytes (u64_be w) = w"
  by (simp add: from_be_bytes_def u64_be_def foldl_be_bytes)
    (simp add: take_bit_length_eq [where 'a = 64, simplified])

text \<open>\<^verbatim>\<open>std::str::from_utf8\<close> accepts exactly the well-formed byte sequences of the Unicode
  standard (no overlong forms, no surrogates, nothing above U+10FFFF).\<close>

definition utf8_cont :: "char \<Rightarrow> bool" where
  "utf8_cont c = (let n = (of_char c :: nat) in 128 \<le> n \<and> n \<le> 191)"

definition char_between :: "nat \<Rightarrow> char \<Rightarrow> nat \<Rightarrow> bool" where
  "char_between lo c hi = (lo \<le> of_char c \<and> of_char c \<le> hi)"

fun utf8_valid :: "string \<Rightarrow> bool" where
  "utf8_valid [] = True"
| "utf8_valid (a # s) =
     (if char_between 0 a 127 then utf8_valid s
      else (case s of [] \<Rightarrow> False | b # s1 \<Rightarrow>
        if char_between 194 a 223 then utf8_cont b \<and> utf8_valid s1
        else (case s1 of [] \<Rightarrow> False | c # s2 \<Rightarrow>
          if char_between 224 a 239
          then (if char_between 224 a 224 then char_between 160 b 191
                else if char_between 237 a 237 then char_between 128 b 159 else utf8_cont b)
               \<and> utf8_cont c \<and> utf8_valid s2
          else (case s2 of [] \<Rightarrow> False | d # s3 \<Rightarrow>
            char_between 240 a 244
            \<and> (if char_between 240 a 240 then char_between 144 b 191
               else if char_between 244 a 244 then char_between 128 b 143 else utf8_cont b)
            \<and> utf8_cont c \<and> utf8_cont d \<and> utf8_valid s3))))"

lemma utf8_valid_ascii: "list_all (\<lambda>c. char_between 0 c 127) s \<Longrightarrow> utf8_valid s"
  by (induction s) auto

section \<open>Ordered containers\<close>

text \<open>\<^verbatim>\<open>BTreeSet\<close>: the strictly ascending list of its elements.\<close>

fun bts_insert :: "'a::linorder \<Rightarrow> 'a list \<Rightarrow> 'a list" where
  "bts_insert x [] = [x]"
| "bts_insert x (y # ys) =
     (if x < y then x # y # ys else if x = y then y # ys else y # bts_insert x ys)"

definition bts_extend :: "'a::linorder list \<Rightarrow> 'a list \<Rightarrow> 'a list" where
  "bts_extend s xs = fold bts_insert xs s"

definition bts_of_list :: "'a::linorder list \<Rightarrow> 'a list" where
  "bts_of_list xs = bts_extend [] xs"

abbreviation bts_ok :: "'a::linorder list \<Rightarrow> bool" where
  "bts_ok \<equiv> sorted_wrt (<)"

lemma set_bts_insert [simp]: "set (bts_insert x s) = insert x (set s)"
  by (induction s) auto

lemma bts_ok_insert [simp, cspx_wf]: "bts_ok s \<Longrightarrow> bts_ok (bts_insert x s)"
  by (induction s) auto

lemma set_bts_extend [simp]: "set (bts_extend s xs) = set s \<union> set xs"
  unfolding bts_extend_def by (induction xs arbitrary: s) auto

lemma bts_ok_extend [simp, cspx_wf]: "bts_ok s \<Longrightarrow> bts_ok (bts_extend s xs)"
  unfolding bts_extend_def by (induction xs arbitrary: s) auto

lemma set_bts_of_list [simp]: "set (bts_of_list xs) = set xs"
  by (simp add: bts_of_list_def)

lemma bts_ok_of_list [simp, cspx_wf]: "bts_ok (bts_of_list xs)"
  by (simp add: bts_of_list_def)

lemma bts_ok_unique: "bts_ok s \<Longrightarrow> bts_ok t \<Longrightarrow> set s = set t \<Longrightarrow> s = t"
  by (rule strict_sorted_equal)

lemma bts_of_list_id: "bts_ok s \<Longrightarrow> bts_of_list s = s"
  by (rule bts_ok_unique) auto

lemma length_bts_insert: "length (bts_insert x s) \<le> Suc (length s)"
  by (induction s) auto

text \<open>\<^verbatim>\<open>BTreeMap\<close>: the association list of its entries, the keys strictly ascending.\<close>

fun btm_insert :: "'k::linorder \<Rightarrow> 'v \<Rightarrow> ('k \<times> 'v) list \<Rightarrow> ('k \<times> 'v) list" where
  "btm_insert k v [] = [(k, v)]"
| "btm_insert k v ((k', v') # m) =
     (if k < k' then (k, v) # (k', v') # m
      else if k = k' then (k, v) # m else (k', v') # btm_insert k v m)"

abbreviation btm_ok :: "('k::linorder \<times> 'v) list \<Rightarrow> bool" where
  "btm_ok m \<equiv> bts_ok (map fst m)"

lemma map_of_btm_insert [simp]: "map_of (btm_insert k v m) = (map_of m)(k \<mapsto> v)"
  by (induction m) auto

lemma keys_btm_insert [simp]: "map fst (btm_insert k v m) = bts_insert k (map fst m)"
  by (induction m) auto

lemma set_btm_insert: "set (btm_insert k v m) \<subseteq> insert (k, v) (set m)"
  by (induction k v m rule: btm_insert.induct) auto

lemma btm_ok_distinct: "btm_ok m \<Longrightarrow> distinct (map fst m)"
  by (simp add: strict_sorted_iff)

lemma btm_insert_greatest: "\<forall>k' \<in> fst ` set m. k' < k \<Longrightarrow> btm_insert k v m = m @ [(k, v)]"
  by (induction m) auto

lemma fold_btm_insert_ascending:
  "btm_ok (m @ es) \<Longrightarrow> fold (\<lambda>(k, v). btm_insert k v) es m = m @ es"
proof (induction es arbitrary: m)
  case Nil
  then show ?case by simp
next
  case (Cons e es)
  obtain k v where e: "e = (k, v)" by (cases e)
  with Cons.prems have "btm_insert k v m = m @ [(k, v)]"
    by (intro btm_insert_greatest) (auto simp: sorted_wrt_append)
  with Cons.IH [of "m @ [(k, v)]"] Cons.prems e show ?case by simp
qed

lemma bts_insert_greatest: "\<forall>y \<in> set s. y < x \<Longrightarrow> bts_insert x s = s @ [x]"
  by (induction s) auto

lemma fold_bts_insert_ascending: "bts_ok (s @ xs) \<Longrightarrow> fold bts_insert xs s = s @ xs"
proof (induction xs arbitrary: s)
  case (Cons x xs)
  then have "bts_insert x s = s @ [x]"
    by (intro bts_insert_greatest) (auto simp: sorted_wrt_append)
  with Cons.IH [of "s @ [x]"] Cons.prems show ?case by simp
qed simp

section \<open>Iterating a call that may not return\<close>

fun map_opt :: "('a \<Rightarrow> 'b option) \<Rightarrow> 'a list \<Rightarrow> 'b list option" where
  "map_opt f [] = Some []"
| "map_opt f (x # xs) =
     (case f x of None \<Rightarrow> None
      | Some y \<Rightarrow> (case map_opt f xs of None \<Rightarrow> None | Some ys \<Rightarrow> Some (y # ys)))"

lemma map_opt_list_all2: "map_opt f xs = Some ys \<Longrightarrow> list_all2 (\<lambda>x y. f x = Some y) xs ys"
  by (induction xs arbitrary: ys) (auto split: option.splits)

lemma map_opt_SomeI: "list_all2 (\<lambda>x y. f x = Some y) xs ys \<Longrightarrow> map_opt f xs = Some ys"
  by (induction rule: list_all2_induct) auto

lemma map_opt_total: "(\<And>x. x \<in> set xs \<Longrightarrow> \<exists>y. f x = Some y) \<Longrightarrow> \<exists>ys. map_opt f xs = Some ys"
  by (induction xs) force+

lemma map_opt_set: "map_opt f xs = Some ys \<Longrightarrow> set ys = {y. \<exists>x \<in> set xs. f x = Some y}"
proof (induction xs arbitrary: ys)
  case (Cons x xs)
  then show ?case by (auto split: option.splits)
qed auto

lemma map_opt_SomeD: "map_opt f xs = Some ys \<Longrightarrow> x \<in> set xs \<Longrightarrow> \<exists>y \<in> set ys. f x = Some y"
  by (induction xs arbitrary: ys) (auto split: option.splits)

lemma map_opt_cong [fundef_cong]:
  assumes "xs = ys" and "\<And>x. x \<in> set ys \<Longrightarrow> f x = g x"
  shows "map_opt f xs = map_opt g ys"
proof -
  have "map_opt f ys = map_opt g ys"
    using assms(2) by (induction ys) (auto split: option.split)
  with assms(1) show ?thesis by simp
qed

text \<open>Indexing a slice: out of range it panics.\<close>

definition nth_opt :: "'a list \<Rightarrow> nat \<Rightarrow> 'a option" where
  "nth_opt xs i = (if i < length xs then Some (xs ! i) else None)"

lemma nth_opt_eq_Some: "nth_opt xs i = Some x \<longleftrightarrow> i < length xs \<and> xs ! i = x"
  by (auto simp: nth_opt_def)

lemma nth_opt_eq_None: "nth_opt xs i = None \<longleftrightarrow> length xs \<le> i"
  by (auto simp: nth_opt_def)

lemma nth_opt_append: "nth_opt xs i = Some x \<Longrightarrow> nth_opt (xs @ ys) i = Some x"
  by (auto simp: nth_opt_eq_Some nth_append)

section \<open>The question mark operator\<close>

definition and_then :: "'e + 'a \<Rightarrow> ('a \<Rightarrow> 'e + 'b) \<Rightarrow> 'e + 'b" where
  "and_then r f = (case r of Inl e \<Rightarrow> Inl e | Inr x \<Rightarrow> f x)"

lemma and_then_simps [simp]:
  "and_then (Inl e) f = Inl e"
  "and_then (Inr x) f = f x"
  by (simp_all add: and_then_def)

lemma and_then_eq_Inr: "and_then r f = Inr y \<longleftrightarrow> (\<exists>x. r = Inr x \<and> f x = Inr y)"
  by (cases r) auto

lemma and_then_eq_Inl: "and_then r f = Inl e \<longleftrightarrow> r = Inl e \<or> (\<exists>x. r = Inr x \<and> f x = Inl e)"
  by (cases r) auto

lemma and_then_cong [fundef_cong]:
  "r = r' \<Longrightarrow> (\<And>x. r' = Inr x \<Longrightarrow> f x = g x) \<Longrightarrow> and_then r f = and_then r' g"
  by (cases r') auto

definition ok_or :: "'e \<Rightarrow> 'a option \<Rightarrow> 'e + 'a" where
  "ok_or e x = (case x of None \<Rightarrow> Inl e | Some y \<Rightarrow> Inr y)"

lemma ok_or_eq_Inr [simp]: "ok_or e x = Inr y \<longleftrightarrow> x = Some y"
  by (auto simp: ok_or_def split: option.split)

lemma ok_or_eq_Inl [simp]: "ok_or e x = Inl e' \<longleftrightarrow> x = None \<and> e' = e"
  by (auto simp: ok_or_def split: option.split)

lemma ok_or_simps [simp]: "ok_or e None = Inl e" "ok_or e (Some y) = Inr y"
  by (simp_all add: ok_or_def)

text \<open>\<^verbatim>\<open>[T]::join(sep)\<close> on strings.\<close>

fun join :: "string \<Rightarrow> string list \<Rightarrow> string" where
  "join sep [] = []"
| "join sep [x] = x"
| "join sep (x # y # ys) = x @ sep @ join sep (y # ys)"

text \<open>Simplification set for reading a returned value backwards through the option monad.\<close>

lemmas opt_simps = bind_eq_Some_conv

end
