(* ===== verification/Cspx_Types.thy ===== *)
theory Cspx_Types
  imports Cspx_Prelude
begin

text \<open>
  The data every component exchanges: \<^verbatim>\<open>types.rs\<close> (status, reasons, source spans,
  counterexamples, statistics) and \<^verbatim>\<open>check.rs\<close> (requests and results of a checker).
  Fields of different Rust structs that share a name carry a prefix here.
\<close>

section \<open>types.rs\<close>

datatype status = Pass | Fail | Unsupported | Timeout | OutOfMemory | ErrorStatus

datatype reason_kind =
    NotImplemented | UnsupportedSyntaxReason | InvalidInputReason | InternalError
  | TimeoutReason | OutOfMemoryReason

record reason =
  reason_kind :: reason_kind
  reason_message :: "string option"

record source_span =
  path :: string
  start_line :: u32
  start_col :: u32
  end_line :: u32
  end_col :: u32

datatype counterexample_type = Trace

record counterexample_event =
  ev_label :: string

record counterexample =
  cx_kind :: counterexample_type
  cx_events :: "counterexample_event list"
  cx_is_minimized :: bool
  cx_tags :: "string list"
  cx_source_spans :: "source_span list"

record stats =
  st_states :: "u64 option"
  st_transitions :: "u64 option"

record diagnostic =
  diag_message :: string
  diag_span :: "source_span option"

section \<open>check.rs\<close>

datatype check_command = TypecheckCmd | CheckCmd | RefineCmd

datatype refinement_model = ModelT | ModelF | ModelFD

fun refinement_model_str :: "refinement_model \<Rightarrow> string" where
  "refinement_model_str ModelT = ''T''"
| "refinement_model_str ModelF = ''F''"
| "refinement_model_str ModelFD = ''FD''"

record check_request =
  rq_command :: check_command
  rq_model :: "refinement_model option"
  rq_target :: "string option"

record check_result =
  cr_name :: string
  cr_model :: "string option"
  cr_target :: "string option"
  cr_status :: status
  cr_reason :: "reason option"
  cr_counterexample :: "counterexample option"
  cr_stats :: "stats option"

text \<open>The \<^verbatim>\<open>Stats\<close> value of a run that was not carried out.\<close>

definition no_stats :: stats where
  "no_stats = \<lparr>st_states = None, st_transitions = None\<rparr>"

text \<open>The position a diagnostic is printed with (the \<^verbatim>\<open>Display\<close> instances of the error types
  of the frontend and of the transition systems are the same code).\<close>

definition display_error :: "source_span option \<Rightarrow> string \<Rightarrow> string" where
  "display_error sp msg =
     (case sp of
        Some s \<Rightarrow> path s @ '':'' @ show_u32 (start_line s) @ '':'' @ show_u32 (start_col s) @ '': '' @ msg
      | None \<Rightarrow> msg)"

end
