(* ===== verification/Cspx_IR.thy ===== *)
theory Cspx_IR
  imports Cspx_Types
begin

text \<open>
  The intermediate representation of \<^verbatim>\<open>ir.rs\<close>: modules of channel declarations, process
  declarations and assertions, with the source span of every node (\<^verbatim>\<open>Spanned\<close>); the selection
  of the assertion a property check runs on (\<^verbatim>\<open>assertion_select.rs\<close>) and of the spans a
  counterexample is reported with (\<^verbatim>\<open>counterexample_span.rs\<close>).
\<close>

section \<open>ir.rs\<close>

datatype 'a spanned = Spanned (node: 'a) (span: source_span)

datatype channel_domain =
    DomIntRange "u64 spanned" "u64 spanned"
  | DomNamedType "string spanned"

record channel_decl =
  chan_names :: "string spanned list"
  chan_domain :: "channel_domain spanned option"

datatype event_value = VInt u64 | VIdent string

datatype event_input = InInt u64 | InBind string

datatype event_seg =
    Dot "event_value spanned"
  | Out "event_value spanned"
  | In "event_input spanned"

record event =
  ev_channel :: "string spanned"
  ev_seg :: "event_seg option"

record event_set =
  set_channels :: "string spanned list"

datatype choice_kind = External | Internal

datatype parallel_kind = Interleaving | Interface

datatype process_expr =
    Stop
  | Ref "string spanned"
  | Prefix "event spanned" "process_expr spanned"
  | Choice choice_kind "process_expr spanned" "process_expr spanned"
  | Parallel parallel_kind "process_expr spanned" "process_expr spanned" "event_set option"
  | Hide "process_expr spanned" event_set

text \<open>The size of an expression below its span, so that recursions over expressions are seen to
  terminate.\<close>

lemma expr_size_measure [measure_function]:
  "is_measure (size_spanned size :: process_expr spanned \<Rightarrow> nat)"
  by (rule is_measure_trivial)

record process_decl =
  decl_name :: "string spanned"
  decl_expr :: "process_expr spanned"

datatype property_kind = DeadlockFree | DivergenceFree | Deterministic

datatype property_model = PropF | PropFD

datatype refinement_op = OpT | OpF | OpFD

datatype assertion_decl =
    PropertyAssert "string spanned" property_kind property_model
  | RefinementAssert "string spanned" refinement_op "string spanned"

record cmodule =
  channels :: "channel_decl list"
  declarations :: "process_decl list"
  assertions :: "assertion_decl list"
  entry :: "process_expr spanned option"

section \<open>assertion_select.rs\<close>

text \<open>The map from process names to expressions the selection builds: a later declaration of a
  name replaces an earlier one, as inserting into the \<^verbatim>\<open>HashMap\<close> does.\<close>

definition decl_map :: "process_decl list \<Rightarrow> string \<rightharpoonup> process_expr spanned" where
  "decl_map ds = foldl (\<lambda>m d. m(node (decl_name d) \<mapsto> decl_expr d)) Map.empty ds"

fun find_property_target ::
  "(string \<rightharpoonup> process_expr spanned) \<Rightarrow> property_kind \<Rightarrow> assertion_decl list
    \<Rightarrow> process_expr spanned option" where
  "find_property_target m k [] = None"
| "find_property_target m k (RefinementAssert s op i # as) = find_property_target m k as"
| "find_property_target m k (PropertyAssert t k' md # as) =
     (if k' \<noteq> k then find_property_target m k as
      else (case m (node t) of Some e \<Rightarrow> Some e | None \<Rightarrow> find_property_target m k as))"

definition select_last_property_assert_target_expr ::
  "cmodule \<Rightarrow> property_kind \<Rightarrow> process_expr spanned option" where
  "select_last_property_assert_target_expr m k =
     find_property_target (decl_map (declarations m)) k (rev (assertions m))"

definition module_for_property_check :: "cmodule \<Rightarrow> property_kind \<Rightarrow> cmodule" where
  "module_for_property_check input k =
     (if entry input \<noteq> None \<or> length (declarations input) = 1 then input
      else (case select_last_property_assert_target_expr input k of
              Some e \<Rightarrow> input\<lparr>entry := Some e\<rparr>
            | None \<Rightarrow> input))"

fun property_kind_str :: "property_kind \<Rightarrow> string" where
  "property_kind_str DeadlockFree = ''deadlock free''"
| "property_kind_str DivergenceFree = ''divergence free''"
| "property_kind_str Deterministic = ''deterministic''"

fun property_model_str :: "property_model \<Rightarrow> string" where
  "property_model_str PropF = ''F''"
| "property_model_str PropFD = ''FD''"

fun assertion_candidate :: "assertion_decl \<Rightarrow> string option" where
  "assertion_candidate (PropertyAssert t k md) =
     Some (node t @ '' :['' @ property_kind_str k @ '' ['' @ property_model_str md @ '']]'')"
| "assertion_candidate (RefinementAssert s op i) = None"

definition list_property_assertion_candidates :: "cmodule \<Rightarrow> string list" where
  "list_property_assertion_candidates m = List.map_filter assertion_candidate (assertions m)"

section \<open>counterexample\_span.rs\<close>

definition module_counterexample_spans :: "cmodule \<Rightarrow> source_span list" where
  "module_counterexample_spans m =
     (case entry m of
        Some e \<Rightarrow> [span e]
      | None \<Rightarrow> (case declarations m of d # _ \<Rightarrow> [span (decl_expr d)] | [] \<Rightarrow> []))"

definition span_key :: "source_span \<Rightarrow> string \<times> u32 \<times> u32 \<times> u32 \<times> u32" where
  "span_key s = (path s, start_line s, start_col s, end_line s, end_col s)"

definition refinement_counterexample_spans :: "cmodule \<Rightarrow> cmodule \<Rightarrow> source_span list" where
  "refinement_counterexample_spans spec impl =
     remdups_adj (sort_key span_key
       (module_counterexample_spans spec @ module_counterexample_spans impl))"

text \<open>The message of a property check on a module without an entry process
  (\<^verbatim>\<open>format_invalid_input\<close>, the same code in the three property checkers but for the property
  and the model letter of the hint).\<close>

definition format_invalid_input ::
  "property_kind \<Rightarrow> string \<Rightarrow> string \<Rightarrow> cmodule \<Rightarrow> string" where
  "format_invalid_input k md original m =
     (if original \<noteq> ''entry process not specified'' then original
      else let candidates = list_property_assertion_candidates m in
        if candidates = [] then
          original @ [CHR 0x0A] @ ''hint: add a top-level entry process expression, or add ''
            @ [CHR 0x60] @ ''assert <P> :['' @ property_kind_str k @ '' ['' @ md @ '']]'' @ [CHR 0x60]
        else join [CHR 0x0A]
          ([original, ''available property assertions:''] @ map (\<lambda>c. ''- '' @ c) candidates))"

section \<open>What the selection guarantees\<close>

lemma find_property_target_Some:
  "find_property_target m k as = Some e \<Longrightarrow>
     \<exists>t md. PropertyAssert t k md \<in> set as \<and> m (node t) = Some e"
  by (induction m k as rule: find_property_target.induct) (auto split: if_splits option.splits)

lemma find_property_target_None:
  "find_property_target m k as = None \<longleftrightarrow>
     (\<forall>t md. PropertyAssert t k md \<in> set as \<longrightarrow> m (node t) = None)"
  by (induction m k as rule: find_property_target.induct) (auto split: if_splits option.splits)

lemma foldl_decl_map_Some:
  "foldl (\<lambda>m d. m(node (decl_name d) \<mapsto> decl_expr d)) m0 ds n = Some e \<Longrightarrow>
     m0 n = Some e \<or> (\<exists>d \<in> set ds. node (decl_name d) = n \<and> decl_expr d = e)"
proof (induction ds arbitrary: m0)
  case (Cons d ds)
  from Cons.prems have "foldl (\<lambda>m d. m(node (decl_name d) \<mapsto> decl_expr d))
      (m0(node (decl_name d) \<mapsto> decl_expr d)) ds n = Some e"
    by (simp only: foldl_Cons)
  from Cons.IH [OF this] show ?case by (auto split: if_splits)
qed simp

lemma decl_map_Some:
  "decl_map ds n = Some e \<Longrightarrow> \<exists>d \<in> set ds. node (decl_name d) = n \<and> decl_expr d = e"
  unfolding decl_map_def by (auto dest: foldl_decl_map_Some)

lemma set_refinement_spans:
  "set (refinement_counterexample_spans s i)
   = set (module_counterexample_spans s) \<union> set (module_counterexample_spans i)"
  by (simp add: refinement_counterexample_spans_def)

lemma span_key_inj: "span_key a = span_key b \<longleftrightarrow> a = b"
  by (cases a; cases b) (auto simp: span_key_def)

lemma sorted_remdups_adj_strict: "sorted xs \<Longrightarrow> sorted_wrt (<) (remdups_adj xs)"
  for xs :: "'a::linorder list"
  by (induction xs rule: remdups_adj.induct) (auto simp: less_le)

lemma refinement_spans_sorted:
  "sorted_wrt (<) (map span_key (refinement_counterexample_spans s i))"
proof -
  have "map span_key (remdups_adj xs) = remdups_adj (map span_key xs)" for xs
    by (subst remdups_adj_map_injective [symmetric]) (auto simp: inj_on_def span_key_inj)
  then show ?thesis
    by (simp add: refinement_counterexample_spans_def sorted_remdups_adj_strict)
qed

end
