(* ===== verification/Cspx_Lexer.thy ===== *)
theory Cspx_Lexer
  imports Cspx_IR
begin

text \<open>
  The lexer of \<^verbatim>\<open>frontend_simple.rs\<close>. The input is the list of its bytes; the position is the line and the
  column of the next byte, 32-bit words that wrap. The results: the spans of the tokens, the errors, and that
  the text of a sequence of tokens is read back as that sequence.
\<close>

section \<open>Errors and tokens\<close>

datatype frontend_error_kind = UnsupportedSyntax | InvalidInput

record frontend_error =
  fe_kind :: frontend_error_kind
  fe_message :: string
  fe_span :: "source_span option"

definition invalid_input_at :: "string \<Rightarrow> source_span option \<Rightarrow> frontend_error" where
  "invalid_input_at message sp = \<lparr>fe_kind = InvalidInput, fe_message = message, fe_span = sp\<rparr>"

datatype token_kind =
    TNewline | TEof
  | TIdent string | TInt u64 | TStop
  | TChannel | TAssert | TDatatype
  | TArrow | TEquals | TColon | TComma | TLParen | TRParen | TLBrace | TRBrace | TLBracket | TRBracket
  | TDot | TDotDot | TBang | TQuestion | TPipe | THideOp | TExternalChoice | TInternalChoice | TInterleaving
  | TIfaceOpen | TIfaceClose | TEventSetOpen | TEventSetClose | TRefineOpT | TRefineOpF | TRefineOpFD

record token =
  tk_kind :: token_kind
  tk_span :: source_span

definition merge_span :: "source_span \<Rightarrow> source_span \<Rightarrow> source_span" where
  "merge_span left right =
     \<lparr>path = path left, start_line = start_line left, start_col = start_col left,
      end_line = end_line right, end_col = end_col right\<rparr>"

section \<open>The lexer\<close>

abbreviation newline :: char where "newline \<equiv> CHR 0x0A"

definition make_span :: "string \<Rightarrow> u32 \<Rightarrow> u32 \<Rightarrow> u32 \<Rightarrow> u32 \<Rightarrow> source_span" where
  "make_span src sl sc el ec = \<lparr>path = src, start_line = sl, start_col = sc, end_line = el, end_col = ec\<rparr>"

text \<open>Consuming a byte, and a sequence of bytes.\<close>

fun bump :: "char \<Rightarrow> u32 \<times> u32 \<Rightarrow> u32 \<times> u32" where
  "bump b (line, col) = (if b = newline then (line + 1, 1) else (line, col + 1))"

definition bump_all :: "string \<Rightarrow> u32 \<times> u32 \<Rightarrow> u32 \<times> u32" where
  "bump_all bs pos = fold bump bs pos"

text \<open>The fixed tokens in the order in which they are tried: first those of several bytes, then those of one.\<close>

definition multi_tokens :: "(string \<times> token_kind) list" where
  "multi_tokens =
     [(''[|{|'', TIfaceOpen), (''|}|]'', TIfaceClose), (''|~|'', TInternalChoice), (''|||'', TInterleaving),
      (''[]'', TExternalChoice), (''->'', TArrow), ([CHR 0x5C, CHR 0x5C], THideOp), (''{|'', TEventSetOpen),
      (''|}'', TEventSetClose), (''..'', TDotDot), (''[FD='', TRefineOpFD), (''[F='', TRefineOpF),
      (''[T='', TRefineOpT)]"

definition single_tokens :: "(string \<times> token_kind) list" where
  "single_tokens =
     [(''='', TEquals), ('':'', TColon), ('','', TComma), (''('', TLParen), ('')'', TRParen),
      (''{'', TLBrace), (''}'', TRBrace), (''['', TLBracket), ('']'', TRBracket), (''.'', TDot),
      (''!'', TBang), (''?'', TQuestion), (''|'', TPipe)]"

definition lex_matches :: "string \<Rightarrow> string \<Rightarrow> bool" where
  "lex_matches s bs = (take (length s) bs = s)"

definition fixed_token :: "string \<Rightarrow> (string \<times> token_kind) option" where
  "fixed_token bs = find (\<lambda>(s, k). lex_matches s bs) (multi_tokens @ single_tokens)"

definition is_digit :: "char \<Rightarrow> bool" where
  "is_digit c = char_between 48 c 57"

definition is_ident_start :: "char \<Rightarrow> bool" where
  "is_ident_start c = (char_between 65 c 90 \<or> char_between 97 c 122 \<or> c = CHR ''_'')"

definition is_ident_char :: "char \<Rightarrow> bool" where
  "is_ident_char c = (is_ident_start c \<or> is_digit c)"

text \<open>\<^verbatim>\<open>str::parse::<u64>\<close> on a sequence of digits.\<close>

definition digits_value :: "string \<Rightarrow> int" where
  "digits_value ds = foldl (\<lambda>v d. 10 * v + (of_char d - 48)) 0 ds"

definition parse_u64 :: "string \<Rightarrow> u64 option" where
  "parse_u64 ds = (let v = digits_value ds in if v < 2 ^ 64 then Some (of_int v) else None)"

definition keyword :: "string \<Rightarrow> token_kind" where
  "keyword text =
     (if text = ''channel'' then TChannel
      else if text = ''assert'' then TAssert
      else if text = ''datatype'' then TDatatype
      else if text = ''STOP'' then TStop
      else TIdent text)"

text \<open>\<^verbatim>\<open>b as char\<close> in a message: the code point of the byte, in UTF-8.\<close>

definition byte_display :: "char \<Rightarrow> string" where
  "byte_display b =
     (let n = of_char b :: nat
      in if n < 128 then [b] else [char_of (192 + n div 64), char_of (128 + n mod 64)])"

text \<open>What is read at a byte that is neither space, newline nor the start of a comment: the token, or the error.\<close>

definition lex_token :: "string \<Rightarrow> char \<Rightarrow> string \<Rightarrow> u32 \<times> u32 \<Rightarrow> frontend_error + (token \<times> string)" where
  "lex_token src b bs pos =
     (let (line, col) = pos
      in case fixed_token (b # bs) of
           Some (s, k) \<Rightarrow>
             Inr (\<lparr>tk_kind = k, tk_span = make_span src line col line (col + of_nat (length s) - 1)\<rparr>, s)
         | None \<Rightarrow>
             if is_digit b
             then (let ds = takeWhile is_digit (b # bs);
                       sp = make_span src line col line (col + of_nat (length ds) - 1)
                   in case parse_u64 ds of
                        None \<Rightarrow> Inl (invalid_input_at (''invalid integer literal: '' @ ds) (Some sp))
                      | Some v \<Rightarrow> Inr (\<lparr>tk_kind = TInt v, tk_span = sp\<rparr>, ds))
             else if is_ident_start b
             then (let cs = takeWhile is_ident_char (b # bs)
                   in Inr (\<lparr>tk_kind = keyword cs,
                            tk_span = make_span src line col line (col + of_nat (length cs) - 1)\<rparr>, cs))
             else Inl (invalid_input_at (''unexpected character: '' @ byte_display b)
                         (Some (make_span src line col line col))))"

lemma fixed_token_shape:
  assumes "fixed_token bs = Some (s, k)"
  shows "(s, k) \<in> set (multi_tokens @ single_tokens)" and "take (length s) bs = s"
  using assms by (auto simp: fixed_token_def lex_matches_def find_Some_iff in_set_conv_nth
      simp del: set_append length_append)

lemma fixed_texts:
  "list_all (\<lambda>(s, k). s \<noteq> [] \<and> newline \<notin> set s) (multi_tokens @ single_tokens)"
  by (simp add: multi_tokens_def single_tokens_def)

lemma lex_token_nonempty: "lex_token src b bs pos = Inr (t, s) \<Longrightarrow> s \<noteq> []"
  using fixed_token_shape(1) [of "b # bs"] fixed_texts
  by (fastforce simp: lex_token_def Let_def list_all_iff is_ident_char_def
      split: prod.splits option.splits if_splits)

function lex_from :: "string \<Rightarrow> string \<Rightarrow> u32 \<times> u32 \<Rightarrow> frontend_error + token list" where
  "lex_from src [] pos =
     (let (line, col) = pos in Inr [\<lparr>tk_kind = TEof, tk_span = make_span src line col line col\<rparr>])"
| "lex_from src (b # bs) pos =
     (if b = CHR '' '' \<or> b = CHR 0x09 \<or> b = CHR 0x0D then lex_from src bs (bump b pos)
      else if b = newline
      then (let (line, col) = pos
            in and_then (lex_from src bs (bump b pos))
                 (\<lambda>ts. Inr (\<lparr>tk_kind = TNewline, tk_span = make_span src line col line col\<rparr> # ts)))
      else if take 2 (b # bs) = ''--''
      then (let comment = takeWhile (\<lambda>c. c \<noteq> newline) (b # bs)
            in lex_from src (drop (length comment) (b # bs)) (bump_all comment pos))
      else
        (case lex_token src b bs pos of
           Inl e \<Rightarrow> Inl e
         | Inr (t, s) \<Rightarrow>
             and_then (lex_from src (drop (length s) (b # bs)) (bump_all s pos)) (\<lambda>ts. Inr (t # ts))))"
  by pat_completeness auto

termination lex_from
  by (relation "measure (\<lambda>(src, bs, pos). length bs)")
    (auto dest!: lex_token_nonempty [OF sym] lex_token_nonempty simp: Suc_diff_le diff_less_Suc neq_Nil_conv)

definition lex :: "string \<Rightarrow> string \<Rightarrow> frontend_error + token list" where
  "lex input src = lex_from src input (1, 1)"

section \<open>The text of tokens\<close>

fun token_text :: "token_kind \<Rightarrow> string" where
  "token_text TNewline = [newline]"
| "token_text TEof = []"
| "token_text (TIdent s) = s"
| "token_text (TInt v) = show_u64 v"
| "token_text TStop = ''STOP''"
| "token_text TChannel = ''channel''"
| "token_text TAssert = ''assert''"
| "token_text TDatatype = ''datatype''"
| "token_text TArrow = ''->''"
| "token_text TEquals = ''=''"
| "token_text TColon = '':''"
| "token_text TComma = '',''"
| "token_text TLParen = ''(''"
| "token_text TRParen = '')''"
| "token_text TLBrace = ''{''"
| "token_text TRBrace = ''}''"
| "token_text TLBracket = ''[''"
| "token_text TRBracket = '']''"
| "token_text TDot = ''.''"
| "token_text TDotDot = ''..''"
| "token_text TBang = ''!''"
| "token_text TQuestion = ''?''"
| "token_text TPipe = ''|''"
| "token_text THideOp = [CHR 0x5C, CHR 0x5C]"
| "token_text TExternalChoice = ''[]''"
| "token_text TInternalChoice = ''|~|''"
| "token_text TInterleaving = ''|||''"
| "token_text TIfaceOpen = ''[|{|''"
| "token_text TIfaceClose = ''|}|]''"
| "token_text TEventSetOpen = ''{|''"
| "token_text TEventSetClose = ''|}''"
| "token_text TRefineOpT = ''[T=''"
| "token_text TRefineOpF = ''[F=''"
| "token_text TRefineOpFD = ''[FD=''"

definition ident_text :: "string \<Rightarrow> bool" where
  "ident_text s \<longleftrightarrow> s \<noteq> [] \<and> is_ident_start (hd s) \<and> list_all is_ident_char s"

lemmas ident_text_simps = ident_text_def is_ident_start_def is_ident_char_def is_digit_def char_between_def

definition ident_ok :: "string \<Rightarrow> bool" where
  "ident_ok s \<longleftrightarrow> ident_text s \<and> keyword s = TIdent s"

fun printable :: "token_kind \<Rightarrow> bool" where
  "printable (TIdent s) = ident_ok s"
| "printable TEof = False"
| "printable k = True"

definition render :: "token_kind list \<Rightarrow> string" where
  "render ks = concat (map (\<lambda>k. token_text k @ '' '') ks)"

lemma render_simps [simp]:
  "render [] = []" "render (k # ks) = token_text k @ CHR '' '' # render ks"
  by (simp_all add: render_def)

lemma fixed_token_text_all:
  "list_all (\<lambda>(s, k). fixed_token (s @ CHR '' '' # rest) = Some (s, k)) (multi_tokens @ single_tokens)"
  by (simp add: fixed_token_def lex_matches_def multi_tokens_def single_tokens_def)

lemma fixed_token_text:
  "(s, k) \<in> set (multi_tokens @ single_tokens) \<Longrightarrow> fixed_token (s @ CHR '' '' # rest) = Some (s, k)"
  using fixed_token_text_all [of rest] unfolding list_all_iff by blast

lemma fixed_heads_not_ident:
  "list_all (\<lambda>(s, k). s \<noteq> [] \<and> \<not> is_ident_char (hd s)) (multi_tokens @ single_tokens)"
  by (simp add: multi_tokens_def single_tokens_def is_ident_char_def is_ident_start_def is_digit_def char_between_def)

lemma fixed_token_ident:
  assumes "is_ident_char c"
  shows "fixed_token (c # bs) = None"
proof (rule ccontr)
  assume "fixed_token (c # bs) \<noteq> None"
  then obtain s k where f: "fixed_token (c # bs) = Some (s, k)" by auto
  from fixed_heads_not_ident fixed_token_shape(1) [OF f] have "s \<noteq> []" "\<not> is_ident_char (hd s)"
    unfolding list_all_iff by blast+
  with fixed_token_shape(2) [OF f] assms show False by (cases s) auto
qed

text \<open>A byte that starts a token: no space, newline or comment.\<close>

definition token_start :: "string \<Rightarrow> bool" where
  "token_start bs \<longleftrightarrow> bs \<noteq> [] \<and> hd bs \<notin> {CHR '' '', CHR 0x09, CHR 0x0D, newline} \<and> take 2 bs \<noteq> ''--''"

lemma lex_from_token:
  assumes "token_start (b # bs)" and "lex_token src b bs pos = Inr (t, s)"
  shows "lex_from src (b # bs) pos =
    and_then (lex_from src (drop (length s) (b # bs)) (bump_all s pos)) (\<lambda>ts. Inr (t # ts))"
  using assms(1) unfolding token_start_def
  by (simp only: lex_from.simps assms(2) list.sel insert_iff empty_iff if_False sum.case prod.case simp_thms)
    simp

lemma token_start_ident: "is_ident_char c \<Longrightarrow> token_start (c # bs)"
  by (auto simp: token_start_def is_ident_char_def is_ident_start_def is_digit_def char_between_def)

lemma token_start_fixed_all:
  "list_all (\<lambda>(s, k). token_start (s @ CHR '' '' # rest)) (multi_tokens @ single_tokens)"
  by (simp add: token_start_def multi_tokens_def single_tokens_def)

lemma token_start_fixed:
  "(s, k) \<in> set (multi_tokens @ single_tokens) \<Longrightarrow> token_start (s @ CHR '' '' # rest)"
  using token_start_fixed_all [of rest] unfolding list_all_iff by blast

lemma lex_fixed:
  assumes "(s, k) \<in> set (multi_tokens @ single_tokens)"
  shows "\<exists>t. tk_kind t = k \<and> lex_from src (s @ CHR '' '' # rest) pos =
    and_then (lex_from src (CHR '' '' # rest) (bump_all s pos)) (\<lambda>ts. Inr (t # ts))"
proof -
  obtain b s' where s: "s = b # s'" using assms fixed_texts by (cases s) (auto simp: list_all_iff)
  obtain t where "lex_token src b (s' @ CHR '' '' # rest) pos = Inr (t, s)" "tk_kind t = k"
    using fixed_token_text [OF assms, of rest] unfolding s by (cases pos) (simp add: lex_token_def)
  with lex_from_token [of b "s' @ CHR '' '' # rest" src pos t s] token_start_fixed [OF assms, of rest]
  show ?thesis by (auto simp: s)
qed

lemma takeWhile_space:
  "list_all P s \<Longrightarrow> \<not> P (CHR '' '') \<Longrightarrow> takeWhile P (s @ CHR '' '' # rest) = s"
  by (induction s) auto

lemma space_not_ident: "\<not> is_ident_char (CHR '' '')"
  by (simp add: is_ident_char_def is_ident_start_def is_digit_def char_between_def)

lemma lex_ident:
  assumes "is_ident_start b" and "list_all is_ident_char s"
  shows "\<exists>t. tk_kind t = keyword (b # s) \<and> lex_from src (b # s @ CHR '' '' # rest) pos =
    and_then (lex_from src (CHR '' '' # rest) (bump_all (b # s) pos)) (\<lambda>ts. Inr (t # ts))"
proof -
  have b: "is_ident_char b" "\<not> is_digit b"
    using assms(1) by (auto simp: is_ident_char_def is_ident_start_def is_digit_def char_between_def)
  have "takeWhile is_ident_char (b # s @ CHR '' '' # rest) = b # s"
    using takeWhile_space [of is_ident_char "b # s" rest] assms(2) b(1) space_not_ident by simp
  then obtain t where "lex_token src b (s @ CHR '' '' # rest) pos = Inr (t, b # s)" "tk_kind t = keyword (b # s)"
    using assms(1) b fixed_token_ident [OF b(1)] by (cases pos) (simp add: lex_token_def Let_def)
  with lex_from_token [OF token_start_ident [OF b(1)], of src "s @ CHR '' '' # rest" pos t "b # s"] show ?thesis
    by auto
qed

lemma digit_char_facts: "d < 10 \<Longrightarrow> is_digit (digit_char d) \<and> of_char (digit_char d) = int d + 48"
proof -
  assume d: "d < 10"
  then have n: "(of_char (digit_char d) :: nat) = d + 48" by (simp add: digit_char_def)
  have "(of_char (digit_char d) :: int) = int (of_char (digit_char d))" by (rule of_nat_of_char [symmetric])
  with n d show ?thesis by (simp add: is_digit_def char_between_def)
qed

lemma show_nat_digits: "list_all is_digit (show_nat n)"
  by (induction n rule: show_nat.induct) (subst show_nat.simps, simp add: digit_char_facts)

lemma digits_value_snoc: "digits_value (ds @ [d]) = 10 * digits_value ds + (of_char d - 48)"
  by (simp add: digits_value_def)

lemma digits_value_show: "digits_value (show_nat n) = int n"
proof (induction n rule: show_nat.induct)
  case (1 n)
  show ?case
  proof (cases "n < 10")
    case True
    then show ?thesis by (subst show_nat.simps) (simp add: digits_value_def digit_char_facts)
  next
    case False
    with 1 have "digits_value (show_nat n) = 10 * int (n div 10) + int (n mod 10)"
      by (subst show_nat.simps) (simp add: digits_value_snoc digit_char_facts)
    also have "\<dots> = int n" by presburger
    finally show ?thesis .
  qed
qed

lemma parse_u64_show: "parse_u64 (show_u64 v) = Some v"
proof -
  have "unat v < 2 ^ 64" using unsigned_less [of v] by simp
  then have "int (unat v) < 2 ^ 64" by (metis of_nat_less_iff of_nat_numeral of_nat_power)
  then show ?thesis by (simp add: parse_u64_def show_u64_def digits_value_show)
qed

lemma lex_int:
  "\<exists>t. tk_kind t = TInt v \<and> lex_from src (show_u64 v @ CHR '' '' # rest) pos =
    and_then (lex_from src (CHR '' '' # rest) (bump_all (show_u64 v) pos)) (\<lambda>ts. Inr (t # ts))"
proof -
  obtain b s where s: "show_u64 v = b # s" by (cases "show_u64 v") (simp_all add: show_u64_def)
  have d: "list_all is_digit (b # s)" unfolding s [symmetric] show_u64_def by (rule show_nat_digits)
  then have b: "is_ident_char b" "is_digit b" by (simp_all add: is_ident_char_def)
  have "takeWhile is_digit (b # s @ CHR '' '' # rest) = b # s"
    using takeWhile_space [OF d, of rest] by (simp add: is_digit_def char_between_def)
  moreover have "parse_u64 (b # s) = Some v" unfolding s [symmetric] by (rule parse_u64_show)
  ultimately obtain t where "lex_token src b (s @ CHR '' '' # rest) pos = Inr (t, b # s)" "tk_kind t = TInt v"
    using b fixed_token_ident [OF b(1)] by (cases pos) (simp add: lex_token_def Let_def)
  with lex_from_token [OF token_start_ident [OF b(1)], of src "s @ CHR '' '' # rest" pos t "b # s"] show ?thesis
    by (auto simp: s)
qed

text \<open>Reading back one token, and a sequence of tokens.\<close>

lemma lex_newline:
  "\<exists>t pos'. tk_kind t = TNewline \<and> lex_from src (newline # CHR '' '' # rest) pos =
    and_then (lex_from src (CHR '' '' # rest) pos') (\<lambda>ts. Inr (t # ts))"
proof (cases pos)
  case (Pair line col)
  show ?thesis
    by (rule exI [of _ "\<lparr>tk_kind = TNewline, tk_span = make_span src line col line col\<rparr>"],
        rule exI [of _ "bump newline pos"]) (simp add: Pair)
qed

lemma lex_printable:
  assumes "printable k"
  shows "\<exists>t pos'. tk_kind t = k \<and> lex_from src (token_text k @ CHR '' '' # rest) pos =
    and_then (lex_from src (CHR '' '' # rest) pos') (\<lambda>ts. Inr (t # ts))"
proof -
  have fixed: ?thesis if "(token_text k, k) \<in> set (multi_tokens @ single_tokens)"
    using lex_fixed [OF that] by blast
  have kw: ?thesis if "ident_text (token_text k)" "keyword (token_text k) = k"
  proof (cases "token_text k")
    case (Cons b s)
    with that have "is_ident_start b" "list_all is_ident_char s" by (simp_all add: ident_text_def)
    from lex_ident [OF this, of src rest pos] that(2) show ?thesis unfolding Cons append_Cons by blast
  qed (use that in \<open>simp add: ident_text_def\<close>)
  show ?thesis
  proof (cases k)
    case TNewline
    with lex_newline [of src rest pos] show ?thesis by (simp only: token_text.simps append_Cons append_Nil)
  next
    case (TInt v)
    then show ?thesis using lex_int [of v src rest pos] by (metis token_text.simps(4))
  next
    case (TIdent s)
    with assms kw show ?thesis by (simp add: ident_ok_def)
  next
    case TEof
    with assms show ?thesis by simp
  next
    case TStop
    show ?thesis by (rule kw) (simp_all add: TStop keyword_def ident_text_simps)
  next
    case TChannel
    show ?thesis by (rule kw) (simp_all add: TChannel keyword_def ident_text_simps)
  next
    case TAssert
    show ?thesis by (rule kw) (simp_all add: TAssert keyword_def ident_text_simps)
  next
    case TDatatype
    show ?thesis by (rule kw) (simp_all add: TDatatype keyword_def ident_text_simps)
  qed (rule fixed, simp add: multi_tokens_def single_tokens_def)+
qed

lemma lex_render:
  "list_all printable ks \<Longrightarrow> \<exists>ts. lex_from src (render ks) pos = Inr ts \<and> map tk_kind ts = ks @ [TEof]"
proof (induction ks arbitrary: pos)
  case Nil
  then show ?case by (cases pos) auto
next
  case (Cons k ks)
  then obtain t pos' where t: "tk_kind t = k" "lex_from src (render (k # ks)) pos =
      and_then (lex_from src (CHR '' '' # render ks) pos') (\<lambda>ts. Inr (t # ts))"
    using lex_printable [of k src "render ks" pos] by auto
  from Cons obtain ts where "lex_from src (render ks) (bump (CHR '' '') pos') = Inr ts" "map tk_kind ts = ks @ [TEof]"
    by fastforce
  with t show ?case by auto
qed

section \<open>The spans of tokens\<close>

declare lex_from.simps [simp del]

text \<open>The text a token is read from, and the span it has in the input: it starts after a prefix of the input, at the
  line and the column counted along that prefix, and ends with its last byte.\<close>

fun lexeme :: "token_kind \<Rightarrow> string \<Rightarrow> bool" where
  "lexeme TEof s = (s = [])"
| "lexeme TNewline s = (s = [newline])"
| "lexeme (TInt v) s = (s \<noteq> [] \<and> list_all is_digit s \<and> parse_u64 s = Some v)"
| "lexeme k s = (s = token_text k)"

definition text_span :: "string \<Rightarrow> u32 \<times> u32 \<Rightarrow> string \<Rightarrow> source_span" where
  "text_span src pos s =
     (let (line, col) = pos
      in make_span src line col line (if length s \<le> 1 then col else col + of_nat (length s) - 1))"

definition spans_text :: "string \<Rightarrow> string \<Rightarrow> token \<Rightarrow> bool" where
  "spans_text src input t \<longleftrightarrow>
     (\<exists>pre s post. input = pre @ s @ post \<and> lexeme (tk_kind t) s \<and>
        tk_span t = text_span src (bump_all pre (1, 1)) s)"

text \<open>What the lexer cannot read: a byte that is no blank, no newline and no start of a comment, and at which no
  text of a token starts; or all the digits of an integer that does not fit in 64 bits. The texts of the tokens are
  those that are printed, not the tables of the lexer.\<close>

definition reads_token :: "token_kind \<Rightarrow> string \<Rightarrow> bool" where
  "reads_token k u \<longleftrightarrow> u \<noteq> [] \<and> lexeme k u \<and> (case k of TIdent name \<Rightarrow> ident_text name | _ \<Rightarrow> True)"

definition unreadable_byte :: "char \<Rightarrow> string \<Rightarrow> bool" where
  "unreadable_byte b post \<longleftrightarrow>
     b \<notin> {CHR '' '', CHR 0x09, CHR 0x0D, newline} \<and> take 2 (b # post) \<noteq> ''--'' \<and>
     (\<nexists>k u rest. b # post = u @ rest \<and> reads_token k u)"

definition oversized_literal :: "string \<Rightarrow> string \<Rightarrow> bool" where
  "oversized_literal s post \<longleftrightarrow>
     s \<noteq> [] \<and> list_all is_digit s \<and> (post = [] \<or> \<not> is_digit (hd post)) \<and> 2 ^ 64 \<le> digits_value s"

definition lex_error_at :: "string \<Rightarrow> u32 \<times> u32 \<Rightarrow> string \<Rightarrow> string \<Rightarrow> frontend_error \<Rightarrow> bool" where
  "lex_error_at src pos s post e \<longleftrightarrow>
     fe_kind e = InvalidInput \<and> fe_span e = Some (text_span src pos s) \<and>
     ((\<exists>b. s = [b] \<and> unreadable_byte b post \<and> fe_message e = ''unexpected character: '' @ byte_display b) \<or>
      oversized_literal s post \<and> fe_message e = ''invalid integer literal: '' @ s)"

lemma bump_all_append: "bump_all (a @ b) pos = bump_all b (bump_all a pos)"
  by (simp add: bump_all_def)

lemma fixed_lexeme_all: "list_all (\<lambda>(s, k). lexeme k s) (multi_tokens @ single_tokens)"
  by (simp add: multi_tokens_def single_tokens_def)

lemma keyword_lexeme: "lexeme (keyword s) s"
  by (simp add: keyword_def)

lemma lex_token_text:
  assumes "lex_token src b bs pos = Inr (t, s)"
  shows "lexeme (tk_kind t) s" and "tk_span t = text_span src pos s" and "\<exists>post. b # bs = s @ post"
proof -
  obtain line col where pos: "pos = (line, col)" by (cases pos)
  consider (fixed) k where "fixed_token (b # bs) = Some (s, k)" "tk_kind t = k"
      "tk_span t = make_span src line col line (col + of_nat (length s) - 1)"
    | (digits) v where "is_digit b" "s = takeWhile is_digit (b # bs)" "parse_u64 s = Some v" "tk_kind t = TInt v"
      "tk_span t = make_span src line col line (col + of_nat (length s) - 1)"
    | (ident) "is_ident_start b" "s = takeWhile is_ident_char (b # bs)" "tk_kind t = keyword s"
      "tk_span t = make_span src line col line (col + of_nat (length s) - 1)"
    using assms unfolding pos lex_token_def Let_def prod.case
    by (fastforce split: option.splits if_splits prod.splits simp del: takeWhile.simps)
  note cases = this
  show "lexeme (tk_kind t) s"
    by (rule cases)
      (use fixed_lexeme_all fixed_token_shape(1) [of "b # bs" s] keyword_lexeme in
        \<open>auto simp: list_all_iff dest: set_takeWhileD simp del: set_append\<close>)
  have "tk_span t = make_span src line col line (col + of_nat (length s) - 1)" by (rule cases)
  then show "tk_span t = text_span src pos s"
    using lex_token_nonempty [OF assms] by (simp add: pos text_span_def le_Suc_eq)
  show "\<exists>post. b # bs = s @ post"
    by (rule cases) (metis fixed_token_shape(2) append_take_drop_id, (metis takeWhile_dropWhile_id)+)
qed

lemma reads_token_fixed:
  assumes "reads_token k u" and "b # bs = u @ rest" and "\<not> is_digit b" and "\<not> is_ident_start b" and "b \<noteq> newline"
  shows "(u, k) \<in> set (multi_tokens @ single_tokens)"
proof -
  have u: "u \<noteq> []" "hd u = b" using assms(1,2) by (auto simp: reads_token_def Cons_eq_append_conv)
  have word: "is_ident_start (hd (token_text k))" if "k \<in> {TStop, TChannel, TAssert, TDatatype}"
    using that by (auto simp: ident_text_simps)
  show ?thesis
  proof (cases k)
    case (TInt v)
    then show ?thesis using assms(1,3) u by (cases u) (auto simp: reads_token_def)
  next
    case (TIdent name)
    then show ?thesis using assms(1,4) u by (simp add: reads_token_def ident_text_def)
  next
    case TNewline
    then show ?thesis using assms(1,5) u by (simp add: reads_token_def)
  qed (use assms(1,4) u word in \<open>simp_all add: reads_token_def multi_tokens_def single_tokens_def\<close>)
qed

lemma fixed_token_None: "fixed_token bs = None \<Longrightarrow> (u, k) \<in> set (multi_tokens @ single_tokens) \<Longrightarrow> bs \<noteq> u @ rest"
  by (auto simp: fixed_token_def find_None_iff lex_matches_def simp del: set_append)

lemma lex_token_error:
  assumes "lex_token src b bs pos = Inl e" and "b \<notin> {CHR '' '', CHR 0x09, CHR 0x0D, newline}"
    and "take 2 (b # bs) \<noteq> ''--''"
  shows "\<exists>s post. b # bs = s @ post \<and> lex_error_at src pos s post e"
proof -
  obtain line col where pos: "pos = (line, col)" by (cases pos)
  let ?one = "e = invalid_input_at (''unexpected character: '' @ byte_display b) (Some (make_span src line col line col))"
  let ?ds = "takeWhile is_digit (b # bs)" and ?post = "dropWhile is_digit (b # bs)"
  let ?big = "e = invalid_input_at (''invalid integer literal: '' @ ?ds)
    (Some (make_span src line col line (col + of_nat (length ?ds) - 1)))"
  have "(fixed_token (b # bs) = None \<and> \<not> is_digit b \<and> \<not> is_ident_start b \<and> ?one) \<or>
      (is_digit b \<and> parse_u64 ?ds = None \<and> ?big)"
    using assms(1) unfolding pos lex_token_def Let_def prod.case
    by (auto split: option.splits if_splits simp del: takeWhile.simps)
  then show ?thesis
  proof
    assume one: "fixed_token (b # bs) = None \<and> \<not> is_digit b \<and> \<not> is_ident_start b \<and> ?one"
    then have "\<nexists>k u rest. b # bs = u @ rest \<and> reads_token k u"
      using reads_token_fixed [of _ _ b bs] fixed_token_None [of "b # bs"] assms(2) by blast
    then have "unreadable_byte b bs" using assms(2,3) by (simp add: unreadable_byte_def)
    with one have "b # bs = [b] @ bs \<and> lex_error_at src pos [b] bs e"
      by (simp add: pos lex_error_at_def text_span_def invalid_input_at_def)
    then show ?thesis by blast
  next
    assume big: "is_digit b \<and> parse_u64 ?ds = None \<and> ?big"
    have "list_all is_digit ?ds" unfolding list_all_iff by (metis set_takeWhileD)
    moreover have "2 ^ 64 \<le> digits_value ?ds" using big by (simp add: parse_u64_def Let_def split: if_splits)
    moreover have "?ds \<noteq> []" using big by simp
    moreover have "?post = [] \<or> \<not> is_digit (hd ?post)" using hd_dropWhile by blast
    ultimately have over: "oversized_literal ?ds ?post" by (simp only: oversized_literal_def simp_thms)
    moreover have "b # bs = ?ds @ ?post" by (simp only: takeWhile_dropWhile_id)
    ultimately show ?thesis using big \<open>?ds \<noteq> []\<close>
      by (intro conjI exI [of _ ?ds] exI [of _ ?post])
        (simp_all add: pos lex_error_at_def text_span_def invalid_input_at_def le_Suc_eq del: takeWhile.simps dropWhile.simps)
  qed
qed

text \<open>A token is read from the bytes up to any later place as it is read from all of them.\<close>

lemma lex_matches_iff: "lex_matches u bs \<longleftrightarrow> (\<exists>rest. bs = u @ rest)"
  by (auto simp: lex_matches_def) (metis append_take_drop_id)

lemma fixed_token_prefix:
  assumes "fixed_token (u @ pre @ post) = Some (u, k)"
  shows "fixed_token (u @ pre) = Some (u, k)"
proof -
  obtain i where "i < length (multi_tokens @ single_tokens)" "(multi_tokens @ single_tokens) ! i = (u, k)"
    and "\<forall>j < i. \<not> (case (multi_tokens @ single_tokens) ! j of (v, k) \<Rightarrow> lex_matches v (u @ pre @ post))"
    using assms by (auto simp: fixed_token_def find_Some_iff simp del: length_append)
  moreover have "lex_matches v (u @ pre) \<Longrightarrow> lex_matches v (u @ pre @ post)" for v
    by (auto simp: lex_matches_iff) (metis append_assoc)
  moreover have "lex_matches u (u @ pre)" by (simp add: lex_matches_iff)
  ultimately show ?thesis unfolding fixed_token_def find_Some_iff by (intro exI [of _ i]) auto
qed

lemma fixed_token_prefix_None: "fixed_token (bs @ post) = None \<Longrightarrow> fixed_token bs = None"
  unfolding fixed_token_def find_None_iff by (auto simp: lex_matches_iff)

lemma takeWhile_prefix: "takeWhile P (u @ pre @ post) = u \<Longrightarrow> takeWhile P (u @ pre) = u"
proof -
  assume tw: "takeWhile P (u @ pre @ post) = u"
  then have "\<forall>c \<in> set u. P c" by (metis set_takeWhileD)
  with tw show ?thesis by (cases pre) (auto split: if_splits)
qed

lemma lex_token_prefix:
  assumes "lex_token src b bs pos = Inr (t, b # u)" and "b # bs = (b # u) @ pre @ post"
  shows "lex_token src b (u @ pre) pos = Inr (t, b # u)"
proof -
  obtain line col where pos: "pos = (line, col)" by (cases pos)
  have bs: "bs = u @ pre @ post" using assms(2) by simp
  show ?thesis
  proof (cases "fixed_token (b # bs)")
    case (Some sk)
    then have "fixed_token ((b # u) @ pre @ post) = Some (b # u, snd sk)"
      using assms(1) by (cases sk) (auto simp: lex_token_def pos bs)
    from fixed_token_prefix [OF this] Some assms(1) show ?thesis by (cases sk) (auto simp: lex_token_def pos)
  next
    case None
    then have "fixed_token ((b # u @ pre) @ post) = None" by (simp add: bs)
    then have none: "fixed_token (b # u @ pre) = None" by (rule fixed_token_prefix_None)
    have tw: "takeWhile P (b # u @ pre) = b # u" if "takeWhile P (b # bs) = b # u" for P
      using takeWhile_prefix [of P "b # u" pre post] that by (simp only: bs append_Cons)
    show ?thesis
      using assms(1) None none tw [of is_digit] tw [of is_ident_char] unfolding pos lex_token_def Let_def prod.case
      by (auto split: if_splits option.splits simp del: takeWhile.simps)
  qed
qed

lemma lex_from_comment:
  assumes "\<not> (b = CHR '' '' \<or> b = CHR 0x09 \<or> b = CHR 0x0D)" and "b \<noteq> newline" and "take 2 (b # bs) = ''--''"
    and "takeWhile (\<lambda>c. c \<noteq> newline) (b # bs) @ dropWhile (\<lambda>c. c \<noteq> newline) (b # bs) = b # bs"
    and "dropWhile (\<lambda>c. c \<noteq> newline) (b # bs) = pre @ post"
  shows "lex_from src (takeWhile (\<lambda>c. c \<noteq> newline) (b # bs) @ pre) pos =
    lex_from src pre (bump_all (takeWhile (\<lambda>c. c \<noteq> newline) (b # bs)) pos)"
proof -
  let ?c = "takeWhile (\<lambda>c. c \<noteq> newline) (b # bs)"
  have pre: "pre = [] \<or> hd pre = newline"
    using assms(5) hd_dropWhile [of "\<lambda>c. c \<noteq> newline" "b # bs"] by (cases pre) auto
  have tw: "takeWhile (\<lambda>c. c \<noteq> newline) (?c @ pre) = ?c"
    using pre by (cases pre) (auto simp: takeWhile_append1 takeWhile_append dest: set_takeWhileD)
  obtain c' where c': "bs = CHR ''-'' # c'" "b = CHR ''-''" using assms(3) by (cases bs) auto
  then have hd: "?c = b # CHR ''-'' # takeWhile (\<lambda>c. c \<noteq> newline) c'" by simp
  then have two: "take 2 (?c @ pre) = ''--''" using c' by simp
  have "lex_from src (b # (CHR ''-'' # takeWhile (\<lambda>c. c \<noteq> newline) c' @ pre)) pos =
      lex_from src (drop (length ?c) (?c @ pre)) (bump_all ?c pos)"
    using assms(1,2) two tw unfolding hd append_Cons
    by (simp only: lex_from.simps if_False if_True Let_def simp_thms)
  then show ?thesis unfolding hd by simp
qed

text \<open>The steps of the lexer: the end of the input, bytes that are skipped, a token and an error.\<close>

lemma lex_from_steps [case_names eof skip token error]:
  assumes eof: "\<And>pos. P [] pos"
    and skip: "\<And>s rest pos. s \<noteq> [] \<Longrightarrow>
      (\<And>pre post. rest = pre @ post \<Longrightarrow> lex_from src (s @ pre) pos = lex_from src pre (bump_all s pos)) \<Longrightarrow>
      P rest (bump_all s pos) \<Longrightarrow> P (s @ rest) pos"
    and token: "\<And>s rest pos t. s \<noteq> [] \<Longrightarrow> lexeme (tk_kind t) s \<Longrightarrow> tk_span t = text_span src pos s \<Longrightarrow>
      (\<And>pre post. rest = pre @ post \<Longrightarrow>
        lex_from src (s @ pre) pos = and_then (lex_from src pre (bump_all s pos)) (\<lambda>ts. Inr (t # ts))) \<Longrightarrow>
      P rest (bump_all s pos) \<Longrightarrow> P (s @ rest) pos"
    and error: "\<And>s rest pos e. lex_error_at src pos s rest e \<Longrightarrow> lex_from src (s @ rest) pos = Inl e \<Longrightarrow>
      P (s @ rest) pos"
  shows "P bs pos"
proof (induction "length bs" arbitrary: bs pos rule: less_induct)
  case (less bs pos)
  show ?case
  proof (cases bs)
    case Nil
    then show ?thesis by (simp add: eof)
  next
    case (Cons b bs')
    obtain line col where pos: "pos = (line, col)" by (cases pos)
    have one: "b # bs' = [b] @ bs'" "bump_all [b] pos = bump b pos" by (simp_all add: bump_all_def)
    consider (space) "b = CHR '' '' \<or> b = CHR 0x09 \<or> b = CHR 0x0D"
      | (newline) "\<not> (b = CHR '' '' \<or> b = CHR 0x09 \<or> b = CHR 0x0D)" "b = newline"
      | (comment) "\<not> (b = CHR '' '' \<or> b = CHR 0x09 \<or> b = CHR 0x0D)" "b \<noteq> newline" "take 2 (b # bs') = ''--''"
      | (token) "\<not> (b = CHR '' '' \<or> b = CHR 0x09 \<or> b = CHR 0x0D)" "b \<noteq> newline" "take 2 (b # bs') \<noteq> ''--''"
      by blast
    then show ?thesis
    proof cases
      case space
      then have "lex_from src (b # pre) pos = lex_from src pre (bump b pos)" for pre
        by (simp only: lex_from.simps if_True)
      note eq = this
      have "P ([b] @ bs') pos" by (rule skip) (simp_all add: eq one(2) Cons less)
      then show ?thesis by (simp add: Cons)
    next
      case newline
      let ?t = "\<lparr>tk_kind = TNewline, tk_span = make_span src line col line col\<rparr>"
      have eq: "lex_from src ([b] @ pre) pos = and_then (lex_from src pre (bump_all [b] pos)) (\<lambda>ts. Inr (?t # ts))" for pre
        using newline by (simp add: pos lex_from.simps bump_all_def)
      have "P ([b] @ bs') pos"
        by (rule token [OF _ _ _ eq]) (use newline(2) in \<open>simp_all add: Cons less pos text_span_def\<close>)
      then show ?thesis by (simp add: Cons)
    next
      case comment
      let ?c = "takeWhile (\<lambda>c. c \<noteq> newline) (b # bs')" and ?r = "dropWhile (\<lambda>c. c \<noteq> newline) (b # bs')"
      have split: "?c @ ?r = b # bs'" by (rule takeWhile_dropWhile_id)
      have "lex_from src (?c @ pre) pos = lex_from src pre (bump_all ?c pos)" if "?r = pre @ post" for pre post
        using comment split that by (rule lex_from_comment)
      moreover have "?c \<noteq> []" using comment(2) by simp
      moreover from this have "length ?r < length bs" using split Cons by (metis length_append length_greater_0_conv less_add_same_cancel2)
      ultimately show ?thesis using skip [of ?c ?r pos] less [of ?r] unfolding Cons split by simp
    next
      case token': token
      show ?thesis
      proof (cases "lex_token src b bs' pos")
        case (Inl e)
        then have "lex_from src (b # bs') pos = Inl e" using token' by (simp only: lex_from.simps if_False sum.case)
        with lex_token_error [OF Inl _ token'(3)] token'(1,2) error show ?thesis unfolding Cons
          by (metis insert_iff empty_iff)
      next
        case (Inr ts)
        then obtain t s where t: "lex_token src b bs' pos = Inr (t, s)" by (cases ts) auto
        obtain post where post: "b # bs' = s @ post" using lex_token_text(3) [OF t] by blast
        then obtain u where u: "s = b # u" using lex_token_nonempty [OF t] by (cases s) auto
        have "lex_from src (s @ pre) pos = and_then (lex_from src pre (bump_all s pos)) (\<lambda>ts. Inr (t # ts))"
          if "post = pre @ post'" for pre post'
        proof -
          have "lex_token src b (u @ pre) pos = Inr (t, b # u)"
            using lex_token_prefix [of src b bs' pos t u pre post'] t post u that by simp
          moreover have "take 2 (b # u @ pre) \<noteq> ''--''"
          proof
            assume "take 2 (b # u @ pre) = ''--''"
            then have "take 2 ((b # u @ pre) @ post') = ''--''" by (cases "u @ pre") auto
            with token'(3) post u that show False by simp
          qed
          ultimately show ?thesis unfolding u append_Cons using token'(1,2)
            by (simp only: lex_from.simps if_False sum.case prod.case) simp
        qed
        then show ?thesis
          using token [OF lex_token_nonempty [OF t] lex_token_text(1,2) [OF t]] less [of post] lex_token_nonempty [OF t]
          unfolding Cons post by simp
      qed
    qed
  qed
qed

lemma lex_from_spans:
  "lex_from src bs pos = Inr ts \<Longrightarrow> pos = bump_all pre (1, 1) \<Longrightarrow> list_all (spans_text src (pre @ bs)) ts"
proof (induction bs pos arbitrary: pre ts rule: lex_from_steps [where src = src])
  case (eof pos)
  have "text_span src pos [] = make_span src (fst pos) (snd pos) (fst pos) (snd pos)"
    by (simp add: text_span_def split: prod.split)
  moreover have "ts = [\<lparr>tk_kind = TEof, tk_span = make_span src (fst pos) (snd pos) (fst pos) (snd pos)\<rparr>]"
    using eof(1) by (simp add: lex_from.simps split: prod.splits)
  ultimately have "pre @ [] = pre @ [] @ [] \<and> lexeme (tk_kind (hd ts)) [] \<and>
      tk_span (hd ts) = text_span src (bump_all pre (1, 1)) []" using eof(2) by simp
  then have "spans_text src (pre @ []) (hd ts)" unfolding spans_text_def by blast
  with \<open>ts = _\<close> show ?case by simp
next
  case (skip s rest pos)
  from skip(3) [of ts "pre @ s"] skip(2) [OF append_Nil2 [symmetric]] skip(4,5) show ?case by (simp add: bump_all_append)
next
  case (token s rest pos t)
  then obtain ts' where ts': "lex_from src rest (bump_all s pos) = Inr ts'" "ts = t # ts'"
    using token(4) [OF append_Nil2 [symmetric]] by (auto simp: and_then_eq_Inr)
  from token(5) [OF ts'(1), of "pre @ s"] token(7) have "list_all (spans_text src (pre @ s @ rest)) ts'"
    by (simp add: bump_all_append)
  moreover have "spans_text src (pre @ s @ rest) t" using token(2,3,7) unfolding spans_text_def by blast
  ultimately show ?case by (simp add: ts'(2))
qed simp

text \<open>Where the lexer fails; the bytes before that place are read.\<close>

definition fails_at :: "string \<Rightarrow> string \<Rightarrow> u32 \<times> u32 \<Rightarrow> frontend_error \<Rightarrow> bool" where
  "fails_at src bs pos e \<longleftrightarrow>
     (\<exists>pre s post. bs = pre @ s @ post \<and> lex_error_at src (bump_all pre pos) s post e \<and>
        (\<exists>ts. lex_from src pre pos = Inr ts))"

lemma fails_at_step:
  assumes "fails_at src rest (bump_all s pos) e"
    and "\<And>pre post ts. rest = pre @ post \<Longrightarrow> lex_from src pre (bump_all s pos) = Inr ts \<Longrightarrow>
      \<exists>ts'. lex_from src (s @ pre) pos = Inr ts'"
  shows "fails_at src (s @ rest) pos e"
proof -
  from assms(1) obtain pre u post ts where f: "rest = pre @ u @ post"
    "lex_error_at src (bump_all pre (bump_all s pos)) u post e" "lex_from src pre (bump_all s pos) = Inr ts"
    by (auto simp: fails_at_def)
  from assms(2) [OF f(1,3)] f(1,2) show ?thesis unfolding fails_at_def
    by (intro exI [of _ "s @ pre"] exI [of _ u] exI [of _ post]) (simp add: bump_all_append)
qed

lemma lex_from_error: "lex_from src bs pos = Inl e \<Longrightarrow> fails_at src bs pos e"
proof (induction bs pos rule: lex_from_steps [where src = src])
  case (skip s rest pos)
  show ?case
    by (rule fails_at_step, rule skip(3)) (use skip(2) [OF append_Nil2 [symmetric]] skip(2,4) in auto)
next
  case (token s rest pos t)
  have "lex_from src rest (bump_all s pos) = Inl e"
    using token(4) [OF append_Nil2 [symmetric], symmetric] unfolding token(6) and_then_eq_Inl by blast
  from fails_at_step [OF token(5) [OF this]] token(4) show ?case by auto
next
  case (error s rest pos e')
  then have "s @ rest = [] @ s @ rest \<and> lex_error_at src (bump_all [] pos) s rest e" by (simp add: bump_all_def)
  moreover have "\<exists>ts. lex_from src [] pos = Inr ts" by (simp add: lex_from.simps split: prod.split)
  ultimately show ?case unfolding fails_at_def by blast
qed (simp add: lex_from.simps split: prod.splits)

text \<open>The end of the input is the last token, and no other.\<close>

lemma lexeme_eof: "lexeme k s \<Longrightarrow> s \<noteq> [] \<Longrightarrow> k \<noteq> TEof"
  by auto

lemma lex_from_eof: "lex_from src bs pos = Inr ts \<Longrightarrow> \<exists>ks. map tk_kind ts = ks @ [TEof] \<and> TEof \<notin> set ks"
proof (induction bs pos arbitrary: ts rule: lex_from_steps [where src = src])
  case (token s rest pos t)
  obtain ts' where ts': "lex_from src rest (bump_all s pos) = Inr ts'" "ts = t # ts'"
    using token(4) [OF append_Nil2 [symmetric], symmetric] unfolding token(6) and_then_eq_Inr by blast
  from token(5) [OF ts'(1)] obtain ks where "map tk_kind ts' = ks @ [TEof]" "TEof \<notin> set ks" by blast
  then have "map tk_kind ts = (tk_kind t # ks) @ [TEof] \<and> TEof \<notin> set (tk_kind t # ks)"
    using lexeme_eof [OF token(2,1)] ts'(2) by auto
  then show ?case by blast
qed (auto simp: lex_from.simps split: prod.splits)

section \<open>Properties\<close>

text \<open>C18: the text of a sequence of tokens, each followed by a space, is read back as that sequence and the end
  of the input.\<close>

theorem lex_roundtrip:
  assumes "list_all printable ks"
  shows "\<exists>ts. lex (render ks) src = Inr ts \<and> map tk_kind ts = ks @ [TEof]"
  unfolding lex_def by (rule lex_render [OF assms])

theorem lex_roundtrip_witness:
  "render [TIdent ''P'', TEquals, TIdent ''a'', TBang, TInt 42, TArrow, TStop, TNewline]
     = ''P = a ! 42 -> STOP '' @ [newline] @ '' '' \<and>
   (\<exists>ts. lex (''P = a ! 42 -> STOP '' @ [newline] @ '' '') ''m.cspm'' = Inr ts \<and>
     map tk_kind ts = [TIdent ''P'', TEquals, TIdent ''a'', TBang, TInt 42, TArrow, TStop, TNewline, TEof])"
proof -
  have "list_all printable [TIdent ''P'', TEquals, TIdent ''a'', TBang, TInt 42, TArrow, TStop, TNewline]"
    by (simp add: ident_ok_def ident_text_simps keyword_def)
  moreover have "show_u64 42 = ''42''"
    by (simp add: show_u64_def show_nat.simps digit_char_def char_of_def bit_0)
  ultimately show ?thesis
    using lex_roundtrip [of "[TIdent ''P'', TEquals, TIdent ''a'', TBang, TInt 42, TArrow, TStop, TNewline]" "''m.cspm''"]
    by simp
qed

text \<open>C19: every token of the input has the span of the bytes it is read from: it starts on the line and column
  counted along the bytes before it, and ends with its last byte.\<close>

theorem lex_spans:
  assumes "lex input src = Inr ts"
  shows "list_all (spans_text src input) ts"
  using lex_from_spans [of src input "(1, 1)" ts "[]"] assms by (simp add: lex_def bump_all_def)

theorem lex_spans_witness:
  "list_all (spans_text ''m'' (''a'' @ newline # ''!''))
     [\<lparr>tk_kind = TIdent ''a'', tk_span = make_span ''m'' 1 1 1 1\<rparr>, \<lparr>tk_kind = TNewline, tk_span = make_span ''m'' 1 2 1 2\<rparr>,
      \<lparr>tk_kind = TBang, tk_span = make_span ''m'' 2 1 2 1\<rparr>, \<lparr>tk_kind = TEof, tk_span = make_span ''m'' 2 2 2 2\<rparr>]"
  by (rule lex_spans) (simp add: lex_def lex_from.simps Let_def lex_token_def fixed_token_def lex_matches_def multi_tokens_def
    single_tokens_def ident_text_simps keyword_def bump_all_def)

text \<open>C20: when the lexer fails, it has read the bytes before some place as tokens, and at that place there is a byte
  that is no blank, no newline and no start of a comment, and that starts no text of a token, or the digits of an
  integer that does not fit in 64 bits. The error has the span and the text of what it could not read; its kind is
  that of an invalid input (\<^verbatim>\<open>docs/frontend.md\<close> calls a syntax error an unsupported syntax).\<close>

theorem lex_errors:
  assumes "lex input src = Inl e"
  shows "\<exists>pre s post ts. input = pre @ s @ post \<and> lex pre src = Inr ts \<and>
    lex_error_at src (bump_all pre (1, 1)) s post e"
  using lex_from_error [of src input "(1, 1)" e] assms unfolding lex_def fails_at_def by blast

theorem lex_errors_witness:
  "\<exists>pre s post ts. ''a #'' = pre @ s @ post \<and> lex pre ''m'' = Inr ts \<and> lex_error_at ''m'' (bump_all pre (1, 1)) s post
     (invalid_input_at ''unexpected character: #'' (Some (make_span ''m'' 1 3 1 3)))"
  by (rule lex_errors) (simp add: lex_def lex_from.simps Let_def lex_token_def fixed_token_def lex_matches_def multi_tokens_def
    single_tokens_def ident_text_simps keyword_def bump_all_def byte_display_def)

end
