(* ===== verification/Cspx_Parser.thy ===== *)
theory Cspx_Parser
  imports Cspx_Lexer
begin

text \<open>
  The recursive descent parser of \<^verbatim>\<open>frontend_simple.rs\<close>: its state is the tokens, the index of the next one and
  the path of the file. Results: the parser returns on every list of tokens that has an end of the input, and reads the text of a module
  back as that module.
\<close>

section \<open>The state of the parser\<close>

record parser =
  tokens :: "token list"
  ppos :: nat
  ppath :: string

definition new_parser :: "token list \<Rightarrow> string \<Rightarrow> parser" where
  "new_parser ts src = \<lparr>tokens = ts, ppos = 0, ppath = src\<rparr>"

record unsupported =
  uns_message :: string
  uns_span :: source_span

record parsed_module =
  pm_channels :: "channel_decl list"
  pm_declarations :: "process_decl list"
  pm_assertions :: "assertion_decl list"
  pm_entry :: "process_expr spanned option"
  pm_unsupported :: "unsupported list"

definition peek_n :: "nat \<Rightarrow> parser \<Rightarrow> token option" where
  "peek_n n p = (if ppos p + n < length (tokens p) then Some (tokens p ! (ppos p + n)) else None)"

definition peek :: "parser \<Rightarrow> token option" where
  "peek p = peek_n 0 p"

definition peek_kind :: "parser \<Rightarrow> token_kind option" where
  "peek_kind p = map_option tk_kind (peek p)"

definition peek_kind_n :: "nat \<Rightarrow> parser \<Rightarrow> token_kind option" where
  "peek_kind_n n p = map_option tk_kind (peek_n n p)"

definition peek_span :: "parser \<Rightarrow> source_span option" where
  "peek_span p = map_option tk_span (peek p)"

definition prev_span :: "parser \<Rightarrow> source_span option" where
  "prev_span p =
     (case ppos p of
        0 \<Rightarrow> None
      | Suc i \<Rightarrow> (if i < length (tokens p) then Some (tk_span (tokens p ! i)) else None))"

definition peek_is :: "token_kind \<Rightarrow> parser \<Rightarrow> bool" where
  "peek_is k p = (peek_kind p = Some k)"

definition advance :: "parser \<Rightarrow> parser" where
  "advance p = p\<lparr>ppos := ppos p + 1\<rparr>"

definition consume_is :: "token_kind \<Rightarrow> parser \<Rightarrow> parser option" where
  "consume_is k p = (if peek_is k p then Some (advance p) else None)"

definition next_token :: "parser \<Rightarrow> token option \<times> parser" where
  "next_token p = (case peek p of None \<Rightarrow> (None, p) | Some t \<Rightarrow> (Some t, advance p))"

section \<open>Expected tokens\<close>

text \<open>The result of a part of the parser: an error, or a value and the next state. The state after an error is
  dropped, as the one caller that goes on after an error sets the position back.\<close>

type_synonym 'a parsed = "frontend_error + 'a \<times> parser"

definition expect :: "token_kind \<Rightarrow> string \<Rightarrow> parser \<Rightarrow> token parsed" where
  "expect k message p =
     (if peek_is k p
      then (case next_token p of
              (Some t, q) \<Rightarrow> Inr (t, q)
            | (None, q) \<Rightarrow> Inl (invalid_input_at message (peek_span q)))
      else Inl (invalid_input_at message (peek_span p)))"

definition expect_ident_spanned :: "string \<Rightarrow> parser \<Rightarrow> string spanned parsed" where
  "expect_ident_spanned message p =
     (case next_token p of
        (Some t, q) \<Rightarrow>
          (case tk_kind t of
             TIdent v \<Rightarrow> Inr (Spanned v (tk_span t), q)
           | _ \<Rightarrow> Inl (invalid_input_at message (Some (tk_span t))))
      | (None, q) \<Rightarrow> Inl (invalid_input_at message (peek_span q)))"

definition expect_int_spanned :: "string \<Rightarrow> parser \<Rightarrow> u64 spanned parsed" where
  "expect_int_spanned message p =
     (case next_token p of
        (Some t, q) \<Rightarrow>
          (case tk_kind t of
             TInt v \<Rightarrow> Inr (Spanned v (tk_span t), q)
           | _ \<Rightarrow> Inl (invalid_input_at message (Some (tk_span t))))
      | (None, q) \<Rightarrow> Inl (invalid_input_at message (peek_span q)))"

definition expect_ident :: "string \<Rightarrow> parser \<Rightarrow> string parsed" where
  "expect_ident message p =
     (case next_token p of
        (Some t, q) \<Rightarrow>
          (case tk_kind t of
             TIdent v \<Rightarrow> Inr (v, q)
           | _ \<Rightarrow> Inl (invalid_input_at message (Some (tk_span t))))
      | (None, q) \<Rightarrow> Inl (invalid_input_at message (peek_span q)))"

definition expect_value :: "string \<Rightarrow> parser \<Rightarrow> event_value spanned parsed" where
  "expect_value label p =
     (case peek_kind p of
        Some (TInt v) \<Rightarrow> Inr (Spanned (VInt v) (the (peek_span p)), advance p)
      | _ \<Rightarrow> and_then (expect_ident_spanned label p) (\<lambda>(i, q). Inr (Spanned (VIdent (node i)) (span i), q)))"

definition expect_input :: "string \<Rightarrow> parser \<Rightarrow> event_input spanned parsed" where
  "expect_input label p =
     (case peek_kind p of
        Some (TInt v) \<Rightarrow> Inr (Spanned (InInt v) (the (peek_span p)), advance p)
      | _ \<Rightarrow> and_then (expect_ident_spanned label p) (\<lambda>(i, q). Inr (Spanned (InBind (node i)) (span i), q)))"

definition expect_line_end :: "parser \<Rightarrow> unit parsed" where
  "expect_line_end p =
     (case consume_is TNewline p of
        Some q \<Rightarrow> Inr ((), q)
      | None \<Rightarrow>
          if peek_is TEof p then Inr ((), p)
          else Inl (invalid_input_at ''expected end of line'' (peek_span p)))"

section \<open>Reading forward\<close>

text \<open>The kinds of the tokens not yet read; a later state of the parser, which has not passed the end of the
  input, and one that has read at least a token.\<close>

definition kinds :: "parser \<Rightarrow> token_kind list" where
  "kinds p = map tk_kind (drop (ppos p) (tokens p))"

definition remaining :: "parser \<Rightarrow> nat" where
  "remaining p = length (tokens p) - ppos p"

definition reads :: "parser \<Rightarrow> token_kind list \<Rightarrow> parser \<Rightarrow> bool" where
  "reads p ks q \<longleftrightarrow> q = p\<lparr>ppos := ppos p + length ks\<rparr> \<and> kinds p = ks @ kinds q \<and> TEof \<notin> set ks"

definition ahead :: "parser \<Rightarrow> parser \<Rightarrow> bool" where
  "ahead p q \<longleftrightarrow> (\<exists>ks. reads p ks q)"

definition further :: "parser \<Rightarrow> parser \<Rightarrow> bool" where
  "further p q \<longleftrightarrow> (\<exists>ks. ks \<noteq> [] \<and> reads p ks q)"

lemma remaining_kinds: "remaining p = length (kinds p)"
  by (simp add: remaining_def kinds_def)

lemma reads_trans: "reads p ks q \<Longrightarrow> reads q ls r \<Longrightarrow> reads p (ks @ ls) r"
  by (auto simp: reads_def add.assoc)

lemma ahead_refl [simp]: "ahead p p"
  unfolding ahead_def by (rule exI [of _ "[]"]) (simp add: reads_def)

lemma further_ahead: "further p q \<Longrightarrow> ahead p q"
  by (auto simp: further_def ahead_def)

lemma ahead_trans: "ahead p q \<Longrightarrow> ahead q r \<Longrightarrow> ahead p r"
  unfolding ahead_def using reads_trans by blast

lemma further_trans: "further p q \<Longrightarrow> ahead q r \<Longrightarrow> further p r" "ahead p q \<Longrightarrow> further q r \<Longrightarrow> further p r"
  unfolding ahead_def further_def using reads_trans by (metis append_is_Nil_conv)+

lemma further_remaining: "further p q \<Longrightarrow> remaining q < remaining p"
  by (auto simp: further_def reads_def remaining_kinds)

lemma ahead_remaining: "ahead p q \<Longrightarrow> remaining q \<le> remaining p"
  by (auto simp: ahead_def reads_def remaining_kinds)

lemma ahead_eof: "ahead p q \<Longrightarrow> TEof \<in> set (kinds p) \<longleftrightarrow> TEof \<in> set (kinds q)"
  by (auto simp: ahead_def reads_def)

lemma kinds_Nil: "kinds p = [] \<longleftrightarrow> length (tokens p) \<le> ppos p"
  by (simp add: kinds_def)

lemma kinds_Cons: "kinds p = k # ks \<Longrightarrow> ppos p < length (tokens p) \<and> tk_kind (tokens p ! ppos p) = k \<and> kinds (advance p) = ks"
  by (cases "drop (ppos p) (tokens p)") (auto simp: kinds_def advance_def drop_Suc nth_via_drop tl_drop
      simp flip: not_le dest: arg_cong [where f = tl])

text \<open>The token the parser looks at, by the kinds it has still to read.\<close>

lemma peek_kind_kinds: "peek_kind p = (case kinds p of [] \<Rightarrow> None | k # ks \<Rightarrow> Some k)"
  by (auto simp: peek_kind_def peek_def peek_n_def kinds_Nil dest!: kinds_Cons split: list.split)

lemma peek_is_kinds: "peek_is k p \<longleftrightarrow> (\<exists>ks. kinds p = k # ks)"
  by (auto simp: peek_is_def peek_kind_kinds split: list.split)

lemma peek_Some: "peek p = Some t \<longleftrightarrow> (\<exists>ks. kinds p = tk_kind t # ks) \<and> t = tokens p ! ppos p"
  by (cases "kinds p") (auto simp: peek_def peek_n_def kinds_Nil dest: kinds_Cons)

lemma peek_None: "peek p = None \<longleftrightarrow> kinds p = []"
  by (auto simp: peek_def peek_n_def kinds_Nil)

lemma advance_reads: "kinds p = k # ks \<Longrightarrow> k \<noteq> TEof \<Longrightarrow> reads p [k] (advance p)"
  using kinds_Cons [of p k ks] by (simp add: reads_def advance_def)

lemma advance_further: "kinds p = k # ks \<Longrightarrow> k \<noteq> TEof \<Longrightarrow> further p (advance p)"
  unfolding further_def using advance_reads by blast

lemma consume_further: "consume_is k p = Some q \<Longrightarrow> k \<noteq> TEof \<Longrightarrow> further p q"
  by (auto simp: consume_is_def peek_is_kinds advance_further split: if_splits)

section \<open>What every part of the parser does\<close>

text \<open>An error is an invalid input, and a success has read tokens: at least one, or any number.\<close>

definition reads_some :: "parser \<Rightarrow> 'a parsed \<Rightarrow> bool" where
  "reads_some p r \<longleftrightarrow> (case r of Inl e \<Rightarrow> fe_kind e = InvalidInput | Inr (x, q) \<Rightarrow> further p q)"

definition reads_any :: "parser \<Rightarrow> 'a parsed \<Rightarrow> bool" where
  "reads_any p r \<longleftrightarrow> (case r of Inl e \<Rightarrow> fe_kind e = InvalidInput | Inr (x, q) \<Rightarrow> ahead p q)"

named_theorems parser_reads
named_theorems parser_reads_any

lemma invalid_input_kind [simp]: "fe_kind (invalid_input_at m s) = InvalidInput"
  by (simp add: invalid_input_at_def)

lemma reads_error [simp]: "reads_some p (Inl (invalid_input_at m s))" "reads_any p (Inl (invalid_input_at m s))"
  by (simp_all add: reads_some_def reads_any_def)

lemma reads_Inr [simp]: "reads_some p (Inr (x, q)) \<longleftrightarrow> further p q" "reads_any p (Inr (x, q)) \<longleftrightarrow> ahead p q"
  by (simp_all add: reads_some_def reads_any_def)

lemma reads_some_any: "reads_some p r \<Longrightarrow> reads_any p r"
  by (auto simp: reads_some_def reads_any_def further_ahead split: sum.splits)

lemma reads_any_from: "ahead p q \<Longrightarrow> reads_any q r \<Longrightarrow> reads_any p r"
  "further p q \<Longrightarrow> reads_any q r \<Longrightarrow> reads_some p r"
  by (auto simp: reads_some_def reads_any_def intro: ahead_trans further_trans split: sum.splits)

lemma reads_any_further: "further p q \<Longrightarrow> reads_some q r \<Longrightarrow> reads_any p r"
  "further p q \<Longrightarrow> reads_any q r \<Longrightarrow> reads_any p r"
  by (auto intro: reads_some_any reads_any_from further_ahead)

lemma reads_some_then:
  assumes "reads_some p r" and "\<And>x q. further p q \<Longrightarrow> reads_any q (f (x, q))"
  shows "reads_some p (and_then r f)"
proof (cases r)
  case (Inr y)
  with assms show ?thesis by (cases y) (auto intro: reads_any_from)
qed (use assms in \<open>simp add: reads_some_def\<close>)

lemma reads_any_then:
  assumes "reads_any p r" and "\<And>x q. ahead p q \<Longrightarrow> reads_any q (f (x, q))"
  shows "reads_any p (and_then r f)"
proof (cases r)
  case (Inr y)
  with assms show ?thesis by (cases y) (auto intro: reads_any_from)
qed (use assms in \<open>simp add: reads_any_def\<close>)

lemma expect_reads [parser_reads]: "k \<noteq> TEof \<Longrightarrow> reads_some p (expect k m p)"
  by (auto simp: expect_def next_token_def peek_is_kinds peek_None advance_further split: option.splits)

lemma expect_ident_spanned_reads [parser_reads]: "reads_some p (expect_ident_spanned m p)"
  by (auto simp: expect_ident_spanned_def next_token_def peek_Some intro: advance_further
      split: option.splits token_kind.splits)

lemma expect_int_spanned_reads [parser_reads]: "reads_some p (expect_int_spanned m p)"
  by (auto simp: expect_int_spanned_def next_token_def peek_Some intro: advance_further
      split: option.splits token_kind.splits)

lemma expect_ident_reads [parser_reads]: "reads_some p (expect_ident m p)"
  by (auto simp: expect_ident_def next_token_def peek_Some intro: advance_further
      split: option.splits token_kind.splits)

lemma expect_value_reads [parser_reads]: "reads_some p (expect_value m p)"
  by (auto simp: expect_value_def peek_kind_kinds intro!: reads_some_then expect_ident_spanned_reads
      intro: advance_further split: list.splits token_kind.splits)

lemma expect_input_reads [parser_reads]: "reads_some p (expect_input m p)"
  by (auto simp: expect_input_def peek_kind_kinds intro!: reads_some_then expect_ident_spanned_reads
      intro: advance_further split: list.splits token_kind.splits)

lemma expect_line_end_reads [parser_reads_any]: "reads_any p (expect_line_end p)"
  by (auto simp: expect_line_end_def dest: consume_further [THEN further_ahead] split: option.splits)

section \<open>Events and event sets\<close>

abbreviation quoted :: "string \<Rightarrow> string" where
  "quoted s \<equiv> [CHR 0x27] @ s @ [CHR 0x27]"

text \<open>The elements of a list after the first: while a comma is consumed, an identifier is expected.\<close>

lemma expect_ident_spanned_further: "expect_ident_spanned m p = Inr (i, q) \<Longrightarrow> further p q"
  using expect_ident_spanned_reads [of p m] by simp

function comma_idents :: "string \<Rightarrow> parser \<Rightarrow> string spanned list parsed" where
  "comma_idents label p =
     (case consume_is TComma p of
        None \<Rightarrow> Inr ([], p)
      | Some q \<Rightarrow>
          and_then (expect_ident_spanned label q) (\<lambda>(i, r).
          and_then (comma_idents label r) (\<lambda>(is, t). Inr (i # is, t))))"
  by pat_completeness auto

termination comma_idents
  by (relation "measure (remaining \<circ> snd)")
    (auto dest!: consume_further expect_ident_spanned_further further_remaining)

declare comma_idents.simps [simp del]

definition parse_event :: "parser \<Rightarrow> event spanned parsed" where
  "parse_event p =
     and_then (expect_ident_spanned ''event channel'' p) (\<lambda>(channel, q).
       let finish = (\<lambda>seg end_span r.
             Inr (Spanned \<lparr>ev_channel = channel, ev_seg = seg\<rparr> (merge_span (span channel) end_span), r))
       in case consume_is TDot q of
            Some r \<Rightarrow> and_then (expect_value ''dot payload'' r) (\<lambda>(v, t). finish (Some (Dot v)) (span v) t)
          | None \<Rightarrow>
         (case consume_is TBang q of
            Some r \<Rightarrow> and_then (expect_value ''output payload'' r) (\<lambda>(v, t). finish (Some (Out v)) (span v) t)
          | None \<Rightarrow>
         (case consume_is TQuestion q of
            Some r \<Rightarrow> and_then (expect_input ''input pattern'' r) (\<lambda>(v, t). finish (Some (In v)) (span v) t)
          | None \<Rightarrow> finish None (span channel) q)))"

definition parse_iface_sync_set :: "parser \<Rightarrow> event_set parsed" where
  "parse_iface_sync_set p =
     and_then (expect_ident_spanned ''sync set element'' p) (\<lambda>(i, q).
     and_then (comma_idents ''sync set element'' q) (\<lambda>(is, r). Inr (\<lparr>set_channels = i # is\<rparr>, r)))"

definition parse_event_set :: "parser \<Rightarrow> (event_set \<times> source_span) parsed" where
  "parse_event_set p =
     and_then (expect TEventSetOpen (''expected '' @ quoted ''{|'') p) (\<lambda>(open_token, q).
     and_then
       (if \<not> peek_is TEventSetClose q
        then and_then (expect_ident_spanned ''set element'' q) (\<lambda>(i, r).
             and_then (comma_idents ''set element'' r) (\<lambda>(is, t). Inr (i # is, t)))
        else Inr ([], q)) (\<lambda>(cs, r).
     and_then (expect TEventSetClose (''expected '' @ quoted ''|}'') r) (\<lambda>(close_token, t).
       Inr ((\<lparr>set_channels = cs\<rparr>, merge_span (tk_span open_token) (tk_span close_token)), t))))"

lemma comma_idents_reads [parser_reads_any]: "reads_any p (comma_idents label p)"
proof (induction label p rule: comma_idents.induct)
  case (1 label p)
  show ?case
  proof (cases "consume_is TComma p")
    case (Some q)
    then have "further p q" by (rule consume_further) simp
    moreover have "reads_any q (and_then (expect_ident_spanned label q) (\<lambda>(i, r).
          and_then (comma_idents label r) (\<lambda>(is, t). Inr (i # is, t))))"
    proof (cases "expect_ident_spanned label q")
      case (Inr y)
      obtain i r where y: "y = (i, r)" by (cases y)
      from 1 [OF Some Inr y [symmetric]] have "reads_any r (comma_idents label r)" .
      then have "reads_any r (and_then (comma_idents label r) (\<lambda>(is, t). Inr (i # is, t)))"
        by (rule reads_any_then) simp
      with expect_ident_spanned_further [OF Inr [unfolded y]] show ?thesis
        unfolding Inr y by (auto intro: reads_any_further)
    qed (use expect_ident_spanned_reads [of q label] in \<open>simp add: reads_some_def reads_any_def\<close>)
    ultimately show ?thesis
      by (subst comma_idents.simps) (auto simp: Some intro: reads_any_further)
  qed (subst comma_idents.simps, simp)
qed

lemma parse_event_reads [parser_reads]: "reads_some p (parse_event p)"
  unfolding parse_event_def Let_def
  by (auto intro!: reads_some_then reads_any_then parser_reads
      dest!: consume_further intro: reads_any_further split: option.splits)

lemma parse_iface_sync_set_reads [parser_reads]: "reads_some p (parse_iface_sync_set p)"
  unfolding parse_iface_sync_set_def
  by (auto intro!: reads_some_then reads_any_then parser_reads parser_reads_any)

lemma parse_event_set_reads [parser_reads]: "reads_some p (parse_event_set p)"
  unfolding parse_event_set_def
  by (auto intro!: reads_some_then reads_any_then parser_reads parser_reads_any intro: reads_some_any)

section \<open>Process expressions\<close>

text \<open>The functions on expressions call each other with one unit of fuel less; without fuel there is no value.
  \<^verbatim>\<open>parse_expr\<close> has enough of it for the tokens that remain (\<open>parse_expr_returns\<close>).\<close>

definition parsed_then :: "'a parsed option \<Rightarrow> ('a \<Rightarrow> parser \<Rightarrow> 'b parsed option) \<Rightarrow> 'b parsed option" where
  "parsed_then r f = (case r of None \<Rightarrow> None | Some (Inl e) \<Rightarrow> Some (Inl e) | Some (Inr (x, q)) \<Rightarrow> f x q)"

lemma parsed_then_simps [simp]:
  "parsed_then None f = None"
  "parsed_then (Some (Inl e)) f = Some (Inl e)"
  "parsed_then (Some (Inr (x, q))) f = f x q"
  by (simp_all add: parsed_then_def)

function parse_hide_loop :: "process_expr spanned \<Rightarrow> parser \<Rightarrow> process_expr spanned parsed" where
  "parse_hide_loop inner p =
     (case consume_is THideOp p of
        None \<Rightarrow> Inr (inner, p)
      | Some q \<Rightarrow>
          and_then (parse_event_set q) (\<lambda>(hide, r).
            parse_hide_loop (Spanned (Hide inner (fst hide)) (merge_span (span inner) (snd hide))) r))"
  by pat_completeness auto

lemma parse_event_set_further: "parse_event_set p = Inr (x, q) \<Longrightarrow> further p q"
  using parse_event_set_reads [of p] by simp

termination parse_hide_loop
  by (relation "measure (remaining \<circ> snd)")
    (auto dest!: consume_further parse_event_set_further further_remaining)

declare parse_hide_loop.simps [simp del]

fun parse_choice :: "nat \<Rightarrow> parser \<Rightarrow> process_expr spanned parsed option"
  and parse_choice_loop :: "nat \<Rightarrow> process_expr spanned \<Rightarrow> parser \<Rightarrow> process_expr spanned parsed option"
  and parse_parallel :: "nat \<Rightarrow> parser \<Rightarrow> process_expr spanned parsed option"
  and parse_parallel_loop :: "nat \<Rightarrow> process_expr spanned \<Rightarrow> parser \<Rightarrow> process_expr spanned parsed option"
  and parse_hide :: "nat \<Rightarrow> parser \<Rightarrow> process_expr spanned parsed option"
  and parse_prefix :: "nat \<Rightarrow> parser \<Rightarrow> process_expr spanned parsed option"
  and parse_atom :: "nat \<Rightarrow> parser \<Rightarrow> process_expr spanned parsed option" where
  "parse_choice 0 p = None"
| "parse_choice (Suc n) p = parsed_then (parse_parallel n p) (parse_choice_loop n)"
| "parse_choice_loop 0 left p = None"
| "parse_choice_loop (Suc n) left p =
     (case consume_is TExternalChoice p of
        Some q \<Rightarrow>
          parsed_then (parse_parallel n q) (\<lambda>right r.
            parse_choice_loop n (Spanned (Choice External left right) (merge_span (span left) (span right))) r)
      | None \<Rightarrow>
     (case consume_is TInternalChoice p of
        Some q \<Rightarrow>
          parsed_then (parse_parallel n q) (\<lambda>right r.
            parse_choice_loop n (Spanned (Choice Internal left right) (merge_span (span left) (span right))) r)
      | None \<Rightarrow> Some (Inr (left, p))))"
| "parse_parallel 0 p = None"
| "parse_parallel (Suc n) p = parsed_then (parse_hide n p) (parse_parallel_loop n)"
| "parse_parallel_loop 0 left p = None"
| "parse_parallel_loop (Suc n) left p =
     (case consume_is TInterleaving p of
        Some q \<Rightarrow>
          parsed_then (parse_hide n q) (\<lambda>right r.
            parse_parallel_loop n
              (Spanned (Parallel Interleaving left right None) (merge_span (span left) (span right))) r)
      | None \<Rightarrow>
     (case consume_is TIfaceOpen p of
        Some q \<Rightarrow>
          parsed_then (Some (and_then (parse_iface_sync_set q) (\<lambda>(sync, r).
              and_then (expect TIfaceClose (''expected '' @ quoted ''|}|]'') r) (\<lambda>(_, t). Inr (sync, t))))) (\<lambda>sync r.
          parsed_then (parse_hide n r) (\<lambda>right t.
            parse_parallel_loop n
              (Spanned (Parallel Interface left right (Some sync)) (merge_span (span left) (span right))) t))
      | None \<Rightarrow> Some (Inr (left, p))))"
| "parse_hide 0 p = None"
| "parse_hide (Suc n) p = parsed_then (parse_prefix n p) (\<lambda>inner q. Some (parse_hide_loop inner q))"
| "parse_prefix 0 p = None"
| "parse_prefix (Suc n) p =
     (case parse_event p of
        Inr (event, q) \<Rightarrow>
          (case consume_is TArrow q of
             Some r \<Rightarrow>
               parsed_then (parse_prefix n r) (\<lambda>following t.
                 Some (Inr (Spanned (Prefix event following) (merge_span (span event) (span following)), t)))
           | None \<Rightarrow> parse_atom n p)
      | Inl e \<Rightarrow> parse_atom n p)"
| "parse_atom 0 p = None"
| "parse_atom (Suc n) p =
     (case consume_is TStop p of
        Some q \<Rightarrow> Some (Inr (Spanned Stop (the (prev_span q)), q))
      | None \<Rightarrow>
     (case consume_is TLParen p of
        Some q \<Rightarrow>
          parsed_then (parse_choice n q) (\<lambda>inner r.
            Some (and_then (expect TRParen (''expected '' @ quoted '')'') r) (\<lambda>(rparen, t).
              Inr (Spanned (node inner) (merge_span (the (prev_span q)) (tk_span rparen)), t))))
      | None \<Rightarrow>
          Some (and_then (expect_ident_spanned ''process reference'' p) (\<lambda>(name, q).
            Inr (Spanned (Ref name) (span name), q)))))"

definition parse_expr :: "parser \<Rightarrow> process_expr spanned parsed option" where
  "parse_expr p = parse_choice (5 * remaining p + 5) p"

text \<open>With enough fuel every function on expressions has a value, and reads on.\<close>

definition returns_some :: "parser \<Rightarrow> 'a parsed option \<Rightarrow> bool" where
  "returns_some p r \<longleftrightarrow> (\<exists>s. r = Some s \<and> reads_some p s)"

definition returns_any :: "parser \<Rightarrow> 'a parsed option \<Rightarrow> bool" where
  "returns_any p r \<longleftrightarrow> (\<exists>s. r = Some s \<and> reads_any p s)"

lemma returns_Some [simp]: "returns_some p (Some s) = reads_some p s" "returns_any p (Some s) = reads_any p s"
  by (simp_all add: returns_some_def returns_any_def)

lemma returns_some_any: "returns_some p r \<Longrightarrow> returns_any p r"
  by (auto simp: returns_some_def returns_any_def reads_some_any)

lemma returns_any_further: "further p q \<Longrightarrow> returns_any q r \<Longrightarrow> returns_some p r"
  by (auto simp: returns_some_def returns_any_def intro: reads_any_from)

lemma returns_some_then:
  assumes "returns_some p r" and "\<And>x q. further p q \<Longrightarrow> returns_any q (f x q)"
  shows "returns_some p (parsed_then r f)"
proof -
  obtain s where s: "r = Some s" "reads_some p s" using assms(1) by (auto simp: returns_some_def)
  show ?thesis
  proof (cases s)
    case (Inr y)
    with s assms(2) show ?thesis by (cases y) (auto intro: returns_any_further)
  qed (use s in \<open>simp add: reads_some_def\<close>)
qed

lemma returns_any_then:
  assumes "returns_any p r" and "\<And>x q. ahead p q \<Longrightarrow> returns_any q (f x q)"
  shows "returns_any p (parsed_then r f)"
proof -
  obtain s where s: "r = Some s" "reads_any p s" using assms(1) by (auto simp: returns_any_def)
  show ?thesis
  proof (cases s)
    case (Inr y)
    obtain x q where y: "y = (x, q)" by (cases y)
    from s(2) have "ahead p q" by (simp add: Inr y)
    with assms(2) [OF this, of x] show ?thesis
      by (auto simp: s(1) Inr y returns_any_def intro: reads_any_from)
  qed (use s in \<open>simp add: reads_any_def\<close>)
qed

lemma parse_hide_loop_reads [parser_reads_any]: "reads_any p (parse_hide_loop inner p)"
proof (induction inner p rule: parse_hide_loop.induct)
  case (1 inner p)
  show ?case
  proof (cases "consume_is THideOp p")
    case (Some q)
    then have "further p q" by (rule consume_further) simp
    moreover have "reads_some q (and_then (parse_event_set q) (\<lambda>(hide, r).
            parse_hide_loop (Spanned (Hide inner (fst hide)) (merge_span (span inner) (snd hide))) r))"
    proof (cases "parse_event_set q")
      case (Inr y)
      obtain hide r where y: "y = (hide, r)" by (cases y)
      from 1 [OF Some Inr y [symmetric]] parse_event_set_further [OF Inr [unfolded y]] show ?thesis
        unfolding Inr y by (auto intro: reads_any_from)
    qed (use parse_event_set_reads [of q] in \<open>simp add: reads_some_def\<close>)
    ultimately show ?thesis
      by (subst parse_hide_loop.simps) (auto simp: Some intro: reads_any_further)
  qed (subst parse_hide_loop.simps, simp)
qed

lemma returns_any_step: "further p q \<Longrightarrow> returns_some q r \<Longrightarrow> returns_any p r"
  by (blast intro: returns_any_further returns_some_any)

definition enough :: "nat \<Rightarrow> nat \<Rightarrow> parser \<Rightarrow> bool" where
  "enough rank n p \<longleftrightarrow> 5 * remaining p + rank \<le> n"

lemma enough_same: "enough r (Suc n) p \<Longrightarrow> r' < r \<Longrightarrow> enough r' n p"
  by (simp add: enough_def)

lemma enough_further: "enough (Suc r) (Suc n) p \<Longrightarrow> further p q \<Longrightarrow> r' \<le> 5 \<Longrightarrow> enough r' n q"
  using further_remaining [of p q] by (simp add: enough_def)

lemma parse_returns:
  "(\<forall>p. enough 5 n p \<longrightarrow> returns_some p (parse_choice n p)) \<and>
   (\<forall>left p. enough 1 n p \<longrightarrow> returns_any p (parse_choice_loop n left p)) \<and>
   (\<forall>p. enough 4 n p \<longrightarrow> returns_some p (parse_parallel n p)) \<and>
   (\<forall>left p. enough 1 n p \<longrightarrow> returns_any p (parse_parallel_loop n left p)) \<and>
   (\<forall>p. enough 3 n p \<longrightarrow> returns_some p (parse_hide n p)) \<and>
   (\<forall>p. enough 2 n p \<longrightarrow> returns_some p (parse_prefix n p)) \<and>
   (\<forall>p. enough 1 n p \<longrightarrow> returns_some p (parse_atom n p))"
proof (induction n)
  case 0
  then show ?case by (simp add: enough_def)
next
  case (Suc n)
  then have choice: "enough 5 n p \<Longrightarrow> returns_some p (parse_choice n p)"
    and choice_loop: "enough 1 n p \<Longrightarrow> returns_any p (parse_choice_loop n left p)"
    and parallel: "enough 4 n p \<Longrightarrow> returns_some p (parse_parallel n p)"
    and parallel_loop: "enough 1 n p \<Longrightarrow> returns_any p (parse_parallel_loop n left p)"
    and hide: "enough 3 n p \<Longrightarrow> returns_some p (parse_hide n p)"
    and pref: "enough 2 n p \<Longrightarrow> returns_some p (parse_prefix n p)"
    and atom: "enough 1 n p \<Longrightarrow> returns_some p (parse_atom n p)" for p left
    by blast+
  note steps = returns_some_then returns_any_step returns_some_any
  show ?case
  proof (intro conjI allI impI)
    fix p assume p: "enough 5 (Suc n) p"
    then have p': "enough (Suc 4) (Suc n) p" by simp
    show "returns_some p (parse_choice (Suc n) p)" unfolding parse_choice.simps
      by (intro returns_some_then parallel choice_loop enough_same [OF p] enough_further [OF p']) simp_all
  next
    fix p assume p: "enough 4 (Suc n) p"
    then have p': "enough (Suc 3) (Suc n) p" by simp
    show "returns_some p (parse_parallel (Suc n) p)" unfolding parse_parallel.simps
      by (intro returns_some_then hide parallel_loop enough_same [OF p] enough_further [OF p']) simp_all
  next
    fix p assume p: "enough 3 (Suc n) p"
    then have p': "enough (Suc 2) (Suc n) p" by simp
    show "returns_some p (parse_hide (Suc n) p)" unfolding parse_hide.simps returns_Some
      by (intro returns_some_then pref enough_same [OF p]) (simp_all add: parser_reads_any)
  next
    fix left p assume p: "enough 1 (Suc n) p"
    then have p': "enough (Suc 0) (Suc n) p" by simp
    have op: "returns_any p (parsed_then (parse_parallel n q) (\<lambda>right r. parse_choice_loop n (mk right) r))"
      if "consume_is k p = Some q" "k \<noteq> TEof" for k q mk
    proof -
      have pq: "further p q" using that by (rule consume_further)
      show ?thesis
        by (intro returns_any_step [OF pq] returns_some_then parallel choice_loop)
          (auto intro: enough_further [OF p'] pq further_trans(1) [OF pq further_ahead])
    qed
    show "returns_any p (parse_choice_loop (Suc n) left p)" unfolding parse_choice_loop.simps
      by (auto split: option.split intro: op)
  next
    fix left p assume p: "enough 1 (Suc n) p"
    then have p': "enough (Suc 0) (Suc n) p" by simp
    have op: "returns_any p (parsed_then (parse_hide n q) (\<lambda>right r. parse_parallel_loop n (mk right) r))"
      if pq: "further p q" for q mk
      by (intro returns_any_step [OF pq] returns_some_then hide parallel_loop)
        (auto intro: enough_further [OF p'] pq further_trans(1) [OF pq further_ahead])
    have sync: "returns_any p (parsed_then (Some (and_then (parse_iface_sync_set q) (\<lambda>(sync, r).
          and_then (expect TIfaceClose m r) (\<lambda>(_, t). Inr (sync, t))))) (\<lambda>sync r.
          parsed_then (parse_hide n r) (\<lambda>right t. parse_parallel_loop n (mk sync right) t)))"
      if pq: "further p q" for q mk m
    proof -
      have "reads_some q (and_then (parse_iface_sync_set q) (\<lambda>(sync, r).
          and_then (expect TIfaceClose m r) (\<lambda>(_, t). Inr (sync, t))))" (is "reads_some q ?r")
        by (auto intro!: reads_some_then parser_reads intro: reads_some_any)
      then show ?thesis
      proof (cases ?r)
        case (Inr y)
        obtain sync r where y: "y = (sync, r)" by (cases y)
        have "further p r" using \<open>reads_some q ?r\<close> further_trans(1) [OF pq] unfolding Inr y by (simp add: further_ahead)
        from op [OF this] show ?thesis unfolding Inr y by simp
      qed (use pq in \<open>auto simp: reads_some_def reads_any_def\<close>)
    qed
    show "returns_any p (parse_parallel_loop (Suc n) left p)" unfolding parse_parallel_loop.simps
      by (auto split: option.split intro: op sync dest!: consume_further)
  next
    fix p assume p: "enough 2 (Suc n) p"
    then have p': "enough (Suc 1) (Suc n) p" by (simp add: numeral_2_eq_2)
    have arrow: "returns_some p (parsed_then (parse_prefix n r) f)"
      if r: "further p r" and f: "\<And>x t. further r t \<Longrightarrow> returns_any t (f x t)" for r f
      by (intro returns_any_further [OF r] returns_some_any returns_some_then pref enough_further [OF p' r] f) simp_all
    show "returns_some p (parse_prefix (Suc n) p)"
      using parse_event_reads [of p] unfolding parse_prefix.simps
      by (auto split: sum.split option.split intro!: arrow atom enough_same [OF p] intro: further_trans(1) further_ahead
          dest!: consume_further simp: further_ahead)
  next
    fix p assume p: "enough 1 (Suc n) p"
    then have p': "enough (Suc 0) (Suc n) p" by simp
    have paren: "returns_some p (parsed_then (parse_choice n q) f)"
      if q: "further p q" and f: "\<And>x t. further q t \<Longrightarrow> returns_any t (f x t)" for q f
      by (intro returns_any_further [OF q] returns_some_any returns_some_then choice enough_further [OF p' q] f) simp_all
    show "returns_some p (parse_atom (Suc n) p)" unfolding parse_atom.simps
      by (auto split: option.split intro!: paren reads_some_then reads_any_then parser_reads intro: reads_some_any
          dest!: consume_further)
  qed
qed

lemma parse_expr_returns [parser_reads]: "\<exists>r. parse_expr p = Some r \<and> reads_some p r"
  using parse_returns [of "5 * remaining p + 5"] unfolding parse_expr_def returns_some_def enough_def by blast

section \<open>Declarations\<close>

definition parse_channel_domain :: "parser \<Rightarrow> channel_domain spanned parsed" where
  "parse_channel_domain p =
     (case consume_is TLBrace p of
        Some q \<Rightarrow>
          and_then (expect_int_spanned ''domain min'' q) (\<lambda>(min, r).
          and_then (expect TDotDot (''expected '' @ quoted ''..'' @ '' in domain'') r) (\<lambda>(_, s).
          and_then (expect_int_spanned ''domain max'' s) (\<lambda>(max, t).
          and_then (expect TRBrace (''expected '' @ quoted ''}'' @ '' in domain'') t) (\<lambda>(rbrace, u).
            Inr (Spanned (DomIntRange min max) (merge_span (span min) (tk_span rbrace)), u)))))
      | None \<Rightarrow>
          and_then (expect_ident_spanned ''domain type'' p) (\<lambda>(name, q).
            Inr (Spanned (DomNamedType name) (span name), q)))"

definition parse_channel_decl :: "parser \<Rightarrow> channel_decl parsed" where
  "parse_channel_decl p =
     and_then (expect_ident_spanned ''channel name'' p) (\<lambda>(name, q).
     and_then (comma_idents ''channel name'' q) (\<lambda>(names, r).
     and_then
       (case consume_is TColon r of
          Some s \<Rightarrow> and_then (parse_channel_domain s) (\<lambda>(d, t). Inr (Some d, t))
        | None \<Rightarrow> Inr (None, r)) (\<lambda>(domain, s).
     and_then (expect_line_end s) (\<lambda>(_, t).
       Inr (\<lparr>chan_names = name # names, chan_domain = domain\<rparr>, t)))))"

definition parse_process_decl :: "parser \<Rightarrow> process_decl parsed option" where
  "parse_process_decl p =
     parsed_then (Some (and_then (expect_ident_spanned ''process name'' p) (\<lambda>(name, q).
       and_then (expect TEquals (''expected '' @ quoted ''='' @ '' in process declaration'') q) (\<lambda>(_, r).
         Inr (name, r))))) (\<lambda>name r.
     parsed_then (parse_expr r) (\<lambda>expr s.
       Some (and_then (expect_line_end s) (\<lambda>(_, t). Inr (\<lparr>decl_name = name, decl_expr = expr\<rparr>, t)))))"

text \<open>The keyword after \<^verbatim>\<open>deadlock\<close> and \<^verbatim>\<open>divergence\<close>.\<close>

definition expect_free :: "property_kind \<Rightarrow> parser \<Rightarrow> property_kind parsed" where
  "expect_free k p =
     and_then (expect_ident (''expected '' @ quoted ''free'') p) (\<lambda>(free, q).
       if free \<noteq> ''free'' then Inl (invalid_input_at (''expected '' @ quoted ''free'') (prev_span q))
       else Inr (k, q))"

definition parse_property_assertion_spec :: "parser \<Rightarrow> (property_kind \<times> property_model) parsed" where
  "parse_property_assertion_spec p =
     and_then (expect_ident ''assertion kind'' p) (\<lambda>(kind_ident, q).
     and_then
       (if kind_ident = ''deadlock'' then expect_free DeadlockFree q
        else if kind_ident = ''divergence'' then expect_free DivergenceFree q
        else if kind_ident = ''deterministic'' then Inr (Deterministic, q)
        else Inl (invalid_input_at (''unknown assertion kind: '' @ kind_ident) (prev_span q))) (\<lambda>(kind, r).
     and_then (expect TLBracket (''expected '' @ quoted ''['' @ '' for assertion model'') r) (\<lambda>(_, s).
     and_then (expect_ident ''assertion model'' s) (\<lambda>(model_ident, t).
     and_then
       (if model_ident = ''F'' then Inr PropF
        else if model_ident = ''FD'' then Inr PropFD
        else Inl (invalid_input_at (''unknown assertion model: '' @ model_ident) (prev_span t))) (\<lambda>model.
     and_then (expect TRBracket (''expected '' @ quoted '']'' @ '' after assertion model'') t) (\<lambda>(_, u).
       Inr ((kind, model), u)))))))"

definition parse_refinement_op :: "parser \<Rightarrow> refinement_op parsed" where
  "parse_refinement_op p =
     (case consume_is TRefineOpT p of
        Some q \<Rightarrow> Inr (OpT, q)
      | None \<Rightarrow>
     (case consume_is TRefineOpF p of
        Some q \<Rightarrow> Inr (OpF, q)
      | None \<Rightarrow>
     (case consume_is TRefineOpFD p of
        Some q \<Rightarrow> Inr (OpFD, q)
      | None \<Rightarrow>
          Inl (invalid_input_at
            ''expected property assertion (:[...]) or refinement operator ([T= / [F= / [FD=)'' (peek_span p)))))"

definition parse_assert_decl :: "parser \<Rightarrow> assertion_decl parsed" where
  "parse_assert_decl p =
     and_then (expect_ident_spanned ''assert target'' p) (\<lambda>(target, q).
     case consume_is TColon q of
       Some r \<Rightarrow>
         and_then (expect TLBracket (''expected '' @ quoted ''['' @ '' after '' @ quoted '':'') r) (\<lambda>(_, s).
         and_then (parse_property_assertion_spec s) (\<lambda>(spec, t).
         and_then (expect TRBracket (''expected '' @ quoted '']'' @ '' to close assert'') t) (\<lambda>(_, u).
         and_then (expect_line_end u) (\<lambda>(_, v).
           Inr (PropertyAssert target (fst spec) (snd spec), v)))))
     | None \<Rightarrow>
         and_then (parse_refinement_op q) (\<lambda>(model, r).
         and_then (expect_ident_spanned ''refinement impl'' r) (\<lambda>(impl, s).
         and_then (expect_line_end s) (\<lambda>(_, t).
           Inr (RefinementAssert target model impl, t)))))"

section \<open>Modules\<close>

definition peek_process_decl_start :: "parser \<Rightarrow> bool" where
  "peek_process_decl_start p =
     (case peek_kind p of
        Some (TIdent _) \<Rightarrow> peek_kind_n 1 p = Some TEquals
      | _ \<Rightarrow> False)"

function consume_newlines :: "parser \<Rightarrow> parser" where
  "consume_newlines p = (case consume_is TNewline p of Some q \<Rightarrow> consume_newlines q | None \<Rightarrow> p)"
  by pat_completeness auto

termination consume_newlines
  by (relation "measure remaining") (auto dest!: consume_further further_remaining)

declare consume_newlines.simps [simp del]

text \<open>The loop of \<^verbatim>\<open>skip_until_line_end\<close> ends at a newline or at the end of the input only, so it has no value past
  the last token.\<close>

partial_function (option) skip_until_line_end :: "parser \<Rightarrow> parser option" where
  "skip_until_line_end p =
     (if \<not> peek_is TNewline p \<and> \<not> peek_is TEof p then skip_until_line_end (advance p) else Some p)"

definition default_span :: "parser \<Rightarrow> source_span" where
  "default_span p = \<lparr>path = ppath p, start_line = 1, start_col = 1, end_line = 1, end_col = 1\<rparr>"

text \<open>One pass of the loop of \<^verbatim>\<open>parse_module\<close>: a declaration, an assertion or the entry process.\<close>

definition parse_item :: "parsed_module \<Rightarrow> parser \<Rightarrow> parsed_module parsed option" where
  "parse_item m p =
     (case consume_is TChannel p of
        Some q \<Rightarrow>
          parsed_then (Some (parse_channel_decl q)) (\<lambda>d r. Some (Inr (m\<lparr>pm_channels := pm_channels m @ [d]\<rparr>, r)))
      | None \<Rightarrow>
     (case consume_is TDatatype p of
        Some q \<Rightarrow>
          map_option (\<lambda>r. Inr (m\<lparr>pm_unsupported := pm_unsupported m @
              [\<lparr>uns_message = ''unsupported syntax: datatype'',
                uns_span = (case prev_span q of Some s \<Rightarrow> s | None \<Rightarrow> default_span q)\<rparr>]\<rparr>, r))
            (skip_until_line_end q)
      | None \<Rightarrow>
     (case consume_is TAssert p of
        Some q \<Rightarrow>
          parsed_then (Some (parse_assert_decl q)) (\<lambda>a r. Some (Inr (m\<lparr>pm_assertions := pm_assertions m @ [a]\<rparr>, r)))
      | None \<Rightarrow>
          if peek_process_decl_start p
          then parsed_then (parse_process_decl p) (\<lambda>d r.
                 Some (Inr (m\<lparr>pm_declarations := pm_declarations m @ [d]\<rparr>, r)))
          else if pm_entry m \<noteq> None
          then Some (Inl (invalid_input_at ''multiple top-level expressions'' (peek_span p)))
          else parsed_then (parse_expr p) (\<lambda>e r.
                 Some (and_then (expect_line_end r) (\<lambda>(_, s). Inr (m\<lparr>pm_entry := Some e\<rparr>, s)))))))"

partial_function (option) parse_items :: "parsed_module \<Rightarrow> parser \<Rightarrow> parsed_module parsed option" where
  "parse_items m p =
     (if \<not> peek_is TEof p
      then (case parse_item m p of
              None \<Rightarrow> None
            | Some (Inl e) \<Rightarrow> Some (Inl e)
            | Some (Inr (m', q)) \<Rightarrow> parse_items m' (consume_newlines q))
      else Some (Inr (m, p)))"

definition parse_module :: "parser \<Rightarrow> parsed_module parsed option" where
  "parse_module p =
     parse_items \<lparr>pm_channels = [], pm_declarations = [], pm_assertions = [], pm_entry = None, pm_unsupported = []\<rparr>
       (consume_newlines p)"

section \<open>The parser returns on the output of the lexer\<close>

lemma parse_channel_domain_reads [parser_reads]: "reads_some p (parse_channel_domain p)"
  unfolding parse_channel_domain_def
  by (auto split: option.split intro!: reads_some_then reads_any_then parser_reads
      intro: reads_some_any reads_any_from(2) dest!: consume_further)

lemma parse_channel_decl_reads [parser_reads]: "reads_some p (parse_channel_decl p)"
  unfolding parse_channel_decl_def
  by (auto split: option.split intro!: reads_some_then reads_any_then parser_reads parser_reads_any
      intro: reads_some_any reads_any_further dest!: consume_further)

lemma expect_free_reads [parser_reads]: "reads_some p (expect_free k p)"
  unfolding expect_free_def by (auto intro!: reads_some_then parser_reads)

lemma parse_property_assertion_spec_reads [parser_reads]: "reads_some p (parse_property_assertion_spec p)"
  unfolding parse_property_assertion_spec_def
  by (auto intro!: reads_some_then reads_any_then parser_reads intro: reads_some_any)

lemma parse_refinement_op_reads [parser_reads]: "reads_some p (parse_refinement_op p)"
  unfolding parse_refinement_op_def by (auto split: option.split dest!: consume_further)

lemma parse_assert_decl_reads [parser_reads]: "reads_some p (parse_assert_decl p)"
  unfolding parse_assert_decl_def
  by (auto split: option.split intro!: reads_some_then reads_any_then parser_reads parser_reads_any
      intro: reads_some_any reads_any_further dest!: consume_further)

lemma consume_newlines_ahead: "ahead p (consume_newlines p)"
proof (induction p rule: consume_newlines.induct)
  case (1 p)
  then show ?case
    by (subst consume_newlines.simps)
      (auto split: option.split dest: consume_further intro: ahead_trans [OF further_ahead])
qed

lemma returns_some_expr [parser_reads]: "returns_some p (parse_expr p)"
  using parse_expr_returns by (simp add: returns_some_def)

lemma parse_process_decl_returns: "returns_some p (parse_process_decl p)"
  unfolding parse_process_decl_def
  by (auto intro!: returns_some_then returns_any_then reads_some_then reads_any_then parser_reads parser_reads_any
      intro: reads_some_any returns_some_any)

lemma skip_until_line_end_returns:
  "TEof \<in> set (kinds p) \<Longrightarrow> \<exists>q. skip_until_line_end p = Some q \<and> ahead p q"
proof (induction "remaining p" arbitrary: p rule: less_induct)
  case less
  then obtain k ks where k: "kinds p = k # ks" by (cases "kinds p") auto
  show ?case
  proof (cases "k = TNewline \<or> k = TEof")
    case True
    then show ?thesis by (subst skip_until_line_end.simps) (auto simp: peek_is_kinds k)
  next
    case False
    with k have f: "further p (advance p)" by (auto intro: advance_further)
    from less(1) [OF further_remaining [OF f]] less(2) ahead_eof [OF further_ahead [OF f]]
    obtain q where "skip_until_line_end (advance p) = Some q" "ahead (advance p) q" by auto
    with False f show ?thesis
      by (subst skip_until_line_end.simps) (auto simp: peek_is_kinds k intro: ahead_trans [OF further_ahead])
  qed
qed

lemma parse_item_returns:
  assumes "TEof \<in> set (kinds p)"
  shows "returns_some p (parse_item m p)"
proof (cases "consume_is TDatatype p")
  case (Some q)
  then have pq: "further p q" by (rule consume_further) simp
  with assms obtain r where r: "skip_until_line_end q = Some r" "ahead q r"
    using skip_until_line_end_returns [of q] ahead_eof [OF further_ahead [OF pq]] by auto
  have "consume_is TChannel p = None" using Some by (auto simp: consume_is_def peek_is_def split: if_splits)
  with Some r pq show ?thesis by (auto simp: parse_item_def intro: further_trans(1))
next
  case None
  have chan: "returns_some p (parsed_then (Some (parse_channel_decl q)) (\<lambda>d r. Some (Inr (f d, r))))"
    if "further p q" for q and f :: "channel_decl \<Rightarrow> parsed_module"
    by (rule returns_any_further [OF that], rule returns_some_any, rule returns_some_then) (simp_all add: parser_reads)
  have asrt: "returns_some p (parsed_then (Some (parse_assert_decl q)) (\<lambda>d r. Some (Inr (f d, r))))"
    if "further p q" for q and f :: "assertion_decl \<Rightarrow> parsed_module"
    by (rule returns_any_further [OF that], rule returns_some_any, rule returns_some_then) (simp_all add: parser_reads)
  have decl: "returns_some p (parsed_then (parse_process_decl p) (\<lambda>d r. Some (Inr (f d, r))))"
    for f :: "process_decl \<Rightarrow> parsed_module"
    by (intro returns_some_then parse_process_decl_returns) simp
  have entry: "returns_some p (parsed_then (parse_expr p) (\<lambda>e r.
      Some (and_then (expect_line_end r) (\<lambda>(_, s). Inr (f e, s)))))" for f :: "process_expr spanned \<Rightarrow> parsed_module"
    by (intro returns_some_then parser_reads) (auto intro!: reads_any_then parser_reads_any)
  show ?thesis unfolding parse_item_def None
    by (auto split: option.split intro!: chan asrt decl entry dest: consume_further)
qed

lemma parse_items_returns:
  "TEof \<in> set (kinds p) \<Longrightarrow>
     \<exists>r. parse_items m p = Some r \<and>
       (case r of Inl e \<Rightarrow> fe_kind e = InvalidInput | Inr (m', q) \<Rightarrow> ahead p q \<and> peek_is TEof q)"
proof (induction "remaining p" arbitrary: m p rule: less_induct)
  case less
  show ?case
  proof (cases "peek_is TEof p")
    case True
    then show ?thesis by (subst parse_items.simps) auto
  next
    case False
    obtain s where s: "parse_item m p = Some s" "reads_some p s"
      using parse_item_returns [OF less(2), of m] by (auto simp: returns_some_def)
    show ?thesis
    proof (cases s)
      case (Inl e)
      with s False show ?thesis by (subst parse_items.simps) (auto simp: reads_some_def)
    next
      case (Inr y)
      obtain m' q where y: "y = (m', q)" by (cases y)
      let ?q = "consume_newlines q"
      have f: "further p ?q" using s(2) consume_newlines_ahead [of q] by (auto simp: Inr y intro: further_trans(1))
      from less(1) [OF further_remaining [OF f], of m'] less(2) ahead_eof [OF further_ahead [OF f]]
      obtain r where "parse_items m' ?q = Some r"
        "case r of Inl e \<Rightarrow> fe_kind e = InvalidInput | Inr (m', t) \<Rightarrow> ahead ?q t \<and> peek_is TEof t" by auto
      with s(1) False f show ?thesis
        by (subst parse_items.simps) (auto simp: Inr y split: sum.splits intro: ahead_trans [OF further_ahead])
    qed
  qed
qed

text \<open>On any tokens with an end of the input the parser returns, and a success has read those before it.\<close>

lemma tokens_before_eof:
  assumes "map tk_kind ts = ls @ TEof # ks" and "TEof \<notin> set ls"
  shows "length (takeWhile (\<lambda>t. tk_kind t \<noteq> TEof) ts) = length ls"
proof -
  have "takeWhile (\<lambda>k. k \<noteq> TEof) (map tk_kind ts) = ls"
    unfolding assms(1) using assms(2) by (subst takeWhile_append2) auto
  then show ?thesis by (metis (mono_tags, lifting) comp_apply length_map map_eq_conv takeWhile_cong takeWhile_map)
qed

lemma parse_module_stops:
  assumes "TEof \<in> tk_kind ` set ts"
  shows "\<exists>r. parse_module (new_parser ts src) = Some r \<and>
    (case r of Inl e \<Rightarrow> fe_kind e = InvalidInput
     | Inr (m, q) \<Rightarrow> q = \<lparr>tokens = ts, ppos = length (takeWhile (\<lambda>t. tk_kind t \<noteq> TEof) ts), ppath = src\<rparr>)"
proof -
  let ?p = "new_parser ts src" and ?q = "consume_newlines (new_parser ts src)"
  have k: "kinds ?p = map tk_kind ts" by (simp add: kinds_def new_parser_def)
  have "TEof \<in> set (kinds ?q)" using k assms ahead_eof [OF consume_newlines_ahead [of ?p]] by simp
  from parse_items_returns [OF this] obtain r where r: "parse_module ?p = Some r"
    "case r of Inl e \<Rightarrow> fe_kind e = InvalidInput | Inr (m', q) \<Rightarrow> ahead ?q q \<and> peek_is TEof q"
    unfolding parse_module_def by blast
  have "q = \<lparr>tokens = ts, ppos = length (takeWhile (\<lambda>t. tk_kind t \<noteq> TEof) ts), ppath = src\<rparr>"
    if q: "ahead ?q q" "peek_is TEof q" for q
  proof -
    obtain ls where ls: "reads ?p ls q"
      using ahead_trans [OF consume_newlines_ahead q(1)] by (auto simp: ahead_def)
    obtain ks' where "kinds q = TEof # ks'" using q(2) by (auto simp: peek_is_kinds)
    with ls k have split: "map tk_kind ts = ls @ TEof # ks'" "TEof \<notin> set ls" by (simp_all add: reads_def)
    with ls show ?thesis by (simp add: reads_def new_parser_def tokens_before_eof)
  qed
  with r show ?thesis by (auto split: sum.splits)
qed

lemma parse_module_on_tokens:
  assumes "map tk_kind ts = ks @ [TEof]" and "TEof \<notin> set ks"
  shows "\<exists>r. parse_module (new_parser ts src) = Some r \<and>
    (case r of Inl e \<Rightarrow> fe_kind e = InvalidInput
     | Inr (m, q) \<Rightarrow> q = \<lparr>tokens = ts, ppos = length ks, ppath = src\<rparr>)"
proof -
  have "length (takeWhile (\<lambda>t. tk_kind t \<noteq> TEof) ts) = length ks" by (rule tokens_before_eof [OF assms])
  moreover have "TEof \<in> tk_kind ` set ts" using assms(1) by (metis in_set_conv_decomp list.set_map)
  ultimately show ?thesis using parse_module_stops [of ts src] by (simp only:)
qed

section \<open>Properties\<close>

text \<open>C21: on every list of tokens that has an end of the input, the parser returns, with an error or with a module
  after reading exactly the tokens before the first end of the input. All its errors are of the kind of an invalid
  input (\<^verbatim>\<open>docs/frontend.md\<close> calls a syntax error an unsupported syntax).\<close>

theorem parse_module_returns:
  assumes "TEof \<in> tk_kind ` set ts"
  shows "\<exists>r. parse_module (new_parser ts src) = Some r \<and>
    (case r of Inl e \<Rightarrow> fe_kind e = InvalidInput
     | Inr (m, q) \<Rightarrow> q = \<lparr>tokens = ts, ppos = length (takeWhile (\<lambda>t. tk_kind t \<noteq> TEof) ts), ppath = src\<rparr>)"
  by (rule parse_module_stops [OF assms])

theorem parse_module_returns_witness:
  "\<exists>r. parse_module (new_parser
        [\<lparr>tk_kind = TStop, tk_span = make_span ''m'' 1 1 1 4\<rparr>, \<lparr>tk_kind = TEof, tk_span = make_span ''m'' 1 5 1 5\<rparr>] ''m'')
      = Some r \<and>
    (case r of Inl e \<Rightarrow> fe_kind e = InvalidInput
     | Inr (m, q) \<Rightarrow> q =
        \<lparr>tokens = [\<lparr>tk_kind = TStop, tk_span = make_span ''m'' 1 1 1 4\<rparr>, \<lparr>tk_kind = TEof, tk_span = make_span ''m'' 1 5 1 5\<rparr>],
         ppos = 1, ppath = ''m''\<rparr>)"
  using parse_module_returns [of "[\<lparr>tk_kind = TStop, tk_span = make_span ''m'' 1 1 1 4\<rparr>,
      \<lparr>tk_kind = TEof, tk_span = make_span ''m'' 1 5 1 5\<rparr>]" "''m''"]
  by (simp cong del: sum.case_cong_weak prod.case_cong_weak)

end
