(* ===== verification/Cspx_Typecheck.thy ===== *)
theory Cspx_Typecheck
  imports Cspx_Parser
begin

text \<open>
  The type checker of \<^verbatim>\<open>frontend_simple.rs\<close>, with the declarative typing rules it decides: which modules it
  accepts, and which kind of error it reports for which module.
\<close>

section \<open>The type checker\<close>

datatype channel_type = UnitType | RangeType u64 u64

type_synonym channel_env = "string \<rightharpoonup> channel_type"
type_synonym var_env = "string \<rightharpoonup> channel_type"

definition unsupported_at :: "string \<Rightarrow> source_span option \<Rightarrow> frontend_error" where
  "unsupported_at message sp = \<lparr>fe_kind = UnsupportedSyntax, fe_message = message, fe_span = sp\<rparr>"

definition check_int_domain :: "u64 \<Rightarrow> u64 \<Rightarrow> u64 \<Rightarrow> source_span \<Rightarrow> frontend_error + unit" where
  "check_int_domain value lo hi sp =
     (if value < lo \<or> value > hi
      then Inl (invalid_input_at
        (''payload out of range: '' @ show_u64 value @ '' (expected '' @ show_u64 lo @ ''..'' @ show_u64 hi @ '')'') (Some sp))
      else Inr ())"

fun seg_span :: "event_seg \<Rightarrow> source_span" where
  "seg_span (Dot v) = span v"
| "seg_span (Out v) = span v"
| "seg_span (In i) = span i"

text \<open>The checks of the payload of an event; the result is the variables in scope after it.\<close>

fun typecheck_seg :: "string spanned \<Rightarrow> channel_type \<Rightarrow> event_seg option \<Rightarrow> var_env \<Rightarrow> frontend_error + var_env" where
  "typecheck_seg c UnitType None vars = Inr vars"
| "typecheck_seg c UnitType (Some seg) vars =
     Inl (invalid_input_at (''channel does not take payload: '' @ node c) (Some (seg_span seg)))"
| "typecheck_seg c (RangeType lo hi) None vars =
     Inl (invalid_input_at (''missing payload for channel: '' @ node c) (Some (span c)))"
| "typecheck_seg c (RangeType lo hi) (Some (Dot (Spanned (VInt n) sp))) vars =
     and_then (check_int_domain n lo hi sp) (\<lambda>_. Inr vars)"
| "typecheck_seg c (RangeType lo hi) (Some (Dot (Spanned (VIdent x) sp))) vars =
     Inl (unsupported_at ''unsupported dot payload (identifier)'' (Some sp))"
| "typecheck_seg c (RangeType lo hi) (Some (Out (Spanned (VInt n) sp))) vars =
     and_then (check_int_domain n lo hi sp) (\<lambda>_. Inr vars)"
| "typecheck_seg c (RangeType lo hi) (Some (Out (Spanned (VIdent x) sp))) vars =
     (case vars x of
        None \<Rightarrow> Inl (invalid_input_at (''undefined variable: '' @ x) (Some sp))
      | Some var_ty \<Rightarrow>
          if var_ty \<noteq> RangeType lo hi
          then Inl (invalid_input_at (''variable domain mismatch: '' @ x) (Some sp))
          else Inr vars)"
| "typecheck_seg c (RangeType lo hi) (Some (In (Spanned (InInt n) sp))) vars =
     and_then (check_int_domain n lo hi sp) (\<lambda>_. Inr vars)"
| "typecheck_seg c (RangeType lo hi) (Some (In (Spanned (InBind x) sp))) vars =
     (if vars x \<noteq> None
      then Inl (invalid_input_at (''duplicate variable binding: '' @ x) (Some sp))
      else Inr (vars(x \<mapsto> RangeType lo hi)))"

definition typecheck_event :: "event spanned \<Rightarrow> channel_env \<Rightarrow> var_env \<Rightarrow> frontend_error + var_env" where
  "typecheck_event ev chans vars =
     (let c = ev_channel (node ev)
      in case chans (node c) of
           None \<Rightarrow> Inl (invalid_input_at (''undefined channel: '' @ node c) (Some (span c)))
         | Some ty \<Rightarrow> typecheck_seg c ty (ev_seg (node ev)) vars)"

fun typecheck_set_channels :: "string spanned list \<Rightarrow> channel_env \<Rightarrow> frontend_error + unit" where
  "typecheck_set_channels [] chans = Inr ()"
| "typecheck_set_channels (c # cs) chans =
     (if chans (node c) = None
      then Inl (invalid_input_at (''undefined channel: '' @ node c) (Some (span c)))
      else typecheck_set_channels cs chans)"

definition typecheck_event_set :: "event_set \<Rightarrow> channel_env \<Rightarrow> frontend_error + unit" where
  "typecheck_event_set s chans = typecheck_set_channels (set_channels s) chans"

definition check_process_name :: "string spanned \<Rightarrow> string set \<Rightarrow> frontend_error + unit" where
  "check_process_name n procs =
     (if node n \<notin> procs then Inl (invalid_input_at (''undefined process: '' @ node n) (Some (span n))) else Inr ())"

fun typecheck_process_expr ::
  "process_expr spanned \<Rightarrow> channel_env \<Rightarrow> string set \<Rightarrow> var_env \<Rightarrow> frontend_error + unit" where
  "typecheck_process_expr (Spanned Stop s) chans procs vars = Inr ()"
| "typecheck_process_expr (Spanned (Ref n) s) chans procs vars = check_process_name n procs"
| "typecheck_process_expr (Spanned (Prefix ev following) s) chans procs vars =
     and_then (typecheck_event ev chans vars) (\<lambda>vars'. typecheck_process_expr following chans procs vars')"
| "typecheck_process_expr (Spanned (Choice k left right) s) chans procs vars =
     and_then (typecheck_process_expr left chans procs vars) (\<lambda>_.
       typecheck_process_expr right chans procs vars)"
| "typecheck_process_expr (Spanned (Parallel k left right sync) s) chans procs vars =
     and_then (typecheck_process_expr left chans procs vars) (\<lambda>_.
     and_then (typecheck_process_expr right chans procs vars) (\<lambda>_.
       case sync of Some es \<Rightarrow> typecheck_event_set es chans | None \<Rightarrow> Inr ()))"
| "typecheck_process_expr (Spanned (Hide inner hide) s) chans procs vars =
     and_then (typecheck_process_expr inner chans procs vars) (\<lambda>_. typecheck_event_set hide chans)"

definition domain_type :: "channel_domain spanned option \<Rightarrow> frontend_error + channel_type" where
  "domain_type dm =
     (case dm of
        None \<Rightarrow> Inr UnitType
      | Some d \<Rightarrow>
          (case node d of
             DomIntRange lo hi \<Rightarrow>
               if node lo > node hi
               then Inl (invalid_input_at
                 (''invalid channel domain: '' @ show_u64 (node lo) @ ''..'' @ show_u64 (node hi)) (Some (span d)))
               else Inr (RangeType (node lo) (node hi))
           | DomNamedType n \<Rightarrow>
               Inl (unsupported_at (''unsupported channel domain type: '' @ node n) (Some (span n)))))"

fun add_channels :: "channel_type \<Rightarrow> string spanned list \<Rightarrow> channel_env \<Rightarrow> frontend_error + channel_env" where
  "add_channels ty [] chans = Inr chans"
| "add_channels ty (n # ns) chans =
     (if chans (node n) \<noteq> None
      then Inl (invalid_input_at (''duplicate channel: '' @ node n) (Some (span n)))
      else add_channels ty ns (chans(node n \<mapsto> ty)))"

fun channel_types :: "channel_decl list \<Rightarrow> channel_env \<Rightarrow> frontend_error + channel_env" where
  "channel_types [] chans = Inr chans"
| "channel_types (d # ds) chans =
     and_then (domain_type (chan_domain d)) (\<lambda>ty.
     and_then (add_channels ty (chan_names d) chans) (\<lambda>chans'. channel_types ds chans'))"

fun process_names :: "process_decl list \<Rightarrow> string set \<Rightarrow> frontend_error + string set" where
  "process_names [] procs = Inr procs"
| "process_names (d # ds) procs =
     (if node (decl_name d) \<in> procs
      then Inl (invalid_input_at (''duplicate process: '' @ node (decl_name d)) (Some (span (decl_name d))))
      else process_names ds (insert (node (decl_name d)) procs))"

fun typecheck_all :: "process_expr spanned list \<Rightarrow> channel_env \<Rightarrow> string set \<Rightarrow> frontend_error + unit" where
  "typecheck_all [] chans procs = Inr ()"
| "typecheck_all (e # es) chans procs =
     and_then (typecheck_process_expr e chans procs Map.empty) (\<lambda>_. typecheck_all es chans procs)"

fun typecheck_assertions :: "assertion_decl list \<Rightarrow> string set \<Rightarrow> frontend_error + unit" where
  "typecheck_assertions [] procs = Inr ()"
| "typecheck_assertions (PropertyAssert target k md # as) procs =
     and_then (check_process_name target procs) (\<lambda>_. typecheck_assertions as procs)"
| "typecheck_assertions (RefinementAssert spec op impl # as) procs =
     and_then (check_process_name spec procs) (\<lambda>_.
     and_then (check_process_name impl procs) (\<lambda>_. typecheck_assertions as procs))"

definition typecheck_module :: "parsed_module \<Rightarrow> frontend_error + cmodule" where
  "typecheck_module parsed =
     (case pm_unsupported parsed of
        u # _ \<Rightarrow> Inl (unsupported_at (uns_message u) (Some (uns_span u)))
      | [] \<Rightarrow>
          and_then (channel_types (pm_channels parsed) Map.empty) (\<lambda>chans.
          and_then (process_names (pm_declarations parsed) {}) (\<lambda>procs.
          and_then (typecheck_all (map decl_expr (pm_declarations parsed)) chans procs) (\<lambda>_.
          and_then (case pm_entry parsed of
                      Some e \<Rightarrow> typecheck_process_expr e chans procs Map.empty
                    | None \<Rightarrow> Inr ()) (\<lambda>_.
          and_then (typecheck_assertions (pm_assertions parsed) procs) (\<lambda>_.
            Inr \<lparr>channels = pm_channels parsed, declarations = pm_declarations parsed,
                 assertions = pm_assertions parsed, entry = pm_entry parsed\<rparr>))))))"

text \<open>\<^verbatim>\<open>SimpleFrontend::parse_and_typecheck\<close>.\<close>

definition parse_and_typecheck_module :: "string \<Rightarrow> string \<Rightarrow> (frontend_error + cmodule) option" where
  "parse_and_typecheck_module input src =
     (case lex input src of
        Inl e \<Rightarrow> Some (Inl e)
      | Inr ts \<Rightarrow>
          map_option (\<lambda>r. and_then r (\<lambda>(parsed, p).
              if pm_channels parsed = [] \<and> pm_declarations parsed = [] \<and> pm_assertions parsed = []
                 \<and> pm_entry parsed = None
              then Inl (invalid_input_at ''empty input'' None)
              else typecheck_module parsed))
            (parse_module (new_parser ts src)))"

section \<open>Typing rules\<close>

text \<open>The payloads a channel takes with the variables in scope, and the variables in scope after them.\<close>

inductive typed_seg :: "channel_type \<Rightarrow> event_seg option \<Rightarrow> var_env \<Rightarrow> var_env \<Rightarrow> bool" where
  Unit: "typed_seg UnitType None vars vars"
| Dot: "lo \<le> n \<Longrightarrow> n \<le> hi \<Longrightarrow> typed_seg (RangeType lo hi) (Some (Dot (Spanned (VInt n) s))) vars vars"
| Out: "lo \<le> n \<Longrightarrow> n \<le> hi \<Longrightarrow> typed_seg (RangeType lo hi) (Some (Out (Spanned (VInt n) s))) vars vars"
| OutVar: "vars x = Some (RangeType lo hi) \<Longrightarrow>
    typed_seg (RangeType lo hi) (Some (Out (Spanned (VIdent x) s))) vars vars"
| In: "lo \<le> n \<Longrightarrow> n \<le> hi \<Longrightarrow> typed_seg (RangeType lo hi) (Some (In (Spanned (InInt n) s))) vars vars"
| Bind: "vars x = None \<Longrightarrow>
    typed_seg (RangeType lo hi) (Some (In (Spanned (InBind x) s))) vars (vars(x \<mapsto> RangeType lo hi))"

definition names_in :: "event_set \<Rightarrow> channel_env \<Rightarrow> bool" where
  "names_in es chans \<longleftrightarrow> node ` set (set_channels es) \<subseteq> dom chans"

inductive typed :: "channel_env \<Rightarrow> string set \<Rightarrow> var_env \<Rightarrow> process_expr spanned \<Rightarrow> bool" for chans procs where
  Stop: "typed chans procs vars (Spanned Stop s)"
| Ref: "node n \<in> procs \<Longrightarrow> typed chans procs vars (Spanned (Ref n) s)"
| Prefix: "chans (node (ev_channel (node ev))) = Some ty \<Longrightarrow> typed_seg ty (ev_seg (node ev)) vars vars' \<Longrightarrow>
    typed chans procs vars' e \<Longrightarrow> typed chans procs vars (Spanned (Prefix ev e) s)"
| Choice: "typed chans procs vars l \<Longrightarrow> typed chans procs vars r \<Longrightarrow> typed chans procs vars (Spanned (Choice k l r) s)"
| Parallel: "typed chans procs vars l \<Longrightarrow> typed chans procs vars r \<Longrightarrow> (\<And>es. sync = Some es \<Longrightarrow> names_in es chans) \<Longrightarrow>
    typed chans procs vars (Spanned (Parallel k l r sync) s)"
| Hide: "typed chans procs vars e \<Longrightarrow> names_in hide chans \<Longrightarrow> typed chans procs vars (Spanned (Hide e hide) s)"

inductive_simps typed_simps:
  "typed chans procs vars (Spanned Stop s)"
  "typed chans procs vars (Spanned (Ref n) s)"
  "typed chans procs vars (Spanned (Prefix ev e) s)"
  "typed chans procs vars (Spanned (Choice k l r) s)"
  "typed chans procs vars (Spanned (Parallel k l r sync) s)"
  "typed chans procs vars (Spanned (Hide e hide) s)"

lemma check_int_domain_iff [simp]: "check_int_domain n lo hi s = Inr u \<longleftrightarrow> lo \<le> n \<and> n \<le> hi"
  by (auto simp: check_int_domain_def)

lemma typecheck_seg_iff: "typecheck_seg c ty seg vars = Inr vars' \<longleftrightarrow> typed_seg ty seg vars vars'"
  by (induction c ty seg vars rule: typecheck_seg.induct)
    (auto simp: and_then_eq_Inr typed_seg.simps split: option.splits if_splits)

lemma typecheck_event_iff:
  "typecheck_event ev chans vars = Inr vars' \<longleftrightarrow>
   (\<exists>ty. chans (node (ev_channel (node ev))) = Some ty \<and> typed_seg ty (ev_seg (node ev)) vars vars')"
  by (auto simp: typecheck_event_def Let_def typecheck_seg_iff split: option.splits)

lemma typecheck_event_set_iff: "typecheck_event_set es chans = Inr u \<longleftrightarrow> names_in es chans"
proof -
  have "typecheck_set_channels cs chans = Inr u \<longleftrightarrow> node ` set cs \<subseteq> dom chans" for cs
    by (induction cs) auto
  then show ?thesis by (simp add: typecheck_event_set_def names_in_def)
qed

lemma check_process_name_iff: "check_process_name n procs = Inr u \<longleftrightarrow> node n \<in> procs"
  by (simp add: check_process_name_def)

lemma typecheck_expr_iff: "typecheck_process_expr e chans procs vars = Inr u \<longleftrightarrow> typed chans procs vars e"
  by (induction e chans procs vars arbitrary: u rule: typecheck_process_expr.induct)
    (auto simp: and_then_eq_Inr typed_simps typecheck_event_iff typecheck_event_set_iff check_process_name_iff
      split: option.splits)

section \<open>Well-typed modules\<close>

definition declared_type :: "channel_decl \<Rightarrow> channel_type option" where
  "declared_type d =
     (case chan_domain d of
        None \<Rightarrow> Some UnitType
      | Some x \<Rightarrow>
          (case node x of
             DomIntRange lo hi \<Rightarrow> (if node lo \<le> node hi then Some (RangeType (node lo) (node hi)) else None)
           | DomNamedType n \<Rightarrow> None))"

definition declared_channels :: "channel_decl list \<Rightarrow> (string \<times> channel_type) list" where
  "declared_channels ds = concat (map (\<lambda>d. map (\<lambda>n. (node n, the (declared_type d))) (chan_names d)) ds)"

definition channel_env_of :: "cmodule \<Rightarrow> channel_env" where
  "channel_env_of m = map_of (declared_channels (channels m))"

definition process_name_set :: "cmodule \<Rightarrow> string set" where
  "process_name_set m = set (map (node \<circ> decl_name) (declarations m))"

fun assertion_processes :: "assertion_decl \<Rightarrow> string list" where
  "assertion_processes (PropertyAssert t k md) = [node t]"
| "assertion_processes (RefinementAssert s op i) = [node s, node i]"

definition well_typed :: "cmodule \<Rightarrow> bool" where
  "well_typed m \<longleftrightarrow>
     (\<forall>d \<in> set (channels m). declared_type d \<noteq> None) \<and>
     distinct (map fst (declared_channels (channels m))) \<and>
     distinct (map (node \<circ> decl_name) (declarations m)) \<and>
     (\<forall>e \<in> set (map decl_expr (declarations m)) \<union> set_option (entry m).
        typed (channel_env_of m) (process_name_set m) Map.empty e) \<and>
     (\<forall>a \<in> set (assertions m). set (assertion_processes a) \<subseteq> process_name_set m)"

lemma domain_type_iff: "domain_type (chan_domain d) = Inr ty \<longleftrightarrow> declared_type d = Some ty"
  by (auto simp: domain_type_def declared_type_def not_less not_le split: option.split channel_domain.split)

lemma map_of_names: "map_of (map (\<lambda>n. (node n, ty)) ns) x = (if x \<in> node ` set ns then Some ty else None)"
  by (induction ns) auto

lemma add_channels_iff:
  "add_channels ty ns chans = Inr chans' \<longleftrightarrow>
     distinct (map node ns) \<and> (\<forall>n \<in> set ns. chans (node n) = None) \<and>
     chans' = (\<lambda>x. if x \<in> node ` set ns then Some ty else chans x)"
proof (induction ns arbitrary: chans)
  case (Cons n ns)
  have eq: "(\<lambda>x. if x \<in> node ` set ns then Some ty else (chans(node n \<mapsto> ty)) x) =
      (\<lambda>x. if x \<in> node ` set (n # ns) then Some ty else chans x)" by auto
  have fresh: "(\<forall>k \<in> set ns. (chans(node n \<mapsto> ty)) (node k) = None) \<longleftrightarrow>
      node n \<notin> node ` set ns \<and> (\<forall>k \<in> set ns. chans (node k) = None)"
    by (auto simp: image_iff split: if_splits)
  show ?case
  proof (cases "chans (node n)")
    case None
    then have "add_channels ty (n # ns) chans = Inr chans' \<longleftrightarrow> add_channels ty ns (chans(node n \<mapsto> ty)) = Inr chans'"
      by simp
    also have "\<dots> \<longleftrightarrow> distinct (map node (n # ns)) \<and> (\<forall>k \<in> set (n # ns). chans (node k) = None) \<and>
        chans' = (\<lambda>x. if x \<in> node ` set (n # ns) then Some ty else chans x)"
      unfolding Cons.IH eq fresh using None by auto
    finally show ?thesis .
  qed simp
qed auto

lemma dom_declared: "dom (map_of (declared_channels ds)) = fst ` set (declared_channels ds)"
  by (simp add: dom_map_of_conv_image_fst)

lemma channel_types_iff:
  "channel_types ds chans = Inr chans' \<longleftrightarrow>
     (\<forall>d \<in> set ds. declared_type d \<noteq> None) \<and> distinct (map fst (declared_channels ds)) \<and>
     fst ` set (declared_channels ds) \<inter> dom chans = {} \<and> chans' = chans ++ map_of (declared_channels ds)"
proof (induction ds arbitrary: chans)
  case Nil
  then show ?case by (auto simp: declared_channels_def)
next
  case (Cons d ds)
  show ?case
  proof (cases "declared_type d")
    case None
    then show ?thesis using domain_type_iff [of d] by (auto simp: and_then_eq_Inr)
  next
    case (Some ty)
    let ?here = "map (\<lambda>n. (node n, ty)) (chan_names d)"
    have ds: "declared_channels (d # ds) = ?here @ declared_channels ds"
      by (simp add: declared_channels_def Some)
    have fst_here: "map fst ?here = map node (chan_names d)" "fst ` set ?here = node ` set (chan_names d)"
      by (simp_all add: image_image)
    have eq: "channel_types (d # ds) chans = Inr chans' \<longleftrightarrow>
        (\<exists>c. add_channels ty (chan_names d) chans = Inr c \<and> channel_types ds c = Inr chans')"
      using domain_type_iff [of d] Some by (auto simp: and_then_eq_Inr)
    let ?A = "node ` set (chan_names d)" and ?F = "fst ` set (declared_channels ds)"
    have here: "(\<lambda>x. if x \<in> ?A then Some ty else chans x) = chans ++ map_of ?here"
      by (auto simp: map_add_def map_of_names)
    have dom_here: "dom (chans ++ map_of ?here) = dom chans \<union> ?A"
      by (simp add: dom_map_of_conv_image_fst image_image Un_commute)
    have none: "(\<forall>n \<in> set (chan_names d). chans (node n) = None) \<longleftrightarrow> ?A \<inter> dom chans = {}" by auto
    have dist: "distinct (map fst (?here @ declared_channels ds)) \<longleftrightarrow>
        distinct (map node (chan_names d)) \<and> distinct (map fst (declared_channels ds)) \<and> ?A \<inter> ?F = {}"
      unfolding map_append distinct_append fst_here(1) by (simp add: image_image)
    have ext: "(chans ++ map_of ?here) ++ map_of (declared_channels ds) = chans ++ map_of (?here @ declared_channels ds)"
      if "?A \<inter> ?F = {}"
    proof -
      have "dom (map_of ?here) \<inter> dom (map_of (declared_channels ds)) = {}"
        using that by (simp only: dom_map_of_conv_image_fst fst_here(2))
      then have "map_of ?here ++ map_of (declared_channels ds) = map_of (declared_channels ds) ++ map_of ?here"
        by (rule map_add_comm)
      then show ?thesis by (simp only: map_of_append map_add_assoc [symmetric])
    qed
    have "channel_types (d # ds) chans = Inr chans' \<longleftrightarrow>
        distinct (map node (chan_names d)) \<and> ?A \<inter> dom chans = {} \<and> channel_types ds (chans ++ map_of ?here) = Inr chans'"
      unfolding eq add_channels_iff none here by blast
    also have "\<dots> \<longleftrightarrow> distinct (map node (chan_names d)) \<and> ?A \<inter> dom chans = {} \<and>
        (\<forall>d \<in> set ds. declared_type d \<noteq> None) \<and> distinct (map fst (declared_channels ds)) \<and>
        ?F \<inter> (dom chans \<union> ?A) = {} \<and> chans' = (chans ++ map_of ?here) ++ map_of (declared_channels ds)"
      unfolding Cons.IH dom_here ..
    also have "\<dots> \<longleftrightarrow> (\<forall>d \<in> set ds. declared_type d \<noteq> None) \<and>
        distinct (map fst (?here @ declared_channels ds)) \<and> (?A \<union> ?F) \<inter> dom chans = {} \<and>
        chans' = chans ++ map_of (?here @ declared_channels ds)"
      using ext unfolding dist by (cases "?A \<inter> ?F = {}") (simp only:, blast)+
    finally show ?thesis unfolding ds set_append image_Un fst_here(2) using Some by (simp only: list.set ball_simps) simp
  qed
qed

lemma process_names_iff:
  "process_names ds procs = Inr procs' \<longleftrightarrow>
     distinct (map (node \<circ> decl_name) ds) \<and> set (map (node \<circ> decl_name) ds) \<inter> procs = {} \<and>
     procs' = procs \<union> set (map (node \<circ> decl_name) ds)"
  by (induction ds arbitrary: procs) auto

lemma typecheck_all_iff: "typecheck_all es chans procs = Inr u \<longleftrightarrow> (\<forall>e \<in> set es. typed chans procs Map.empty e)"
  by (induction es) (auto simp: and_then_eq_Inr typecheck_expr_iff)

lemma typecheck_assertions_iff:
  "typecheck_assertions as procs = Inr u \<longleftrightarrow> (\<forall>a \<in> set as. set (assertion_processes a) \<subseteq> procs)"
  by (induction as procs rule: typecheck_assertions.induct) (auto simp: and_then_eq_Inr check_process_name_iff)

definition parsed_of :: "cmodule \<Rightarrow> parsed_module" where
  "parsed_of m = \<lparr>pm_channels = channels m, pm_declarations = declarations m, pm_assertions = assertions m,
     pm_entry = entry m, pm_unsupported = []\<rparr>"

lemma typecheck_module_eq: "typecheck_module parsed = Inr m \<longleftrightarrow> parsed = parsed_of m \<and> well_typed m"
proof (cases "pm_unsupported parsed")
  case (Cons u us)
  then show ?thesis by (auto simp: typecheck_module_def parsed_of_def)
next
  case Nil
  define m' where "m' = \<lparr>channels = pm_channels parsed, declarations = pm_declarations parsed,
    assertions = pm_assertions parsed, entry = pm_entry parsed\<rparr>"
  have "typecheck_module parsed = Inr m \<longleftrightarrow> m = m' \<and> well_typed m'"
    unfolding typecheck_module_def m'_def well_typed_def channel_env_of_def process_name_set_def
    by (auto simp: Nil and_then_eq_Inr channel_types_iff process_names_iff typecheck_all_iff typecheck_assertions_iff
        typecheck_expr_iff split: option.splits)
  moreover have "m = m' \<longleftrightarrow> parsed = parsed_of m"
    using Nil by (auto simp: m'_def parsed_of_def)
  ultimately show ?thesis by auto
qed

section \<open>Properties\<close>

text \<open>C22: the type checker accepts exactly the well-typed modules without unsupported syntax: valid and distinct
  channels, distinct processes, typed expressions, and assertions on declared processes.\<close>

theorem typecheck_module_iff:
  "typecheck_module parsed = Inr m \<longleftrightarrow> parsed = parsed_of m \<and> well_typed m"
  by (rule typecheck_module_eq)

end
