(* ===== verification/Cspx_Printer.thy ===== *)
theory Cspx_Printer
  imports Cspx_Typecheck
begin

text \<open>
  The concrete syntax of modules as a printer with the least parentheses, and the round trips: the parser reads
  the printed tokens of an expression, of a declaration and of a module back, up to the spans.
\<close>

section \<open>Syntax trees without spans\<close>

definition no_span :: source_span where
  "no_span = \<lparr>path = [], start_line = 0, start_col = 0, end_line = 0, end_col = 0\<rparr>"

definition erase_span :: "'a spanned \<Rightarrow> 'a spanned" where
  "erase_span x = Spanned (node x) no_span"

fun erase_seg :: "event_seg \<Rightarrow> event_seg" where
  "erase_seg (Dot v) = Dot (erase_span v)"
| "erase_seg (Out v) = Out (erase_span v)"
| "erase_seg (In i) = In (erase_span i)"

definition erase_event :: "event spanned \<Rightarrow> event spanned" where
  "erase_event ev = Spanned \<lparr>ev_channel = erase_span (ev_channel (node ev)),
     ev_seg = map_option erase_seg (ev_seg (node ev))\<rparr> no_span"

definition erase_set :: "event_set \<Rightarrow> event_set" where
  "erase_set s = \<lparr>set_channels = map erase_span (set_channels s)\<rparr>"

fun erase_expr :: "process_expr spanned \<Rightarrow> process_expr spanned" where
  "erase_expr (Spanned Stop s) = Spanned Stop no_span"
| "erase_expr (Spanned (Ref n) s) = Spanned (Ref (erase_span n)) no_span"
| "erase_expr (Spanned (Prefix ev e) s) = Spanned (Prefix (erase_event ev) (erase_expr e)) no_span"
| "erase_expr (Spanned (Choice k l r) s) = Spanned (Choice k (erase_expr l) (erase_expr r)) no_span"
| "erase_expr (Spanned (Parallel k l r sync) s) =
     Spanned (Parallel k (erase_expr l) (erase_expr r) (map_option erase_set sync)) no_span"
| "erase_expr (Spanned (Hide e hide) s) = Spanned (Hide (erase_expr e) (erase_set hide)) no_span"

lemma erase_span_eq [simp]: "erase_span x = erase_span y \<longleftrightarrow> node x = node y"
  by (simp add: erase_span_def)

lemma map_erase_span [simp]: "map erase_span xs = map erase_span ys \<longleftrightarrow> map node xs = map node ys"
  by (auto simp: list_eq_iff_nth_eq erase_span_def)

lemma erase_set_eq [simp]: "erase_set s = erase_set t \<longleftrightarrow> map node (set_channels s) = map node (set_channels t)"
  by (simp add: erase_set_def)

lemma erase_expr_span: "erase_expr (Spanned e s) = erase_expr (Spanned e t)"
  by (cases e) simp_all

section \<open>The printer\<close>

fun show_value :: "event_value \<Rightarrow> token_kind" where
  "show_value (VInt v) = TInt v"
| "show_value (VIdent x) = TIdent x"

fun show_input :: "event_input \<Rightarrow> token_kind" where
  "show_input (InInt v) = TInt v"
| "show_input (InBind x) = TIdent x"

fun show_seg :: "event_seg option \<Rightarrow> token_kind list" where
  "show_seg None = []"
| "show_seg (Some (Dot v)) = [TDot, show_value (node v)]"
| "show_seg (Some (Out v)) = [TBang, show_value (node v)]"
| "show_seg (Some (In i)) = [TQuestion, show_input (node i)]"

definition show_event :: "event \<Rightarrow> token_kind list" where
  "show_event ev = TIdent (node (ev_channel ev)) # show_seg (ev_seg ev)"

definition show_more :: "string list \<Rightarrow> token_kind list" where
  "show_more is = concat (map (\<lambda>i. [TComma, TIdent i]) is)"

fun show_names :: "string list \<Rightarrow> token_kind list" where
  "show_names [] = []"
| "show_names (i # is) = TIdent i # show_more is"

definition show_set :: "event_set \<Rightarrow> token_kind list" where
  "show_set s = show_names (map node (set_channels s))"

text \<open>The levels of the grammar: choice, parallel composition, hiding, prefix and atom.\<close>

fun level :: "process_expr \<Rightarrow> nat" where
  "level Stop = 4"
| "level (Ref n) = 4"
| "level (Prefix ev e) = 3"
| "level (Hide e s) = 2"
| "level (Parallel k l r s) = 1"
| "level (Choice k l r) = 0"

definition wrap :: "nat \<Rightarrow> process_expr spanned \<Rightarrow> token_kind list \<Rightarrow> token_kind list" where
  "wrap lev e ts = (if level (node e) < lev then TLParen # ts @ [TRParen] else ts)"

fun show_choice :: "choice_kind \<Rightarrow> token_kind" where
  "show_choice External = TExternalChoice"
| "show_choice Internal = TInternalChoice"

fun show_sync :: "event_set option \<Rightarrow> token_kind list" where
  "show_sync None = [TInterleaving]"
| "show_sync (Some s) = TIfaceOpen # show_set s @ [TIfaceClose]"

fun show_expr :: "process_expr spanned \<Rightarrow> token_kind list" where
  "show_expr (Spanned Stop s) = [TStop]"
| "show_expr (Spanned (Ref n) s) = [TIdent (node n)]"
| "show_expr (Spanned (Prefix ev e) s) = show_event (node ev) @ TArrow # wrap 3 e (show_expr e)"
| "show_expr (Spanned (Choice k l r) s) =
     wrap 0 l (show_expr l) @ show_choice k # wrap 1 r (show_expr r)"
| "show_expr (Spanned (Parallel k l r sync) s) =
     wrap 1 l (show_expr l) @ show_sync sync @ wrap 2 r (show_expr r)"
| "show_expr (Spanned (Hide e hide) s) =
     wrap 2 e (show_expr e) @ THideOp # TEventSetOpen # show_set hide @ [TEventSetClose]"

text \<open>The expressions the parser builds: interleaving has no synchronisation set, and the set of an interface
  parallel is not empty.\<close>

fun sync_ok :: "parallel_kind \<Rightarrow> event_set option \<Rightarrow> bool" where
  "sync_ok Interleaving s = (s = None)"
| "sync_ok Interface s = (\<exists>t. s = Some t \<and> set_channels t \<noteq> [])"

fun expr_ok :: "process_expr spanned \<Rightarrow> bool" where
  "expr_ok (Spanned (Prefix ev e) s) = expr_ok e"
| "expr_ok (Spanned (Choice k l r) s) = (expr_ok l \<and> expr_ok r)"
| "expr_ok (Spanned (Parallel k l r sync) s) = (expr_ok l \<and> expr_ok r \<and> sync_ok k sync)"
| "expr_ok (Spanned (Hide e hide) s) = expr_ok e"
| "expr_ok e = True"

section \<open>The parser on tokens of known kinds\<close>

lemma on_kinds:
  "kinds p = k # ks \<Longrightarrow> consume_is k' p = (if k = k' then Some (advance p) else None)"
  "kinds p = k # ks \<Longrightarrow> peek_is k' p = (k = k')"
  "kinds p = k # ks \<Longrightarrow> peek_kind p = Some k"
  "kinds p = k # ks \<Longrightarrow> kinds (advance p) = ks"
  "kinds p = TIdent i # ks \<Longrightarrow> expect_ident_spanned m p = Inr (Spanned i (tk_span (tokens p ! ppos p)), advance p)"
  "kinds p = TIdent i # ks \<Longrightarrow> expect_ident m p = Inr (i, advance p)"
  "kinds p = TInt v # ks \<Longrightarrow> expect_int_spanned m p = Inr (Spanned v (tk_span (tokens p ! ppos p)), advance p)"
  "kinds p = k # ks \<Longrightarrow> expect k m p = Inr (tokens p ! ppos p, advance p)"
  "kinds p = TNewline # ks \<Longrightarrow> expect_line_end p = Inr ((), advance p)"
  using kinds_Cons [of p]
  by (auto simp: consume_is_def peek_is_kinds peek_kind_kinds expect_ident_spanned_def expect_ident_def
      expect_int_spanned_def expect_def next_token_def peek_def peek_n_def expect_line_end_def)

lemma not_ident: "kinds p = k # ks \<Longrightarrow> (\<And>i. k \<noteq> TIdent i) \<Longrightarrow> \<exists>e. expect_ident_spanned m p = Inl e"
  using kinds_Cons [of p k ks]
  by (auto simp: expect_ident_spanned_def next_token_def peek_def peek_n_def split: token_kind.splits)

lemma expect_value_kinds:
  "kinds p = show_value v # ks \<Longrightarrow> \<exists>v'. expect_value m p = Inr (v', advance p) \<and> node v' = v"
  by (cases v) (auto simp: expect_value_def on_kinds)

lemma expect_input_kinds:
  "kinds p = show_input v # ks \<Longrightarrow> \<exists>v'. expect_input m p = Inr (v', advance p) \<and> node v' = v"
  by (cases v) (auto simp: expect_input_def on_kinds)

lemma comma_idents_kinds:
  "kinds p = show_more is @ k # ks \<Longrightarrow> k \<noteq> TComma \<Longrightarrow>
   \<exists>is' q. comma_idents m p = Inr (is', q) \<and> map node is' = is \<and> kinds q = k # ks"
proof (induction "is" arbitrary: p)
  case Nil
  then show ?case by (subst comma_idents.simps) (simp add: show_more_def on_kinds)
next
  case (Cons i "is")
  then have p: "kinds p = TComma # TIdent i # show_more is @ k # ks" by (simp add: show_more_def)
  let ?q = "advance (advance p)"
  have "kinds ?q = show_more is @ k # ks" using p by (simp add: on_kinds)
  from Cons.IH [OF this Cons.prems(2)] obtain is' q where
    "comma_idents m ?q = Inr (is', q)" "map node is' = is" "kinds q = k # ks" by blast
  with p show ?case by (subst comma_idents.simps) (simp add: on_kinds)
qed

lemma parse_event_kinds:
  assumes "kinds p = show_event ev @ k # ks" and "k \<notin> {TDot, TBang, TQuestion}"
  shows "\<exists>ev' q. parse_event p = Inr (ev', q) \<and> erase_event ev' = erase_event (Spanned ev s) \<and> kinds q = k # ks"
proof -
  obtain q where q: "\<And>m. expect_ident_spanned m p = Inr (Spanned (node (ev_channel ev)) (tk_span (tokens p ! ppos p)), q)"
      "kinds q = show_seg (ev_seg ev) @ k # ks"
    using assms(1) by (simp add: show_event_def on_kinds)
  note defs = parse_event_def Let_def erase_event_def
  show ?thesis
  proof (cases "ev_seg ev")
    case None
    with q assms(2) show ?thesis by (simp add: defs on_kinds)
  next
    case (Some seg)
    show ?thesis
    proof (cases seg)
      case (Dot v)
      with q Some have k: "kinds q = TDot # show_value (node v) # k # ks" by simp
      from expect_value_kinds [of "advance q" "node v" "k # ks"] k obtain v' where
        "expect_value ''dot payload'' (advance q) = Inr (v', advance (advance q))" "node v' = node v"
        by (auto simp: on_kinds)
      with q Some Dot k show ?thesis by (simp add: defs on_kinds)
    next
      case (Out v)
      with q Some have k: "kinds q = TBang # show_value (node v) # k # ks" by simp
      from expect_value_kinds [of "advance q" "node v" "k # ks"] k obtain v' where
        "expect_value ''output payload'' (advance q) = Inr (v', advance (advance q))" "node v' = node v"
        by (auto simp: on_kinds)
      with q Some Out k show ?thesis by (simp add: defs on_kinds)
    next
      case (In v)
      with q Some have k: "kinds q = TQuestion # show_input (node v) # k # ks" by simp
      from expect_input_kinds [of "advance q" "node v" "k # ks"] k obtain v' where
        "expect_input ''input pattern'' (advance q) = Inr (v', advance (advance q))" "node v' = node v"
        by (auto simp: on_kinds)
      with q Some In k show ?thesis by (simp add: defs on_kinds)
    qed
  qed
qed

lemma parse_iface_sync_set_kinds:
  assumes "kinds p = show_set s @ k # ks" and "set_channels s \<noteq> []" and "k \<noteq> TComma"
  shows "\<exists>s' q. parse_iface_sync_set p = Inr (s', q) \<and> erase_set s' = erase_set s \<and> kinds q = k # ks"
proof -
  obtain c cs where c: "set_channels s = c # cs" using assms(2) by (cases "set_channels s") auto
  with assms(1) have p: "kinds p = TIdent (node c) # show_more (map node cs) @ k # ks" by (simp add: show_set_def)
  then have "kinds (advance p) = show_more (map node cs) @ k # ks" by (simp add: on_kinds)
  from comma_idents_kinds [OF this assms(3)] obtain is' q where
    "comma_idents ''sync set element'' (advance p) = Inr (is', q)" "map node is' = map node cs" "kinds q = k # ks"
    by blast
  with p c show ?thesis by (simp add: parse_iface_sync_set_def on_kinds)
qed

lemma parse_event_set_kinds:
  assumes "kinds p = TEventSetOpen # show_set s @ TEventSetClose # ks"
  shows "\<exists>s' sp q. parse_event_set p = Inr ((s', sp), q) \<and> erase_set s' = erase_set s \<and> kinds q = ks"
proof (cases "set_channels s")
  case Nil
  with assms have "kinds p = TEventSetOpen # TEventSetClose # ks" by (simp add: show_set_def)
  then show ?thesis by (simp add: parse_event_set_def on_kinds Nil)
next
  case (Cons c cs)
  with assms have p: "kinds p = TEventSetOpen # TIdent (node c) # show_more (map node cs) @ TEventSetClose # ks"
    by (simp add: show_set_def)
  then have "kinds (advance (advance p)) = show_more (map node cs) @ TEventSetClose # ks" by (simp add: on_kinds)
  then obtain is' q where
    "comma_idents ''set element'' (advance (advance p)) = Inr (is', q)" "map node is' = map node cs"
    "kinds q = TEventSetClose # ks" using comma_idents_kinds by blast
  with p Cons show ?thesis by (simp add: parse_event_set_def on_kinds)
qed

section \<open>Expressions are read back\<close>

text \<open>The tokens that can follow an expression at each level of the grammar.\<close>

definition closing :: "nat \<Rightarrow> token_kind set" where
  "closing lev = {TNewline, TEof, TRParen, TExternalChoice, TInternalChoice} \<union>
     (if 1 \<le> lev then {TInterleaving, TIfaceOpen} else {}) \<union> (if 2 \<le> lev then {THideOp} else {})"

text \<open>Reading an expression from given tokens at each level: the functions with a loop come to the loop with that
  expression.\<close>

definition parses0 :: "process_expr spanned \<Rightarrow> token_kind list \<Rightarrow> bool" where
  "parses0 e ts \<longleftrightarrow> (\<forall>n p k ks. kinds p = ts @ k # ks \<longrightarrow> k \<in> closing 0 \<longrightarrow> enough 5 n p \<longrightarrow>
     (\<exists>m e' q. parse_choice n p = parse_choice_loop m e' q \<and> enough 1 m q \<and> kinds q = k # ks \<and>
        erase_expr e' = erase_expr e))"

definition parses1 :: "process_expr spanned \<Rightarrow> token_kind list \<Rightarrow> bool" where
  "parses1 e ts \<longleftrightarrow> (\<forall>n p k ks. kinds p = ts @ k # ks \<longrightarrow> k \<in> closing 1 \<longrightarrow> enough 4 n p \<longrightarrow>
     (\<exists>m e' q. parse_parallel n p = parse_parallel_loop m e' q \<and> enough 1 m q \<and> kinds q = k # ks \<and>
        erase_expr e' = erase_expr e))"

definition parses2 :: "process_expr spanned \<Rightarrow> token_kind list \<Rightarrow> bool" where
  "parses2 e ts \<longleftrightarrow> (\<forall>n p k ks. kinds p = ts @ k # ks \<longrightarrow> k \<in> closing 2 \<longrightarrow> enough 3 n p \<longrightarrow>
     (\<exists>e' q. parse_hide n p = Some (parse_hide_loop e' q) \<and> kinds q = k # ks \<and> erase_expr e' = erase_expr e))"

definition parses3 :: "process_expr spanned \<Rightarrow> token_kind list \<Rightarrow> bool" where
  "parses3 e ts \<longleftrightarrow> (\<forall>n p k ks. kinds p = ts @ k # ks \<longrightarrow> k \<in> closing 2 \<longrightarrow> enough 2 n p \<longrightarrow>
     (\<exists>e' q. parse_prefix n p = Some (Inr (e', q)) \<and> kinds q = k # ks \<and> erase_expr e' = erase_expr e))"

definition parses4 :: "process_expr spanned \<Rightarrow> token_kind list \<Rightarrow> bool" where
  "parses4 e ts \<longleftrightarrow> (\<forall>n p k ks. kinds p = ts @ k # ks \<longrightarrow> k \<in> closing 2 \<longrightarrow> enough 1 n p \<longrightarrow>
     (\<exists>e' q. parse_atom n p = Some (Inr (e', q)) \<and> kinds q = k # ks \<and> erase_expr e' = erase_expr e))"

lemma closing_mono: "lev \<le> lev' \<Longrightarrow> k \<in> closing lev \<Longrightarrow> k \<in> closing lev'"
  by (auto simp: closing_def split: if_splits)

lemma enough_Suc: "enough (Suc r) n p \<Longrightarrow> \<exists>m. n = Suc m"
  by (cases n) (auto simp: enough_def)

lemmas enough_Suc' = enough_Suc [of 0, simplified]

lemma further_of_returns:
  "returns_some p r \<Longrightarrow> r = Some (Inr (x, q)) \<Longrightarrow> further p q"
  by (simp add: returns_some_def)

lemma further_by_kinds: "kinds p = k # ks \<Longrightarrow> k \<noteq> TEof \<Longrightarrow> further p (advance p)"
  by (rule advance_further)

lemma parses1_close:
  assumes "parses1 e ts" and "kinds p = ts @ k # ks" and "k \<in> closing 0" and "enough 4 n p"
  obtains e' q where "parse_parallel n p = Some (Inr (e', q))" "kinds q = k # ks" "erase_expr e' = erase_expr e"
    "further p q"
proof -
  have "k \<in> closing 1" using assms(3) by (rule closing_mono [rotated]) simp
  with assms obtain m e' q where q: "parse_parallel n p = parse_parallel_loop m e' q" "enough 1 m q"
      "kinds q = k # ks" "erase_expr e' = erase_expr e"
    unfolding parses1_def by blast
  obtain m' where "m = Suc m'" using enough_Suc [of 0 m q] q(2) by auto
  with q assms(3) have r: "parse_parallel n p = Some (Inr (e', q))" by (auto simp: on_kinds closing_def)
  moreover have "further p q"
    using further_of_returns [OF _ r] parse_returns [of n] assms(4) by blast
  ultimately show ?thesis using q that by blast
qed

lemma parses2_close:
  assumes "parses2 e ts" and "kinds p = ts @ k # ks" and "k \<in> closing 1" and "enough 3 n p"
  obtains e' q where "parse_hide n p = Some (Inr (e', q))" "kinds q = k # ks" "erase_expr e' = erase_expr e"
    "further p q"
proof -
  have "k \<in> closing 2" using assms(3) by (rule closing_mono [rotated]) simp
  with assms obtain e' q where q: "parse_hide n p = Some (parse_hide_loop e' q)"
      "kinds q = k # ks" "erase_expr e' = erase_expr e"
    unfolding parses2_def by blast
  with assms(3) have r: "parse_hide n p = Some (Inr (e', q))"
    by (subst (asm) parse_hide_loop.simps) (auto simp: on_kinds closing_def)
  moreover have "further p q"
    using further_of_returns [OF _ r] parse_returns [of n] assms(4) by blast
  ultimately show ?thesis using q that by blast
qed

lemma parses1_0:
  assumes "parses1 e ts" shows "parses0 e ts"
  unfolding parses0_def
proof (intro allI impI)
  fix n p k ks assume p: "kinds p = ts @ k # ks" "k \<in> closing 0" "enough 5 n p"
  obtain n' where n: "n = Suc n'" using enough_Suc [of 4 n p] p(3) by auto
  obtain e' q where "parse_parallel n' p = Some (Inr (e', q))" "kinds q = k # ks" "erase_expr e' = erase_expr e"
      "further p q"
    using parses1_close [OF assms p(1,2), of n'] enough_same [of 5 n' p 4] p(3) n by auto
  then show "\<exists>m e' q. parse_choice n p = parse_choice_loop m e' q \<and> enough 1 m q \<and> kinds q = k # ks \<and>
        erase_expr e' = erase_expr e"
    using enough_further [of 4 n' p q 1] p(3) n by auto
qed

lemma parses2_1:
  assumes "parses2 e ts" shows "parses1 e ts"
  unfolding parses1_def
proof (intro allI impI)
  fix n p k ks assume p: "kinds p = ts @ k # ks" "k \<in> closing 1" "enough 4 n p"
  obtain n' where n: "n = Suc n'" using enough_Suc [of 3 n p] p(3) by auto
  obtain e' q where "parse_hide n' p = Some (Inr (e', q))" "kinds q = k # ks" "erase_expr e' = erase_expr e"
      "further p q"
    using parses2_close [OF assms p(1,2), of n'] enough_same [of 4 n' p 3] p(3) n by auto
  then show "\<exists>m e' q. parse_parallel n p = parse_parallel_loop m e' q \<and> enough 1 m q \<and> kinds q = k # ks \<and>
        erase_expr e' = erase_expr e"
    using enough_further [of 3 n' p q 1] p(3) n by auto
qed

lemma parses3_2:
  assumes "parses3 e ts" shows "parses2 e ts"
  unfolding parses2_def
proof (intro allI impI)
  fix n p k ks assume p: "kinds p = ts @ k # ks" "k \<in> closing 2" "enough 3 n p"
  obtain n' where n: "n = Suc n'" using enough_Suc [of 2 n p] p(3) by auto
  have "enough 2 n' p" using enough_same [of 3 n' p 2] p(3) n by simp
  with assms p(1,2) obtain e' q where
      "parse_prefix n' p = Some (Inr (e', q))" "kinds q = k # ks" "erase_expr e' = erase_expr e"
    unfolding parses3_def by blast
  then show "\<exists>e' q. parse_hide n p = Some (parse_hide_loop e' q) \<and> kinds q = k # ks \<and> erase_expr e' = erase_expr e"
    using n by auto
qed

lemma parses_choice:
  assumes "parses0 l ls" and "parses1 r rs"
  shows "parses0 (Spanned (Choice c l r) s) (ls @ show_choice c # rs)"
  unfolding parses0_def
proof (intro allI impI)
  fix n p k ks
  assume p: "kinds p = (ls @ show_choice c # rs) @ k # ks" "k \<in> closing 0" "enough 5 n p"
  have "show_choice c \<in> closing 0" by (cases c) (simp_all add: closing_def)
  with assms(1) p(1,3) obtain m l' q where q: "parse_choice n p = parse_choice_loop m l' q" "enough 1 m q"
      "kinds q = show_choice c # rs @ k # ks" "erase_expr l' = erase_expr l"
    unfolding parses0_def by (metis append.assoc append_Cons)
  obtain m' where m: "m = Suc m'" using enough_Suc [of 0 m q] q(2) by auto
  have f: "further q (advance q)" using advance_further [OF q(3)] by (cases c) simp_all
  then have "enough 4 m' (advance q)" using enough_further [of 0 m' q "advance q" 4] q(2) m by simp
  with parses1_close [OF assms(2) _ p(2), of "advance q" ks m'] on_kinds(4) [OF q(3)] obtain r' t where
    r: "parse_parallel m' (advance q) = Some (Inr (r', t))" "kinds t = k # ks" "erase_expr r' = erase_expr r"
      "further (advance q) t" by auto
  have "further q t" using f r(4) by (metis further_ahead further_trans(1))
  then have "enough 1 m' t" using enough_further [of 0 m' q t 1] q(2) m by simp
  moreover have "parse_choice n p =
      parse_choice_loop m' (Spanned (Choice c l' r') (merge_span (span l') (span r'))) t"
    using q(1,3) m r(1) by (cases c) (simp_all add: on_kinds)
  ultimately show "\<exists>m e' q. parse_choice n p = parse_choice_loop m e' q \<and> enough 1 m q \<and> kinds q = k # ks \<and>
      erase_expr e' = erase_expr (Spanned (Choice c l r) s)"
    using q(4) r(2,3) by (metis erase_expr.simps(4))
qed

lemma parses_parallel:
  assumes "parses1 l ls" and "parses2 r rs" and "sync_ok c sync"
  shows "parses1 (Spanned (Parallel c l r sync) s) (ls @ show_sync sync @ rs)"
  unfolding parses1_def
proof (intro allI impI)
  fix n p k ks
  assume p: "kinds p = (ls @ show_sync sync @ rs) @ k # ks" "k \<in> closing 1" "enough 4 n p"
  obtain k' ks' where sync: "show_sync sync = k' # ks'" "k' \<in> closing 1" by (cases sync) (auto simp: closing_def)
  then have "kinds p = ls @ k' # (ks' @ rs @ k # ks)" using p(1) by simp
  with assms(1) p(3) sync(2) obtain m l' q where q: "parse_parallel n p = parse_parallel_loop m l' q" "enough 1 m q"
      "kinds q = k' # ks' @ rs @ k # ks" "erase_expr l' = erase_expr l"
    unfolding parses1_def by blast
  obtain m' where m: "m = Suc m'" using enough_Suc [of 0 m q] q(2) by auto
  obtain sync' t where t: "further q t" "kinds t = rs @ k # ks"
      "parse_parallel_loop m l' q = parsed_then (parse_hide m' t) (\<lambda>right u.
         parse_parallel_loop m' (Spanned (Parallel c l' right sync') (merge_span (span l') (span right))) u)"
      "map_option erase_set sync' = map_option erase_set sync"
  proof (cases sync)
    case None
    with assms(3) have c: "c = Interleaving" by (cases c) simp_all
    with q(3) sync None have "kinds q = TInterleaving # rs @ k # ks" by simp
    with that [of "advance q" None] show ?thesis using advance_further [of q TInterleaving] None c m by (simp add: on_kinds)
  next
    case (Some set)
    with assms(3) have c: "c = Interface" "set_channels set \<noteq> []" by (cases c; simp)+
    from q(3) sync Some have k: "kinds q = TIfaceOpen # show_set set @ TIfaceClose # rs @ k # ks" by simp
    then have "kinds (advance q) = show_set set @ TIfaceClose # rs @ k # ks" by (simp add: on_kinds)
    from parse_iface_sync_set_kinds [OF this c(2)] obtain set' u where
      u: "parse_iface_sync_set (advance q) = Inr (set', u)" "erase_set set' = erase_set set"
         "kinds u = TIfaceClose # rs @ k # ks" by auto
    have "further (advance q) u" using parse_iface_sync_set_reads [of "advance q"] u(1) by simp
    then have "further q (advance u)"
      using advance_further [OF k] advance_further [OF u(3)] by (metis further_ahead further_trans(1) token_kind.distinct)
    with that [of "advance u" "Some set'"] show ?thesis using u k c m Some by (simp add: on_kinds)
  qed
  have "enough 3 m' t" using enough_further [of 0 m' q t 3] q(2) m t(1) by simp
  with parses2_close [OF assms(2) t(2) p(2)] obtain r' v where
    r: "parse_hide m' t = Some (Inr (r', v))" "kinds v = k # ks" "erase_expr r' = erase_expr r" "further t v" by metis
  have "further q v" using t(1) r(4) by (metis further_ahead further_trans(1))
  then have "enough 1 m' v" using enough_further [of 0 m' q v 1] q(2) m by simp
  moreover have "parse_parallel n p =
      parse_parallel_loop m' (Spanned (Parallel c l' r' sync') (merge_span (span l') (span r'))) v"
    using q(1) t(3) r(1) by simp
  moreover have "erase_expr (Spanned (Parallel c l' r' sync') x) = erase_expr (Spanned (Parallel c l r sync) s)" for x
    using q(4) r(3) t(4) by simp
  ultimately show "\<exists>m e' q. parse_parallel n p = parse_parallel_loop m e' q \<and> enough 1 m q \<and> kinds q = k # ks \<and>
      erase_expr e' = erase_expr (Spanned (Parallel c l r sync) s)"
    using r(2) by blast
qed

lemma parses_hide:
  assumes "parses2 e ts"
  shows "parses2 (Spanned (Hide e hide) s) (ts @ THideOp # TEventSetOpen # show_set hide @ [TEventSetClose])"
  unfolding parses2_def
proof (intro allI impI)
  fix n p k ks
  assume p: "kinds p = (ts @ THideOp # TEventSetOpen # show_set hide @ [TEventSetClose]) @ k # ks" "k \<in> closing 2"
    "enough 3 n p"
  have "THideOp \<in> closing 2" by (simp add: closing_def)
  moreover have "kinds p = ts @ THideOp # TEventSetOpen # show_set hide @ TEventSetClose # k # ks" using p(1) by simp
  ultimately obtain e' q where q: "parse_hide n p = Some (parse_hide_loop e' q)"
      "kinds q = THideOp # TEventSetOpen # show_set hide @ TEventSetClose # k # ks" "erase_expr e' = erase_expr e"
    using assms p(3) unfolding parses2_def by blast
  have "kinds (advance q) = TEventSetOpen # show_set hide @ TEventSetClose # k # ks" using q(2) by (simp add: on_kinds)
  from parse_event_set_kinds [OF this] obtain hide' sp t where
    "parse_event_set (advance q) = Inr ((hide', sp), t)" "erase_set hide' = erase_set hide" "kinds t = k # ks" by blast
  moreover from this q(2) have "parse_hide_loop e' q =
      parse_hide_loop (Spanned (Hide e' hide') (merge_span (span e') sp)) t"
    by (subst parse_hide_loop.simps) (simp add: on_kinds)
  ultimately show "\<exists>e' q. parse_hide n p = Some (parse_hide_loop e' q) \<and> kinds q = k # ks \<and>
      erase_expr e' = erase_expr (Spanned (Hide e hide) s)"
    using q(1,3) by (metis erase_expr.simps(6))
qed

lemma parses_prefix:
  assumes "parses3 e ts"
  shows "parses3 (Spanned (Prefix ev e) s) (show_event (node ev) @ TArrow # ts)"
  unfolding parses3_def
proof (intro allI impI)
  fix n p k ks
  assume p: "kinds p = (show_event (node ev) @ TArrow # ts) @ k # ks" "k \<in> closing 2" "enough 2 n p"
  obtain n' where n: "n = Suc n'" using enough_Suc [of 1 n p] p(3) by (auto simp: numeral_2_eq_2)
  have "kinds p = show_event (node ev) @ TArrow # ts @ k # ks" using p(1) by simp
  from parse_event_kinds [OF this, of "span ev"] obtain ev' q where
    q: "parse_event p = Inr (ev', q)" "erase_event ev' = erase_event ev" "kinds q = TArrow # ts @ k # ks" by auto
  have "further p q" using parse_event_reads [of p] q(1) by simp
  then have "further p (advance q)"
    using advance_further [OF q(3)] by (metis further_ahead further_trans(1) token_kind.distinct)
  then have "enough 2 n' (advance q)" using enough_further [of 1 n' p _ 2] p(3) n by (simp add: numeral_2_eq_2)
  with assms on_kinds(4) [OF q(3)] p(2) obtain e' t where
    "parse_prefix n' (advance q) = Some (Inr (e', t))" "kinds t = k # ks" "erase_expr e' = erase_expr e"
    unfolding parses3_def by blast
  with q n show "\<exists>e' q. parse_prefix n p = Some (Inr (e', q)) \<and> kinds q = k # ks \<and>
      erase_expr e' = erase_expr (Spanned (Prefix ev e) s)"
    by (simp add: on_kinds)
qed

text \<open>Atoms: a token that is no identifier starts no event, and the name of a process is followed by no arrow.\<close>

lemma parses4_3:
  assumes "parses4 e (k0 # ts)" and "\<And>i. k0 = TIdent i \<Longrightarrow> ts = []"
  shows "parses3 e (k0 # ts)"
  unfolding parses3_def
proof (intro allI impI)
  fix n p k ks
  assume p: "kinds p = (k0 # ts) @ k # ks" "k \<in> closing 2" "enough 2 n p"
  obtain n' where n: "n = Suc n'" using enough_Suc [of 1 n p] p(3) by (auto simp: numeral_2_eq_2)
  have "parse_prefix n p = parse_atom n' p"
  proof (cases "\<exists>i. k0 = TIdent i")
    case True
    then obtain i where i: "k0 = TIdent i" by blast
    with assms(2) p(1) have k: "kinds p = TIdent i # k # ks" by simp
    let ?ev = "\<lparr>ev_channel = Spanned i no_span, ev_seg = None\<rparr>"
    have "kinds p = show_event ?ev @ k # ks" using k by (simp add: show_event_def)
    moreover have "k \<notin> {TDot, TBang, TQuestion}" using p(2) by (auto simp: closing_def)
    ultimately obtain ev' q where "parse_event p = Inr (ev', q)" "kinds q = k # ks"
      using parse_event_kinds by blast
    then show ?thesis using n p(2) by (auto simp: on_kinds closing_def)
  next
    case False
    with not_ident [of p k0 "ts @ k # ks" "''event channel''"] p(1)
    obtain e where "expect_ident_spanned ''event channel'' p = Inl e" by auto
    then show ?thesis using n by (simp add: parse_event_def)
  qed
  moreover have "enough 1 n' p" using enough_same [of 2 n' p 1] p(3) n by simp
  ultimately show "\<exists>e' q. parse_prefix n p = Some (Inr (e', q)) \<and> kinds q = k # ks \<and> erase_expr e' = erase_expr e"
    using assms(1) p(1,2) unfolding parses4_def by metis
qed

lemma parses_stop: "parses3 (Spanned Stop s) [TStop]"
proof (rule parses4_3)
  show "parses4 (Spanned Stop s) [TStop]" unfolding parses4_def
  proof (intro allI impI)
    fix n p k ks assume p: "kinds p = [TStop] @ k # ks" "enough 1 n p"
    obtain n' where "n = Suc n'" using enough_Suc [of 0 n p] p(2) by auto
    with p(1) show "\<exists>e' q. parse_atom n p = Some (Inr (e', q)) \<and> kinds q = k # ks \<and>
        erase_expr e' = erase_expr (Spanned Stop s)"
      by (simp add: on_kinds)
  qed
qed simp

lemma parses_ref: "parses3 (Spanned (Ref i) s) [TIdent (node i)]"
proof (rule parses4_3)
  show "parses4 (Spanned (Ref i) s) [TIdent (node i)]" unfolding parses4_def
  proof (intro allI impI)
    fix n p k ks assume p: "kinds p = [TIdent (node i)] @ k # ks" "enough 1 n p"
    obtain n' where "n = Suc n'" using enough_Suc [of 0 n p] p(2) by auto
    with p(1) show "\<exists>e' q. parse_atom n p = Some (Inr (e', q)) \<and> kinds q = k # ks \<and>
        erase_expr e' = erase_expr (Spanned (Ref i) s)"
      by (simp add: on_kinds)
  qed
qed simp

lemma parses_paren:
  assumes "parses0 e ts"
  shows "parses3 e (TLParen # ts @ [TRParen])"
proof (rule parses4_3)
  show "parses4 e (TLParen # ts @ [TRParen])" unfolding parses4_def
  proof (intro allI impI)
    fix n p k ks assume p: "kinds p = (TLParen # ts @ [TRParen]) @ k # ks" "enough 1 n p"
    obtain n' where n: "n = Suc n'" using enough_Suc [of 0 n p] p(2) by auto
    have k: "kinds p = TLParen # ts @ TRParen # k # ks" using p(1) by simp
    have f: "further p (advance p)" using advance_further [OF k] by simp
    then have en: "enough 5 n' (advance p)" using enough_further [of 0 n' p _ 5] p(2) n by simp
    have "TRParen \<in> closing 0" by (simp add: closing_def)
    with assms on_kinds(4) [OF k] en obtain m e' q where
      q: "parse_choice n' (advance p) = parse_choice_loop m e' q" "enough 1 m q" "kinds q = TRParen # k # ks"
         "erase_expr e' = erase_expr e"
      unfolding parses0_def by blast
    obtain m' where "m = Suc m'" using enough_Suc [of 0 m q] q(2) by auto
    with q have "parse_choice n' (advance p) = Some (Inr (e', q))" by (simp add: on_kinds)
    moreover have "erase_expr (Spanned (node e') sp) = erase_expr e" for sp
      using q(4) erase_expr_span [of "node e'" sp "span e'"] by simp
    ultimately show "\<exists>e' q. parse_atom n p = Some (Inr (e', q)) \<and> kinds q = k # ks \<and> erase_expr e' = erase_expr e"
      using k q(3) n by (simp add: on_kinds)
  qed
qed simp

fun parses :: "nat \<Rightarrow> process_expr spanned \<Rightarrow> token_kind list \<Rightarrow> bool" where
  "parses 0 e ts = parses0 e ts"
| "parses (Suc 0) e ts = parses1 e ts"
| "parses (Suc (Suc 0)) e ts = parses2 e ts"
| "parses (Suc (Suc (Suc n))) e ts = parses3 e ts"

lemma parses_down: "parses (Suc lev) e ts \<Longrightarrow> parses lev e ts"
  by (induction lev e ts rule: parses.induct) (simp_all add: parses1_0 parses2_1 parses3_2)

lemma parses_le: "parses lev e ts \<Longrightarrow> lev' \<le> lev \<Longrightarrow> parses lev' e ts"
  by (induction lev) (auto simp: le_Suc_eq dest: parses_down)

lemma parses_wrap:
  assumes "parses (level (node e)) e ts"
  shows "parses lev e (wrap lev e ts)"
proof (cases "level (node e) < lev")
  case True
  have "parses3 e (TLParen # ts @ [TRParen])" by (rule parses_paren) (use parses_le [OF assms, of 0] in simp)
  then have "parses (Suc (Suc (Suc lev))) e (TLParen # ts @ [TRParen])" by simp
  from parses_le [OF this, of lev] True show ?thesis by (simp add: wrap_def)
qed (use parses_le [OF assms] in \<open>simp add: wrap_def\<close>)

lemma parses_show: "expr_ok e \<Longrightarrow> parses (level (node e)) e (show_expr e)"
proof (induction e rule: show_expr.induct)
  case (4 k l r s)
  then show ?case using parses_wrap [of l "show_expr l" 0] parses_wrap [of r "show_expr r" 1]
    by (auto intro: parses_choice)
next
  case (5 k l r sync s)
  then show ?case using parses_wrap [of l "show_expr l" 1] parses_wrap [of r "show_expr r" 2]
    by (auto intro: parses_parallel simp: numeral_2_eq_2)
next
  case (6 e hide s)
  then show ?case using parses_wrap [of e "show_expr e" 2] by (auto intro: parses_hide simp: numeral_2_eq_2)
next
  case (3 ev e s)
  then show ?case using parses_wrap [of e "show_expr e" 3] by (auto intro: parses_prefix simp: numeral_3_eq_3)
qed (auto simp: eval_nat_numeral parses_stop parses_ref)

lemma parse_expr_show:
  assumes "expr_ok e" and "kinds p = show_expr e @ k # ks" and "k \<in> {TNewline, TEof, TRParen}"
  shows "\<exists>e' q. parse_expr p = Some (Inr (e', q)) \<and> kinds q = k # ks \<and> erase_expr e' = erase_expr e"
proof -
  have "parses0 e (show_expr e)" using parses_le [OF parses_show [OF assms(1)], of 0] by simp
  moreover have "enough 5 (5 * remaining p + 5) p" by (simp add: enough_def)
  ultimately obtain m e' q where q: "parse_expr p = parse_choice_loop m e' q" "enough 1 m q" "kinds q = k # ks"
      "erase_expr e' = erase_expr e"
    using assms(2,3) unfolding parses0_def parse_expr_def closing_def by blast
  obtain m' where "m = Suc m'" using enough_Suc [of 0 m q] q(2) by auto
  with q assms(3) have "parse_expr p = Some (Inr (e', q))" by (auto simp: on_kinds)
  with q show ?thesis by blast
qed

section \<open>Declarations and modules\<close>

fun erase_domain :: "channel_domain \<Rightarrow> channel_domain" where
  "erase_domain (DomIntRange a b) = DomIntRange (erase_span a) (erase_span b)"
| "erase_domain (DomNamedType n) = DomNamedType (erase_span n)"

definition erase_channel :: "channel_decl \<Rightarrow> channel_decl" where
  "erase_channel d = \<lparr>chan_names = map erase_span (chan_names d),
     chan_domain = map_option (\<lambda>x. Spanned (erase_domain (node x)) no_span) (chan_domain d)\<rparr>"

definition erase_decl :: "process_decl \<Rightarrow> process_decl" where
  "erase_decl d = \<lparr>decl_name = erase_span (decl_name d), decl_expr = erase_expr (decl_expr d)\<rparr>"

fun erase_assertion :: "assertion_decl \<Rightarrow> assertion_decl" where
  "erase_assertion (PropertyAssert t k m) = PropertyAssert (erase_span t) k m"
| "erase_assertion (RefinementAssert s op i) = RefinementAssert (erase_span s) op (erase_span i)"

definition erase_parsed :: "parsed_module \<Rightarrow> parsed_module" where
  "erase_parsed m = \<lparr>pm_channels = map erase_channel (pm_channels m), pm_declarations = map erase_decl (pm_declarations m),
     pm_assertions = map erase_assertion (pm_assertions m), pm_entry = map_option erase_expr (pm_entry m),
     pm_unsupported = pm_unsupported m\<rparr>"

fun show_domain :: "channel_domain \<Rightarrow> token_kind list" where
  "show_domain (DomIntRange a b) = [TLBrace, TInt (node a), TDotDot, TInt (node b), TRBrace]"
| "show_domain (DomNamedType n) = [TIdent (node n)]"

definition show_channel_decl :: "channel_decl \<Rightarrow> token_kind list" where
  "show_channel_decl d = TChannel # show_names (map node (chan_names d)) @
     (case chan_domain d of None \<Rightarrow> [] | Some x \<Rightarrow> TColon # show_domain (node x)) @ [TNewline]"

definition show_process_decl :: "process_decl \<Rightarrow> token_kind list" where
  "show_process_decl d = TIdent (node (decl_name d)) # TEquals # show_expr (decl_expr d) @ [TNewline]"

fun show_property_kind :: "property_kind \<Rightarrow> token_kind list" where
  "show_property_kind DeadlockFree = [TIdent ''deadlock'', TIdent ''free'']"
| "show_property_kind DivergenceFree = [TIdent ''divergence'', TIdent ''free'']"
| "show_property_kind Deterministic = [TIdent ''deterministic'']"

fun show_refinement_op :: "refinement_op \<Rightarrow> token_kind" where
  "show_refinement_op OpT = TRefineOpT"
| "show_refinement_op OpF = TRefineOpF"
| "show_refinement_op OpFD = TRefineOpFD"

fun show_assertion :: "assertion_decl \<Rightarrow> token_kind list" where
  "show_assertion (PropertyAssert t k m) =
     [TAssert, TIdent (node t), TColon, TLBracket] @ show_property_kind k @
     [TLBracket, TIdent (property_model_str m), TRBracket, TRBracket, TNewline]"
| "show_assertion (RefinementAssert s op i) =
     [TAssert, TIdent (node s), show_refinement_op op, TIdent (node i), TNewline]"

definition show_module :: "cmodule \<Rightarrow> token_kind list" where
  "show_module m = concat (map show_channel_decl (channels m)) @ concat (map show_process_decl (declarations m)) @
     concat (map show_assertion (assertions m)) @
     (case entry m of None \<Rightarrow> [] | Some e \<Rightarrow> show_expr e @ [TNewline])"

definition module_ok :: "cmodule \<Rightarrow> bool" where
  "module_ok m \<longleftrightarrow> (\<forall>d \<in> set (channels m). chan_names d \<noteq> []) \<and> (\<forall>d \<in> set (declarations m). expr_ok (decl_expr d)) \<and>
     (\<forall>e. entry m = Some e \<longrightarrow> expr_ok e)"

lemma parse_channel_domain_kinds:
  assumes "kinds p = show_domain d @ ks"
  shows "\<exists>d' q. parse_channel_domain p = Inr (d', q) \<and> erase_domain (node d') = erase_domain d \<and> kinds q = ks"
  using assms by (cases d) (simp_all add: parse_channel_domain_def on_kinds)

lemma parse_channel_decl_kinds:
  assumes "kinds p = tl (show_channel_decl d) @ ks" and "chan_names d \<noteq> []"
  shows "\<exists>d' q. parse_channel_decl p = Inr (d', q) \<and> erase_channel d' = erase_channel d \<and> kinds q = ks"
proof -
  obtain c cs where c: "chan_names d = c # cs" using assms(2) by (cases "chan_names d") auto
  define tail where "tail = (case chan_domain d of None \<Rightarrow> [] | Some x \<Rightarrow> TColon # show_domain (node x)) @ TNewline # ks"
  obtain k ks' where k: "tail = k # ks'" "k \<noteq> TComma" by (cases "chan_domain d") (simp_all add: tail_def)
  have p: "kinds p = TIdent (node c) # show_more (map node cs) @ tail"
    using assms(1) c by (simp add: show_channel_decl_def tail_def)
  have "kinds (advance p) = show_more (map node cs) @ k # ks'" using on_kinds(4) [OF p] k(1) by simp
  from comma_idents_kinds [OF this k(2)] obtain cs' q where
    q: "comma_idents ''channel name'' (advance p) = Inr (cs', q)" "map node cs' = map node cs" "kinds q = tail"
    using k(1) by blast
  have names: "map erase_span cs' = map erase_span cs" using q(2) by simp
  show ?thesis
  proof (cases "chan_domain d")
    case None
    with q(3) have "kinds q = TNewline # ks" by (simp add: tail_def)
    with p q(1) names c None show ?thesis
      by (simp add: parse_channel_decl_def on_kinds erase_channel_def)
  next
    case (Some x)
    with q(3) have t: "kinds q = TColon # show_domain (node x) @ TNewline # ks" by (simp add: tail_def)
    then have "kinds (advance q) = show_domain (node x) @ TNewline # ks" by (simp add: on_kinds)
    from parse_channel_domain_kinds [OF this] obtain x' r where
      "parse_channel_domain (advance q) = Inr (x', r)" "erase_domain (node x') = erase_domain (node x)"
      "kinds r = TNewline # ks" by blast
    with p q(1) names c Some t show ?thesis
      by (simp add: parse_channel_decl_def on_kinds erase_channel_def)
  qed
qed

lemma parse_process_decl_kinds:
  assumes "kinds p = show_process_decl d @ ks" and "expr_ok (decl_expr d)"
  shows "\<exists>d' q. parse_process_decl p = Some (Inr (d', q)) \<and> erase_decl d' = erase_decl d \<and> kinds q = ks"
proof -
  let ?q = "advance (advance p)"
  have p: "kinds p = TIdent (node (decl_name d)) # TEquals # show_expr (decl_expr d) @ TNewline # ks"
    using assms(1) by (simp add: show_process_decl_def)
  then have "kinds ?q = show_expr (decl_expr d) @ TNewline # ks" by (simp add: on_kinds)
  from parse_expr_show [OF assms(2) this] obtain e' r where
    "parse_expr ?q = Some (Inr (e', r))" "kinds r = TNewline # ks" "erase_expr e' = erase_expr (decl_expr d)" by auto
  with p show ?thesis by (simp add: parse_process_decl_def on_kinds erase_decl_def)
qed

lemma parse_assert_decl_kinds:
  assumes "kinds p = tl (show_assertion a) @ ks"
  shows "\<exists>a' q. parse_assert_decl p = Inr (a', q) \<and> erase_assertion a' = erase_assertion a \<and> kinds q = ks"
proof (cases a)
  case (PropertyAssert t k m)
  with assms show ?thesis
    by (cases k; cases m)
      (simp_all add: parse_assert_decl_def parse_property_assertion_spec_def expect_free_def on_kinds)
next
  case (RefinementAssert s op i)
  with assms show ?thesis
    by (cases op) (simp_all add: parse_assert_decl_def parse_refinement_op_def on_kinds)
qed

text \<open>How the text of an expression starts: not like a declaration, an assertion or a blank line.\<close>

definition starts_expr :: "token_kind list \<Rightarrow> bool" where
  "starts_expr ts \<longleftrightarrow> (\<forall>k rest. k \<noteq> TEquals \<longrightarrow>
     (\<exists>k1 k2 ks. ts @ k # rest = k1 # k2 # ks \<and> (k1 = TStop \<or> k1 = TLParen \<or> (\<exists>i. k1 = TIdent i \<and> k2 \<noteq> TEquals))))"

lemma starts_expr_append: "starts_expr ts \<Longrightarrow> k \<noteq> TEquals \<Longrightarrow> starts_expr (ts @ k # us)"
  unfolding starts_expr_def by simp

lemma starts_expr_simps [simp]:
  "starts_expr (TLParen # ts)" "starts_expr [TStop]" "starts_expr [TIdent i]"
  by (simp_all add: starts_expr_def neq_Nil_conv) (metis append_is_Nil_conv list.exhaust list.discI)+

lemma starts_expr_wrap: "starts_expr ts \<Longrightarrow> starts_expr (wrap lev e ts)"
  by (simp add: wrap_def)

lemma starts_expr_show: "starts_expr (show_expr e)"
proof (induction e rule: show_expr.induct)
  case (3 ev e s)
  have "starts_expr (show_event (node ev) @ TArrow # ts)" for ts
    by (cases "ev_seg (node ev)" rule: show_seg.cases) (simp_all add: starts_expr_def show_event_def)
  then show ?case by simp
next
  case (4 k l r s)
  have "show_choice k \<noteq> TEquals" by (cases k) simp_all
  with 4 show ?case by (simp add: starts_expr_append starts_expr_wrap)
next
  case (5 k l r sync s)
  have "starts_expr (ts @ show_sync sync @ us)" if "starts_expr ts" for ts us
    using starts_expr_append [OF that] by (cases sync) simp_all
  with 5 show ?case by (simp add: starts_expr_wrap)
next
  case (6 e hide s)
  then show ?case by (simp add: starts_expr_append starts_expr_wrap)
qed simp_all

lemma peek_second: "kinds p = k1 # k2 # ks \<Longrightarrow> peek_kind_n (Suc 0) p = Some k2"
  using kinds_Cons [of p k1 "k2 # ks"] kinds_Cons [of "advance p" k2 ks]
  by (simp add: peek_kind_n_def peek_n_def advance_def)

text \<open>Reading an item of a module, and a sequence of items.\<close>

definition reads_items :: "token_kind list \<Rightarrow> parsed_module \<Rightarrow> parsed_module \<Rightarrow> bool" where
  "reads_items ts m m' \<longleftrightarrow> (\<forall>m1 p k ks. erase_parsed m1 = erase_parsed m \<longrightarrow> kinds p = ts @ k # ks \<longrightarrow> k \<noteq> TNewline \<longrightarrow>
     (\<exists>m2 q. parse_items m1 p = parse_items m2 q \<and> kinds q = k # ks \<and> erase_parsed m2 = erase_parsed m'))"

lemma reads_items_Nil [simp]: "reads_items [] m m"
  unfolding reads_items_def by auto

lemma reads_items_append:
  assumes "reads_items ts m m'" and "reads_items us m' m''" and "us = [] \<or> hd us \<noteq> TNewline"
  shows "reads_items (ts @ us) m m''"
  unfolding reads_items_def
proof (intro allI impI)
  fix m1 p k ks assume a: "erase_parsed m1 = erase_parsed m" "kinds p = (ts @ us) @ k # ks" "k \<noteq> TNewline"
  obtain k' ks' where k': "us @ k # ks = k' # ks'" "k' \<noteq> TNewline" using assms(3) a(3) by (cases us) auto
  with a(2) have "kinds p = ts @ k' # ks'" by simp
  with assms(1) a(1) k'(2) obtain m2 q where
    "parse_items m1 p = parse_items m2 q" "kinds q = us @ k # ks" "erase_parsed m2 = erase_parsed m'"
    unfolding reads_items_def k'(1) by blast
  with assms(2) a(3) show "\<exists>m2 q. parse_items m1 p = parse_items m2 q \<and> kinds q = k # ks \<and>
      erase_parsed m2 = erase_parsed m''"
    unfolding reads_items_def by metis
qed

lemma reads_item:
  assumes "\<And>m1 p ks. erase_parsed m1 = erase_parsed m \<Longrightarrow> kinds p = (k1 # ts) @ ks \<Longrightarrow>
      \<exists>m2 q. parse_item m1 p = Some (Inr (m2, q)) \<and> kinds q = ks \<and> erase_parsed m2 = erase_parsed m'"
    and "k1 \<noteq> TEof"
  shows "reads_items (k1 # ts) m m'"
  unfolding reads_items_def
proof (intro allI impI)
  fix m1 p k ks assume a: "erase_parsed m1 = erase_parsed m" "kinds p = (k1 # ts) @ k # ks" "k \<noteq> TNewline"
  from assms(1) [OF a(1,2)] obtain m2 q where
    q: "parse_item m1 p = Some (Inr (m2, q))" "kinds q = k # ks" "erase_parsed m2 = erase_parsed m'" by blast
  have "consume_newlines q = q" using q(2) a(3) by (subst consume_newlines.simps) (simp add: on_kinds)
  with q(1) a(2) assms(2) have "parse_items m1 p = parse_items m2 q"
    by (subst parse_items.simps) (simp add: on_kinds)
  with q show "\<exists>m2 q. parse_items m1 p = parse_items m2 q \<and> kinds q = k # ks \<and> erase_parsed m2 = erase_parsed m'"
    by blast
qed

lemma reads_channel:
  assumes "chan_names d \<noteq> []"
  shows "reads_items (show_channel_decl d) m (m\<lparr>pm_channels := pm_channels m @ [d]\<rparr>)"
proof -
  have shape: "show_channel_decl d = TChannel # tl (show_channel_decl d)" by (simp add: show_channel_decl_def)
  show ?thesis
  proof (subst shape, rule reads_item)
    fix m1 p ks assume a: "erase_parsed m1 = erase_parsed m" "kinds p = (TChannel # tl (show_channel_decl d)) @ ks"
    then have "kinds (advance p) = tl (show_channel_decl d) @ ks" by (simp add: on_kinds)
    from parse_channel_decl_kinds [OF this assms] obtain d' q where
      "parse_channel_decl (advance p) = Inr (d', q)" "erase_channel d' = erase_channel d" "kinds q = ks" by blast
    with a show "\<exists>m2 q. parse_item m1 p = Some (Inr (m2, q)) \<and> kinds q = ks \<and>
        erase_parsed m2 = erase_parsed (m\<lparr>pm_channels := pm_channels m @ [d]\<rparr>)"
      by (simp add: parse_item_def on_kinds erase_parsed_def)
  qed simp
qed

lemma reads_assertion: "reads_items (show_assertion a) m (m\<lparr>pm_assertions := pm_assertions m @ [a]\<rparr>)"
proof -
  have shape: "show_assertion a = TAssert # tl (show_assertion a)" by (cases a) simp_all
  show ?thesis
  proof (subst shape, rule reads_item)
    fix m1 p ks assume b: "erase_parsed m1 = erase_parsed m" "kinds p = (TAssert # tl (show_assertion a)) @ ks"
    then have "kinds (advance p) = tl (show_assertion a) @ ks" by (simp add: on_kinds)
    from parse_assert_decl_kinds [OF this] obtain a' q where
      "parse_assert_decl (advance p) = Inr (a', q)" "erase_assertion a' = erase_assertion a" "kinds q = ks" by blast
    with b show "\<exists>m2 q. parse_item m1 p = Some (Inr (m2, q)) \<and> kinds q = ks \<and>
        erase_parsed m2 = erase_parsed (m\<lparr>pm_assertions := pm_assertions m @ [a]\<rparr>)"
      by (simp add: parse_item_def on_kinds erase_parsed_def)
  qed simp
qed

lemma reads_declaration:
  assumes "expr_ok (decl_expr d)"
  shows "reads_items (show_process_decl d) m (m\<lparr>pm_declarations := pm_declarations m @ [d]\<rparr>)"
proof -
  have shape: "show_process_decl d = TIdent (node (decl_name d)) # tl (show_process_decl d)"
    by (simp add: show_process_decl_def)
  show ?thesis
  proof (subst shape, rule reads_item)
    fix m1 p ks assume a: "erase_parsed m1 = erase_parsed m"
      "kinds p = (TIdent (node (decl_name d)) # tl (show_process_decl d)) @ ks"
    then have p: "kinds p = show_process_decl d @ ks" by (simp add: show_process_decl_def)
    from parse_process_decl_kinds [OF this assms] obtain d' q where
      "parse_process_decl p = Some (Inr (d', q))" "erase_decl d' = erase_decl d" "kinds q = ks" by blast
    with a p show "\<exists>m2 q. parse_item m1 p = Some (Inr (m2, q)) \<and> kinds q = ks \<and>
        erase_parsed m2 = erase_parsed (m\<lparr>pm_declarations := pm_declarations m @ [d]\<rparr>)"
      by (simp add: parse_item_def on_kinds peek_second peek_process_decl_start_def erase_parsed_def
          show_process_decl_def)
  qed simp
qed

lemma reads_entry:
  assumes "expr_ok e" and "pm_entry m = None"
  shows "reads_items (show_expr e @ [TNewline]) m (m\<lparr>pm_entry := Some e\<rparr>)"
proof -
  obtain k1 k2 ks1 where k: "show_expr e @ [TNewline] = k1 # k2 # ks1"
      "k1 = TStop \<or> k1 = TLParen \<or> (\<exists>i. k1 = TIdent i \<and> k2 \<noteq> TEquals)"
    using starts_expr_show [of e] unfolding starts_expr_def by blast
  show ?thesis
  proof (subst k(1), rule reads_item)
    fix m1 p ks assume a: "erase_parsed m1 = erase_parsed m" "kinds p = (k1 # k2 # ks1) @ ks"
    then have "kinds p = show_expr e @ TNewline # ks" using k(1) by (metis append.assoc append_Cons append_Nil)
    from parse_expr_show [OF assms(1) this] obtain e' q where
      "parse_expr p = Some (Inr (e', q))" "kinds q = TNewline # ks" "erase_expr e' = erase_expr e" by auto
    moreover have "pm_entry m1 = None" using a(1) assms(2) by (simp add: erase_parsed_def)
    ultimately show "\<exists>m2 q. parse_item m1 p = Some (Inr (m2, q)) \<and> kinds q = ks \<and>
        erase_parsed m2 = erase_parsed (m\<lparr>pm_entry := Some e\<rparr>)"
      using a k(2) peek_second [of p k1 k2 "ks1 @ ks"]
      by (auto simp: parse_item_def on_kinds peek_process_decl_start_def erase_parsed_def)
  qed (use k(2) in auto)
qed

text \<open>Reading the items of a list.\<close>

lemma reads_list:
  assumes "\<And>x m. x \<in> set xs \<Longrightarrow> reads_items (f x) m (add x m)" and "\<And>x. x \<in> set xs \<Longrightarrow> f x \<noteq> [] \<and> hd (f x) \<noteq> TNewline"
  shows "reads_items (concat (map f xs)) m (fold add xs m)"
  using assms
proof (induction xs arbitrary: m)
  case (Cons x xs)
  have "concat (map f xs) = [] \<or> hd (concat (map f xs)) \<noteq> TNewline"
    using Cons.prems(2) by (cases xs) (auto simp: hd_append)
  with Cons show ?case by (auto intro: reads_items_append)
qed simp

lemma fold_channels:
  "fold (\<lambda>d m. m\<lparr>pm_channels := pm_channels m @ [d]\<rparr>) xs m = m\<lparr>pm_channels := pm_channels m @ xs\<rparr>"
  by (induction xs arbitrary: m) simp_all

lemma fold_declarations:
  "fold (\<lambda>d m. m\<lparr>pm_declarations := pm_declarations m @ [d]\<rparr>) xs m = m\<lparr>pm_declarations := pm_declarations m @ xs\<rparr>"
  by (induction xs arbitrary: m) simp_all

lemma fold_assertions:
  "fold (\<lambda>d m. m\<lparr>pm_assertions := pm_assertions m @ [d]\<rparr>) xs m = m\<lparr>pm_assertions := pm_assertions m @ xs\<rparr>"
  by (induction xs arbitrary: m) simp_all

lemmas fold_parsed = fold_channels fold_declarations fold_assertions

lemma show_heads:
  "show_channel_decl d \<noteq> [] \<and> hd (show_channel_decl d) \<noteq> TNewline"
  "show_process_decl e \<noteq> [] \<and> hd (show_process_decl e) \<noteq> TNewline"
  "show_assertion a \<noteq> [] \<and> hd (show_assertion a) \<noteq> TNewline"
  by (simp_all add: show_channel_decl_def show_process_decl_def) (cases a; simp)

text \<open>No part of a module starts with a blank line.\<close>

lemma not_blank_concat:
  "(\<And>x. f x \<noteq> [] \<and> hd (f x) \<noteq> TNewline) \<Longrightarrow> us = [] \<or> hd us \<noteq> TNewline \<Longrightarrow>
   concat (map f xs) @ us = [] \<or> hd (concat (map f xs) @ us) \<noteq> TNewline"
  by (cases xs) (auto simp: hd_append)

lemma not_blank_expr: "hd (show_expr e @ [TNewline]) \<noteq> TNewline"
proof -
  obtain k1 k2 ks where "show_expr e @ [TNewline] = k1 # k2 # ks" "k1 = TStop \<or> k1 = TLParen \<or> (\<exists>i. k1 = TIdent i)"
    using starts_expr_show [of e] unfolding starts_expr_def by blast
  then show ?thesis by auto
qed

lemma not_blank_entry:
  "(case entry m of None \<Rightarrow> [] | Some e \<Rightarrow> show_expr e @ [TNewline]) = [] \<or>
   hd (case entry m of None \<Rightarrow> [] | Some e \<Rightarrow> show_expr e @ [TNewline]) \<noteq> TNewline"
  using not_blank_expr by (auto split: option.split)

lemma not_blank_module: "show_module m = [] \<or> hd (show_module m) \<noteq> TNewline"
  unfolding show_module_def
  by (rule not_blank_concat [OF show_heads(1) not_blank_concat [OF show_heads(2) not_blank_concat [OF show_heads(3)
    not_blank_entry]]])

lemma reads_module:
  assumes "module_ok m"
  shows "reads_items (show_module m)
    \<lparr>pm_channels = [], pm_declarations = [], pm_assertions = [], pm_entry = None, pm_unsupported = []\<rparr> (parsed_of m)"
    (is "reads_items _ ?m0 _")
proof -
  let ?m1 = "?m0\<lparr>pm_channels := channels m\<rparr>"
  let ?m2 = "?m1\<lparr>pm_declarations := declarations m\<rparr>"
  let ?m3 = "?m2\<lparr>pm_assertions := assertions m\<rparr>"
  let ?tail = "case entry m of None \<Rightarrow> [] | Some e \<Rightarrow> show_expr e @ [TNewline]"
  have entry: "reads_items ?tail ?m3 (parsed_of m)"
    using assms reads_entry [of _ ?m3] by (auto simp: parsed_of_def module_ok_def split: option.split)
  note heads = not_blank_concat and e_head = not_blank_entry
  have "reads_items (concat (map show_assertion (assertions m))) ?m2 ?m3"
    using reads_list [of "assertions m" show_assertion "\<lambda>d m. m\<lparr>pm_assertions := pm_assertions m @ [d]\<rparr>" ?m2]
    by (simp add: reads_assertion show_heads fold_parsed)
  from reads_items_append [OF this entry e_head] have
    a: "reads_items (concat (map show_assertion (assertions m)) @ ?tail) ?m2 (parsed_of m)" .
  have "reads_items (concat (map show_process_decl (declarations m))) ?m1 ?m2"
    using reads_list [of "declarations m" show_process_decl "\<lambda>d m. m\<lparr>pm_declarations := pm_declarations m @ [d]\<rparr>" ?m1]
      assms by (simp add: reads_declaration show_heads fold_parsed module_ok_def)
  from reads_items_append [OF this a heads [OF show_heads(3) e_head]] have
    d: "reads_items (concat (map show_process_decl (declarations m)) @ concat (map show_assertion (assertions m)) @ ?tail)
      ?m1 (parsed_of m)" .
  have "reads_items (concat (map show_channel_decl (channels m))) ?m0 ?m1"
    using reads_list [of "channels m" show_channel_decl "\<lambda>d m. m\<lparr>pm_channels := pm_channels m @ [d]\<rparr>" ?m0]
      assms by (simp add: reads_channel show_heads fold_parsed module_ok_def)
  from reads_items_append [OF this d heads [OF show_heads(2) heads [OF show_heads(3) e_head]]] show ?thesis
    by (simp add: show_module_def)
qed

lemma parse_module_show:
  assumes "module_ok m" and "map tk_kind ts = show_module m @ [TEof]"
  shows "\<exists>p q. parse_module (new_parser ts src) = Some (Inr (p, q)) \<and> erase_parsed p = erase_parsed (parsed_of m)"
proof -
  let ?p = "new_parser ts src"
  have k: "kinds ?p = show_module m @ TEof # []" using assms(2) by (simp add: kinds_def new_parser_def)
  obtain k' ks' where "show_module m @ [TEof] = k' # ks'" "k' \<noteq> TNewline"
    using not_blank_module [of m] by (cases "show_module m") auto
  then have "consume_newlines ?p = ?p" using k by (subst consume_newlines.simps) (simp add: on_kinds)
  with reads_module [OF assms(1)] k obtain m2 q where
    "parse_module ?p = parse_items m2 q" "kinds q = [TEof]" "erase_parsed m2 = erase_parsed (parsed_of m)"
    unfolding reads_items_def parse_module_def by fastforce
  moreover from this(2) have "parse_items m2 q = Some (Inr (m2, q))" by (subst parse_items.simps) (simp add: on_kinds)
  ultimately show ?thesis by auto
qed

end
