(* ===== verification/Cspx_Frontend.thy ===== *)
theory Cspx_Frontend
  imports Cspx_Printer
begin

text \<open>
  The composition of lexer, parser and type checker (\<^verbatim>\<open>SimpleFrontend::parse_and_typecheck\<close>): it returns on
  every input, its modules are well typed and well formed, and it reads the printed text of a module back.
\<close>

section \<open>Parsed expressions are well formed\<close>

lemma parsed_then_Inr:
  "parsed_then r f = Some (Inr y) \<longleftrightarrow> (\<exists>x q. r = Some (Inr (x, q)) \<and> f x q = Some (Inr y))"
  by (auto simp: parsed_then_def split: option.splits sum.splits)

lemma parse_hide_loop_ok: "parse_hide_loop inner p = Inr (e, q) \<Longrightarrow> expr_ok inner \<Longrightarrow> expr_ok e"
proof (induction inner p rule: parse_hide_loop.induct)
  case (1 inner p)
  show ?case
  proof (cases "consume_is THideOp p")
    case None
    with 1(2,3) show ?thesis by (subst (asm) parse_hide_loop.simps) simp
  next
    case (Some t)
    from 1(2) obtain hide r where "parse_event_set t = Inr (hide, r)"
      "parse_hide_loop (Spanned (Hide inner (fst hide)) (merge_span (span inner) (snd hide))) r = Inr (e, q)"
      by (subst (asm) parse_hide_loop.simps) (auto simp: Some and_then_eq_Inr)
    with 1(1) [OF Some this(1) refl] 1(3) show ?thesis by simp
  qed
qed

lemma parse_iface_sync_set_nonempty: "parse_iface_sync_set p = Inr (s, q) \<Longrightarrow> set_channels s \<noteq> []"
  by (auto simp: parse_iface_sync_set_def and_then_eq_Inr)

lemma parse_ok:
  "(\<forall>p e q. parse_choice n p = Some (Inr (e, q)) \<longrightarrow> expr_ok e) \<and>
   (\<forall>left p e q. parse_choice_loop n left p = Some (Inr (e, q)) \<longrightarrow> expr_ok left \<longrightarrow> expr_ok e) \<and>
   (\<forall>p e q. parse_parallel n p = Some (Inr (e, q)) \<longrightarrow> expr_ok e) \<and>
   (\<forall>left p e q. parse_parallel_loop n left p = Some (Inr (e, q)) \<longrightarrow> expr_ok left \<longrightarrow> expr_ok e) \<and>
   (\<forall>p e q. parse_hide n p = Some (Inr (e, q)) \<longrightarrow> expr_ok e) \<and>
   (\<forall>p e q. parse_prefix n p = Some (Inr (e, q)) \<longrightarrow> expr_ok e) \<and>
   (\<forall>p e q. parse_atom n p = Some (Inr (e, q)) \<longrightarrow> expr_ok e)"
proof (induction n)
  case (Suc n)
  have choice: "parse_choice n p = Some (Inr (e, q)) \<Longrightarrow> expr_ok e"
    and choice_loop: "parse_choice_loop n left p = Some (Inr (e, q)) \<Longrightarrow> expr_ok left \<Longrightarrow> expr_ok e"
    and parallel: "parse_parallel n p = Some (Inr (e, q)) \<Longrightarrow> expr_ok e"
    and parallel_loop: "parse_parallel_loop n left p = Some (Inr (e, q)) \<Longrightarrow> expr_ok left \<Longrightarrow> expr_ok e"
    and hide: "parse_hide n p = Some (Inr (e, q)) \<Longrightarrow> expr_ok e"
    and pref: "parse_prefix n p = Some (Inr (e, q)) \<Longrightarrow> expr_ok e"
    and atom: "parse_atom n p = Some (Inr (e, q)) \<Longrightarrow> expr_ok e" for p q e left
    using Suc by (simp_all only:)
  have node_ok: "expr_ok (Spanned (node e) s)" if "expr_ok e" for e s
    using that by (cases "(e, s)" rule: prod.exhaust) (metis expr_ok.simps process_expr.exhaust spanned.collapse)
  show ?case
    by (intro conjI allI impI)
      (auto simp: parsed_then_Inr and_then_eq_Inr split: option.splits sum.splits
        intro: node_ok dest!: choice parallel hide pref atom parse_iface_sync_set_nonempty
        dest: choice_loop parallel_loop parse_hide_loop_ok)
qed simp

definition parsed_ok :: "parsed_module \<Rightarrow> bool" where
  "parsed_ok m \<longleftrightarrow> (\<forall>d \<in> set (pm_channels m). chan_names d \<noteq> []) \<and>
     (\<forall>d \<in> set (pm_declarations m). expr_ok (decl_expr d)) \<and> (\<forall>e. pm_entry m = Some e \<longrightarrow> expr_ok e)"

lemma parsed_ok_of: "parsed_ok (parsed_of m) \<longleftrightarrow> module_ok m"
  by (simp add: parsed_ok_def parsed_of_def module_ok_def)

lemma parse_expr_ok: "parse_expr p = Some (Inr (e, q)) \<Longrightarrow> expr_ok e"
  unfolding parse_expr_def by (rule parse_ok [THEN conjunct1, rule_format])

lemma parse_process_decl_ok: "parse_process_decl p = Some (Inr (d, q)) \<Longrightarrow> expr_ok (decl_expr d)"
  by (auto simp: parse_process_decl_def parsed_then_Inr and_then_eq_Inr dest: parse_expr_ok)

lemma parse_channel_decl_ok: "parse_channel_decl p = Inr (d, q) \<Longrightarrow> chan_names d \<noteq> []"
  by (auto simp: parse_channel_decl_def and_then_eq_Inr)

lemma parse_item_ok:
  assumes "parse_item m p = Some (Inr (m', q))" and "parsed_ok m"
  shows "parsed_ok m'"
  using assms unfolding parse_item_def parsed_ok_def
  by (auto simp: parsed_then_Inr and_then_eq_Inr split: option.splits if_splits
      dest!: parse_process_decl_ok parse_channel_decl_ok parse_expr_ok)

lemmas parse_items_induct = parse_items.raw_induct [rotated, consumes 1, case_names step]

lemma parse_items_ok:
  assumes "parse_items m p = Some r"
  shows "parsed_ok m \<longrightarrow> (\<forall>m' q. r = Inr (m', q) \<longrightarrow> parsed_ok m')"
  using assms
proof (induction rule: parse_items_induct)
  case (step items m p r)
  show ?case
  proof (cases "parse_item m p")
    case None
    with step(2) show ?thesis by (auto split: if_splits)
  next
    case (Some s)
    show ?thesis
    proof (cases s)
      case (Inl e)
      with Some step(2) show ?thesis by (auto split: if_splits)
    next
      case (Inr y)
      obtain m1 q1 where y: "y = (m1, q1)" by (cases y)
      show ?thesis
      proof (cases "peek_is TEof p")
        case True
        with step(2) show ?thesis by auto
      next
        case False
        with step(2) Some Inr y have "items m1 (consume_newlines q1) = Some r" by simp
        note IH = step(1) [OF this]
        have "parse_item m p = Some (Inr (m1, q1))" using Some Inr y by simp
        from parse_item_ok [OF this] IH show ?thesis by blast
      qed
    qed
  qed
qed

lemma parse_module_ok:
  assumes "parse_module p = Some (Inr (m, q))"
  shows "parsed_ok m"
  using parse_items_ok [OF assms [unfolded parse_module_def]] by (simp add: parsed_ok_def)

section \<open>The front end returns\<close>

lemma front_end_returns: "\<exists>r. parse_and_typecheck_module input src = Some r"
proof (cases "lex input src")
  case (Inr ts)
  then obtain ks where "map tk_kind ts = ks @ [TEof]" "TEof \<notin> set ks"
    using lex_from_eof unfolding lex_def by blast
  from parse_module_on_tokens [OF this] obtain r where "parse_module (new_parser ts src) = Some r" by blast
  with Inr show ?thesis by (simp add: parse_and_typecheck_module_def)
qed (simp add: parse_and_typecheck_module_def)

lemma front_end_sound:
  assumes "parse_and_typecheck_module input src = Some (Inr m)"
  shows "well_typed m" and "module_ok m"
    and "channels m \<noteq> [] \<or> declarations m \<noteq> [] \<or> assertions m \<noteq> [] \<or> entry m \<noteq> None"
proof -
  obtain ts parsed q where p: "lex input src = Inr ts" "parse_module (new_parser ts src) = Some (Inr (parsed, q))"
      "typecheck_module parsed = Inr m"
      "\<not> (pm_channels parsed = [] \<and> pm_declarations parsed = [] \<and> pm_assertions parsed = [] \<and> pm_entry parsed = None)"
    using assms unfolding parse_and_typecheck_module_def
    by (auto simp: and_then_eq_Inr split: sum.splits if_splits)
  from p(3) have m: "parsed = parsed_of m" "well_typed m" by (simp_all add: typecheck_module_eq)
  from parse_module_ok [OF p(2)] have "module_ok m" by (simp add: m(1) parsed_ok_of)
  with m p(4) show "well_typed m" "module_ok m"
    "channels m \<noteq> [] \<or> declarations m \<noteq> [] \<or> assertions m \<noteq> [] \<or> entry m \<noteq> None"
    by (auto simp: parsed_of_def)
qed

section \<open>Types do not depend on spans\<close>

definition erase_module :: "cmodule \<Rightarrow> cmodule" where
  "erase_module m = \<lparr>channels = map erase_channel (channels m), declarations = map erase_decl (declarations m),
     assertions = map erase_assertion (assertions m), entry = map_option erase_expr (entry m)\<rparr>"

lemma node_erase_span [simp]: "node (erase_span x) = node x"
  by (simp add: erase_span_def)

lemma typed_seg_erase: "typed_seg ty (map_option erase_seg seg) vars vars' \<longleftrightarrow> typed_seg ty seg vars vars'"
  by (cases "(undefined :: string spanned, ty, seg, vars)" rule: typecheck_seg.cases)
    (simp_all add: typed_seg.simps erase_span_def)

lemma names_in_erase: "names_in (erase_set s) chans \<longleftrightarrow> names_in s chans"
  by (simp add: names_in_def erase_set_def image_image)

lemma typed_erase: "typed chans procs vars (erase_expr e) \<longleftrightarrow> typed chans procs vars e"
  by (induction e arbitrary: vars rule: erase_expr.induct)
    (auto simp: typed_simps typed_seg_erase names_in_erase erase_event_def split: option.splits)

lemma declared_type_erase: "declared_type (erase_channel d) = declared_type d"
  by (auto simp: declared_type_def erase_channel_def split: option.split channel_domain.split)

lemma declared_channels_erase: "declared_channels (map erase_channel ds) = declared_channels ds"
  by (induction ds) (simp_all add: declared_channels_def declared_type_erase, simp add: erase_channel_def)

lemma well_typed_erase: "well_typed (erase_module m) \<longleftrightarrow> well_typed m"
proof -
  have a: "assertion_processes (erase_assertion a) = assertion_processes a" for a by (cases a) simp_all
  have "channel_env_of (erase_module m) = channel_env_of m"
    by (simp add: channel_env_of_def erase_module_def declared_channels_erase)
  moreover have "process_name_set (erase_module m) = process_name_set m"
    by (simp add: process_name_set_def erase_module_def image_image erase_decl_def)
  moreover have "set (map decl_expr (declarations (erase_module m))) \<union> set_option (entry (erase_module m)) =
      erase_expr ` (set (map decl_expr (declarations m)) \<union> set_option (entry m))"
    by (simp add: erase_module_def image_Un image_image erase_decl_def option.set_map)
  moreover have "map (node \<circ> decl_name) (declarations (erase_module m)) = map (node \<circ> decl_name) (declarations m)"
    by (simp add: erase_module_def erase_decl_def)
  ultimately show ?thesis unfolding well_typed_def
    by (simp only: ball_simps typed_erase) (simp add: erase_module_def declared_channels_erase declared_type_erase a)
qed

section \<open>The round trip\<close>

lemma front_end_reads:
  assumes "well_typed m" and "module_ok m" and "list_all printable (show_module m)" and "show_module m \<noteq> []"
  shows "\<exists>m'. parse_and_typecheck_module (render (show_module m)) src = Some (Inr m') \<and> erase_module m' = erase_module m"
proof -
  obtain ts where ts: "lex (render (show_module m)) src = Inr ts" "map tk_kind ts = show_module m @ [TEof]"
    using lex_render [OF assms(3)] unfolding lex_def by blast
  from parse_module_show [OF assms(2) ts(2)] obtain p q where
    p: "parse_module (new_parser ts src) = Some (Inr (p, q))" "erase_parsed p = erase_parsed (parsed_of m)" by blast
  define m' where "m' = \<lparr>channels = pm_channels p, declarations = pm_declarations p, assertions = pm_assertions p,
    entry = pm_entry p\<rparr>"
  from p(2) have erased: "erase_module m' = erase_module m" and "pm_unsupported p = []"
    by (simp_all add: m'_def erase_module_def erase_parsed_def parsed_of_def)
  then have "p = parsed_of m'" by (simp add: m'_def parsed_of_def)
  moreover have "well_typed m'" using assms(1) erased well_typed_erase by metis
  ultimately have "typecheck_module p = Inr m'" by (simp add: typecheck_module_eq)
  moreover have "\<not> (pm_channels p = [] \<and> pm_declarations p = [] \<and> pm_assertions p = [] \<and> pm_entry p = None)"
  proof
    assume "pm_channels p = [] \<and> pm_declarations p = [] \<and> pm_assertions p = [] \<and> pm_entry p = None"
    with p(2) have "show_module m = []" by (auto simp: erase_parsed_def parsed_of_def show_module_def)
    with assms(4) show False by contradiction
  qed
  ultimately show ?thesis using ts(1) p(1) erased by (auto simp: parse_and_typecheck_module_def)
qed

text \<open>A channel with a domain, a recursive process with an input, a hiding and an assertion.\<close>

abbreviation here :: "'a \<Rightarrow> 'a spanned" where
  "here x \<equiv> Spanned x no_span"

definition sample_module :: cmodule where
  "sample_module =
     \<lparr>channels = [\<lparr>chan_names = [here ''c'', here ''d''], chan_domain = Some (here (DomIntRange (here 0) (here 3)))\<rparr>],
      declarations =
        [\<lparr>decl_name = here ''P'',
          decl_expr = here (Prefix (here \<lparr>ev_channel = here ''c'', ev_seg = Some (In (here (InBind ''x'')))\<rparr>)
            (here (Prefix (here \<lparr>ev_channel = here ''d'', ev_seg = Some (Out (here (VIdent ''x'')))\<rparr>)
              (here (Ref (here ''P''))))))\<rparr>],
      assertions = [PropertyAssert (here ''P'') DeadlockFree PropF],
      entry = Some (here (Hide (here (Choice External (here (Ref (here ''P''))) (here Stop))) \<lparr>set_channels = [here ''d'']\<rparr>))\<rparr>"

lemma sample_module_ok:
  "well_typed sample_module" "module_ok sample_module" "list_all printable (show_module sample_module)"
  "show_module sample_module \<noteq> []"
proof -
  show "well_typed sample_module"
    by (simp add: well_typed_def sample_module_def declared_type_def declared_channels_def channel_env_of_def
        process_name_set_def typed_simps typed_seg.simps names_in_def)
  show "module_ok sample_module" by (simp add: module_ok_def sample_module_def)
  show "list_all printable (show_module sample_module)"
    by (simp add: sample_module_def show_module_def show_channel_decl_def show_process_decl_def show_event_def show_more_def
        show_set_def wrap_def ident_ok_def ident_text_simps keyword_def eval_nat_numeral)
  show "show_module sample_module \<noteq> []" by (simp add: sample_module_def show_module_def show_channel_decl_def)
qed

section \<open>Properties\<close>

text \<open>C23: the front end returns on every input, and the modules it accepts are well typed and well formed and not
  empty.\<close>

theorem front_end_accepts_well_typed:
  "\<exists>r. parse_and_typecheck_module input src = Some r \<and>
    (case r of Inl e \<Rightarrow> True
     | Inr m \<Rightarrow> well_typed m \<and> module_ok m \<and>
         \<not> (channels m = [] \<and> declarations m = [] \<and> assertions m = [] \<and> entry m = None))"
  using front_end_returns [of input src] front_end_sound [of input src] by (auto split: sum.split)

text \<open>C24: the front end reads the text of a well-typed module back as the module, up to the spans.\<close>

theorem front_end_roundtrip:
  assumes "well_typed m" and "module_ok m" and "list_all printable (show_module m)" and "show_module m \<noteq> []"
  shows "\<exists>m'. parse_and_typecheck_module (render (show_module m)) src = Some (Inr m') \<and> erase_module m' = erase_module m"
  by (rule front_end_reads [OF assms])

theorem front_end_roundtrip_witness:
  "\<exists>m'. parse_and_typecheck_module (render (show_module sample_module)) ''m.cspm'' = Some (Inr m') \<and>
     erase_module m' = erase_module sample_module"
  by (rule front_end_roundtrip [OF sample_module_ok])

end
