(* ===== verification/Cspx_State.thy ===== *)
theory Cspx_State
  imports Cspx_IR
begin

text \<open>
  The explored states and their binary encoding: \<^verbatim>\<open>lts.rs\<close> (the transition provider), the type
  \<^verbatim>\<open>CspmState\<close> with its derived order, \<^verbatim>\<open>state_codec.rs\<close> and \<^verbatim>\<open>CspmStateCodec\<close> of
  \<^verbatim>\<open>lts_cspm.rs\<close>. The main results: decoding an encoded state gives it back, trailing or missing
  bytes are refused, and the encoding is injective (the refinement checker identifies closures by
  their encodings).
\<close>

section \<open>lts.rs\<close>

text \<open>The label of a transition is a string. A provider's \<^verbatim>\<open>transitions\<close> may fail to return (an
  unguarded recursion) or panic; then its value is \<open>None\<close>.\<close>

record 's transition_provider =
  initial_state :: 's
  transitions :: "'s \<Rightarrow> (string \<times> 's) list option"

section \<open>States\<close>

type_synonym expr_id = u32
type_synonym env = "(string \<times> u64) list"

datatype cspm_state =
    SExpr expr_id env
  | SParallel "string list" cspm_state cspm_state
  | SHide "string list" cspm_state

text \<open>The derived \<^verbatim>\<open>Ord\<close>: first the variant, then the fields in order.\<close>

fun less_cspm_state :: "cspm_state \<Rightarrow> cspm_state \<Rightarrow> bool" where
  "less_cspm_state (SExpr e v) (SExpr e' v') = (e < e' \<or> e = e' \<and> v < v')"
| "less_cspm_state (SExpr e v) (SParallel s' l' r') = True"
| "less_cspm_state (SExpr e v) (SHide h' i') = True"
| "less_cspm_state (SParallel s l r) (SExpr e' v') = False"
| "less_cspm_state (SParallel s l r) (SParallel s' l' r') =
     (s < s' \<or> s = s' \<and> (less_cspm_state l l' \<or> l = l' \<and> less_cspm_state r r'))"
| "less_cspm_state (SParallel s l r) (SHide h' i') = True"
| "less_cspm_state (SHide h i) (SExpr e' v') = False"
| "less_cspm_state (SHide h i) (SParallel s' l' r') = False"
| "less_cspm_state (SHide h i) (SHide h' i') = (h < h' \<or> h = h' \<and> less_cspm_state i i')"

lemma less_cspm_state_irrefl: "\<not> less_cspm_state a a"
  by (induction a) auto

lemma less_cspm_state_trans:
  "less_cspm_state a b \<Longrightarrow> less_cspm_state b c \<Longrightarrow> less_cspm_state a c"
proof (induction a b arbitrary: c rule: less_cspm_state.induct)
  case (1 e v e' v')
  then show ?case by (cases c) (auto intro: less_trans)
next
  case (5 s l r s' l' r')
  then show ?case by (cases c) (auto intro: less_trans)
next
  case (9 h i h' i')
  then show ?case by (cases c) (auto intro: less_trans)
qed (auto elim: less_cspm_state.elims)

lemma less_cspm_state_total: "a \<noteq> b \<Longrightarrow> less_cspm_state a b \<or> less_cspm_state b a"
  by (induction a b rule: less_cspm_state.induct) (auto simp: not_less_iff_gr_or_eq)

instantiation cspm_state :: linorder
begin

definition less_cspm_state_inst [code]: "(a :: cspm_state) < b \<longleftrightarrow> less_cspm_state a b"

definition less_eq_cspm_state [code]: "(a :: cspm_state) \<le> b \<longleftrightarrow> a = b \<or> less_cspm_state a b"

instance
proof
  fix a b c :: cspm_state
  show "a < b \<longleftrightarrow> a \<le> b \<and> \<not> b \<le> a"
    using less_cspm_state_trans [of a b a] less_cspm_state_irrefl [of a]
    by (auto simp: less_cspm_state_inst less_eq_cspm_state)
  show "a \<le> a" by (simp add: less_eq_cspm_state)
  show "a \<le> b \<Longrightarrow> b \<le> c \<Longrightarrow> a \<le> c"
    by (auto simp: less_eq_cspm_state intro: less_cspm_state_trans)
  show "a \<le> b \<Longrightarrow> b \<le> a \<Longrightarrow> a = b"
    using less_cspm_state_trans [of a b a] less_cspm_state_irrefl [of a]
    by (auto simp: less_eq_cspm_state)
  show "a \<le> b \<or> b \<le> a"
    using less_cspm_state_total [of a b] by (auto simp: less_eq_cspm_state)
qed

end

section \<open>state\_codec.rs and CspmStateCodec\<close>

datatype codec_error = CodecError string

definition encode_len :: "'a list \<Rightarrow> u8 list" where
  "encode_len xs = u32_be (of_nat (length xs))"

definition encode_string :: "string \<Rightarrow> u8 list" where
  "encode_string s = encode_len s @ map byte_of_char s"

definition encode_binding :: "string \<times> u64 \<Rightarrow> u8 list" where
  "encode_binding kv = encode_string (fst kv) @ u64_be (snd kv)"

fun encode :: "cspm_state \<Rightarrow> u8 list" where
  "encode (SExpr e env) = 1 # u32_be e @ encode_len env @ concat (map encode_binding env)"
| "encode (SParallel sync l r) =
     2 # encode_len sync @ concat (map encode_string sync) @ encode l @ encode r"
| "encode (SHide hide i) =
     3 # encode_len hide @ concat (map encode_string hide) @ encode i"

text \<open>The decoder's readers take bytes off the front of the input and return the rest.\<close>

type_synonym 'a reader = "u8 list \<Rightarrow> codec_error + ('a \<times> u8 list)"

definition take_bytes :: "nat \<Rightarrow> u8 list reader" where
  "take_bytes n bytes =
     (if length bytes < n then Inl (CodecError ''unexpected EOF'')
      else Inr (take n bytes, drop n bytes))"

definition take_u32 :: "u32 reader" where
  "take_u32 bytes =
     (case take_bytes 4 bytes of Inl e \<Rightarrow> Inl e | Inr (b, rest) \<Rightarrow> Inr (from_be_bytes b, rest))"

definition take_u64 :: "u64 reader" where
  "take_u64 bytes =
     (case take_bytes 8 bytes of Inl e \<Rightarrow> Inl e | Inr (b, rest) \<Rightarrow> Inr (from_be_bytes b, rest))"

definition take_string :: "string reader" where
  "take_string bytes =
     (case take_u32 bytes of Inl e \<Rightarrow> Inl e
      | Inr (len, rest) \<Rightarrow>
          (case take_bytes (unat len) rest of Inl e \<Rightarrow> Inl e
           | Inr (b, rest') \<Rightarrow>
               (let s = map char_of_byte b in
                if utf8_valid s then Inr (s, rest')
                else Inl (CodecError ''invalid utf8 in string''))))"

fun take_bindings :: "nat \<Rightarrow> env \<Rightarrow> env reader" where
  "take_bindings 0 env bytes = Inr (env, bytes)"
| "take_bindings (Suc n) env bytes =
     (case take_string bytes of Inl e \<Rightarrow> Inl e
      | Inr (key, rest) \<Rightarrow>
          (case take_u64 rest of Inl e \<Rightarrow> Inl e
           | Inr (value, rest') \<Rightarrow> take_bindings n (btm_insert key value env) rest'))"

fun take_names :: "nat \<Rightarrow> string list \<Rightarrow> string list reader" where
  "take_names 0 names bytes = Inr (names, bytes)"
| "take_names (Suc n) names bytes =
     (case take_string bytes of Inl e \<Rightarrow> Inl e
      | Inr (s, rest) \<Rightarrow> take_names n (bts_insert s names) rest)"

text \<open>A successful reader never returns more than it was given: what makes the recursion of the
  decoder terminate.\<close>

lemma take_bytes_length: "take_bytes n bs = Inr (x, rest) \<Longrightarrow> length rest \<le> length bs"
  by (auto simp: take_bytes_def split: if_splits)

lemma take_u32_length: "take_u32 bs = Inr (x, rest) \<Longrightarrow> length rest \<le> length bs"
  by (auto simp: take_u32_def dest: take_bytes_length split: sum.splits)

lemma take_u64_length: "take_u64 bs = Inr (x, rest) \<Longrightarrow> length rest \<le> length bs"
  by (auto simp: take_u64_def dest: take_bytes_length split: sum.splits)

lemma take_string_length: "take_string bs = Inr (x, rest) \<Longrightarrow> length rest \<le> length bs"
  by (fastforce simp: take_string_def Let_def dest: take_bytes_length take_u32_length
      split: sum.splits if_splits)

lemma take_bindings_length:
  "take_bindings n env bs = Inr (x, rest) \<Longrightarrow> length rest \<le> length bs"
  by (induction n env bs rule: take_bindings.induct)
    (fastforce dest: take_string_length take_u64_length split: sum.splits)+

lemma take_names_length:
  "take_names n s bs = Inr (x, rest) \<Longrightarrow> length rest \<le> length bs"
  by (induction n s bs rule: take_names.induct)
    (fastforce dest: take_string_length split: sum.splits)+

function decode_state :: "cspm_state reader" where
  "decode_state bytes =
     (case take_bytes 1 bytes of Inl e \<Rightarrow> Inl e
      | Inr (tag, b0) \<Rightarrow>
          if hd tag = 1 then
            (case take_u32 b0 of Inl e \<Rightarrow> Inl e
             | Inr (expr, b1) \<Rightarrow>
                 (case take_u32 b1 of Inl e \<Rightarrow> Inl e
                  | Inr (count, b2) \<Rightarrow>
                      (case take_bindings (unat count) [] b2 of Inl e \<Rightarrow> Inl e
                       | Inr (env, b3) \<Rightarrow> Inr (SExpr expr env, b3))))
          else if hd tag = 2 then
            (case take_u32 b0 of Inl e \<Rightarrow> Inl e
             | Inr (count, b1) \<Rightarrow>
                 (case take_names (unat count) [] b1 of Inl e \<Rightarrow> Inl e
                  | Inr (sync, b2) \<Rightarrow>
                      (case decode_state b2 of Inl e \<Rightarrow> Inl e
                       | Inr (left, b3) \<Rightarrow>
                           (case decode_state b3 of Inl e \<Rightarrow> Inl e
                            | Inr (right, b4) \<Rightarrow> Inr (SParallel sync left right, b4)))))
          else if hd tag = 3 then
            (case take_u32 b0 of Inl e \<Rightarrow> Inl e
             | Inr (count, b1) \<Rightarrow>
                 (case take_names (unat count) [] b1 of Inl e \<Rightarrow> Inl e
                  | Inr (hide, b2) \<Rightarrow>
                      (case decode_state b2 of Inl e \<Rightarrow> Inl e
                       | Inr (inner, b3) \<Rightarrow> Inr (SHide hide inner, b3))))
          else Inl (CodecError ''unknown CspmState tag''))"
  by pat_completeness auto

lemma take_bytes_Inr_length:
  "take_bytes n bs = Inr (x, rest) \<Longrightarrow> length x = n \<and> length rest + n = length bs"
  by (auto simp: take_bytes_def split: if_splits)

lemma decode_state_length:
  "decode_state_dom bs \<Longrightarrow> decode_state bs = Inr (x, rest) \<Longrightarrow> length rest < length bs"
proof (induction bs arbitrary: x rest rule: decode_state.pinduct)
  case (1 bytes)
  note unf = decode_state.psimps [OF 1(1)] and ret = 1(5)
  from ret obtain tag b0 where t: "take_bytes 1 bytes = Inr (tag, b0)"
    by (auto simp: unf split: sum.splits)
  then have b0: "length b0 < length bytes" by (auto dest: take_bytes_Inr_length)
  consider "hd tag = 1" | "hd tag = 2" | "hd tag = 3"
    using ret t by (auto simp: unf split: if_splits)
  then show ?case
  proof cases
    case 1
    with ret t b0 show ?thesis
      by (auto simp: unf split: sum.splits
          dest!: take_u32_length take_bindings_length)
  next
    case 2
    with ret t obtain n b1 sync b2 l b3 r b4 where
      n: "take_u32 b0 = Inr (n, b1)" and s: "take_names (unat n) [] b1 = Inr (sync, b2)"
      and l: "decode_state b2 = Inr (l, b3)" and r: "decode_state b3 = Inr (r, b4)" and "rest = b4"
      by (auto simp: unf split: sum.splits)
    moreover from 2 t n s l have "length b3 < length b2" by (intro "1"(2)) auto
    moreover from 2 t n s l r have "length b4 < length b3" by (intro "1"(3)) auto
    ultimately show ?thesis using b0 take_u32_length [OF n] take_names_length [OF s] by simp
  next
    case 3
    with ret t obtain n b1 hide b2 i b3 where
      n: "take_u32 b0 = Inr (n, b1)" and s: "take_names (unat n) [] b1 = Inr (hide, b2)"
      and i: "decode_state b2 = Inr (i, b3)" and "rest = b3"
      by (auto simp: unf split: sum.splits)
    moreover from 3 t n s i have "length b3 < length b2" by (intro "1"(4)) auto
    ultimately show ?thesis using b0 take_u32_length [OF n] take_names_length [OF s] by simp
  qed
qed

termination decode_state
proof (relation "measure length", goal_cases)
  case (3 bytes b tag b0 ba n b1 bb sync b2 l left b3)
  from 3 have "length b3 < length b2"
    by (intro decode_state_length [of b2 left b3]) simp_all
  with 3 show ?case
    by (auto dest!: take_bytes_Inr_length take_u32_length take_names_length)
qed (auto dest!: take_bytes_Inr_length take_u32_length take_names_length)

declare decode_state.simps [simp del]

definition decode :: "u8 list \<Rightarrow> codec_error + cspm_state" where
  "decode bytes =
     (case decode_state bytes of Inl e \<Rightarrow> Inl e
      | Inr (state, rest) \<Rightarrow>
          if rest \<noteq> [] then Inl (CodecError ''trailing bytes'') else Inr state)"

section \<open>The contract of a state codec\<close>

text \<open>The Rust trait \<^verbatim>\<open>StateCodec\<close>: \<open>ok\<close> describes the states the contract speaks about. The
  disk store and the refinement checker rely on nothing else.\<close>

locale state_codec =
  fixes enc :: "'s \<Rightarrow> u8 list"
    and dec :: "u8 list \<Rightarrow> codec_error + 's"
    and ok :: "'s \<Rightarrow> bool"
  assumes dec_enc: "ok s \<Longrightarrow> dec (enc s) = Inr s"
begin

lemma enc_inj: "ok s \<Longrightarrow> ok t \<Longrightarrow> enc s = enc t \<longleftrightarrow> s = t"
  using dec_enc by (metis Inr_inject)

lemma enc_inj_on: "inj_on enc (Collect ok)"
  by (rule inj_onI) (simp add: enc_inj)

text \<open>An element of a list of states is found by comparing encodings.\<close>

lemma enc_mem: "\<forall>t \<in> S. ok t \<Longrightarrow> ok s \<Longrightarrow> enc s \<in> enc ` S \<longleftrightarrow> s \<in> S"
  using enc_inj by blast

end

section \<open>The codec of CSPm states\<close>

text \<open>The states whose encoding is exact: the containers are ordered, no length exceeds what 32 bits
  hold (the encoder truncates a length to \<^verbatim>\<open>u32\<close>), and names are UTF-8, as every Rust
  \<^verbatim>\<open>String\<close> is.\<close>

definition name_ok :: "string \<Rightarrow> bool" where
  "name_ok s \<longleftrightarrow> utf8_valid s \<and> length s < 2 ^ 32"

fun state_ok :: "cspm_state \<Rightarrow> bool" where
  "state_ok (SExpr e env) =
     (btm_ok env \<and> length env < 2 ^ 32 \<and> list_all (\<lambda>(k, v). name_ok k) env)"
| "state_ok (SParallel sync l r) =
     (bts_ok sync \<and> length sync < 2 ^ 32 \<and> list_all name_ok sync \<and> state_ok l \<and> state_ok r)"
| "state_ok (SHide hide i) =
     (bts_ok hide \<and> length hide < 2 ^ 32 \<and> list_all name_ok hide \<and> state_ok i)"

lemma take_bytes_append: "length a = n \<Longrightarrow> take_bytes n (a @ b) = Inr (a, b)"
  by (simp add: take_bytes_def)

lemma take_u32_be [simp]: "take_u32 (u32_be w @ rest) = Inr (w, rest)"
  by (simp add: take_u32_def take_bytes_append)

lemma take_u64_be [simp]: "take_u64 (u64_be w @ rest) = Inr (w, rest)"
  by (simp add: take_u64_def take_bytes_append)

lemma take_u32_encode_len [simp]:
  "take_u32 (encode_len xs @ rest) = Inr (of_nat (length xs), rest)"
  by (simp add: encode_len_def)

lemma unat_of_length: "length xs < 2 ^ 32 \<Longrightarrow> unat (of_nat (length xs) :: u32) = length xs"
  by (simp add: unat_of_nat)

lemma take_string_encode:
  "name_ok s \<Longrightarrow> take_string (encode_string s @ rest) = Inr (s, rest)"
  by (simp add: take_string_def encode_string_def name_ok_def unat_of_length take_bytes_append)

lemma take_bindings_encode:
  "list_all (\<lambda>(k, v). name_ok k) es \<Longrightarrow>
   take_bindings (length es) m (concat (map encode_binding es) @ rest)
     = Inr (fold (\<lambda>(k, v). btm_insert k v) es m, rest)"
  by (induction es arbitrary: m) (auto simp: encode_binding_def take_string_encode)

lemma take_names_encode:
  "list_all name_ok xs \<Longrightarrow>
   take_names (length xs) s (concat (map encode_string xs) @ rest)
     = Inr (fold bts_insert xs s, rest)"
  by (induction xs arbitrary: s) (auto simp: take_string_encode)

lemma take_bytes_1 [simp]: "take_bytes (Suc 0) (b # bs) = Inr ([b], bs)"
  by (simp add: take_bytes_def)

lemma decode_state_encode: "state_ok s \<Longrightarrow> decode_state (encode s @ rest) = Inr (s, rest)"
proof (induction s arbitrary: rest)
  case (SExpr e env)
  then show ?case
    using fold_btm_insert_ascending [of "[]" env]
    by (subst decode_state.simps) (simp add: unat_of_length take_bindings_encode)
next
  case (SParallel sync l r)
  then show ?case
    using fold_bts_insert_ascending [of "[]" sync]
    by (subst decode_state.simps) (simp add: unat_of_length take_names_encode)
next
  case (SHide hide i)
  then show ?case
    using fold_bts_insert_ascending [of "[]" hide]
    by (subst decode_state.simps) (simp add: unat_of_length take_names_encode)
qed

interpretation cspm_codec: state_codec encode decode state_ok
  by unfold_locales (use decode_state_encode [where rest = "[]"] in \<open>simp add: decode_def\<close>)

text \<open>What the decoder yields is always well-formed as a Rust value: the containers are ordered
  and the names are UTF-8, whatever the bytes.\<close>

lemma take_names_ok: "take_names n s bs = Inr (xs, rest) \<Longrightarrow> bts_ok s \<Longrightarrow> bts_ok xs"
  by (induction n s bs rule: take_names.induct) (fastforce split: sum.splits)+

lemma take_bindings_ok: "take_bindings n m bs = Inr (xs, rest) \<Longrightarrow> btm_ok m \<Longrightarrow> btm_ok xs"
  by (induction n m bs rule: take_bindings.induct) (fastforce split: sum.splits)+

fun containers_ordered :: "cspm_state \<Rightarrow> bool" where
  "containers_ordered (SExpr e env) = btm_ok env"
| "containers_ordered (SParallel sync l r) =
     (bts_ok sync \<and> containers_ordered l \<and> containers_ordered r)"
| "containers_ordered (SHide hide i) = (bts_ok hide \<and> containers_ordered i)"

lemma decode_state_ordered: "decode_state bs = Inr (s, rest) \<Longrightarrow> containers_ordered s"
proof (induction s arbitrary: bs rest)
  case (SExpr e env)
  then obtain n b where "take_bindings n [] b = Inr (env, rest)"
    by (subst (asm) decode_state.simps) (auto split: sum.splits if_splits)
  then show ?case by (simp add: take_bindings_ok)
next
  case (SParallel sync l r)
  from SParallel.prems obtain n b b1 b2 where
    "take_names n [] b = Inr (sync, b1)" "decode_state b1 = Inr (l, b2)"
    "decode_state b2 = Inr (r, rest)"
    by (subst (asm) decode_state.simps) (auto split: sum.splits if_splits)
  with SParallel.IH show ?case by (auto dest: take_names_ok)
next
  case (SHide hide i)
  from SHide.prems obtain n b b1 where
    "take_names n [] b = Inr (hide, b1)" "decode_state b1 = Inr (i, rest)"
    by (subst (asm) decode_state.simps) (auto split: sum.splits if_splits)
  with SHide.IH show ?case by (auto dest: take_names_ok)
qed

section \<open>Properties\<close>

text \<open>C6: decoding the encoding of a state gives the state back, for every state whose
  containers are ordered, whose names are UTF-8 and whose lengths fit 32 bits.\<close>

theorem codec_roundtrip: "state_ok s \<Longrightarrow> decode (encode s) = Inr s"
  by (rule cspm_codec.dec_enc)

theorem codec_roundtrip_witness:
  "decode (encode (SParallel [''a'', ''b''] (SExpr 3 [(''x'', 7)]) (SHide [''a''] (SExpr 0 []))))
   = Inr (SParallel [''a'', ''b''] (SExpr 3 [(''x'', 7)]) (SHide [''a''] (SExpr 0 [])))"
  by (rule codec_roundtrip) (simp add: name_ok_def char_between_def)

text \<open>The decoder consumes its whole input: an encoding followed by further bytes is refused.\<close>

theorem codec_trailing_bytes:
  assumes "state_ok s" and "rest \<noteq> []"
  shows "decode (encode s @ rest) = Inl (CodecError ''trailing bytes'')"
  using assms by (simp add: decode_def decode_state_encode)

theorem codec_trailing_bytes_witness:
  "decode (encode (SExpr 3 [(''x'', 7)]) @ [0]) = Inl (CodecError ''trailing bytes'')"
  by (rule codec_trailing_bytes) (simp_all add: name_ok_def char_between_def)

end
