(* ===== verification/Cspx_Lts.thy ===== *)
theory Cspx_Lts
  imports Cspx_State "HOL-Library.Multiset"
begin

text \<open>
  The transition system of a compiled program: the data and the transition function of
  \<^verbatim>\<open>lts_cspm.rs\<close>. A program is a table of expression nodes addressed by 32-bit ids, with the
  table \<open>resolved\<close> that maps a reference to the first expression behind it that is not one.

  The transition function recurses through references, choices, parallel compositions and hiding
  without a guard, so it need not return; it is a \<open>partial_function\<close> whose value \<open>None\<close> is
  a panic or a call that never returns. The inductive relation \<open>sos\<close> is the operational
  semantics the function implements, as rules; the lemmas show that the function enumerates exactly
  the transitions of the rules, in a canonical order, and that it returns on every program whose
  recursion is guarded.
\<close>

section \<open>Programs\<close>

type_synonym proc_id = u32

datatype channel_dom = ChUnit | ChIntRange u64 u64

datatype event_pat =
    PUnit string
  | PInt string u64
  | POutVar string string
  | PInConst string u64
  | PInBind string string

datatype expr_node =
    NStop
  | NRef proc_id
  | NPrefix event_pat expr_id
  | NChoiceExternal expr_id expr_id
  | NChoiceInternal expr_id expr_id
  | NParallel expr_id expr_id "string list"
  | NHide expr_id "string list"

record program =
  pr_channels :: "(string \<times> channel_dom) list"
  pr_exprs :: "expr_node list"
  pr_resolved :: "expr_id list"

definition node_at :: "program \<Rightarrow> expr_id \<Rightarrow> expr_node option" where
  "node_at p e = nth_opt (pr_exprs p) (unat e)"

definition resolved_at :: "program \<Rightarrow> expr_id \<Rightarrow> expr_id option" where
  "resolved_at p e = nth_opt (pr_resolved p) (unat e)"

section \<open>States of an expression\<close>

definition make_hide_state :: "string list \<Rightarrow> cspm_state \<Rightarrow> cspm_state" where
  "make_hide_state hide inner =
     (if hide = [] then inner
      else (case inner of
              SHide inner_hide inner' \<Rightarrow> SHide (bts_extend hide inner_hide) inner'
            | other \<Rightarrow> SHide hide other))"

partial_function (option) state_from_expr ::
  "program \<Rightarrow> expr_id \<Rightarrow> env \<Rightarrow> cspm_state option" where
  "state_from_expr p e env =
     (case node_at p e of
        None \<Rightarrow> None
      | Some nd \<Rightarrow>
          (case nd of
             NRef q \<Rightarrow>
               (case resolved_at p e of
                  None \<Rightarrow> None
                | Some target \<Rightarrow> state_from_expr p target [])
           | NParallel left right sync \<Rightarrow>
               do { l \<leftarrow> state_from_expr p left env;
                    r \<leftarrow> state_from_expr p right env;
                    Some (SParallel sync l r) }
           | NHide inner hide \<Rightarrow>
               do { i \<leftarrow> state_from_expr p inner env;
                    Some (make_hide_state hide i) }
           | _ \<Rightarrow> Some (SExpr e env)))"

section \<open>Events\<close>

definition tau :: string where "tau = ''tau''"

definition event_label :: "string \<Rightarrow> u64 \<Rightarrow> string" where
  "event_label channel value = channel @ ''.'' @ show_u64 value"

definition word_range :: "u64 \<Rightarrow> u64 \<Rightarrow> u64 list" where
  "word_range lo hi = map of_nat [unat lo ..< Suc (unat hi)]"

fun eval_event :: "program \<Rightarrow> event_pat \<Rightarrow> env \<Rightarrow> (string \<times> env) list" where
  "eval_event p (PUnit c) env = [(c, env)]"
| "eval_event p (PInt c v) env = [(event_label c v, env)]"
| "eval_event p (POutVar c x) env =
     (case map_of env x of None \<Rightarrow> [] | Some v \<Rightarrow> [(event_label c v, env)])"
| "eval_event p (PInConst c v) env = [(event_label c v, env)]"
| "eval_event p (PInBind c x) env =
     (case map_of (pr_channels p) c of
        None \<Rightarrow> []
      | Some ChUnit \<Rightarrow> []
      | Some (ChIntRange lo hi) \<Rightarrow>
          map (\<lambda>v. (event_label c v, btm_insert x v env)) (word_range lo hi))"

section \<open>Parallel composition and hiding\<close>

definition label_channel :: "string \<Rightarrow> string" where
  "label_channel label = takeWhile (\<lambda>c. c \<noteq> CHR 0x2E) label"

definition is_sync_event :: "string list \<Rightarrow> string \<Rightarrow> bool" where
  "is_sync_event sync label = (label \<noteq> tau \<and> label_channel label \<in> set sync)"

text \<open>The map \<^verbatim>\<open>right_sync\<close> from a synchronised label to the successors of the right
  component under it, in their order.\<close>

definition add_right_sync ::
  "string \<times> 's \<Rightarrow> (string \<rightharpoonup> 's list) \<Rightarrow> (string \<rightharpoonup> 's list)" where
  "add_right_sync ls m =
     m(fst ls \<mapsto> (case m (fst ls) of None \<Rightarrow> [snd ls] | Some ss \<Rightarrow> ss @ [snd ls]))"

definition right_sync_map ::
  "string list \<Rightarrow> (string \<times> 's) list \<Rightarrow> (string \<rightharpoonup> 's list)" where
  "right_sync_map sync right_next =
     fold add_right_sync (filter (\<lambda>(l, s). is_sync_event sync l) right_next) Map.empty"

definition parallel_transitions ::
  "string list \<Rightarrow> cspm_state \<Rightarrow> cspm_state
     \<Rightarrow> (string \<times> cspm_state) list \<Rightarrow> (string \<times> cspm_state) list
     \<Rightarrow> (string \<times> cspm_state) list" where
  "parallel_transitions sync left right left_next right_next =
     (let right_sync = right_sync_map sync right_next;
          right_nonsync = filter (\<lambda>(l, s). \<not> is_sync_event sync l) right_next
      in concat (map (\<lambda>(l, next_left).
             if is_sync_event sync l
             then (case right_sync l of
                     None \<Rightarrow> []
                   | Some ss \<Rightarrow> map (\<lambda>next_right. (l, SParallel sync next_left next_right)) ss)
             else [(l, SParallel sync next_left right)]) left_next)
         @ map (\<lambda>(l, next_right). (l, SParallel sync left next_right)) right_nonsync)"

definition hide_label :: "string list \<Rightarrow> string \<Rightarrow> string" where
  "hide_label hide l = (if l \<noteq> tau \<and> label_channel l \<in> set hide then tau else l)"

definition hide_transitions ::
  "string list \<Rightarrow> (string \<times> cspm_state) list \<Rightarrow> (string \<times> cspm_state) list" where
  "hide_transitions hide inner_next =
     map (\<lambda>(l, next_inner). (hide_label hide l, make_hide_state hide next_inner)) inner_next"

section \<open>The transition function\<close>

text \<open>\<^verbatim>\<open>transitions_for_state_unordered\<close> with the three functions it calls and that call
  it back: for expressions (the inner case distinction), parallel compositions and hiding.\<close>

partial_function (option) transitions_unordered ::
  "program \<Rightarrow> cspm_state \<Rightarrow> (string \<times> cspm_state) list option" where
  "transitions_unordered p s =
     (case s of
        SExpr e env \<Rightarrow>
          (case node_at p e of
             None \<Rightarrow> None
           | Some nd \<Rightarrow>
               (case nd of
                  NStop \<Rightarrow> Some []
                | NRef q \<Rightarrow>
                    (case resolved_at p e of
                       None \<Rightarrow> None
                     | Some target \<Rightarrow>
                         do { st \<leftarrow> state_from_expr p target [];
                              transitions_unordered p st })
                | NPrefix ev next \<Rightarrow>
                    map_opt (\<lambda>(l, next_env).
                        case state_from_expr p next next_env of
                          None \<Rightarrow> None | Some st \<Rightarrow> Some (l, st))
                      (eval_event p ev env)
                | NChoiceExternal left right \<Rightarrow>
                    do { left_state \<leftarrow> state_from_expr p left env;
                         left_out \<leftarrow> transitions_unordered p left_state;
                         right_state \<leftarrow> state_from_expr p right env;
                         right_out \<leftarrow> transitions_unordered p right_state;
                         Some (left_out @ right_out) }
                | NChoiceInternal left right \<Rightarrow>
                    map_opt (\<lambda>target.
                        case state_from_expr p target env of
                          None \<Rightarrow> None | Some st \<Rightarrow> Some (tau, st))
                      [left, right]
                | NParallel left right sync \<Rightarrow>
                    do { l \<leftarrow> state_from_expr p left env;
                         r \<leftarrow> state_from_expr p right env;
                         transitions_unordered p (SParallel sync l r) }
                | NHide inner hide \<Rightarrow>
                    do { i \<leftarrow> state_from_expr p inner env;
                         transitions_unordered p (SHide hide i) }))
      | SParallel sync left right \<Rightarrow>
          do { left_next \<leftarrow> transitions_unordered p left;
               right_next \<leftarrow> transitions_unordered p right;
               Some (parallel_transitions sync left right left_next right_next) }
      | SHide hide inner \<Rightarrow>
          do { inner_next \<leftarrow> transitions_unordered p inner;
               Some (hide_transitions hide inner_next) })"

definition transition_key :: "string \<times> cspm_state \<Rightarrow> string \<times> u8 list" where
  "transition_key ls = (fst ls, encode (snd ls))"

definition transitions_for ::
  "program \<Rightarrow> cspm_state \<Rightarrow> (string \<times> cspm_state) list option" where
  "transitions_for p s = map_option (sort_key transition_key) (transitions_unordered p s)"

declare state_from_expr.simps [code] transitions_unordered.simps [code]

section \<open>Reading the equations\<close>

text \<open>One equation per node, applicable once the node is known.\<close>

lemma state_from_expr_node:
  "node_at p e = Some NStop \<Longrightarrow> state_from_expr p e env = Some (SExpr e env)"
  "node_at p e = Some (NRef q) \<Longrightarrow>
     state_from_expr p e env = resolved_at p e \<bind> (\<lambda>t. state_from_expr p t [])"
  "node_at p e = Some (NPrefix ev n) \<Longrightarrow> state_from_expr p e env = Some (SExpr e env)"
  "node_at p e = Some (NChoiceExternal l r) \<Longrightarrow> state_from_expr p e env = Some (SExpr e env)"
  "node_at p e = Some (NChoiceInternal l r) \<Longrightarrow> state_from_expr p e env = Some (SExpr e env)"
  "node_at p e = Some (NParallel l r sync) \<Longrightarrow> state_from_expr p e env =
     do { ls \<leftarrow> state_from_expr p l env; rs \<leftarrow> state_from_expr p r env;
          Some (SParallel sync ls rs) }"
  "node_at p e = Some (NHide i hide) \<Longrightarrow> state_from_expr p e env =
     do { is \<leftarrow> state_from_expr p i env; Some (make_hide_state hide is) }"
  "node_at p e = None \<Longrightarrow> state_from_expr p e env = None"
  by (subst state_from_expr.simps, simp add: Option.bind_def split: option.split)+

lemma transitions_SParallel [simp]:
  "transitions_unordered p (SParallel sync l r) =
     do { ls \<leftarrow> transitions_unordered p l; rs \<leftarrow> transitions_unordered p r;
          Some (parallel_transitions sync l r ls rs) }"
  by (subst transitions_unordered.simps) simp

lemma transitions_SHide [simp]:
  "transitions_unordered p (SHide hide i) =
     do { is \<leftarrow> transitions_unordered p i; Some (hide_transitions hide is) }"
  by (subst transitions_unordered.simps) simp

lemma transitions_node:
  "node_at p e = Some NStop \<Longrightarrow> transitions_unordered p (SExpr e env) = Some []"
  "node_at p e = Some (NRef q) \<Longrightarrow> transitions_unordered p (SExpr e env) =
     do { t \<leftarrow> resolved_at p e; st \<leftarrow> state_from_expr p t []; transitions_unordered p st }"
  "node_at p e = Some (NPrefix ev n) \<Longrightarrow> transitions_unordered p (SExpr e env) =
     map_opt (\<lambda>(l, env'). map_option (Pair l) (state_from_expr p n env')) (eval_event p ev env)"
  "node_at p e = Some (NChoiceExternal l r) \<Longrightarrow> transitions_unordered p (SExpr e env) =
     do { ls \<leftarrow> state_from_expr p l env; lo \<leftarrow> transitions_unordered p ls;
          rs \<leftarrow> state_from_expr p r env; ro \<leftarrow> transitions_unordered p rs; Some (lo @ ro) }"
  "node_at p e = Some (NChoiceInternal l r) \<Longrightarrow> transitions_unordered p (SExpr e env) =
     map_opt (\<lambda>t. map_option (Pair tau) (state_from_expr p t env)) [l, r]"
  "node_at p e = Some (NParallel l r sync) \<Longrightarrow> transitions_unordered p (SExpr e env) =
     do { ls \<leftarrow> state_from_expr p l env; rs \<leftarrow> state_from_expr p r env;
          transitions_unordered p (SParallel sync ls rs) }"
  "node_at p e = Some (NHide i hide) \<Longrightarrow> transitions_unordered p (SExpr e env) =
     do { is \<leftarrow> state_from_expr p i env; transitions_unordered p (SHide hide is) }"
  "node_at p e = None \<Longrightarrow> transitions_unordered p (SExpr e env) = None"
  by (subst transitions_unordered.simps,
      simp add: Option.bind_def map_option_case case_prod_beta' split: option.split)+

section \<open>The operational semantics as rules\<close>

text \<open>The labels and bindings an event offers under an environment, declaratively.\<close>

inductive event_step ::
  "(string \<rightharpoonup> channel_dom) \<Rightarrow> event_pat \<Rightarrow> env \<Rightarrow> string \<Rightarrow> env \<Rightarrow> bool" where
  Unit: "event_step chs (PUnit c) env c env"
| Int: "event_step chs (PInt c v) env (event_label c v) env"
| OutVar: "map_of env x = Some v \<Longrightarrow> event_step chs (POutVar c x) env (event_label c v) env"
| InConst: "event_step chs (PInConst c v) env (event_label c v) env"
| InBind: "chs c = Some (ChIntRange lo hi) \<Longrightarrow> lo \<le> v \<Longrightarrow> v \<le> hi \<Longrightarrow>
     event_step chs (PInBind c x) env (event_label c v) (btm_insert x v env)"

inductive_cases event_step_cases:
  "event_step chs (PUnit c) env l env'"
  "event_step chs (PInt c v) env l env'"
  "event_step chs (POutVar c x) env l env'"
  "event_step chs (PInConst c v) env l env'"
  "event_step chs (PInBind c x) env l env'"

inductive sos :: "program \<Rightarrow> cspm_state \<Rightarrow> string \<Rightarrow> cspm_state \<Rightarrow> bool" for p where
  Reference: "node_at p e = Some (NRef q) \<Longrightarrow> resolved_at p e = Some t \<Longrightarrow>
     state_from_expr p t [] = Some st \<Longrightarrow> sos p st l s' \<Longrightarrow> sos p (SExpr e env) l s'"
| Prefix: "node_at p e = Some (NPrefix ev n) \<Longrightarrow>
     event_step (map_of (pr_channels p)) ev env l env' \<Longrightarrow>
     state_from_expr p n env' = Some s' \<Longrightarrow> sos p (SExpr e env) l s'"
| ExtLeft: "node_at p e = Some (NChoiceExternal a b) \<Longrightarrow>
     state_from_expr p a env = Some st \<Longrightarrow> sos p st l s' \<Longrightarrow> sos p (SExpr e env) l s'"
| ExtRight: "node_at p e = Some (NChoiceExternal a b) \<Longrightarrow>
     state_from_expr p b env = Some st \<Longrightarrow> sos p st l s' \<Longrightarrow> sos p (SExpr e env) l s'"
| IntLeft: "node_at p e = Some (NChoiceInternal a b) \<Longrightarrow>
     state_from_expr p a env = Some s' \<Longrightarrow> sos p (SExpr e env) tau s'"
| IntRight: "node_at p e = Some (NChoiceInternal a b) \<Longrightarrow>
     state_from_expr p b env = Some s' \<Longrightarrow> sos p (SExpr e env) tau s'"
| ExprPar: "node_at p e = Some (NParallel a b sync) \<Longrightarrow>
     state_from_expr p a env = Some x \<Longrightarrow> state_from_expr p b env = Some y \<Longrightarrow>
     sos p (SParallel sync x y) l s' \<Longrightarrow> sos p (SExpr e env) l s'"
| ExprHide: "node_at p e = Some (NHide i hide) \<Longrightarrow>
     state_from_expr p i env = Some x \<Longrightarrow> sos p (SHide hide x) l s' \<Longrightarrow> sos p (SExpr e env) l s'"
| Sync: "is_sync_event sync l \<Longrightarrow> sos p x l x' \<Longrightarrow> sos p y l y' \<Longrightarrow>
     sos p (SParallel sync x y) l (SParallel sync x' y')"
| ParLeft: "\<not> is_sync_event sync l \<Longrightarrow> sos p x l x' \<Longrightarrow>
     sos p (SParallel sync x y) l (SParallel sync x' y)"
| ParRight: "\<not> is_sync_event sync l \<Longrightarrow> sos p y l y' \<Longrightarrow>
     sos p (SParallel sync x y) l (SParallel sync x y')"
| HideStep: "sos p x l x' \<Longrightarrow>
     sos p (SHide hide x) (hide_label hide l) (make_hide_state hide x')"

section \<open>The helpers enumerate the rules\<close>

lemma set_word_range [simp]: "set (word_range lo hi) = {lo..hi}"
proof -
  have "of_nat n \<in> {lo..hi}" if "n \<in> {unat lo ..< Suc (unat hi)}" for n
  proof -
    have "unat hi < 2 ^ LENGTH(64)" by (rule unsigned_less)
    with that have "n < 2 ^ 64" by simp
    then have "unat (of_nat n :: u64) = n" by (simp add: unat_of_nat)
    with that show ?thesis by (simp add: word_le_nat_alt)
  qed
  moreover have "w \<in> of_nat ` {unat lo ..< Suc (unat hi)}" if "w \<in> {lo..hi}" for w :: u64
    using that by (intro image_eqI [of _ _ "unat w"]) (auto simp: word_le_nat_alt)
  ultimately show ?thesis by (auto simp only: word_range_def set_map set_upt)
qed

lemma eval_event_iff:
  "(l, env') \<in> set (eval_event p ev env) \<longleftrightarrow>
     event_step (map_of (pr_channels p)) ev env l env'"
  by (cases ev) (auto intro: event_step.intros event_step.InBind [OF sym]
      elim!: event_step_cases split: option.splits channel_dom.splits)

lemma fold_right_sync:
  "fold add_right_sync xs m l =
     (let ss = map snd (filter (\<lambda>ls. fst ls = l) xs) in
      case m l of None \<Rightarrow> if ss = [] then None else Some ss | Some ss0 \<Rightarrow> Some (ss0 @ ss))"
  by (induction xs arbitrary: m) (auto simp: add_right_sync_def Let_def split: option.splits)

lemma right_sync_map_eq:
  "right_sync_map sync rs l =
     (let ss = map snd (filter (\<lambda>ls. fst ls = l \<and> is_sync_event sync l) rs) in
      if ss = [] then None else Some ss)"
  by (auto simp: right_sync_map_def fold_right_sync Let_def case_prod_beta' filter_empty_conv
      intro!: arg_cong [where f = "map snd"] filter_cong)

lemma set_parallel_transitions:
  "(l, s') \<in> set (parallel_transitions sync x y xs ys) \<longleftrightarrow>
     (if is_sync_event sync l
      then \<exists>x' y'. (l, x') \<in> set xs \<and> (l, y') \<in> set ys \<and> s' = SParallel sync x' y'
      else (\<exists>x'. (l, x') \<in> set xs \<and> s' = SParallel sync x' y) \<or>
           (\<exists>y'. (l, y') \<in> set ys \<and> s' = SParallel sync x y'))"
proof -
  define f where "f = (\<lambda>(k, x').
      if is_sync_event sync k
      then (case right_sync_map sync ys k of None \<Rightarrow> []
            | Some ss \<Rightarrow> map (\<lambda>y'. (k, SParallel sync x' y')) ss)
      else [(k, SParallel sync x' y)])"
  have f: "(l, s') \<in> set (f (k, x')) \<longleftrightarrow> k = l \<and>
      (if is_sync_event sync l then \<exists>y'. (l, y') \<in> set ys \<and> s' = SParallel sync x' y'
       else s' = SParallel sync x' y)" for k x'
    by (force simp: f_def right_sync_map_eq Let_def filter_empty_conv)
  have "parallel_transitions sync x y xs ys = concat (map f xs) @
      map (\<lambda>(l, y'). (l, SParallel sync x y')) (filter (\<lambda>(l, s). \<not> is_sync_event sync l) ys)"
    by (simp add: parallel_transitions_def f_def Let_def)
  then have "(l, s') \<in> set (parallel_transitions sync x y xs ys) \<longleftrightarrow>
      (\<exists>(k, x') \<in> set xs. (l, s') \<in> set (f (k, x'))) \<or>
      (\<exists>y'. (l, y') \<in> set ys \<and> \<not> is_sync_event sync l \<and> s' = SParallel sync x y')"
    by auto
  then show ?thesis by (auto simp: f)
qed

lemma set_hide_transitions:
  "(l, s') \<in> set (hide_transitions hide xs) \<longleftrightarrow>
     (\<exists>k x'. (k, x') \<in> set xs \<and> l = hide_label hide k \<and> s' = make_hide_state hide x')"
  by (force simp: hide_transitions_def)

section \<open>The transition function implements the rules\<close>

lemma map_opt_target:
  assumes "map_opt (\<lambda>(l, env'). map_option (Pair l) (f env')) xs = Some out"
  shows "(l, s') \<in> set out \<longleftrightarrow> (\<exists>env'. (l, env') \<in> set xs \<and> f env' = Some s')"
  using map_opt_set [OF assms] by force

lemmas transitions_induct =
  transitions_unordered.raw_induct [rotated, consumes 1, case_names step]

lemmas state_from_expr_induct =
  state_from_expr.raw_induct [rotated, consumes 1, case_names step]

lemma transitions_sound:
  "transitions_unordered p s = Some out \<Longrightarrow> (l, s') \<in> set out \<Longrightarrow> sos p s l s'"
proof (induction arbitrary: l s' rule: transitions_induct)
  case (step tr p s out)
  note IH = step(1) and body = step(2) and mem = step(3)
  show ?case
  proof (cases s)
    case (SParallel sync x y)
    with body obtain xs ys where xs: "tr p x = Some xs" and ys: "tr p y = Some ys"
      and out: "out = parallel_transitions sync x y xs ys" by (auto simp: bind_eq_Some_conv)
    show ?thesis
    proof (cases "is_sync_event sync l")
      case True
      with mem out SParallel IH [OF xs] IH [OF ys] show ?thesis
        by (auto simp: set_parallel_transitions intro: sos.Sync)
    next
      case False
      with mem out SParallel IH [OF xs] IH [OF ys] show ?thesis
        by (auto simp: set_parallel_transitions intro: sos.ParLeft sos.ParRight)
    qed
  next
    case (SHide hide x)
    with body obtain xs where xs: "tr p x = Some xs" and out: "out = hide_transitions hide xs"
      by (auto simp: bind_eq_Some_conv)
    with mem SHide IH [OF xs] show ?thesis
      by (auto simp: set_hide_transitions intro: sos.HideStep)
  next
    case (SExpr e env)
    with body obtain nd where nd: "node_at p e = Some nd" by (auto split: option.splits)
    show ?thesis
    proof (cases nd)
      case (NPrefix ev n)
      with nd body mem SExpr obtain env' where "(l, env') \<in> set (eval_event p ev env)"
        and "state_from_expr p n env' = Some s'"
        by (auto split: option.splits dest!: map_opt_set)
      with nd NPrefix SExpr show ?thesis
        by (simp add: eval_event_iff sos.Prefix)
    next
      case (NChoiceExternal a b)
      with nd body SExpr obtain x xs y ys where
        x: "state_from_expr p a env = Some x" "tr p x = Some xs" and
        y: "state_from_expr p b env = Some y" "tr p y = Some ys" and out: "out = xs @ ys"
        by (auto simp: bind_eq_Some_conv)
      from out mem consider "(l, s') \<in> set xs" | "(l, s') \<in> set ys" by auto
      then show ?thesis
        by cases (use nd NChoiceExternal SExpr x y IH in \<open>blast intro: sos.ExtLeft sos.ExtRight\<close>)+
    qed (use nd body mem SExpr IH in \<open>auto simp: bind_eq_Some_conv split: option.splits
        intro: sos.Reference sos.IntLeft sos.IntRight sos.ExprPar sos.ExprHide\<close>)
  qed
qed

lemma transitions_complete:
  "sos p s l s' \<Longrightarrow> transitions_unordered p s = Some out \<Longrightarrow> (l, s') \<in> set out"
proof (induction arbitrary: out rule: sos.induct)
  case (Prefix e ev n env l env' s')
  then show ?case
    by (simp add: transitions_node map_opt_target eval_event_iff) blast
next
  case (IntLeft e a b env s')
  then show ?case by (auto simp: transitions_node split: option.splits)
next
  case (IntRight e a b env s')
  then show ?case by (auto simp: transitions_node split: option.splits)
next
  case (HideStep x l x' hide)
  then show ?case by (fastforce simp: bind_eq_Some_conv set_hide_transitions)
qed (auto simp: transitions_node bind_eq_Some_conv set_parallel_transitions)

lemma transitions_unordered_iff:
  assumes "transitions_unordered p s = Some out"
  shows "(l, s') \<in> set out \<longleftrightarrow> sos p s l s'"
  using assms transitions_sound transitions_complete by blast

section \<open>Well-formed programs\<close>

text \<open>The tables agree and every id points into them; what \<^verbatim>\<open>from_module\<close> builds satisfies this
  (\<open>Cspx_Compile\<close>). A program over a set of names whose lists are ordered has only states the
  codec represents exactly.\<close>

fun node_children :: "expr_node \<Rightarrow> expr_id list" where
  "node_children NStop = []"
| "node_children (NRef q) = []"
| "node_children (NPrefix ev n) = [n]"
| "node_children (NChoiceExternal l r) = [l, r]"
| "node_children (NChoiceInternal l r) = [l, r]"
| "node_children (NParallel l r sync) = [l, r]"
| "node_children (NHide i hide) = [i]"

fun is_ref :: "expr_node \<Rightarrow> bool" where
  "is_ref (NRef q) = True"
| "is_ref _ = False"

fun event_vars :: "event_pat \<Rightarrow> string list" where
  "event_vars (PInBind c x) = [x]"
| "event_vars _ = []"

fun node_names :: "expr_node \<Rightarrow> string list" where
  "node_names (NPrefix ev n) = event_vars ev"
| "node_names (NParallel l r sync) = sync"
| "node_names (NHide i hide) = hide"
| "node_names _ = []"

fun node_ordered :: "expr_node \<Rightarrow> bool" where
  "node_ordered (NParallel l r sync) = bts_ok sync"
| "node_ordered (NHide i hide) = bts_ok hide"
| "node_ordered _ = True"

definition in_program :: "program \<Rightarrow> expr_id \<Rightarrow> bool" where
  "in_program p e \<longleftrightarrow> unat e < length (pr_exprs p)"

definition program_wf :: "program \<Rightarrow> bool" where
  "program_wf p \<longleftrightarrow>
     length (pr_resolved p) = length (pr_exprs p) \<and>
     list_all (\<lambda>nd. list_all (in_program p) (node_children nd) \<and> node_ordered nd) (pr_exprs p) \<and>
     list_all (in_program p) (pr_resolved p)"

definition program_names :: "program \<Rightarrow> string list" where
  "program_names p = concat (map node_names (pr_exprs p))"

definition program_names_ok :: "program \<Rightarrow> bool" where
  "program_names_ok p \<longleftrightarrow>
     list_all name_ok (program_names p) \<and> card (set (program_names p)) < 2 ^ 32"

fun state_inv :: "program \<Rightarrow> cspm_state \<Rightarrow> bool" where
  "state_inv p (SExpr e env) \<longleftrightarrow>
     in_program p e \<and> btm_ok env \<and> fst ` set env \<subseteq> set (program_names p)"
| "state_inv p (SParallel sync l r) \<longleftrightarrow>
     bts_ok sync \<and> set sync \<subseteq> set (program_names p) \<and> state_inv p l \<and> state_inv p r"
| "state_inv p (SHide hide i) \<longleftrightarrow>
     bts_ok hide \<and> set hide \<subseteq> set (program_names p) \<and> state_inv p i"

lemma program_wf_node:
  assumes "program_wf p" and "node_at p e = Some nd"
  shows "list_all (in_program p) (node_children nd)" and "node_ordered nd"
    and "set (node_names nd) \<subseteq> set (program_names p)"
  using assms nth_mem [of "unat e" "pr_exprs p"]
  by (auto simp: program_wf_def node_at_def nth_opt_eq_Some list_all_iff program_names_def)

lemma program_wf_resolved:
  "program_wf p \<Longrightarrow> in_program p e \<Longrightarrow> \<exists>t. resolved_at p e = Some t \<and> in_program p t"
  by (auto simp: program_wf_def in_program_def resolved_at_def nth_opt_def list_all_length)

lemma program_wf_resolved_at:
  "program_wf p \<Longrightarrow> resolved_at p e = Some t \<Longrightarrow> in_program p t"
  by (auto simp: program_wf_def resolved_at_def nth_opt_eq_Some list_all_length)

lemma in_program_node: "in_program p e \<Longrightarrow> \<exists>nd. node_at p e = Some nd"
  by (auto simp: in_program_def node_at_def nth_opt_def)

lemma node_at_in_program: "node_at p e = Some nd \<Longrightarrow> in_program p e"
  by (auto simp: in_program_def node_at_def nth_opt_eq_Some)

lemma state_inv_make_hide [cspx_wf]:
  "bts_ok hide \<Longrightarrow> set hide \<subseteq> set (program_names p) \<Longrightarrow> state_inv p s \<Longrightarrow>
     state_inv p (make_hide_state hide s)"
  by (cases s) (auto simp: make_hide_state_def)

lemma state_inv_from_expr [cspx_wf]:
  "state_from_expr p e env = Some s \<Longrightarrow> program_wf p \<Longrightarrow> in_program p e \<Longrightarrow> btm_ok env \<Longrightarrow>
     fst ` set env \<subseteq> set (program_names p) \<Longrightarrow> state_inv p s"
proof (induction rule: state_from_expr_induct)
  case (step f p e env s)
  note IH = step(1) and body = step(2) and wf = step(3) and env = step(5,6)
  from body obtain nd where nd: "node_at p e = Some nd" by (auto split: option.splits)
  note node = program_wf_node [OF wf nd]
  show ?case
  proof (cases nd)
    case (NRef q)
    with body nd IH wf program_wf_resolved_at [OF wf] show ?thesis by (auto split: option.splits)
  next
    case (NParallel l r sync)
    with body nd IH wf env node show ?thesis by (fastforce simp: bind_eq_Some_conv)
  next
    case (NHide i hide)
    with body nd IH wf env node show ?thesis
      by (auto simp: bind_eq_Some_conv intro!: state_inv_make_hide)
  qed (use body nd env step(4) in auto)
qed

lemma event_step_env:
  assumes "event_step chs ev env l env'" and "btm_ok env"
  shows "btm_ok env' \<and> fst ` set env' \<subseteq> fst ` set env \<union> set (event_vars ev)"
  using assms by (induction rule: event_step.induct)
    (auto dest!: set_btm_insert [THEN subsetD])

text \<open>Every transition preserves the invariant.\<close>

lemma state_inv_sos [cspx_wf]:
  "sos p s l s' \<Longrightarrow> program_wf p \<Longrightarrow> state_inv p s \<Longrightarrow> state_inv p s'"
proof (induction rule: sos.induct)
  case (Reference e q t st l s' env)
  then show ?case using program_wf_resolved_at by (fastforce intro: state_inv_from_expr)
next
  case (Prefix e ev n env l env' s')
  from event_step_env [OF Prefix.hyps(2)] program_wf_node [OF Prefix.prems(1) Prefix.hyps(1)]
  show ?case using Prefix by (intro state_inv_from_expr [OF Prefix.hyps(3)]) auto
next
  case (ExprPar e a b sync env x y l s')
  with program_wf_node [OF ExprPar.prems(1) ExprPar.hyps(1)] show ?case
    by (auto dest!: state_inv_from_expr)
next
  case (ExprHide e i hide env x l s')
  with program_wf_node [OF ExprHide.prems(1) ExprHide.hyps(1)] show ?case
    by (auto dest!: state_inv_from_expr)
qed (auto dest: program_wf_node intro!: state_inv_make_hide dest!: state_inv_from_expr)

lemma state_ok_inv:
  assumes "program_names_ok p"
  shows "state_inv p s \<Longrightarrow> state_ok s"
proof -
  have len: "length xs < 2 ^ 32" if "bts_ok xs" "set xs \<subseteq> set (program_names p)"
    for xs :: "string list"
  proof -
    have "length xs = card (set xs)"
      using that(1) by (simp add: distinct_card strict_sorted_iff)
    also have "\<dots> \<le> card (set (program_names p))" using that(2) by (simp add: card_mono)
    finally show ?thesis using assms by (simp add: program_names_ok_def)
  qed
  have names: "list_all name_ok xs" if "set xs \<subseteq> set (program_names p)" for xs
    using assms that by (auto simp: program_names_ok_def list_all_iff)
  show "state_inv p s \<Longrightarrow> state_ok s"
  proof (induction s)
    case (SExpr e env)
    with len [of "map fst env"] names [of "map fst env"] show ?case
      by (auto simp: list_all_iff)
  qed (use len names in auto)
qed

section \<open>Guarded recursion terminates\<close>

text \<open>The expressions the transition function enters before it meets an event: a reference enters
  what it resolves to, an external choice, a parallel composition and a hiding their components. The
  recursion is guarded when a rank decreases along these steps.\<close>

fun unguarded :: "program \<Rightarrow> expr_id \<Rightarrow> expr_node \<Rightarrow> expr_id list" where
  "unguarded p e (NRef q) = (case resolved_at p e of None \<Rightarrow> [] | Some t \<Rightarrow> [t])"
| "unguarded p e (NChoiceExternal l r) = [l, r]"
| "unguarded p e (NParallel l r sync) = [l, r]"
| "unguarded p e (NHide i hide) = [i]"
| "unguarded p e _ = []"

definition guarded_by :: "(expr_id \<Rightarrow> nat) \<Rightarrow> program \<Rightarrow> bool" where
  "guarded_by rank p \<longleftrightarrow>
     list_all (\<lambda>i. list_all (\<lambda>c. rank c < rank (of_nat i)) (unguarded p (of_nat i) (pr_exprs p ! i)))
       [0..<length (pr_exprs p)]"

fun state_rank :: "(expr_id \<Rightarrow> nat) \<Rightarrow> cspm_state \<Rightarrow> nat" where
  "state_rank rank (SExpr e env) = rank e"
| "state_rank rank (SParallel sync l r) = max (state_rank rank l) (state_rank rank r)"
| "state_rank rank (SHide hide i) = state_rank rank i"

fun leaves_in :: "program \<Rightarrow> cspm_state \<Rightarrow> bool" where
  "leaves_in p (SExpr e env) = in_program p e"
| "leaves_in p (SParallel sync l r) = (leaves_in p l \<and> leaves_in p r)"
| "leaves_in p (SHide hide i) = leaves_in p i"

lemma guarded_by_step:
  "guarded_by rank p \<Longrightarrow> node_at p e = Some nd \<Longrightarrow> c \<in> set (unguarded p e nd) \<Longrightarrow> rank c < rank e"
  by (auto simp: guarded_by_def node_at_def nth_opt_eq_Some list_all_iff dest!: bspec [of _ _ "unat e"])

lemma state_rank_make_hide [simp]: "state_rank rank (make_hide_state h s) = state_rank rank s"
  by (cases s) (auto simp: make_hide_state_def)

lemma leaves_in_make_hide [simp]: "leaves_in p (make_hide_state h s) = leaves_in p s"
  by (cases s) (auto simp: make_hide_state_def)

lemma state_inv_leaves: "state_inv p s \<Longrightarrow> leaves_in p s"
  by (induction s) auto

lemma state_from_expr_returns:
  assumes wf: "program_wf p" and g: "guarded_by rank p"
  shows "in_program p e \<Longrightarrow>
    \<exists>s. state_from_expr p e env = Some s \<and> leaves_in p s \<and> state_rank rank s \<le> rank e"
proof (induction "rank e" arbitrary: e env rule: less_induct)
  case less
  from less.prems obtain nd where nd: "node_at p e = Some nd" using in_program_node by blast
  note node = program_wf_node [OF wf nd] and dec = guarded_by_step [OF g nd]
  show ?case
  proof (cases nd)
    case (NRef q)
    obtain t where t: "resolved_at p e = Some t" "in_program p t"
      using program_wf_resolved [OF wf less.prems] by blast
    with NRef dec have "rank t < rank e" by simp
    from less.hyps [OF this t(2), of "[]"] this nd NRef t(1) show ?thesis
      by (fastforce simp: state_from_expr_node)
  next
    case (NParallel l r sync)
    with dec node less.hyps [of l env] less.hyps [of r env] nd show ?thesis
      by (fastforce simp: state_from_expr_node)
  next
    case (NHide i hide)
    with dec node less.hyps [of i env] nd show ?thesis
      by (fastforce simp: state_from_expr_node)
  qed (use nd less.prems in \<open>simp_all add: state_from_expr_node\<close>)
qed

lemma transitions_return_below:
  assumes wf: "program_wf p" and g: "guarded_by rank p"
  shows "leaves_in p s \<Longrightarrow> state_rank rank s < n \<Longrightarrow> \<exists>out. transitions_unordered p s = Some out"
proof (induction n arbitrary: s)
  case (Suc n)
  note outer = Suc.IH
  from Suc.prems show ?case
  proof (induction s)
    case (SExpr e env)
    then obtain nd where nd: "node_at p e = Some nd" using in_program_node by auto
    note node = program_wf_node [OF wf nd] and dec = guarded_by_step [OF g nd]
    have enter: "\<exists>s. state_from_expr p c env' = Some s \<and> leaves_in p s \<and> state_rank rank s < n"
      if "c \<in> set (unguarded p e nd)" "in_program p c" for c env'
      using state_from_expr_returns [OF wf g that(2), of env'] dec [OF that(1)] SExpr.prems(2)
      by force
    have sfe: "\<exists>s. state_from_expr p c env' = Some s" if "in_program p c" for c env'
      using state_from_expr_returns [OF wf g that, of env'] by blast
    show ?case
    proof (cases nd)
      case (NRef q)
      obtain t where t: "resolved_at p e = Some t" "in_program p t"
        using program_wf_resolved [OF wf] SExpr.prems by auto
      with enter [of t "[]"] NRef obtain s where "state_from_expr p t [] = Some s"
        "leaves_in p s" "state_rank rank s < n" by auto
      with outer [of s] nd NRef t(1) show ?thesis by (auto simp: transitions_node)
    next
      case (NPrefix ev m)
      with node sfe have "\<exists>out. map_opt (\<lambda>(l, env'). map_option (Pair l) (state_from_expr p m env'))
          (eval_event p ev env) = Some out"
        by (intro map_opt_total) fastforce
      with nd NPrefix show ?thesis by (simp add: transitions_node)
    next
      case (NChoiceExternal a b)
      with enter [of a env] enter [of b env] node obtain x y where
        "state_from_expr p a env = Some x" "leaves_in p x" "state_rank rank x < n"
        "state_from_expr p b env = Some y" "leaves_in p y" "state_rank rank y < n" by auto
      with outer [of x] outer [of y] nd NChoiceExternal show ?thesis
        by (auto simp: transitions_node)
    next
      case (NChoiceInternal a b)
      with nd node sfe [of a env] sfe [of b env] show ?thesis by (auto simp: transitions_node)
    next
      case (NParallel a b sync)
      with enter [of a env] enter [of b env] node obtain x y where
        "state_from_expr p a env = Some x" "leaves_in p x" "state_rank rank x < n"
        "state_from_expr p b env = Some y" "leaves_in p y" "state_rank rank y < n" by auto
      with outer [of "SParallel sync x y"] nd NParallel show ?thesis
        by (simp add: transitions_node)
    next
      case (NHide i hide)
      with enter [of i env] node obtain x where
        "state_from_expr p i env = Some x" "leaves_in p x" "state_rank rank x < n" by auto
      with outer [of "SHide hide x"] nd NHide show ?thesis by (simp add: transitions_node)
    qed (use nd in \<open>simp add: transitions_node\<close>)
  qed auto
qed simp

lemma transitions_return:
  assumes "program_wf p" and "guarded_by rank p" and "leaves_in p s"
  shows "\<exists>out. transitions_for p s = Some out"
  using transitions_return_below [OF assms(1,2,3) lessI] by (auto simp: transitions_for_def)

section \<open>The canonical order\<close>

lemma transitions_for_iff:
  "transitions_for p s = Some out \<Longrightarrow> (l, s') \<in> set out \<longleftrightarrow> sos p s l s'"
  using transitions_unordered_iff by (auto simp: transitions_for_def)

lemma transitions_for_sorted:
  "transitions_for p s = Some out \<Longrightarrow> sorted (map transition_key out)"
  by (auto simp: transitions_for_def)

lemma transition_key_inj:
  assumes "state_ok (snd a)" and "state_ok (snd b)"
  shows "transition_key a = transition_key b \<longleftrightarrow> a = b"
  using cspm_codec.enc_inj [OF assms] by (auto simp: transition_key_def prod_eq_iff)

lemma transitions_for_canonical:
  assumes "transitions_unordered p s = Some ts" and "\<forall>x \<in> set ts. state_ok (snd x)"
    and "mset xs = mset ts" and "sorted (map transition_key xs)"
  shows "transitions_for p s = Some xs"
proof -
  have "inj_on transition_key (set ts)"
    using assms(2) by (intro inj_onI) (simp add: transition_key_inj)
  with sort_key_inj_key_eq [of ts xs transition_key] assms show ?thesis
    by (simp add: transitions_for_def)
qed

section \<open>Properties\<close>

text \<open>The program \<open>a?x -> STOP\<close> over \<open>channel a : {0..1}\<close>, hidden, put in parallel with itself
  and offered as a choice with itself: what the witnesses run on.\<close>

definition demo_program :: program where
  "demo_program =
     \<lparr>pr_channels = [(''a'', ChIntRange 0 1)],
      pr_exprs = [NStop, NPrefix (PInBind ''a'' ''x'') 0, NHide 1 [''a''], NParallel 1 1 [''a''],
                  NChoiceInternal 0 1, NChoiceExternal 4 1, NRef 0],
      pr_resolved = [0, 1, 2, 3, 4, 5, 5]\<rparr>"

lemma demo_node [simp]:
  "node_at demo_program 0 = Some NStop"
  "node_at demo_program 1 = Some (NPrefix (PInBind ''a'' ''x'') 0)"
  "node_at demo_program 2 = Some (NHide 1 [''a''])"
  "node_at demo_program 3 = Some (NParallel 1 1 [''a''])"
  "node_at demo_program 4 = Some (NChoiceInternal 0 1)"
  "node_at demo_program 5 = Some (NChoiceExternal 4 1)"
  "node_at demo_program 6 = Some (NRef 0)"
  "resolved_at demo_program 6 = Some 5"
  "pr_channels demo_program = [(''a'', ChIntRange 0 1)]"
  by (simp_all add: node_at_def resolved_at_def demo_program_def nth_opt_def)

lemma demo_wf [simp]: "program_wf demo_program" "program_names_ok demo_program"
  "guarded_by unat demo_program"
proof -
  show "program_wf demo_program"
    by (simp add: program_wf_def demo_program_def in_program_def)
  show "program_names_ok demo_program"
    by (simp add: program_names_ok_def program_names_def demo_program_def name_ok_def
        char_between_def)
  show "guarded_by unat demo_program"
    by (simp add: guarded_by_def demo_program_def resolved_at_def nth_opt_def upt_rec)
qed

lemma demo_transitions:
  "transitions_for demo_program (SExpr 3 []) =
     Some [(''a.0'', SParallel [''a''] (SExpr 0 [(''x'', 0)]) (SExpr 0 [(''x'', 0)])),
           (''a.1'', SParallel [''a''] (SExpr 0 [(''x'', 1)]) (SExpr 0 [(''x'', 1)]))]"
  by code_simp

lemma demo_transitions_choice:
  "transitions_for demo_program (SExpr 5 []) =
     Some [(''a.0'', SExpr 0 [(''x'', 0)]), (''a.1'', SExpr 0 [(''x'', 1)]),
           (tau, SExpr 0 []), (tau, SExpr 1 [])]"
  by code_simp

text \<open>C1: whenever the transition function returns, it lists exactly the transitions of the
  operational rules: every listed one is derivable, and every derivable one is listed.\<close>

theorem transitions_exact:
  "transitions_for p s = Some out \<Longrightarrow> (l, s') \<in> set out \<longleftrightarrow> sos p s l s'"
  by (rule transitions_for_iff)

theorem transitions_exact_witness:
  "sos demo_program (SExpr 3 []) ''a.1''
     (SParallel [''a''] (SExpr 0 [(''x'', 1)]) (SExpr 0 [(''x'', 1)]))
   \<and> (\<forall>s'. \<not> sos demo_program (SExpr 3 []) ''a.2'' s')"
  by (simp add: transitions_exact [OF demo_transitions, symmetric])

text \<open>C2: on a program whose recursion is guarded the transition function returns, on every state
  over the program's expressions: it neither panics nor recurses without end.\<close>

theorem transitions_total:
  assumes "program_wf p" and "guarded_by rank p" and "leaves_in p s"
  shows "\<exists>out. transitions_for p s = Some out"
  by (rule transitions_return [OF assms])

theorem transitions_total_witness:
  "\<exists>out. transitions_for demo_program (SParallel [] (SExpr 6 []) (SHide [''a''] (SExpr 5 []))) = Some out"
  by (rule transitions_total [OF demo_wf(1,3)])
    (simp add: in_program_def demo_program_def)

text \<open>C7: the list is canonical. Among all arrangements of the transitions it is the only one that
  is sorted by label and encoded successor, so it does not depend on the order in which the
  components were explored.\<close>

theorem transitions_canonical:
  assumes "program_wf p" and "program_names_ok p" and "state_inv p s"
    and "transitions_unordered p s = Some ts"
    and "mset xs = mset ts" and "sorted (map transition_key xs)"
  shows "transitions_for p s = Some xs"
proof (rule transitions_for_canonical [OF assms(4) _ assms(5,6)])
  show "\<forall>x \<in> set ts. state_ok (snd x)"
    using assms(1-4) transitions_unordered_iff
    by (fastforce intro: state_ok_inv state_inv_sos)
qed

theorem transitions_canonical_witness:
  "transitions_for demo_program (SExpr 4 []) = Some [(tau, SExpr 0 []), (tau, SExpr 1 [])]"
  by (rule transitions_canonical
        [where ts = "[(tau, SExpr 0 []), (tau, SExpr 1 [])]", OF demo_wf(1,2)])
    (simp_all add: in_program_def demo_program_def transitions_node state_from_expr_node,
      code_simp+)

text \<open>C8: every successor of a state over the program's names is again one, and the codec
  represents it exactly.\<close>

theorem successors_encode:
  assumes "program_wf p" and "program_names_ok p" and "state_inv p s" and "sos p s l s'"
  shows "state_inv p s' \<and> decode (encode s') = Inr s'"
proof
  show inv: "state_inv p s'" by (rule state_inv_sos [OF assms(4,1,3)])
  show "decode (encode s') = Inr s'"
    by (rule cspm_codec.dec_enc) (rule state_ok_inv [OF assms(2) inv])
qed

theorem successors_encode_witness:
  "state_inv demo_program (SExpr 0 [(''x'', 1)]) \<and>
   decode (encode (SExpr 0 [(''x'', 1)])) = Inr (SExpr 0 [(''x'', 1)])"
proof (rule successors_encode [OF demo_wf(1,2)])
  show "state_inv demo_program (SExpr 5 [])" by (simp add: in_program_def demo_program_def)
  show "sos demo_program (SExpr 5 []) ''a.1'' (SExpr 0 [(''x'', 1)])"
    by (simp add: transitions_for_iff [OF demo_transitions_choice, symmetric])
qed

text \<open>An internal step of one branch resolves an external choice: the other branch is
  dropped. (In CSP an external choice is only resolved by a visible event: \<open>P [] Q\<close> would go to
  \<open>P' [] Q\<close>.)\<close>

theorem external_choice_resolved_by_tau:
  assumes "node_at p e = Some (NChoiceExternal a b)"
    and "transitions_for p (SExpr e env) = Some out"
    and "state_from_expr p a env = Some st" and "sos p st tau s'"
  shows "(tau, s') \<in> set out"
  using assms by (auto simp: transitions_for_iff intro: sos.ExtLeft)

theorem external_choice_resolved_by_tau_witness:
  "(tau, SExpr 0 []) \<in>
     set [(''a.0'', SExpr 0 [(''x'', 0)]), (''a.1'', SExpr 0 [(''x'', 1)]),
          (tau, SExpr 0 []), (tau, SExpr 1 [])]"
  by (rule external_choice_resolved_by_tau [OF demo_node(6) demo_transitions_choice])
    (auto simp: state_from_expr_node intro: sos.IntLeft)

text \<open>An external choice whose left branch leads back to it without an event (as in
  \<open>P = P [] Q\<close>) makes the transition function recurse without end: it has no value.\<close>

theorem unguarded_choice_diverges:
  assumes "node_at p e = Some (NChoiceExternal a b)"
    and "state_from_expr p a env = Some (SExpr e env)"
  shows "transitions_for p (SExpr e env) = None"
proof -
  have "s \<noteq> SExpr e env" if "transitions_unordered p s = Some out" for s out
    using that assms
  proof (induction rule: transitions_induct)
    case (step f p s out)
    show ?case
    proof
      assume "s = SExpr e env"
      with step(2-) obtain out' where "f p s = Some out'" by (auto simp: bind_eq_Some_conv)
      from step(1) [OF this step(3,4)] \<open>s = SExpr e env\<close> show False by simp
    qed
  qed
  then show ?thesis
    by (cases "transitions_unordered p (SExpr e env)") (auto simp: transitions_for_def)
qed

theorem unguarded_choice_diverges_witness:
  "transitions_for
     \<lparr>pr_channels = [], pr_exprs = [NRef 0, NStop, NChoiceExternal 0 1], pr_resolved = [2, 1, 2]\<rparr>
     (SExpr 2 []) = None"
  by (rule unguarded_choice_diverges [of _ _ 0 1])
    (simp_all add: node_at_def nth_opt_def state_from_expr_node resolved_at_def)

end
