(* ===== verification/Cspx_Compile.thy ===== *)
theory Cspx_Compile
  imports Cspx_Lts Cspx_IR
begin

text \<open>
  From a module to its transition system: \<^verbatim>\<open>compile_channels\<close>, \<^verbatim>\<open>collect_processes\<close>, the
  \<^verbatim>\<open>ProgramBuilder\<close> with hash-consing of expression nodes, \<^verbatim>\<open>compute_resolved\<close> and
  \<^verbatim>\<open>CspmTransitionProvider::from_module\<close> of \<^verbatim>\<open>lts_cspm.rs\<close>. The lemmas show that the
  compiled table denotes the source expressions, that references are resolved exactly when they are
  not cyclic, that every id of the result is in range, and that the initial state is missing exactly
  when the entry process can be entered without end.
\<close>

section \<open>Errors\<close>

datatype lts_error = LtsError (lts_message: string) (lts_span: "source_span option")

section \<open>Channels and process names\<close>

fun compile_channel_domain :: "channel_domain spanned option \<Rightarrow> lts_error + channel_dom" where
  "compile_channel_domain None = Inr ChUnit"
| "compile_channel_domain (Some (Spanned (DomIntRange lo hi) sp)) =
     Inr (ChIntRange (node lo) (node hi))"
| "compile_channel_domain (Some (Spanned (DomNamedType t) sp)) =
     Inl (LtsError ''unsupported channel domain'' (Some sp))"

fun add_channel_names ::
  "channel_dom \<Rightarrow> string spanned list \<Rightarrow> (string \<times> channel_dom) list
     \<Rightarrow> lts_error + (string \<times> channel_dom) list" where
  "add_channel_names d [] m = Inr m"
| "add_channel_names d (n # ns) m =
     (if map_of m (node n) \<noteq> None
      then Inl (LtsError (''duplicate channel: '' @ node n) (Some (span n)))
      else add_channel_names d ns (btm_insert (node n) d m))"

fun compile_channel_decls ::
  "channel_decl list \<Rightarrow> (string \<times> channel_dom) list \<Rightarrow> lts_error + (string \<times> channel_dom) list" where
  "compile_channel_decls [] m = Inr m"
| "compile_channel_decls (d # ds) m =
     and_then (compile_channel_domain (chan_domain d)) (\<lambda>dom.
     and_then (add_channel_names dom (chan_names d) m) (\<lambda>m'.
     compile_channel_decls ds m'))"

definition compile_channels :: "cmodule \<Rightarrow> lts_error + (string \<times> channel_dom) list" where
  "compile_channels m = compile_channel_decls (channels m) []"

type_synonym proc_ids = "(string \<times> proc_id) list"
type_synonym proc_exprs = "(string \<times> process_expr spanned) list"

fun collect_decls ::
  "process_decl list \<Rightarrow> proc_ids \<Rightarrow> proc_exprs \<Rightarrow> lts_error + proc_ids \<times> proc_exprs" where
  "collect_decls [] ids exprs = Inr (ids, exprs)"
| "collect_decls (d # ds) ids exprs =
     (let name = node (decl_name d) in
      if map_of ids name \<noteq> None
      then Inl (LtsError (''duplicate process: '' @ name) (Some (span (decl_name d))))
      else collect_decls ds (btm_insert name 0 ids) (btm_insert name (decl_expr d) exprs))"

definition collect_processes :: "cmodule \<Rightarrow> lts_error + proc_ids \<times> proc_exprs" where
  "collect_processes m =
     and_then (collect_decls (declarations m) [] []) (\<lambda>(ids, exprs).
     Inr (fold (\<lambda>(idx, name). btm_insert name (of_nat idx)) (enumerate 0 (map fst ids)) ids, exprs))"

section \<open>The program builder\<close>

record program_builder =
  pb_channels :: "(string \<times> channel_dom) list"
  pb_proc_ids :: proc_ids
  pb_exprs :: "expr_node list"
  pb_spans :: "source_span option list"
  pb_intern :: "expr_node \<rightharpoonup> expr_id"
  pb_roots :: "expr_id list"

definition new_builder :: "(string \<times> channel_dom) list \<Rightarrow> proc_ids \<Rightarrow> program_builder" where
  "new_builder chs ids =
     \<lparr>pb_channels = chs, pb_proc_ids = ids, pb_exprs = [], pb_spans = [], pb_intern = Map.empty,
      pb_roots = replicate (length ids) 0\<rparr>"

definition intern ::
  "expr_node \<Rightarrow> source_span option \<Rightarrow> program_builder \<Rightarrow> expr_id \<times> program_builder" where
  "intern nd sp b =
     (case pb_intern b nd of
        Some eid \<Rightarrow> (eid, b)
      | None \<Rightarrow>
          (let eid = of_nat (length (pb_exprs b)) in
           (eid, b\<lparr>pb_exprs := pb_exprs b @ [nd], pb_spans := pb_spans b @ [sp],
                  pb_intern := (pb_intern b)(nd \<mapsto> eid)\<rparr>)))"

fun compile_event_seg :: "string \<Rightarrow> event_seg option \<Rightarrow> lts_error + event_pat" where
  "compile_event_seg c None = Inr (PUnit c)"
| "compile_event_seg c (Some (Dot (Spanned (VInt n) sp))) = Inr (PInt c n)"
| "compile_event_seg c (Some (Dot (Spanned (VIdent x) sp))) =
     Inl (LtsError ''unsupported dot payload'' (Some sp))"
| "compile_event_seg c (Some (Out (Spanned (VInt n) sp))) = Inr (PInt c n)"
| "compile_event_seg c (Some (Out (Spanned (VIdent x) sp))) = Inr (POutVar c x)"
| "compile_event_seg c (Some (In (Spanned (InInt n) sp))) = Inr (PInConst c n)"
| "compile_event_seg c (Some (In (Spanned (InBind x) sp))) = Inr (PInBind c x)"

definition compile_event_pat :: "event spanned \<Rightarrow> lts_error + event_pat" where
  "compile_event_pat ev = compile_event_seg (node (ev_channel (node ev))) (ev_seg (node ev))"

definition channel_set :: "event_set \<Rightarrow> string list" where
  "channel_set es = bts_of_list (map node (set_channels es))"

fun choice_node :: "choice_kind \<Rightarrow> expr_id \<Rightarrow> expr_id \<Rightarrow> expr_node" where
  "choice_node External l r = NChoiceExternal l r"
| "choice_node Internal l r = NChoiceInternal l r"

fun sync_channels ::
  "parallel_kind \<Rightarrow> event_set option \<Rightarrow> source_span \<Rightarrow> lts_error + string list" where
  "sync_channels Interleaving es sp = Inr []"
| "sync_channels Interface None sp =
     Inl (LtsError ''missing sync set for interface parallel'' (Some sp))"
| "sync_channels Interface (Some es) sp = Inr (channel_set es)"

fun compile_expr ::
  "process_expr spanned \<Rightarrow> program_builder \<Rightarrow> lts_error + expr_id \<times> program_builder" where
  "compile_expr (Spanned Stop sp) b = Inr (intern NStop (Some sp) b)"
| "compile_expr (Spanned (Ref name) sp) b =
     and_then (ok_or (LtsError (''undefined process: '' @ node name) (Some (span name)))
                 (map_of (pb_proc_ids b) (node name))) (\<lambda>proc_id.
     Inr (intern (NRef proc_id) (Some sp) b))"
| "compile_expr (Spanned (Prefix ev next) sp) b =
     and_then (compile_event_pat ev) (\<lambda>pat.
     and_then (compile_expr next b) (\<lambda>(n, b1).
     Inr (intern (NPrefix pat n) (Some sp) b1)))"
| "compile_expr (Spanned (Choice kind left right) sp) b =
     and_then (compile_expr left b) (\<lambda>(l, b1).
     and_then (compile_expr right b1) (\<lambda>(r, b2).
     Inr (intern (choice_node kind l r) (Some sp) b2)))"
| "compile_expr (Spanned (Parallel kind left right sync) sp) b =
     and_then (compile_expr left b) (\<lambda>(l, b1).
     and_then (compile_expr right b1) (\<lambda>(r, b2).
     and_then (sync_channels kind sync sp) (\<lambda>chs.
     Inr (intern (NParallel l r chs) (Some sp) b2))))"
| "compile_expr (Spanned (Hide inner hide) sp) b =
     and_then (compile_expr inner b) (\<lambda>(i, b1).
     Inr (intern (NHide i (channel_set hide)) (Some sp) b1))"

section \<open>Resolving references\<close>

type_synonym memo = "expr_id option list"

function (sequential) resolve ::
  "expr_node list \<Rightarrow> expr_id list \<Rightarrow> source_span option list \<Rightarrow> expr_id \<Rightarrow> memo \<Rightarrow> expr_id set
     \<Rightarrow> (lts_error + expr_id \<times> memo \<times> expr_id set) option" where
  "resolve exprs roots spans eid memo visiting =
     (case nth_opt memo (unat eid) of
        None \<Rightarrow> None
      | Some (Some resolved) \<Rightarrow> Some (Inr (resolved, memo, visiting))
      | Some None \<Rightarrow>
          if eid \<in> visiting
          then Some (Inl (LtsError ''cyclic process reference''
                            (Option.bind (nth_opt spans (unat eid)) (\<lambda>s. s))))
          else
            (case nth_opt exprs (unat eid) of
               None \<Rightarrow> None
             | Some nd \<Rightarrow>
                 (case nd of
                    NRef q \<Rightarrow>
                      (case nth_opt roots (unat q) of
                         None \<Rightarrow> None
                       | Some target \<Rightarrow>
                           (case resolve exprs roots spans target memo (insert eid visiting) of
                              None \<Rightarrow> None
                            | Some (Inl e) \<Rightarrow> Some (Inl e)
                            | Some (Inr (resolved, memo', visiting')) \<Rightarrow>
                                Some (Inr (resolved, memo'[unat eid := Some resolved],
                                           visiting' - {eid}))))
                  | _ \<Rightarrow> Some (Inr (eid, memo[unat eid := Some eid], insert eid visiting - {eid})))))"
  by pat_completeness auto

text \<open>The set of ids being visited grows with every call, and there are only \<open>2 ^ 32\<close> ids.\<close>

termination
proof (relation "measure (\<lambda>(exprs, roots, spans, eid, memo, visiting). card (- visiting))")
  fix eid :: expr_id and visiting :: "expr_id set"
  assume "eid \<notin> visiting"
  then have "card (- insert eid visiting) < card (- visiting)"
    by (intro psubset_card_mono) auto
  then show "((exprs, roots, spans, target, memo, insert eid visiting),
      (exprs, roots, spans, eid, memo, visiting))
      \<in> measure (\<lambda>(exprs, roots, spans, eid, memo, visiting). card (- visiting))"
    for exprs roots spans target memo by simp
qed simp

declare resolve.simps [simp del]

fun resolve_all ::
  "expr_node list \<Rightarrow> expr_id list \<Rightarrow> source_span option list \<Rightarrow> expr_id list \<Rightarrow> memo \<Rightarrow> expr_id set
     \<Rightarrow> (lts_error + expr_id list) option" where
  "resolve_all exprs roots spans [] memo visiting = Some (Inr [])"
| "resolve_all exprs roots spans (eid # ids) memo visiting =
     (case resolve exprs roots spans eid memo visiting of
        None \<Rightarrow> None
      | Some (Inl e) \<Rightarrow> Some (Inl e)
      | Some (Inr (r, memo', visiting')) \<Rightarrow>
          (case resolve_all exprs roots spans ids memo' visiting' of
             None \<Rightarrow> None
           | Some (Inl e) \<Rightarrow> Some (Inl e)
           | Some (Inr out) \<Rightarrow> Some (Inr (r # out))))"

definition compute_resolved ::
  "expr_node list \<Rightarrow> expr_id list \<Rightarrow> source_span option list
     \<Rightarrow> (lts_error + expr_id list) option" where
  "compute_resolved exprs roots spans =
     resolve_all exprs roots spans (map of_nat [0..<length exprs])
       (replicate (length exprs) None) {}"

definition finish :: "program_builder \<Rightarrow> (lts_error + program) option" where
  "finish b =
     (case compute_resolved (pb_exprs b) (pb_roots b) (pb_spans b) of
        None \<Rightarrow> None
      | Some (Inl e) \<Rightarrow> Some (Inl e)
      | Some (Inr resolved) \<Rightarrow>
          Some (Inr \<lparr>pr_channels = pb_channels b, pr_exprs = pb_exprs b, pr_resolved = resolved\<rparr>))"

section \<open>from\_module\<close>

record cspm_provider =
  cp_program :: program
  cp_initial :: cspm_state

definition initial_expr :: "cmodule \<Rightarrow> lts_error + process_expr spanned" where
  "initial_expr m =
     (case entry m of
        Some e \<Rightarrow> Inr e
      | None \<Rightarrow>
          (case declarations m of
             [d] \<Rightarrow> Inr (decl_expr d)
           | _ \<Rightarrow> Inl (LtsError ''entry process not specified'' None)))"

text \<open>The loop over the processes in the order of their names; a root index out of range would
  panic.\<close>

fun compile_roots ::
  "proc_exprs \<Rightarrow> proc_ids \<Rightarrow> program_builder \<Rightarrow> (lts_error + program_builder) option" where
  "compile_roots exprs [] b = Some (Inr b)"
| "compile_roots exprs ((name, proc_id) # ids) b =
     (case and_then (ok_or (LtsError (''undefined process: '' @ name) None) (map_of exprs name))
             (\<lambda>e. compile_expr e b) of
        Inl e \<Rightarrow> Some (Inl e)
      | Inr (root, b1) \<Rightarrow>
          if unat proc_id < length (pb_roots b1)
          then compile_roots exprs ids (b1\<lparr>pb_roots := (pb_roots b1)[unat proc_id := root]\<rparr>)
          else None)"

text \<open>Everything up to the finished program, with the id of the initial expression.\<close>

definition compile_module :: "cmodule \<Rightarrow> (lts_error + expr_id \<times> program) option" where
  "compile_module m =
     (case and_then (compile_channels m) (\<lambda>chs.
           and_then (collect_processes m) (\<lambda>(ids, exprs).
           and_then (initial_expr m) (\<lambda>e0.
           and_then (compile_expr e0 (new_builder chs ids)) (\<lambda>(e0_id, b).
           Inr (ids, exprs, e0_id, b))))) of
        Inl e \<Rightarrow> Some (Inl e)
      | Inr (ids, exprs, e0_id, b) \<Rightarrow>
          (case compile_roots exprs ids b of
             None \<Rightarrow> None
           | Some (Inl e) \<Rightarrow> Some (Inl e)
           | Some (Inr b1) \<Rightarrow>
               (case finish b1 of
                  None \<Rightarrow> None
                | Some (Inl e) \<Rightarrow> Some (Inl e)
                | Some (Inr p) \<Rightarrow> Some (Inr (e0_id, p)))))"

definition from_module :: "cmodule \<Rightarrow> (lts_error + cspm_provider) option" where
  "from_module m =
     (case compile_module m of
        None \<Rightarrow> None
      | Some (Inl e) \<Rightarrow> Some (Inl e)
      | Some (Inr (initial_expr_id, p)) \<Rightarrow>
          (case state_from_expr p initial_expr_id [] of
             None \<Rightarrow> None
           | Some s0 \<Rightarrow> Some (Inr \<lparr>cp_program = p, cp_initial = s0\<rparr>)))"

definition provider_of :: "cspm_provider \<Rightarrow> cspm_state transition_provider" where
  "provider_of cp =
     \<lparr>initial_state = cp_initial cp, transitions = transitions_for (cp_program cp)\<rparr>"

section \<open>The compiled table denotes the source\<close>

text \<open>\<open>denotes ids xs i e\<close>: the entry \<open>i\<close> of the table \<open>xs\<close> is the translation of the expression
  \<open>e\<close>, entry by entry down to the leaves; a reference is the id of the process it names.\<close>

fun denotes :: "proc_ids \<Rightarrow> expr_node list \<Rightarrow> expr_id \<Rightarrow> process_expr spanned \<Rightarrow> bool" where
  "denotes ids xs i (Spanned Stop sp) \<longleftrightarrow> nth_opt xs (unat i) = Some NStop"
| "denotes ids xs i (Spanned (Ref name) sp) \<longleftrightarrow>
     (case nth_opt xs (unat i) of
        Some (NRef q) \<Rightarrow> map_of ids (node name) = Some q | _ \<Rightarrow> False)"
| "denotes ids xs i (Spanned (Prefix ev next) sp) \<longleftrightarrow>
     (case nth_opt xs (unat i) of
        Some (NPrefix pat n) \<Rightarrow> compile_event_pat ev = Inr pat \<and> denotes ids xs n next
      | _ \<Rightarrow> False)"
| "denotes ids xs i (Spanned (Choice kind left right) sp) \<longleftrightarrow>
     (case nth_opt xs (unat i) of
        Some (NChoiceExternal l r) \<Rightarrow>
          kind = External \<and> denotes ids xs l left \<and> denotes ids xs r right
      | Some (NChoiceInternal l r) \<Rightarrow>
          kind = Internal \<and> denotes ids xs l left \<and> denotes ids xs r right
      | _ \<Rightarrow> False)"
| "denotes ids xs i (Spanned (Parallel kind left right sync) sp) \<longleftrightarrow>
     (case nth_opt xs (unat i) of
        Some (NParallel l r chs) \<Rightarrow>
          sync_channels kind sync sp = Inr chs \<and> denotes ids xs l left \<and> denotes ids xs r right
      | _ \<Rightarrow> False)"
| "denotes ids xs i (Spanned (Hide inner hide) sp) \<longleftrightarrow>
     (case nth_opt xs (unat i) of
        Some (NHide j chs) \<Rightarrow> chs = channel_set hide \<and> denotes ids xs j inner
      | _ \<Rightarrow> False)"

lemma denotes_append: "denotes ids xs i e \<Longrightarrow> denotes ids (xs @ ys) i e"
  by (induction ids xs i e rule: denotes.induct)
    (auto split: option.splits expr_node.splits simp: nth_opt_append)

text \<open>The invariant of the builder: interning is exact, the spans are as many as the nodes, and
  every child of a node and every reference is in range.\<close>

definition in_table :: "expr_node list \<Rightarrow> expr_id \<Rightarrow> bool" where
  "in_table xs i \<longleftrightarrow> unat i < length xs"

fun node_refs :: "expr_node \<Rightarrow> proc_id list" where
  "node_refs (NRef q) = [q]"
| "node_refs _ = []"

definition builder_ok :: "program_builder \<Rightarrow> bool" where
  "builder_ok b \<longleftrightarrow>
     length (pb_spans b) = length (pb_exprs b) \<and>
     (\<forall>nd i. pb_intern b nd = Some i \<longrightarrow> nth_opt (pb_exprs b) (unat i) = Some nd) \<and>
     (\<forall>nd \<in> set (pb_exprs b).
        list_all (in_table (pb_exprs b)) (node_children nd) \<and> node_ordered nd \<and>
        set (node_refs nd) \<subseteq> snd ` set (pb_proc_ids b)) \<and>
     length (pb_roots b) = length (pb_proc_ids b)"

text \<open>Compilation only appends nodes and leaves the rest of the builder alone.\<close>

definition grows :: "program_builder \<Rightarrow> program_builder \<Rightarrow> bool" where
  "grows b b' \<longleftrightarrow> (\<exists>ys. pb_exprs b' = pb_exprs b @ ys) \<and> pb_channels b' = pb_channels b \<and>
     pb_proc_ids b' = pb_proc_ids b \<and> pb_roots b' = pb_roots b"

lemma grows_refl [simp]: "grows b b"
  by (simp add: grows_def)

lemma grows_trans: "grows a b \<Longrightarrow> grows b c \<Longrightarrow> grows a c"
  by (auto simp: grows_def)

lemma grows_length: "grows b b' \<Longrightarrow> length (pb_exprs b) \<le> length (pb_exprs b')"
  by (auto simp: grows_def)

lemma grows_denotes:
  "grows b b' \<Longrightarrow> denotes ids (pb_exprs b) i e \<Longrightarrow> denotes ids (pb_exprs b') i e"
  by (auto simp: grows_def denotes_append)

lemma grows_in_table: "grows b b' \<Longrightarrow> in_table (pb_exprs b) i \<Longrightarrow> in_table (pb_exprs b') i"
  by (auto simp: grows_def in_table_def)

lemma denotes_in_table: "denotes ids xs i e \<Longrightarrow> in_table xs i"
  by (cases "(ids, xs, i, e)" rule: denotes.cases; cases "nth_opt xs (unat i)")
    (auto simp: in_table_def nth_opt_eq_Some)

lemma intern_grows: "intern nd sp b = (i, b') \<Longrightarrow> grows b b'"
  by (auto simp: intern_def Let_def grows_def split: option.splits)

lemma intern_ok:
  assumes "intern nd sp b = (i, b')" and "builder_ok b" and "length (pb_exprs b') \<le> 2 ^ 32"
    and "list_all (in_table (pb_exprs b)) (node_children nd)" and "node_ordered nd"
    and "set (node_refs nd) \<subseteq> snd ` set (pb_proc_ids b)"
  shows "builder_ok b' \<and> nth_opt (pb_exprs b') (unat i) = Some nd"
proof (cases "pb_intern b nd")
  case (Some j)
  with assms show ?thesis by (auto simp: intern_def builder_ok_def)
next
  case None
  let ?n = "length (pb_exprs b)"
  from None assms(1) have b': "b' = b\<lparr>pb_exprs := pb_exprs b @ [nd], pb_spans := pb_spans b @ [sp],
      pb_intern := (pb_intern b)(nd \<mapsto> of_nat ?n)\<rparr>" and i: "i = of_nat ?n"
    by (auto simp: intern_def Let_def)
  with assms(3) have "?n < 2 ^ 32" by simp
  then have "unat (of_nat ?n :: u32) = ?n" by (simp add: unat_of_nat)
  moreover have "in_table (pb_exprs b @ [nd]) j" if "in_table (pb_exprs b) j" for j
    using that by (simp add: in_table_def)
  ultimately show ?thesis
    using assms(2,4-6) unfolding b' i builder_ok_def
    by (auto simp: nth_opt_eq_Some nth_append list_all_iff less_Suc_eq)
qed

lemma node_refs_choice [simp]: "node_refs (choice_node k l r) = []"
  by (cases k) auto

lemma node_children_choice [simp]: "node_children (choice_node k l r) = [l, r]"
  by (cases k) auto

lemma node_ordered_choice [simp]: "node_ordered (choice_node k l r)"
  by (cases k) auto

lemma channel_set_ok [simp]: "bts_ok (channel_set es)"
  by (simp add: channel_set_def)

lemma sync_channels_ok: "sync_channels k es sp = Inr chs \<Longrightarrow> bts_ok chs"
  by (cases "(k, es, sp)" rule: sync_channels.cases) auto

lemma compile_expr_grows: "compile_expr e b = Inr (i, b') \<Longrightarrow> grows b b'"
proof (induction e b arbitrary: i b' rule: compile_expr.induct)
qed (fastforce simp: and_then_eq_Inr dest: intern_grows intro: grows_trans)+

lemma compile_expr_denotes:
  "compile_expr e b = Inr (i, b') \<Longrightarrow> builder_ok b \<Longrightarrow> length (pb_exprs b') \<le> 2 ^ 32 \<Longrightarrow>
     builder_ok b' \<and> denotes (pb_proc_ids b) (pb_exprs b') i e"
proof (induction e b arbitrary: i b' rule: compile_expr.induct)
  case (1 sp b)
  then show ?case using intern_ok [of NStop "Some sp" b i b'] by simp
next
  case (2 name sp b)
  then obtain q where q: "map_of (pb_proc_ids b) (node name) = Some q"
    and i: "intern (NRef q) (Some sp) b = (i, b')" by (auto simp: and_then_eq_Inr)
  from q have "q \<in> snd ` set (pb_proc_ids b)" by (force dest: map_of_SomeD)
  with intern_ok [OF i] 2 q show ?case by simp
next
  case (3 ev nx sp b)
  then obtain pat n b1 where pat: "compile_event_pat ev = Inr pat"
    and n: "compile_expr nx b = Inr (n, b1)"
    and i: "intern (NPrefix pat n) (Some sp) b1 = (i, b')" by (auto simp: and_then_eq_Inr)
  note g = intern_grows [OF i]
  with 3 pat n have "builder_ok b1 \<and> denotes (pb_proc_ids b) (pb_exprs b1) n nx"
    using grows_length [OF g] by auto
  with intern_ok [OF i] 3(4) pat grows_denotes [OF g] show ?case
    using denotes_in_table by fastforce
next
  case (4 kind left right sp b)
  then obtain l b1 r b2 where l: "compile_expr left b = Inr (l, b1)"
    and r: "compile_expr right b1 = Inr (r, b2)"
    and i: "intern (choice_node kind l r) (Some sp) b2 = (i, b')" by (auto simp: and_then_eq_Inr)
  note g1 = compile_expr_grows [OF l] and g2 = compile_expr_grows [OF r] and g = intern_grows [OF i]
  note len = grows_length [OF g] grows_length [OF g2] 4(5)
  from "4.IH"(1) [OF l 4(4)] len
  have 1: "builder_ok b1" "denotes (pb_proc_ids b) (pb_exprs b1) l left" by auto
  from "4.IH"(2) [OF l refl r] 1 len g1
  have 2: "builder_ok b2" "denotes (pb_proc_ids b) (pb_exprs b2) r right"
    by (auto simp: grows_def)
  from 1 grows_denotes [OF g2] have 3: "denotes (pb_proc_ids b) (pb_exprs b2) l left" by auto
  from intern_ok [OF i] 2 3 len have "builder_ok b' \<and>
      nth_opt (pb_exprs b') (unat i) = Some (choice_node kind l r)"
    by (auto dest!: denotes_in_table)
  with grows_denotes [OF g] 2 3 show ?case by (cases kind) auto
next
  case (5 kind left right sync sp b)
  then obtain l b1 r b2 chs where l: "compile_expr left b = Inr (l, b1)"
    and r: "compile_expr right b1 = Inr (r, b2)" and chs: "sync_channels kind sync sp = Inr chs"
    and i: "intern (NParallel l r chs) (Some sp) b2 = (i, b')" by (auto simp: and_then_eq_Inr)
  note g1 = compile_expr_grows [OF l] and g2 = compile_expr_grows [OF r] and g = intern_grows [OF i]
  note len = grows_length [OF g] grows_length [OF g2] 5(5)
  from "5.IH"(1) [OF l 5(4)] len
  have 1: "builder_ok b1" "denotes (pb_proc_ids b) (pb_exprs b1) l left" by auto
  from "5.IH"(2) [OF l refl r] 1 len g1
  have 2: "builder_ok b2" "denotes (pb_proc_ids b) (pb_exprs b2) r right"
    by (auto simp: grows_def)
  from 1 grows_denotes [OF g2] have 3: "denotes (pb_proc_ids b) (pb_exprs b2) l left" by auto
  from intern_ok [OF i] 2 3 len sync_channels_ok [OF chs] have "builder_ok b' \<and>
      nth_opt (pb_exprs b') (unat i) = Some (NParallel l r chs)"
    by (auto dest!: denotes_in_table)
  with grows_denotes [OF g] 2 3 chs show ?case by auto
next
  case (6 inner hide sp b)
  then obtain n b1 where n: "compile_expr inner b = Inr (n, b1)"
    and i: "intern (NHide n (channel_set hide)) (Some sp) b1 = (i, b')"
    by (auto simp: and_then_eq_Inr)
  note g = intern_grows [OF i]
  with 6 n have "builder_ok b1 \<and> denotes (pb_proc_ids b) (pb_exprs b1) n inner"
    using grows_length [OF g] by auto
  with intern_ok [OF i] 6(4) grows_denotes [OF g] show ?case
    using denotes_in_table by fastforce
qed

section \<open>References are resolved exactly when they are not cyclic\<close>

inductive resolves_to :: "expr_node list \<Rightarrow> expr_id list \<Rightarrow> expr_id \<Rightarrow> expr_id \<Rightarrow> bool"
  for xs roots where
  Done: "nth_opt xs (unat i) = Some nd \<Longrightarrow> \<not> is_ref nd \<Longrightarrow> resolves_to xs roots i i"
| Follow: "nth_opt xs (unat i) = Some (NRef q) \<Longrightarrow> nth_opt roots (unat q) = Some t \<Longrightarrow>
     resolves_to xs roots t r \<Longrightarrow> resolves_to xs roots i r"

definition ref_edge :: "expr_node list \<Rightarrow> expr_id list \<Rightarrow> (expr_id \<times> expr_id) set" where
  "ref_edge xs roots =
     {(i, t). \<exists>q. nth_opt xs (unat i) = Some (NRef q) \<and> nth_opt roots (unat q) = Some t}"

definition refs_in_range :: "expr_node list \<Rightarrow> expr_id list \<Rightarrow> bool" where
  "refs_in_range xs roots \<longleftrightarrow>
     (\<forall>nd \<in> set xs. \<forall>q \<in> set (node_refs nd). \<exists>t. nth_opt roots (unat q) = Some t \<and> in_table xs t)"

lemma ref_edge_functional: "(i, t) \<in> ref_edge xs roots \<Longrightarrow> (i, u) \<in> ref_edge xs roots \<Longrightarrow> t = u"
  by (auto simp: ref_edge_def)

lemma resolves_not_ref: "resolves_to xs roots i r \<Longrightarrow>
    \<exists>nd. nth_opt xs (unat r) = Some nd \<and> \<not> is_ref nd"
  by (induction rule: resolves_to.induct) auto

lemma resolves_acyclic: "resolves_to xs roots i r \<Longrightarrow> (i, i) \<notin> (ref_edge xs roots)\<^sup>+"
proof (induction rule: resolves_to.induct)
  case (Done i nd)
  then show ?case by (auto simp: ref_edge_def dest!: tranclD)
next
  case (Follow i q t r)
  then have edge: "(i, t) \<in> ref_edge xs roots" by (auto simp: ref_edge_def)
  show ?case
  proof
    assume "(i, i) \<in> (ref_edge xs roots)\<^sup>+"
    then obtain u where "(i, u) \<in> ref_edge xs roots" "(u, i) \<in> (ref_edge xs roots)\<^sup>*"
      by (blast dest: tranclD)
    with edge have "(t, i) \<in> (ref_edge xs roots)\<^sup>*" using ref_edge_functional by metis
    with edge have "(t, t) \<in> (ref_edge xs roots)\<^sup>+" by (meson rtrancl_into_trancl1)
    with Follow.IH show False by simp
  qed
qed

lemma resolves_edge:
  "resolves_to xs roots i r \<Longrightarrow> (i, t) \<in> ref_edge xs roots \<Longrightarrow> resolves_to xs roots t r"
  by (auto simp: ref_edge_def elim: resolves_to.cases)

lemma resolves_rtrancl:
  "(i, t) \<in> (ref_edge xs roots)\<^sup>* \<Longrightarrow> resolves_to xs roots i r \<Longrightarrow> resolves_to xs roots t r"
  by (induction rule: rtrancl_induct) (auto intro: resolves_edge)

lemma resolves_unique: "resolves_to xs roots i r \<Longrightarrow> resolves_to xs roots i r' \<Longrightarrow> r' = r"
proof (induction rule: resolves_to.induct)
  case (Done i nd)
  from Done(3,1,2) show ?case by cases auto
next
  case (Follow i q t r)
  from Follow(5,1,2,4) show ?case by cases auto
qed

definition memo_ok :: "expr_node list \<Rightarrow> expr_id list \<Rightarrow> memo \<Rightarrow> bool" where
  "memo_ok xs roots memo \<longleftrightarrow> length memo = length xs \<and>
     (\<forall>i r. nth_opt memo (unat i) = Some (Some r) \<longrightarrow> resolves_to xs roots i r)"

lemma memo_ok_update:
  assumes "memo_ok xs roots memo" and "resolves_to xs roots i r"
  shows "memo_ok xs roots (memo[unat i := Some r])"
proof -
  have "resolves_to xs roots j s" if j: "nth_opt (memo[unat i := Some r]) (unat j) = Some (Some s)" for j s
  proof (cases "j = i")
    case True
    with j assms(2) show ?thesis by (auto simp: nth_opt_eq_Some)
  next
    case False
    then have "unat i \<noteq> unat j" by (simp add: word_unat_eq_iff)
    with j assms(1) show ?thesis by (simp add: nth_opt_eq_Some memo_ok_def)
  qed
  with assms(1) show ?thesis by (simp add: memo_ok_def)
qed

text \<open>One call: it returns what the reference chain ends in, with a correct memo and the set of
  visited ids as it was, or it reports an error and the chain indeed has no end.\<close>

lemma resolve_correct:
  assumes "refs_in_range xs roots" and "in_table xs i" and "memo_ok xs roots memo"
    and "\<forall>v \<in> visiting. (v, i) \<in> (ref_edge xs roots)\<^sup>+"
  shows "(\<exists>r memo'. resolve xs roots spans i memo visiting = Some (Inr (r, memo', visiting)) \<and>
            resolves_to xs roots i r \<and> memo_ok xs roots memo') \<or>
         (\<exists>e. resolve xs roots spans i memo visiting = Some (Inl e) \<and>
            (\<nexists>r. resolves_to xs roots i r))"
  using assms
proof (induction xs roots spans i memo visiting rule: resolve.induct)
  case (1 xs roots spans i memo visiting)
  note unf = resolve.simps [of xs roots spans i memo visiting]
  from 1(3,4) have i: "unat i < length xs" "length memo = length xs"
    by (auto simp: in_table_def memo_ok_def)
  then have m: "nth_opt memo (unat i) = Some (memo ! unat i)"
    and n: "nth_opt xs (unat i) = Some (xs ! unat i)" by (auto simp: nth_opt_def)
  consider (memo) r where "memo ! unat i = Some r"
    | (cycle) "memo ! unat i = None" "i \<in> visiting"
    | (ref) q where "memo ! unat i = None" "i \<notin> visiting" "xs ! unat i = NRef q"
    | (leaf) "memo ! unat i = None" "i \<notin> visiting" "\<not> is_ref (xs ! unat i)"
    by (cases "xs ! unat i"; cases "memo ! unat i") auto
  then show ?case
  proof cases
    case memo
    with m 1(4) show ?thesis by (auto simp: unf memo_ok_def)
  next
    case cycle
    with 1(5) have "(i, i) \<in> (ref_edge xs roots)\<^sup>+" by auto
    with resolves_acyclic have "\<nexists>r. resolves_to xs roots i r" by metis
    with cycle m show ?thesis by (auto simp: unf)
  next
    case leaf
    then have r: "resolves_to xs roots i i" using n by (auto intro: resolves_to.Done)
    with leaf m n memo_ok_update [OF 1(4) r] show ?thesis
      by (cases "xs ! unat i") (auto simp: unf)
  next
    case ref
    then obtain t where t: "nth_opt roots (unat q) = Some t" "in_table xs t"
      using 1(2) i(1) nth_mem [OF i(1)] by (fastforce simp: refs_in_range_def)
    have edge: "(i, t) \<in> ref_edge xs roots" using n ref t by (simp add: ref_edge_def)
    have vis: "\<forall>v \<in> insert i visiting. (v, t) \<in> (ref_edge xs roots)\<^sup>+"
      using 1(5) edge by (auto intro: trancl_into_trancl)
    have iff: "resolves_to xs roots i r \<longleftrightarrow> resolves_to xs roots t r" for r
      using edge n ref t by (auto intro: resolves_to.Follow resolves_edge)
    from "1.IH" [OF m ref(1,2) n ref(3) t(1) 1(2) t(2) 1(4) vis]
    consider r memo' where
        "resolve xs roots spans t memo (insert i visiting) = Some (Inr (r, memo', insert i visiting))"
        "resolves_to xs roots t r" "memo_ok xs roots memo'"
      | e where "resolve xs roots spans t memo (insert i visiting) = Some (Inl e)"
        "\<nexists>r. resolves_to xs roots t r" by blast
    then show ?thesis
    proof cases
      case 1
      with m n ref t iff memo_ok_update [of xs roots memo' i r] show ?thesis by (simp add: unf)
    next
      case 2
      with m n ref t iff show ?thesis by (simp add: unf)
    qed
  qed
qed

lemma resolve_all_correct:
  assumes "refs_in_range xs roots" and "\<forall>i \<in> set is. in_table xs i" and "memo_ok xs roots memo"
  shows "(\<exists>out. resolve_all xs roots spans is memo {} = Some (Inr out) \<and>
            list_all2 (resolves_to xs roots) is out) \<or>
         (\<exists>e. resolve_all xs roots spans is memo {} = Some (Inl e) \<and>
            (\<exists>i \<in> set is. \<nexists>r. resolves_to xs roots i r))"
  using assms(2,3)
proof (induction "is" arbitrary: memo)
  case (Cons i "is")
  have t: "in_table xs i" using Cons.prems by simp
  from resolve_correct [OF assms(1) t Cons.prems(2), of "{}" spans]
  consider (ok) r memo' where "resolve xs roots spans i memo {} = Some (Inr (r, memo', {}))"
      "resolves_to xs roots i r" "memo_ok xs roots memo'"
    | (err) e where "resolve xs roots spans i memo {} = Some (Inl e)" "\<nexists>r. resolves_to xs roots i r"
    by auto
  then show ?case
  proof cases
    case ok
    with Cons.IH [of memo'] Cons.prems show ?thesis by auto
  next
    case err
    then show ?thesis by auto
  qed
qed simp

lemma compute_resolved_correct:
  assumes "refs_in_range xs roots" and "length xs \<le> 2 ^ 32"
  shows "(\<exists>out. compute_resolved xs roots spans = Some (Inr out) \<and> length out = length xs \<and>
            (\<forall>i. in_table xs i \<longrightarrow> resolves_to xs roots i (out ! unat i))) \<or>
         (\<exists>e. compute_resolved xs roots spans = Some (Inl e) \<and>
            (\<exists>i. in_table xs i \<and> (\<nexists>r. resolves_to xs roots i r)))"
proof -
  let ?is = "map of_nat [0..<length xs] :: expr_id list"
  have un: "unat (of_nat n :: u32) = n" if "n < length xs" for n
    using that assms(2) by (simp add: unat_of_nat)
  then have "\<forall>i \<in> set ?is. in_table xs i" by (auto simp: in_table_def)
  moreover have "memo_ok xs roots (replicate (length xs) None)"
    by (auto simp: memo_ok_def nth_opt_eq_Some)
  ultimately consider
      (ok) out where "compute_resolved xs roots spans = Some (Inr out)"
        "list_all2 (resolves_to xs roots) ?is out"
    | (err) e where "compute_resolved xs roots spans = Some (Inl e)"
        "\<exists>i \<in> set ?is. \<nexists>r. resolves_to xs roots i r"
    using resolve_all_correct [OF assms(1), of ?is "replicate (length xs) None" spans]
    unfolding compute_resolved_def by blast
  then show ?thesis
  proof cases
    case ok
    then have "length out = length xs" by (auto dest: list_all2_lengthD)
    moreover have "resolves_to xs roots i (out ! unat i)" if "in_table xs i" for i
      using list_all2_nthD [OF ok(2), of "unat i"] that by (simp add: in_table_def)
    ultimately show ?thesis using ok(1) by blast
  next
    case err
    then show ?thesis using \<open>\<forall>i \<in> set ?is. in_table xs i\<close> by blast
  qed
qed

section \<open>The collected processes and channels\<close>

lemma map_le_fresh: "m k = None \<Longrightarrow> m(k \<mapsto> v) \<subseteq>\<^sub>m m' \<Longrightarrow> m \<subseteq>\<^sub>m m' \<and> m' k = Some v"
  by (auto simp: map_le_def dom_def split: if_splits)

lemma add_channel_names_ok:
  "add_channel_names d ns m = Inr m' \<Longrightarrow>
     (\<forall>n \<in> set ns. map_of m' (node n) = Some d) \<and> map_of m \<subseteq>\<^sub>m map_of m'"
  by (induction d ns m rule: add_channel_names.induct)
    (auto split: if_splits dest: map_le_fresh)

lemma compile_channel_decls_ok:
  "compile_channel_decls ds m = Inr m' \<Longrightarrow>
     (\<forall>d \<in> set ds. \<exists>dom. compile_channel_domain (chan_domain d) = Inr dom \<and>
        (\<forall>n \<in> set (chan_names d). map_of m' (node n) = Some dom)) \<and> map_of m \<subseteq>\<^sub>m map_of m'"
proof (induction ds m rule: compile_channel_decls.induct)
  case (2 d ds m)
  then obtain dom m1 where dom: "compile_channel_domain (chan_domain d) = Inr dom"
    and m1: "add_channel_names dom (chan_names d) m = Inr m1"
    and m': "compile_channel_decls ds m1 = Inr m'" by (auto simp: and_then_eq_Inr)
  from "2.IH" [OF dom m1 m'] add_channel_names_ok [OF m1] dom show ?case
    by (auto intro: map_le_trans) (metis domI map_le_def)
qed simp

lemma btm_insert_existing:
  "\<forall>k' \<in> fst ` set done. k' < k \<Longrightarrow> btm_insert k v (done @ (k, v0) # rest) = done @ (k, v) # rest"
  by (induction "done") auto

lemma fold_number:
  "btm_ok (done @ todo) \<Longrightarrow>
   fold (\<lambda>(i, name). btm_insert name (of_nat i)) (enumerate n (map fst todo)) (done @ todo)
     = done @ zip (map fst todo) (map of_nat [n..<n + length todo])"
proof (induction todo arbitrary: "done" n)
  case (Cons e todo)
  obtain k v where e: "e = (k, v)" by (cases e)
  from Cons.prems e have "btm_insert k (of_nat n) (done @ (k, v) # todo) = done @ (k, of_nat n) # todo"
    by (intro btm_insert_existing) (auto simp: sorted_wrt_append)
  with Cons.IH [of "done @ [(k, of_nat n)]" "Suc n"] Cons.prems e show ?case
    by (simp add: upt_rec)
qed simp

fun expr_nodes :: "process_expr spanned \<Rightarrow> nat" where
  "expr_nodes (Spanned Stop sp) = 1"
| "expr_nodes (Spanned (Ref name) sp) = 1"
| "expr_nodes (Spanned (Prefix ev next) sp) = Suc (expr_nodes next)"
| "expr_nodes (Spanned (Choice kind l r) sp) = Suc (expr_nodes l + expr_nodes r)"
| "expr_nodes (Spanned (Parallel kind l r sync) sp) = Suc (expr_nodes l + expr_nodes r)"
| "expr_nodes (Spanned (Hide i hide) sp) = Suc (expr_nodes i)"

lemma intern_length: "intern nd sp b = (i, b') \<Longrightarrow> length (pb_exprs b') \<le> Suc (length (pb_exprs b))"
  by (auto simp: intern_def Let_def split: option.splits)

lemma compile_expr_length:
  "compile_expr e b = Inr (i, b') \<Longrightarrow> length (pb_exprs b') \<le> length (pb_exprs b) + expr_nodes e"
proof (induction e b arbitrary: i b' rule: compile_expr.induct)
qed (fastforce simp: and_then_eq_Inr dest: intern_length)+

lemma sum_btm_insert:
  "map_of m k = None \<Longrightarrow>
     (\<Sum>(n, e) \<leftarrow> btm_insert k v m. f e) = f v + (\<Sum>(n, e) \<leftarrow> m. f e)"
  for f :: "'v \<Rightarrow> nat"
  by (induction k v m rule: btm_insert.induct) (auto split: if_splits)

lemma collect_decls_ok:
  "collect_decls ds ids exprs = Inr (ids', exprs') \<Longrightarrow> map fst ids = map fst exprs \<Longrightarrow>
   btm_ok exprs \<Longrightarrow>
     map fst ids' = map fst exprs' \<and> btm_ok exprs' \<and>
     (\<forall>d \<in> set ds. map_of exprs' (node (decl_name d)) = Some (decl_expr d)) \<and>
     map_of exprs \<subseteq>\<^sub>m map_of exprs' \<and>
     fst ` set exprs' = fst ` set exprs \<union> (\<lambda>d. node (decl_name d)) ` set ds \<and>
     (\<Sum>(n, e) \<leftarrow> exprs'. expr_nodes e) =
       (\<Sum>(n, e) \<leftarrow> exprs. expr_nodes e) + (\<Sum>d \<leftarrow> ds. expr_nodes (decl_expr d))"
proof (induction ds ids exprs rule: collect_decls.induct)
  case (2 d ds ids exprs)
  let ?n = "node (decl_name d)"
  from 2(2) have new: "map_of ids ?n = None" by (auto simp: Let_def split: if_splits)
  with 2(3) have new': "map_of exprs ?n = None" by (metis list.set_map map_of_eq_None_iff)
  have keys: "fst ` set (btm_insert ?n (decl_expr d) exprs) = insert ?n (fst ` set exprs)"
    by (metis keys_btm_insert list.set_map set_bts_insert)
  from 2(1) [OF refl] new 2(2-4)
  have IH: "map fst ids' = map fst exprs' \<and> btm_ok exprs' \<and>
     (\<forall>d \<in> set ds. map_of exprs' (node (decl_name d)) = Some (decl_expr d)) \<and>
     map_of (btm_insert ?n (decl_expr d) exprs) \<subseteq>\<^sub>m map_of exprs' \<and>
     fst ` set exprs' = fst ` set (btm_insert ?n (decl_expr d) exprs) \<union>
       (\<lambda>d. node (decl_name d)) ` set ds \<and>
     (\<Sum>(n, e) \<leftarrow> exprs'. expr_nodes e) =
       (\<Sum>(n, e) \<leftarrow> btm_insert ?n (decl_expr d) exprs. expr_nodes e) +
       (\<Sum>d \<leftarrow> ds. expr_nodes (decl_expr d))"
    by (simp add: Let_def del: fun_upd_apply)
  with new' keys map_le_fresh [of "map_of exprs" ?n "decl_expr d" "map_of exprs'"]
  show ?case by (auto simp: sum_btm_insert)
qed simp

lemma collect_processes_ok:
  assumes "collect_processes m = Inr (ids, exprs)"
  shows "map fst ids = map fst exprs" and "btm_ok exprs"
    and "map snd ids = map of_nat [0..<length ids]"
    and "\<forall>d \<in> set (declarations m). map_of exprs (node (decl_name d)) = Some (decl_expr d)"
    and "(\<Sum>(n, e) \<leftarrow> exprs. expr_nodes e) = (\<Sum>d \<leftarrow> declarations m. expr_nodes (decl_expr d))"
    and "fst ` set exprs = (\<lambda>d. node (decl_name d)) ` set (declarations m)"
proof -
  from assms obtain ids0 where c: "collect_decls (declarations m) [] [] = Inr (ids0, exprs)"
    and ids: "ids = fold (\<lambda>(i, name). btm_insert name (of_nat i)) (enumerate 0 (map fst ids0)) ids0"
    by (auto simp: collect_processes_def and_then_eq_Inr)
  from collect_decls_ok [OF c] have ok: "map fst ids0 = map fst exprs" "btm_ok exprs" by auto
  then have "ids = zip (map fst ids0) (map of_nat [0..<length ids0])"
    using fold_number [of "[]" ids0 0] by (simp add: ids)
  moreover from ok(1) have "length ids0 = length exprs" by (metis length_map)
  ultimately show "map fst ids = map fst exprs" "map snd ids = map of_nat [0..<length ids]"
    "btm_ok exprs" using ok by simp_all
  from collect_decls_ok [OF c]
  show "\<forall>d \<in> set (declarations m). map_of exprs (node (decl_name d)) = Some (decl_expr d)"
    "(\<Sum>(n, e) \<leftarrow> exprs. expr_nodes e) = (\<Sum>d \<leftarrow> declarations m. expr_nodes (decl_expr d))"
    "fst ` set exprs = (\<lambda>d. node (decl_name d)) ` set (declarations m)"
    by auto
qed

section \<open>What from\_module builds\<close>

lemma new_builder_ok: "builder_ok (new_builder chs ids)"
  by (simp add: builder_ok_def new_builder_def)

lemma builder_ok_root: "builder_ok b \<Longrightarrow> builder_ok (b\<lparr>pb_roots := (pb_roots b)[j := r]\<rparr>)"
  by (simp add: builder_ok_def)

abbreviation nodes_of :: "proc_exprs \<Rightarrow> proc_ids \<Rightarrow> nat" where
  "nodes_of exprs ids \<equiv> (\<Sum>(n, q) \<leftarrow> ids. expr_nodes (the (map_of exprs n)))"

lemma compile_roots_returns:
  "fst ` set ids \<subseteq> dom (map_of exprs) \<Longrightarrow> \<forall>q \<in> snd ` set ids. unat q < length (pb_roots b) \<Longrightarrow>
     compile_roots exprs ids b \<noteq> None"
proof (induction exprs ids b rule: compile_roots.induct)
  case (2 exprs name proc_id ids b)
  then obtain e where e: "map_of exprs name = Some e" by auto
  show ?case
  proof (cases "compile_expr e b")
    case (Inr ib)
    obtain root b1 where b1: "compile_expr e b = Inr (root, b1)" using Inr by (cases ib) auto
    then have "pb_roots b1 = pb_roots b" by (auto dest: compile_expr_grows simp: grows_def)
    with 2 e b1 show ?thesis by auto
  qed (use e in simp)
qed simp

lemma compile_roots_ok:
  "compile_roots exprs ids b = Some (Inr b') \<Longrightarrow> builder_ok b \<Longrightarrow>
   length (pb_exprs b) + nodes_of exprs ids \<le> 2 ^ 32 \<Longrightarrow> distinct (map snd ids) \<Longrightarrow>
     builder_ok b' \<and> length (pb_exprs b') \<le> 2 ^ 32 \<and> (\<exists>ys. pb_exprs b' = pb_exprs b @ ys) \<and>
     pb_proc_ids b' = pb_proc_ids b \<and> pb_channels b' = pb_channels b \<and>
     length (pb_roots b') = length (pb_roots b) \<and>
     (\<forall>(n, q) \<in> set ids. \<exists>e. map_of exprs n = Some e \<and>
        denotes (pb_proc_ids b) (pb_exprs b') (pb_roots b' ! unat q) e) \<and>
     (\<forall>q. q \<notin> snd ` set ids \<longrightarrow> pb_roots b' ! unat q = pb_roots b ! unat q)"
proof (induction exprs ids b rule: compile_roots.induct)
  case (2 exprs name q ids b)
  from 2(2) obtain e root b1 where e: "map_of exprs name = Some e"
    and c: "compile_expr e b = Inr (root, b1)" and q: "unat q < length (pb_roots b1)"
    and rest: "compile_roots exprs ids (b1\<lparr>pb_roots := (pb_roots b1)[unat q := root]\<rparr>) = Some (Inr b')"
    by (auto simp: and_then_eq_Inr split: sum.splits prod.splits if_splits)
  let ?b2 = "b1\<lparr>pb_roots := (pb_roots b1)[unat q := root]\<rparr>"
  note g = compile_expr_grows [OF c] and len = compile_expr_length [OF c]
  have bound: "length (pb_exprs b1) + nodes_of exprs ids \<le> 2 ^ 32"
    using len 2(4) e by simp
  then have "builder_ok b1 \<and> denotes (pb_proc_ids b) (pb_exprs b1) root e"
    by (intro compile_expr_denotes [OF c 2(3)]) simp
  then have b1: "builder_ok ?b2" and root: "denotes (pb_proc_ids b) (pb_exprs b1) root e"
    by (auto intro: builder_ok_root)
  have ce: "and_then (ok_or (LtsError (''undefined process: '' @ name) None) (map_of exprs name))
     (\<lambda>e. compile_expr e b) = Inr (root, b1)" using e c by simp
  have IH: "builder_ok b' \<and> length (pb_exprs b') \<le> 2 ^ 32 \<and> (\<exists>ys. pb_exprs b' = pb_exprs b1 @ ys) \<and>
     pb_proc_ids b' = pb_proc_ids b1 \<and> pb_channels b' = pb_channels b1 \<and>
     length (pb_roots b') = length (pb_roots b1) \<and>
     (\<forall>(n, q) \<in> set ids. \<exists>e. map_of exprs n = Some e \<and>
        denotes (pb_proc_ids b1) (pb_exprs b') (pb_roots b' ! unat q) e) \<and>
     (\<forall>p. p \<notin> snd ` set ids \<longrightarrow> pb_roots b' ! unat p = (pb_roots b1)[unat q := root] ! unat p)"
    using "2.IH" [OF ce refl q rest b1] bound 2(5) by simp
  have q': "pb_roots b' ! unat q = root" using IH 2(5) q by (auto simp: image_iff)
  moreover have "denotes (pb_proc_ids b) (pb_exprs b') root e"
    using root IH denotes_append by metis
  moreover have "(pb_roots b1)[unat q := root] ! unat p = pb_roots b ! unat p" if "p \<noteq> q" for p
    using that g by (simp add: grows_def word_unat_eq_iff)
  ultimately show ?case using IH g e by (auto simp: grows_def)
qed simp

text \<open>The bound under which no 32-bit id wraps.\<close>

definition module_nodes :: "cmodule \<Rightarrow> process_expr spanned \<Rightarrow> nat" where
  "module_nodes m e0 = expr_nodes e0 + (\<Sum>d \<leftarrow> declarations m. expr_nodes (decl_expr d))"

lemma expr_nodes_pos: "1 \<le> expr_nodes e"
  by (cases e rule: expr_nodes.cases) auto

lemma length_le_nodes: "length exprs \<le> (\<Sum>(n, e) \<leftarrow> exprs. expr_nodes e)"
proof (induction exprs)
  case (Cons x exprs)
  then show ?case using expr_nodes_pos [of "snd x"] by (auto simp: case_prod_beta')
qed simp

text \<open>What the stages before resolution yield.\<close>

definition compiled ::
  "cmodule \<Rightarrow> proc_ids \<Rightarrow> process_expr spanned \<Rightarrow> expr_id \<Rightarrow> program_builder \<Rightarrow> bool" where
  "compiled m ids e0 i0 b \<longleftrightarrow>
     builder_ok b \<and> length (pb_exprs b) \<le> 2 ^ 32 \<and> pb_proc_ids b = ids \<and>
     compile_channels m = Inr (pb_channels b) \<and> initial_expr m = Inr e0 \<and>
     denotes ids (pb_exprs b) i0 e0 \<and> refs_in_range (pb_exprs b) (pb_roots b) \<and>
     (\<forall>d \<in> set (declarations m). \<exists>q. map_of ids (node (decl_name d)) = Some q \<and>
        denotes ids (pb_exprs b) (pb_roots b ! unat q) (decl_expr d)) \<and>
     fst ` set ids = (\<lambda>d. node (decl_name d)) ` set (declarations m)"

lemma compile_stages:
  assumes chs: "compile_channels m = Inr chs" and col: "collect_processes m = Inr (ids, exprs)"
    and e0: "initial_expr m = Inr e0" and c0: "compile_expr e0 (new_builder chs ids) = Inr (i0, b)"
    and small: "module_nodes m e0 \<le> 2 ^ 32"
  shows "compile_roots exprs ids b \<noteq> None"
    and "compile_roots exprs ids b = Some (Inr b1) \<Longrightarrow> compiled m ids e0 i0 b1"
proof -
  note col = collect_processes_ok [OF col]
  have g: "grows (new_builder chs ids) b" by (rule compile_expr_grows [OF c0])
  have lids: "length ids = length exprs" using col(1) by (metis length_map)
  have "length exprs \<le> module_nodes m e0"
    using length_le_nodes [of exprs] col(5) by (simp add: module_nodes_def)
  with small lids have n32: "length ids \<le> 2 ^ 32" by simp
  have un: "unat (of_nat i :: u32) = i" if "i < length ids" for i
    using that n32 by (simp add: unat_of_nat)
  have range: "\<forall>q \<in> snd ` set ids. unat q < length ids"
  proof -
    have "snd ` set ids = of_nat ` {0..<length ids}"
      using col(3) by (metis list.set_map set_upt)
    with un show ?thesis by auto
  qed
  have dist: "distinct (map snd ids)"
    unfolding col(3) distinct_map using un by (auto intro!: inj_onI) metis
  have len0: "length (pb_exprs b) \<le> expr_nodes e0"
    using compile_expr_length [OF c0] by (simp add: new_builder_def)
  have roots: "length (pb_roots b) = length ids" "pb_proc_ids b = ids" "pb_channels b = chs"
    using g by (simp_all add: grows_def new_builder_def)
  have keys: "fst ` set ids = dom (map_of exprs)"
    using col(1) by (metis dom_map_of_conv_image_fst list.set_map)
  show "compile_roots exprs ids b \<noteq> None"
    using compile_roots_returns [of ids exprs b] keys range roots by simp
  assume r: "compile_roots exprs ids b = Some (Inr b1)"
  have "nodes_of exprs ids = (\<Sum>n \<leftarrow> map fst ids. expr_nodes (the (map_of exprs n)))"
    by (simp add: case_prod_beta' comp_def)
  also have "\<dots> = (\<Sum>(n, e) \<leftarrow> exprs. expr_nodes e)"
    unfolding col(1) using btm_ok_distinct [OF col(2)]
    by (auto simp: comp_def case_prod_beta' intro!: arg_cong [where f = sum_list] map_cong)
  finally have nodes: "length (pb_exprs b) + nodes_of exprs ids \<le> 2 ^ 32"
    using len0 col(5) small by (simp add: module_nodes_def)
  have b: "builder_ok b" "denotes ids (pb_exprs b) i0 e0"
    using compile_expr_denotes [OF c0 new_builder_ok] nodes by (auto simp: new_builder_def)
  note ok = compile_roots_ok [OF r b(1) nodes dist]
  have den: "\<exists>e. map_of exprs n = Some e \<and> denotes ids (pb_exprs b1) (pb_roots b1 ! unat q) e"
    if "(n, q) \<in> set ids" for n q using ok that roots by auto
  have "refs_in_range (pb_exprs b1) (pb_roots b1)"
    unfolding refs_in_range_def
  proof (intro ballI)
    fix nd q assume "nd \<in> set (pb_exprs b1)" "q \<in> set (node_refs nd)"
    moreover from ok roots have "builder_ok b1" and "pb_proc_ids b1 = ids" by simp_all
    then have "\<forall>nd \<in> set (pb_exprs b1). set (node_refs nd) \<subseteq> snd ` set ids"
      by (auto simp only: builder_ok_def)
    ultimately have "q \<in> snd ` set ids" by blast
    then obtain n where nq: "(n, q) \<in> set ids" by auto
    from den [OF nq] range nq ok roots
    show "\<exists>t. nth_opt (pb_roots b1) (unat q) = Some t \<and> in_table (pb_exprs b1) t"
      by (auto simp: nth_opt_def dest: denotes_in_table)
  qed
  moreover have "\<exists>q. map_of ids (node (decl_name d)) = Some q \<and>
      denotes ids (pb_exprs b1) (pb_roots b1 ! unat q) (decl_expr d)"
    if "d \<in> set (declarations m)" for d
  proof -
    from col(4) that have e: "map_of exprs (node (decl_name d)) = Some (decl_expr d)" by simp
    with keys obtain q where q: "map_of ids (node (decl_name d)) = Some q"
      by (metis domI dom_map_of_conv_image_fst domD)
    with den [OF map_of_SomeD [OF q]] e show ?thesis by simp
  qed
  moreover have "denotes ids (pb_exprs b1) i0 e0"
    using ok b(2) denotes_append by metis
  moreover have "fst ` set ids = (\<lambda>d. node (decl_name d)) ` set (declarations m)"
    using col(1,6) by (metis list.set_map)
  ultimately show "compiled m ids e0 i0 b1"
    using ok chs e0 roots by (simp add: compiled_def)
qed

text \<open>On a module that has an entry and is not too large, compilation does not panic, and it gives
  an error or a program that denotes the module.\<close>

lemma compile_module_cases:
  assumes e0: "initial_expr m = Inr e0" and small: "module_nodes m e0 \<le> 2 ^ 32"
  obtains (error) e where "compile_module m = Some (Inl e)"
  | (ok) ids i0 b p where "compile_module m = Some (Inr (i0, p))" "compiled m ids e0 i0 b"
      "finish b = Some (Inr p)"
proof (cases "\<exists>e. compile_module m = Some (Inl e)")
  case False
  with e0 obtain chs ids exprs i0 b where
    chs: "compile_channels m = Inr chs" and col: "collect_processes m = Inr (ids, exprs)"
    and c0: "compile_expr e0 (new_builder chs ids) = Inr (i0, b)"
    by (auto simp: compile_module_def and_then_def split: sum.splits)
  note stages = compile_stages [OF chs col e0 c0 small]
  from stages(1) False chs col e0 c0 obtain b1 where b1: "compile_roots exprs ids b = Some (Inr b1)"
    by (auto simp: compile_module_def split: option.splits sum.splits)
  note comp = stages(2) [OF b1]
  then have "refs_in_range (pb_exprs b1) (pb_roots b1)" "length (pb_exprs b1) \<le> 2 ^ 32"
    by (auto simp: compiled_def)
  from compute_resolved_correct [OF this, of "pb_spans b1"] False chs col e0 c0 b1
  obtain p where p: "finish b1 = Some (Inr p)"
    by (auto simp: compile_module_def finish_def)
  show thesis
    by (rule ok [OF _ comp p]) (use chs col e0 c0 b1 p in \<open>simp add: compile_module_def\<close>)
qed blast

lemma finish_wf:
  assumes c: "compiled m ids e0 i0 b" and f: "finish b = Some (Inr p)"
  shows "program_wf p" and "pr_exprs p = pb_exprs b" and "pr_channels p = pb_channels b"
    and "in_program p i \<Longrightarrow> resolves_to (pr_exprs p) (pb_roots b) i (pr_resolved p ! unat i)"
proof -
  from c have b: "builder_ok b" and "refs_in_range (pb_exprs b) (pb_roots b)"
    and "length (pb_exprs b) \<le> 2 ^ 32" by (auto simp: compiled_def)
  from compute_resolved_correct [OF this(2,3), of "pb_spans b"] f
  have len: "length (pr_resolved p) = length (pr_exprs p)" and eqs: "pr_exprs p = pb_exprs b"
      "pr_channels p = pb_channels b"
    and res: "in_program p i \<Longrightarrow> resolves_to (pr_exprs p) (pb_roots b) i (pr_resolved p ! unat i)" for i
    by (auto simp: finish_def in_program_def in_table_def)
  show "pr_exprs p = pb_exprs b" "pr_channels p = pb_channels b" by (fact eqs)+
  show "in_program p i \<Longrightarrow> resolves_to (pr_exprs p) (pb_roots b) i (pr_resolved p ! unat i)" by (rule res)
  have "in_program p (pr_resolved p ! j)" if "j < length (pr_exprs p)" for j
  proof -
    have "j < 2 ^ 32" using that c eqs by (auto simp: compiled_def)
    then have "unat (of_nat j :: u32) = j" by (simp add: unat_of_nat)
    with res [of "of_nat j"] that show ?thesis
      by (auto simp: in_program_def nth_opt_eq_Some dest!: resolves_not_ref)
  qed
  with b len show "program_wf p"
    by (auto simp: program_wf_def builder_ok_def eqs in_program_def [abs_def] in_table_def [abs_def]
        list_all_iff in_set_conv_nth)
qed

lemma from_module_table:
  assumes "from_module m = Some (Inr cp)" and "initial_expr m = Inr e0"
    and "module_nodes m e0 \<le> 2 ^ 32"
  shows "program_wf (cp_program cp) \<and>
    compile_channels m = Inr (pr_channels (cp_program cp)) \<and>
    (\<exists>ids roots i0.
       denotes ids (pr_exprs (cp_program cp)) i0 e0 \<and>
       state_from_expr (cp_program cp) i0 [] = Some (cp_initial cp) \<and>
       (\<forall>d \<in> set (declarations m). \<exists>q. map_of ids (node (decl_name d)) = Some q \<and>
          denotes ids (pr_exprs (cp_program cp)) (roots ! unat q) (decl_expr d)) \<and>
       (\<forall>i. in_program (cp_program cp) i \<longrightarrow>
          resolves_to (pr_exprs (cp_program cp)) roots i (pr_resolved (cp_program cp) ! unat i)))"
proof -
  from assms obtain ids i0 b p where c: "compiled m ids e0 i0 b" and f: "finish b = Some (Inr p)"
    and "compile_module m = Some (Inr (i0, p))"
    by (cases rule: compile_module_cases [OF assms(2,3)]) (auto simp: from_module_def)
  with assms(1) have p: "cp_program cp = p" "state_from_expr p i0 [] = Some (cp_initial cp)"
    by (auto simp: from_module_def split: option.splits)
  have den: "denotes ids (pr_exprs p) i0 e0 \<and> compile_channels m = Inr (pr_channels p) \<and>
      (\<forall>d \<in> set (declarations m). \<exists>q. map_of ids (node (decl_name d)) = Some q \<and>
          denotes ids (pr_exprs p) (pb_roots b ! unat q) (decl_expr d))"
    using c by (simp add: compiled_def finish_wf [OF c f])
  show ?thesis
    unfolding p(1) using finish_wf(1,4) [OF c f] den p(2)
    by (intro conjI exI [of _ ids] exI [of _ "pb_roots b"] exI [of _ i0]) simp_all
qed

section \<open>When the initial state does not exist\<close>

text \<open>The initial state of a process is that of its operands: both of a parallel composition, the one of a hiding,
  the body that a reference names. A prefix, a choice and a process that stops are entered as they are.\<close>

inductive enters :: "cmodule \<Rightarrow> process_expr spanned \<Rightarrow> process_expr spanned \<Rightarrow> bool" for m where
  enters_left: "enters m (Spanned (Parallel kind left right sync) sp) left"
| enters_right: "enters m (Spanned (Parallel kind left right sync) sp) right"
| enters_hide: "enters m (Spanned (Hide inner hide) sp) inner"
| enters_ref: "d \<in> set (declarations m) \<Longrightarrow> node (decl_name d) = node name \<Longrightarrow>
    enters m (Spanned (Ref name) sp) (decl_expr d)"

inductive_cases enters_parallelE: "enters m (Spanned (Parallel kind left right sync) sp) e"
inductive_cases enters_hideE: "enters m (Spanned (Hide inner hide) sp) e"
inductive_cases enters_refE: "enters m (Spanned (Ref name) sp) e"
inductive_cases enters_leafE: "enters m (Spanned Stop sp) e" "enters m (Spanned (Prefix ev next) sp) e"
  "enters m (Spanned (Choice ckind left right) sp) e"

abbreviation entry_ends :: "cmodule \<Rightarrow> process_expr spanned \<Rightarrow> bool" where
  "entry_ends m \<equiv> Wellfounded.accp (\<lambda>e' e. enters m e e')"

lemma entry_ends_iff:
  "entry_ends m e \<longleftrightarrow> (\<nexists>path. path 0 = e \<and> (\<forall>k. enters m (path k) (path (Suc k))))"
proof
  assume "entry_ends m e"
  then have "path 0 = e \<Longrightarrow> \<forall>k. enters m (path k) (path (Suc k)) \<Longrightarrow> False" for path
  proof (induction arbitrary: path rule: accp.induct)
    case (accI e)
    then have "enters m e (path (Suc 0))" by metis
    from accI(2) [OF this, of "\<lambda>k. path (Suc k)"] accI(4) show False by simp
  qed
  then show "\<nexists>path. path 0 = e \<and> (\<forall>k. enters m (path k) (path (Suc k)))" by blast
next
  assume none: "\<nexists>path. path 0 = e \<and> (\<forall>k. enters m (path k) (path (Suc k)))"
  show "entry_ends m e"
  proof (rule ccontr)
    assume e: "\<not> entry_ends m e"
    have "\<exists>path. \<forall>k. (\<not> entry_ends m (path k) \<and> (k = 0 \<longrightarrow> path k = e)) \<and> enters m (path k) (path (Suc k))"
      by (rule dependent_nat_choice) (use e in \<open>auto elim: not_accp_down\<close>)
    with none show False by blast
  qed
qed

lemma entry_ends_leaf:
  "entry_ends m (Spanned Stop sp)" "entry_ends m (Spanned (Prefix ev next) sp)"
  "entry_ends m (Spanned (Choice kind left right) sp)"
  by (rule accp.accI, elim enters_leafE)+

lemma entry_ends_parallel:
  "entry_ends m left \<Longrightarrow> entry_ends m right \<Longrightarrow> entry_ends m (Spanned (Parallel kind left right sync) sp)"
  by (rule accp.accI) (auto elim: enters_parallelE)

lemma entry_ends_hide: "entry_ends m inner \<Longrightarrow> entry_ends m (Spanned (Hide inner hide) sp)"
  by (rule accp.accI) (auto elim: enters_hideE)

text \<open>The entries of the compiled table follow the source.\<close>

lemma compiled_ref:
  assumes c: "compiled m ids e0 i0 b" and nd: "nth_opt (pb_exprs b) (unat i) = Some (NRef q)"
    and den: "denotes ids (pb_exprs b) i (Spanned (Ref name) sp)"
  shows "\<exists>d t. d \<in> set (declarations m) \<and> node (decl_name d) = node name \<and>
    nth_opt (pb_roots b) (unat q) = Some t"
    and "d \<in> set (declarations m) \<Longrightarrow> node (decl_name d) = node name \<Longrightarrow>
      nth_opt (pb_roots b) (unat q) = Some t \<Longrightarrow> denotes ids (pb_exprs b) t (decl_expr d)"
proof -
  from den nd have q: "map_of ids (node name) = Some q" by simp
  then have "node name \<in> fst ` set ids" by (force dest: map_of_SomeD)
  moreover from nd have "NRef q \<in> set (pb_exprs b)" by (metis nth_mem nth_opt_eq_Some)
  with c have "\<exists>t. nth_opt (pb_roots b) (unat q) = Some t" by (fastforce simp: compiled_def refs_in_range_def)
  ultimately show "\<exists>d t. d \<in> set (declarations m) \<and> node (decl_name d) = node name \<and>
    nth_opt (pb_roots b) (unat q) = Some t" using c by (auto simp: compiled_def)
  assume "d \<in> set (declarations m)" "node (decl_name d) = node name" "nth_opt (pb_roots b) (unat q) = Some t"
  with c q show "denotes ids (pb_exprs b) t (decl_expr d)" by (fastforce simp: compiled_def nth_opt_eq_Some)
qed

lemma denotes_ref_only:
  assumes "denotes ids xs i e" and "nth_opt xs (unat i) = Some (NRef q)"
  obtains name sp where "e = Spanned (Ref name) sp"
  using assms by (cases "(ids, xs, i, e)" rule: denotes.cases) auto

lemma denotes_not_ref:
  assumes "denotes ids xs i (Spanned (Ref name) sp)"
  obtains q where "nth_opt xs (unat i) = Some (NRef q)" and "map_of ids (node name) = Some q"
  using assms by (auto split: option.splits expr_node.splits)

lemma resolves_entry_ends:
  assumes c: "compiled m ids e0 i0 b"
  shows "resolves_to (pb_exprs b) (pb_roots b) i r \<Longrightarrow> denotes ids (pb_exprs b) i e \<Longrightarrow>
    (\<And>e'. denotes ids (pb_exprs b) r e' \<Longrightarrow> entry_ends m e') \<Longrightarrow> entry_ends m e"
proof (induction arbitrary: e rule: resolves_to.induct)
  case (Follow i q t r)
  obtain name sp where e: "e = Spanned (Ref name) sp" using denotes_ref_only [OF Follow(5,1)] by blast
  note ref = compiled_ref [OF c Follow(1) Follow(5) [unfolded e]]
  show ?case unfolding e
    by (rule accp.accI) (use ref(2) [OF _ _ Follow(2)] Follow(4,6) in \<open>auto elim!: enters_refE\<close>)
qed blast

text \<open>The initial state exists exactly when entering the process ends.\<close>

lemma compiled_node: "finish b = Some (Inr p) \<Longrightarrow> node_at p i = nth_opt (pb_exprs b) (unat i)"
  by (auto simp: finish_def node_at_def split: option.splits sum.splits)

lemma compiled_resolved:
  assumes c: "compiled m ids e0 i0 b" and f: "finish b = Some (Inr p)" and i: "in_table (pb_exprs b) i"
  shows "\<exists>r. resolved_at p i = Some r \<and> resolves_to (pb_exprs b) (pb_roots b) i r"
proof -
  note wf = finish_wf [OF c f]
  have p: "in_program p i" using i wf(2) by (simp add: in_program_def in_table_def)
  with program_wf_resolved [OF wf(1)] obtain r where "resolved_at p i = Some r" by blast
  with wf(4) [OF p] wf(2) show ?thesis by (auto simp: resolved_at_def nth_opt_eq_Some)
qed

lemma state_entry_ends:
  assumes c: "compiled m ids e0 i0 b" and f: "finish b = Some (Inr p)"
  shows "state_from_expr p' i env = Some s \<Longrightarrow> p' = p \<Longrightarrow> denotes ids (pb_exprs b) i e \<Longrightarrow> entry_ends m e"
proof (induction arbitrary: e rule: state_from_expr_induct)
  case (step g p' i env s)
  note IH = step(1) [OF _ step(3)] and den = step(4)
  have nd: "node_at p' j = nth_opt (pb_exprs b) (unat j)" for j unfolding step(3) by (rule compiled_node [OF f])
  from denotes_in_table [OF den] have i: "in_table (pb_exprs b) i" .
  show ?case
  proof (cases e)
    case (Spanned x sp)
    show ?thesis
    proof (cases x)
      case (Ref name)
      with den Spanned obtain q where q: "nth_opt (pb_exprs b) (unat i) = Some (NRef q)"
        using denotes_not_ref by blast
      obtain r where r: "resolved_at p i = Some r" "resolves_to (pb_exprs b) (pb_roots b) i r"
        using compiled_resolved [OF c f i] by blast
      have "g p' r [] = Some s" using step(2) q r(1) nd by (simp add: step(3))
      from resolves_entry_ends [OF c r(2) den IH [OF this]] show ?thesis .
    next
      case (Parallel kind left right sync)
      with den Spanned obtain l k chs where "nth_opt (pb_exprs b) (unat i) = Some (NParallel l k chs)"
        "denotes ids (pb_exprs b) l left" "denotes ids (pb_exprs b) k right"
        by (auto split: option.splits expr_node.splits)
      with step(2) nd IH show ?thesis
        by (auto simp: Spanned Parallel bind_eq_Some_conv intro: entry_ends_parallel)
    next
      case (Hide inner hide)
      with den Spanned obtain k chs where "nth_opt (pb_exprs b) (unat i) = Some (NHide k chs)"
        "denotes ids (pb_exprs b) k inner"
        by (auto split: option.splits expr_node.splits)
      with step(2) nd IH show ?thesis
        by (auto simp: Spanned Hide bind_eq_Some_conv intro: entry_ends_hide)
    qed (use Spanned entry_ends_leaf in auto)
  qed
qed

lemma entry_ends_state:
  assumes c: "compiled m ids e0 i0 b" and f: "finish b = Some (Inr p)"
  shows "entry_ends m e \<Longrightarrow> denotes ids (pb_exprs b) i e \<Longrightarrow> \<exists>s. state_from_expr p i env = Some s"
proof (induction arbitrary: i env rule: accp.induct)
  case (accI e)
  note IH = accI(2) and den = accI(3)
  note nd = compiled_node [OF f]
  from denotes_in_table [OF den] have i: "in_table (pb_exprs b) i" .
  show ?case
  proof (cases e)
    case (Spanned x sp)
    show ?thesis
    proof (cases x)
      case (Ref name)
      with den Spanned have den': "denotes ids (pb_exprs b) i (Spanned (Ref name) sp)" by simp
      then obtain q where q: "nth_opt (pb_exprs b) (unat i) = Some (NRef q)" by (rule denotes_not_ref)
      note ref = compiled_ref [OF c q den']
      from ref(1) obtain d t where d: "d \<in> set (declarations m)" "node (decl_name d) = node name"
        and t: "nth_opt (pb_roots b) (unat q) = Some t" by blast
      note dent = ref(2) [OF d t]
      from IH [OF _ dent] enters_ref [OF d] Ref Spanned obtain s where s: "state_from_expr p t [] = Some s"
        by blast
      obtain r where r: "resolved_at p i = Some r" "resolves_to (pb_exprs b) (pb_roots b) i r"
        using compiled_resolved [OF c f i] by blast
      obtain r' where r': "resolved_at p t = Some r'" "resolves_to (pb_exprs b) (pb_roots b) t r'"
        using compiled_resolved [OF c f denotes_in_table [OF dent]] by blast
      have "(i, t) \<in> ref_edge (pb_exprs b) (pb_roots b)" using q t by (auto simp: ref_edge_def)
      from resolves_edge [OF r(2) this] have tr: "resolves_to (pb_exprs b) (pb_roots b) t r" .
      then have same: "r' = r" using r'(2) by (rule resolves_unique)
      have "state_from_expr p r [] = Some s"
      proof (cases "\<exists>q'. nth_opt (pb_exprs b) (unat t) = Some (NRef q')")
        case True
        then show ?thesis using s nd r'(1) same by (auto simp: state_from_expr_node)
      next
        case False
        with tr have "r = t" by (auto elim: resolves_to.cases)
        with s show ?thesis by simp
      qed
      with q r(1) nd show ?thesis by (simp add: state_from_expr_node)
    next
      case (Parallel kind left right sync)
      with den Spanned obtain l k chs where n: "nth_opt (pb_exprs b) (unat i) = Some (NParallel l k chs)"
        "denotes ids (pb_exprs b) l left" "denotes ids (pb_exprs b) k right"
        by (auto split: option.splits expr_node.splits)
      from IH [OF _ n(2), of env] IH [OF _ n(3), of env] Spanned Parallel
      obtain s s' where "state_from_expr p l env = Some s" "state_from_expr p k env = Some s'"
        by (auto intro: enters.intros)
      with n(1) nd show ?thesis by (simp add: state_from_expr_node)
    next
      case (Hide inner hide)
      with den Spanned obtain k chs where n: "nth_opt (pb_exprs b) (unat i) = Some (NHide k chs)"
        "denotes ids (pb_exprs b) k inner"
        by (auto split: option.splits expr_node.splits)
      from IH [OF _ n(2), of env] Spanned Hide obtain s where "state_from_expr p k env = Some s"
        by (auto intro: enters.intros)
      with n(1) nd show ?thesis by (simp add: state_from_expr_node)
    qed (use den Spanned nd in \<open>auto simp: state_from_expr_node split: option.splits expr_node.splits\<close>)
  qed
qed

section \<open>Properties\<close>

definition demo_span :: source_span where
  "demo_span = \<lparr>path = ''m.cspm'', start_line = 1, start_col = 1, end_line = 1, end_col = 2\<rparr>"

abbreviation at :: "'a \<Rightarrow> 'a spanned" where
  "at x \<equiv> Spanned x demo_span"

text \<open>\<open>channel a : {0..1}   P = a?x -> a!x -> P   Q = P [] STOP   Q \ {a}\<close>\<close>

definition demo_entry :: "process_expr spanned" where
  "demo_entry = at (Hide (at (Ref (at ''Q''))) \<lparr>set_channels = [at ''a'']\<rparr>)"

definition demo_module :: cmodule where
  "demo_module =
     \<lparr>channels = [\<lparr>chan_names = [at ''a''],
                   chan_domain = Some (at (DomIntRange (at 0) (at 1)))\<rparr>],
      declarations =
        [\<lparr>decl_name = at ''P'',
          decl_expr = at (Prefix (at \<lparr>ev_channel = at ''a'', ev_seg = Some (In (at (InBind ''x'')))\<rparr>)
            (at (Prefix (at \<lparr>ev_channel = at ''a'', ev_seg = Some (Out (at (VIdent ''x'')))\<rparr>)
              (at (Ref (at ''P''))))))\<rparr>,
         \<lparr>decl_name = at ''Q'',
          decl_expr = at (Choice External (at (Ref (at ''P''))) (at Stop))\<rparr>],
      assertions = [], entry = Some demo_entry\<rparr>"

definition demo_provider :: cspm_provider where
  "demo_provider =
     \<lparr>cp_program =
        \<lparr>pr_channels = [(''a'', ChIntRange 0 1)],
         pr_exprs = [NRef 1, NHide 0 [''a''], NRef 0, NPrefix (POutVar ''a'' ''x'') 2,
                     NPrefix (PInBind ''a'' ''x'') 3, NStop, NChoiceExternal 2 5],
         pr_resolved = [6, 1, 4, 3, 4, 5, 6]\<rparr>,
      cp_initial = SHide [''a''] (SExpr 6 [])\<rparr>"

lemma demo_from_module: "from_module demo_module = Some (Inr demo_provider)"
  by code_simp

text \<open>C3: a module that compiles yields a well-formed program whose table denotes the entry
  expression and every process body of the source; every reference is resolved along the process
  roots to an expression that is not a reference.\<close>

theorem from_module_denotes:
  assumes "from_module m = Some (Inr cp)" and "initial_expr m = Inr e0"
    and "module_nodes m e0 \<le> 2 ^ 32"
  shows "program_wf (cp_program cp) \<and>
    compile_channels m = Inr (pr_channels (cp_program cp)) \<and>
    (\<exists>ids roots i0.
       denotes ids (pr_exprs (cp_program cp)) i0 e0 \<and>
       state_from_expr (cp_program cp) i0 [] = Some (cp_initial cp) \<and>
       (\<forall>d \<in> set (declarations m). \<exists>q. map_of ids (node (decl_name d)) = Some q \<and>
          denotes ids (pr_exprs (cp_program cp)) (roots ! unat q) (decl_expr d)) \<and>
       (\<forall>i. in_program (cp_program cp) i \<longrightarrow>
          resolves_to (pr_exprs (cp_program cp)) roots i (pr_resolved (cp_program cp) ! unat i)))"
  by (rule from_module_table [OF assms])

theorem from_module_denotes_witness: "program_wf (cp_program demo_provider)"
proof -
  have "initial_expr demo_module = Inr demo_entry"
    by (simp add: initial_expr_def demo_module_def)
  moreover have "module_nodes demo_module demo_entry \<le> 2 ^ 32"
    by (simp add: module_nodes_def demo_module_def demo_entry_def)
  ultimately show ?thesis using from_module_denotes [OF demo_from_module] by blast
qed

text \<open>C9: resolution succeeds exactly when no reference of the table leads into a cycle, and it
  then maps every id to the end of its reference chain; otherwise it reports an error. It never
  panics.\<close>

theorem compute_resolved_iff:
  assumes "refs_in_range xs roots" and "length xs \<le> 2 ^ 32"
  shows "(if \<exists>i. in_table xs i \<and> (\<nexists>r. resolves_to xs roots i r)
          then \<exists>e. compute_resolved xs roots spans = Some (Inl e)
          else \<exists>out. compute_resolved xs roots spans = Some (Inr out) \<and> length out = length xs \<and>
                 (\<forall>i. in_table xs i \<longrightarrow> resolves_to xs roots i (out ! unat i)))"
  using compute_resolved_correct [OF assms, of spans] by (auto split: if_splits)

theorem compute_resolved_iff_witness:
  "\<exists>e. compute_resolved [NRef 1, NRef 0, NStop] [0, 1] [None, None, None] = Some (Inl e)"
proof -
  let ?xs = "[NRef 1, NRef 0, NStop]" and ?roots = "[0, 1] :: expr_id list"
  have "(0, 1) \<in> ref_edge ?xs ?roots" "(1, 0) \<in> ref_edge ?xs ?roots"
    by (auto simp: ref_edge_def nth_opt_def)
  then have "(0, 0) \<in> (ref_edge ?xs ?roots)\<^sup>+" by (meson trancl.simps)
  then have "\<nexists>r. resolves_to ?xs ?roots 0 r" using resolves_acyclic by blast
  then have "\<exists>i. in_table ?xs i \<and> (\<nexists>r. resolves_to ?xs ?roots i r)"
    by (intro exI [of _ 0]) (simp add: in_table_def)
  moreover have "refs_in_range ?xs ?roots"
    by (auto simp: refs_in_range_def nth_opt_def in_table_def)
  ultimately show ?thesis using compute_resolved_iff [of ?xs ?roots "[None, None, None]"] by auto
qed

text \<open>C10: \<open>from_module\<close> never panics on its tables: compilation always yields an error or a program. It has
  no value exactly when the module compiles and its entry process can be entered without end, through parallel
  compositions, hidings and references of the source; then the initial state is computed by a recursion that does
  not end.\<close>

theorem from_module_no_panic:
  assumes "initial_expr m = Inr e0" and "module_nodes m e0 \<le> 2 ^ 32"
  shows "compile_module m \<noteq> None \<and>
    (from_module m = None \<longleftrightarrow>
      (\<exists>i0 p. compile_module m = Some (Inr (i0, p))) \<and>
      (\<exists>path. path 0 = e0 \<and> (\<forall>k. enters m (path k) (path (Suc k)))))"
proof (rule compile_module_cases [OF assms])
  fix e
  assume "compile_module m = Some (Inl e)"
  then show ?thesis by (simp add: from_module_def)
next
  fix ids i0 b p
  assume ok: "compile_module m = Some (Inr (i0, p))" "compiled m ids e0 i0 b" "finish b = Some (Inr p)"
  from ok(2) have den: "denotes ids (pb_exprs b) i0 e0" by (simp add: compiled_def)
  have "from_module m = None \<longleftrightarrow> \<not> entry_ends m e0"
    using ok(1) state_entry_ends [OF ok(2,3) _ refl den, of "[]"] entry_ends_state [OF ok(2,3) _ den, of "[]"]
    by (auto simp: from_module_def split: option.splits)
  with ok(1) show ?thesis by (simp add: entry_ends_iff)
qed

text \<open>\<open>P = P ||| P\<close> recurses without end.\<close>

lemma state_from_expr_self:
  assumes "node_at p e = Some (NParallel a b sync)" and "node_at p a = Some (NRef q)"
    and "resolved_at p a = Some e"
  shows "state_from_expr p e env = None"
proof -
  have "i \<noteq> e \<and> i \<noteq> a" if "state_from_expr p i env' = Some s" for i env' s
    using that assms
  proof (induction rule: state_from_expr_induct)
    case (step f p i env' s)
    show ?case
    proof (intro conjI notI)
      assume "i = e"
      with step(2-) have "\<exists>s. f p a env' = Some s" by (auto simp: bind_eq_Some_conv)
      with step(1) [OF _ step(3-5)] show False by blast
    next
      assume "i = a"
      with step(2-) have "\<exists>s. f p e [] = Some s" by auto
      with step(1) [OF _ step(3-5)] show False by blast
    qed
  qed
  then show ?thesis by (cases "state_from_expr p e env") auto
qed

definition demo_loop_module :: cmodule where
  "demo_loop_module =
     \<lparr>channels = [],
      declarations = [\<lparr>decl_name = at ''P'',
        decl_expr = at (Parallel Interleaving (at (Ref (at ''P''))) (at (Ref (at ''P''))) None)\<rparr>],
      assertions = [], entry = None\<rparr>"

lemma demo_loop_compiles:
  "compile_module demo_loop_module =
     Some (Inr (1, \<lparr>pr_channels = [], pr_exprs = [NRef 0, NParallel 0 0 []], pr_resolved = [1, 1]\<rparr>))"
  by code_simp

lemma demo_loop_diverges: "from_module demo_loop_module = None"
  by (simp add: from_module_def demo_loop_compiles)
    (subst state_from_expr_self, auto simp: node_at_def resolved_at_def nth_opt_def)

theorem from_module_no_panic_witness:
  "from_module demo_loop_module = None \<and>
   (\<exists>path. path 0 = decl_expr (hd (declarations demo_loop_module)) \<and>
      (\<forall>k. enters demo_loop_module (path k) (path (Suc k))))"
proof -
  have "initial_expr demo_loop_module = Inr (decl_expr (hd (declarations demo_loop_module)))"
    by (simp add: initial_expr_def demo_loop_module_def)
  moreover have "module_nodes demo_loop_module (decl_expr (hd (declarations demo_loop_module))) \<le> 2 ^ 32"
    by (simp add: module_nodes_def demo_loop_module_def)
  ultimately show ?thesis using from_module_no_panic demo_loop_diverges by blast
qed

end
