(* ===== verification/Cspx_Reach.thy ===== *)
theory Cspx_Reach
  imports Cspx_State
begin

text \<open>
  Reachability in a transition system and the invariant of the breadth-first worklist loops. Every
  checker of the program marks a state as visited when it is discovered and puts it into a queue;
  what the loops have in common is the invariant \<open>bfs_inv\<close>, its preservation when part of the
  worklist is expanded, and the measure that makes the loops end on finite systems.
\<close>

type_synonym 's trans_fun = "'s \<Rightarrow> (string \<times> 's) list option"

section \<open>Steps, reachability and labelled paths\<close>

definition step_rel :: "'s trans_fun \<Rightarrow> ('s \<times> 's) set" where
  "step_rel tr = {(s, t). \<exists>out l. tr s = Some out \<and> (l, t) \<in> set out}"

definition reach_from :: "'s trans_fun \<Rightarrow> 's set \<Rightarrow> 's set" where
  "reach_from tr S = (step_rel tr)\<^sup>* `` S"

abbreviation reachable :: "'s trans_fun \<Rightarrow> 's \<Rightarrow> 's set" where
  "reachable tr s0 \<equiv> reach_from tr {s0}"

definition succs :: "'s trans_fun \<Rightarrow> 's \<Rightarrow> 's set" where
  "succs tr s = (case tr s of None \<Rightarrow> {} | Some out \<Rightarrow> snd ` set out)"

text \<open>What the loops need to return: the transition function has a value on all reachable states,
  and there are finitely many.\<close>

definition finite_lts :: "'s trans_fun \<Rightarrow> 's \<Rightarrow> bool" where
  "finite_lts tr s0 \<longleftrightarrow> finite (reachable tr s0) \<and> (\<forall>s \<in> reachable tr s0. tr s \<noteq> None)"

text \<open>Sizes that fit the 64-bit counters.\<close>

definition sizes_fit :: "'s trans_fun \<Rightarrow> 's \<Rightarrow> bool" where
  "sizes_fit tr s0 \<longleftrightarrow> card (reachable tr s0) < 2 ^ 64 \<and>
     (\<forall>s \<in> reachable tr s0. \<forall>out. tr s = Some out \<longrightarrow> length out < 2 ^ 64)"

inductive lpath :: "'s trans_fun \<Rightarrow> 's \<Rightarrow> string list \<Rightarrow> 's \<Rightarrow> bool" for tr where
  Nil: "lpath tr s [] s"
| Cons: "tr s = Some out \<Longrightarrow> (l, t) \<in> set out \<Longrightarrow> lpath tr t ls u \<Longrightarrow> lpath tr s (l # ls) u"

inductive_cases lpath_NilE [elim!]: "lpath tr s [] t"
inductive_cases lpath_ConsE: "lpath tr s (l # ls) t"

lemma step_rel_succs: "(s, t) \<in> step_rel tr \<longleftrightarrow> t \<in> succs tr s"
  by (force simp: step_rel_def succs_def split: option.split)

lemma reach_from_seed [intro]: "s \<in> S \<Longrightarrow> s \<in> reach_from tr S"
  by (auto simp: reach_from_def)

lemma reachable_init [simp]: "s0 \<in> reachable tr s0"
  by (auto simp: reach_from_def)

lemma reachable_succ: "s \<in> reach_from tr S \<Longrightarrow> t \<in> succs tr s \<Longrightarrow> t \<in> reach_from tr S"
  by (auto simp: reach_from_def simp flip: step_rel_succs intro: rtrancl_into_rtrancl)

lemma reachable_step:
  "s \<in> reach_from tr S \<Longrightarrow> tr s = Some out \<Longrightarrow> (l, t) \<in> set out \<Longrightarrow> t \<in> reach_from tr S"
  by (rule reachable_succ) (force simp: succs_def)+

lemma reachable_closed:
  assumes "S \<subseteq> V" and "\<And>s. s \<in> V \<Longrightarrow> succs tr s \<subseteq> V"
  shows "reach_from tr S \<subseteq> V"
proof
  fix s assume "s \<in> reach_from tr S"
  then obtain r where "r \<in> S" and "(r, s) \<in> (step_rel tr)\<^sup>*" by (auto simp: reach_from_def)
  from this(2,1) show "s \<in> V"
    using assms by (induction rule: rtrancl_induct) (auto simp: step_rel_succs)
qed

lemma lpath_append: "lpath tr s ks t \<Longrightarrow> lpath tr t ls u \<Longrightarrow> lpath tr s (ks @ ls) u"
  by (induction rule: lpath.induct) (auto intro: lpath.intros)

lemma lpath_snoc: "lpath tr s ks t \<Longrightarrow> tr t = Some out \<Longrightarrow> (l, u) \<in> set out \<Longrightarrow> lpath tr s (ks @ [l]) u"
  by (rule lpath_append) (auto intro: lpath.intros)

lemma lpath_split:
  "lpath tr s (ks @ ls) u \<Longrightarrow> \<exists>t. lpath tr s ks t \<and> lpath tr t ls u"
proof (induction ks arbitrary: s)
  case Nil
  then show ?case by (auto intro: lpath.Nil)
next
  case (Cons k ks)
  from Cons.prems have "lpath tr s (k # (ks @ ls)) u" by simp
  then obtain out v where "tr s = Some out" "(k, v) \<in> set out" "lpath tr v (ks @ ls) u"
    by (rule lpath_ConsE)
  with Cons show ?case by (blast intro: lpath.Cons)
qed

lemma lpath_reachable: "lpath tr s ls t \<Longrightarrow> s \<in> reach_from tr S \<Longrightarrow> t \<in> reach_from tr S"
  by (induction rule: lpath.induct) (simp_all add: reachable_step)

lemma reachable_lpath:
  assumes "t \<in> reachable tr s0"
  shows "\<exists>ls. lpath tr s0 ls t"
proof -
  from assms have "(s0, t) \<in> (step_rel tr)\<^sup>*" by (simp add: reach_from_def)
  then show ?thesis
    by (induction rule: rtrancl_induct) (auto simp: step_rel_def intro: lpath.Nil lpath_snoc)
qed

lemma reachable_iff_lpath: "t \<in> reachable tr s0 \<longleftrightarrow> (\<exists>ls. lpath tr s0 ls t)"
  by (auto dest: reachable_lpath lpath_reachable [OF _ reachable_init])

section \<open>The worklist invariant\<close>

text \<open>\<open>V\<close> is the set of visited states, \<open>W\<close> the worklist of those not yet expanded.\<close>

definition bfs_inv :: "'s trans_fun \<Rightarrow> 's set \<Rightarrow> 's set \<Rightarrow> 's list \<Rightarrow> bool" where
  "bfs_inv tr S V W \<longleftrightarrow> S \<subseteq> V \<and> V \<subseteq> reach_from tr S \<and> distinct W \<and> set W \<subseteq> V \<and>
     (\<forall>s \<in> V - set W. succs tr s \<subseteq> V)"

definition bfs_measure :: "'s trans_fun \<Rightarrow> 's set \<Rightarrow> 's set \<Rightarrow> 's list \<Rightarrow> nat" where
  "bfs_measure tr S V W = card (reach_from tr S - V) + length W"

lemma bfs_init: "distinct W \<Longrightarrow> bfs_inv tr (set W) (set W) W"
  by (auto simp: bfs_inv_def)

lemma bfs_done: "bfs_inv tr S V [] \<Longrightarrow> V = reach_from tr S"
  using reachable_closed [of S V tr] by (auto simp: bfs_inv_def)

lemma bfs_work_reachable: "bfs_inv tr S V W \<Longrightarrow> s \<in> set W \<Longrightarrow> s \<in> reach_from tr S"
  by (auto simp: bfs_inv_def)

text \<open>Expanding the states \<open>B\<close> at the front of the worklist: \<open>new\<close> lists the undiscovered successors.\<close>

lemma bfs_expand:
  assumes inv: "bfs_inv tr S V (B @ W)" and new: "distinct new"
    and set_new: "set new = (\<Union>s \<in> set B. succs tr s) - V"
  shows "bfs_inv tr S (V \<union> set new) (W @ new)"
proof -
  from inv have i: "S \<subseteq> V" "V \<subseteq> reach_from tr S" "distinct W" "set B \<union> set W \<subseteq> V"
    "\<And>s. s \<in> V - (set B \<union> set W) \<Longrightarrow> succs tr s \<subseteq> V"
    by (auto simp: bfs_inv_def)
  have "set new \<subseteq> reach_from tr S"
  proof
    fix t assume "t \<in> set new"
    with set_new obtain s where "s \<in> set B" "t \<in> succs tr s" by auto
    with i(2,4) show "t \<in> reach_from tr S" by (blast intro: reachable_succ)
  qed
  moreover have "succs tr s \<subseteq> V \<union> set new" if "s \<in> V \<union> set new - set (W @ new)" for s
  proof (cases "s \<in> set B")
    case True
    then show ?thesis unfolding set_new by auto
  next
    case False
    with that i(5) [of s] show ?thesis by auto
  qed
  ultimately show ?thesis
    using i(1-4) new set_new unfolding bfs_inv_def by auto
qed

lemma bfs_expand_measure:
  assumes inv: "bfs_inv tr S V (B @ W)" and new: "distinct new"
    and set_new: "set new = (\<Union>s \<in> set B. succs tr s) - V" and "B \<noteq> []"
    and fin: "finite (reach_from tr S)"
  shows "bfs_measure tr S (V \<union> set new) (W @ new) < bfs_measure tr S V (B @ W)"
proof -
  have sub: "set new \<subseteq> reach_from tr S - V"
    using bfs_expand [OF assms(1-3)] set_new by (auto simp: bfs_inv_def)
  have "reach_from tr S - (V \<union> set new) = (reach_from tr S - V) - set new" by auto
  then have "card (reach_from tr S - (V \<union> set new)) = card (reach_from tr S - V) - length new"
    using sub new fin by (simp add: card_Diff_subset distinct_card)
  moreover have "length new \<le> card (reach_from tr S - V)"
    using card_mono [OF _ sub] new fin by (simp add: distinct_card)
  ultimately show ?thesis using \<open>B \<noteq> []\<close> by (cases B) (auto simp: bfs_measure_def)
qed

text \<open>The states that have been expanded, and the transitions that have been counted.\<close>

definition out_degree :: "'s trans_fun \<Rightarrow> 's \<Rightarrow> nat" where
  "out_degree tr s = (case tr s of None \<Rightarrow> 0 | Some out \<Rightarrow> length out)"

lemma bfs_expand_sum:
  assumes inv: "bfs_inv tr S V (B @ W)" and set_new: "set new \<inter> V = {}" and fin: "finite V"
  shows "(\<Sum>s \<in> V \<union> set new - set (W @ new). out_degree tr s)
       = (\<Sum>s \<in> V - set (B @ W). out_degree tr s) + (\<Sum>s \<leftarrow> B. out_degree tr s)"
proof -
  have "V \<union> set new - set (W @ new) = (V - set (B @ W)) \<union> set B"
    using inv set_new by (auto simp: bfs_inv_def)
  then show ?thesis
    using inv fin
    by (simp add: sum.union_disjoint sum_list_distinct_conv_sum_set bfs_inv_def disjoint_iff)
qed

lemma bfs_card:
  assumes "finite V" and "distinct new" and "set new \<inter> V = {}"
  shows "card (V \<union> set new) = card V + length new"
  using assms by (simp add: card_Un_disjoint distinct_card inf_commute)

lemma bfs_finite: "bfs_inv tr {s0} V W \<Longrightarrow> finite_lts tr s0 \<Longrightarrow> finite V"
  by (auto simp: bfs_inv_def finite_lts_def intro: finite_subset)

section \<open>Fresh states\<close>

text \<open>The elements of a list that are not in a set, each once, in the order of the list: what a
  loop that inserts the states of the list one after the other discovers.\<close>

fun fresh :: "'s set \<Rightarrow> 's list \<Rightarrow> 's list" where
  "fresh V [] = []"
| "fresh V (s # ss) = (if s \<in> V then fresh V ss else s # fresh (insert s V) ss)"

lemma set_fresh: "set (fresh V ss) = set ss - V"
  by (induction V ss rule: fresh.induct) auto

lemma distinct_fresh: "distinct (fresh V ss)"
  by (induction V ss rule: fresh.induct) (auto simp: set_fresh)

lemma fresh_append: "fresh V (xs @ ys) = fresh V xs @ fresh (V \<union> set xs) ys"
  by (induction V xs rule: fresh.induct) (auto simp: insert_absorb)

end
