(* ===== verification/Cspx_Sound.thy ===== *)
theory Cspx_Sound
  imports Cspx_Frontend Cspx_Compile Cspx_Reach
begin

text \<open>
  What the type checker guarantees of the transition system a module compiles to: compilation reports no error
  but a cyclic reference or a missing entry process, and in every reachable state the variables in scope are
  bound to values of their domains, so that every event is an event of a declared channel with a payload in the
  domain of the channel, and no event is lost because its variable is unbound.
\<close>

section \<open>Well-typed modules compile\<close>

fun dom_of :: "channel_type \<Rightarrow> channel_dom" where
  "dom_of UnitType = ChUnit"
| "dom_of (RangeType lo hi) = ChIntRange lo hi"

definition agrees :: "(string \<times> channel_dom) list \<Rightarrow> channel_env \<Rightarrow> bool" where
  "agrees chs chans \<longleftrightarrow> (\<forall>c. map_of chs c = map_option dom_of (chans c))"

lemma add_channels_agrees:
  "add_channels ty ns chans = Inr chans' \<Longrightarrow> agrees chs chans \<Longrightarrow>
   \<exists>chs'. add_channel_names (dom_of ty) ns chs = Inr chs' \<and> agrees chs' chans'"
proof (induction ty ns chans arbitrary: chs rule: add_channels.induct)
  case (2 ty n ns chans)
  then have "chans (node n) = None" "add_channels ty ns (chans(node n \<mapsto> ty)) = Inr chans'" by (auto split: if_splits)
  moreover have "agrees (btm_insert (node n) (dom_of ty) chs) (chans(node n \<mapsto> ty))"
    using 2(3) by (auto simp: agrees_def)
  moreover have "map_of chs (node n) = None" using 2(3) \<open>chans (node n) = None\<close> by (simp add: agrees_def)
  ultimately show ?case
    using 2(1) [of "btm_insert (node n) (dom_of ty) chs"] by (simp del: fun_upd_apply)
qed auto

lemma domain_type_compiles: "domain_type dm = Inr ty \<Longrightarrow> compile_channel_domain dm = Inr (dom_of ty)"
  by (cases dm rule: compile_channel_domain.cases) (auto simp: domain_type_def split: if_splits)

lemma channel_types_agrees:
  "channel_types ds chans = Inr chans' \<Longrightarrow> agrees chs chans \<Longrightarrow>
   \<exists>chs'. compile_channel_decls ds chs = Inr chs' \<and> agrees chs' chans'"
proof (induction ds arbitrary: chans chs)
  case (Cons d ds)
  then obtain ty c where t: "domain_type (chan_domain d) = Inr ty" "add_channels ty (chan_names d) chans = Inr c"
      "channel_types ds c = Inr chans'" by (auto simp: and_then_eq_Inr)
  from add_channels_agrees [OF t(2) Cons.prems(2)] obtain chs1 where
    "add_channel_names (dom_of ty) (chan_names d) chs = Inr chs1" "agrees chs1 c" by blast
  with Cons.IH [OF t(3) this(2)] domain_type_compiles [OF t(1)] show ?case by auto
qed auto

lemma compile_channels_typed:
  assumes "well_typed m"
  shows "\<exists>chs. compile_channels m = Inr chs \<and> agrees chs (channel_env_of m)"
proof -
  have "channel_types (channels m) Map.empty = Inr (channel_env_of m)"
    using assms by (auto simp: channel_types_iff well_typed_def channel_env_of_def)
  moreover have "agrees [] Map.empty" by (simp add: agrees_def)
  ultimately show ?thesis unfolding compile_channels_def by (rule channel_types_agrees)
qed

lemma collect_decls_typed:
  "process_names ds procs = Inr procs' \<Longrightarrow> fst ` set ids = procs \<Longrightarrow>
   \<exists>ids' exprs'. collect_decls ds ids exprs = Inr (ids', exprs')"
proof (induction ds arbitrary: procs ids exprs)
  case (Cons d ds)
  let ?n = "node (decl_name d)"
  from Cons.prems have n: "?n \<notin> procs" "process_names ds (insert ?n procs) = Inr procs'" by (auto split: if_splits)
  then have "map_of ids ?n = None" using Cons.prems(2) by (metis map_of_eq_None_iff)
  moreover have "fst ` set (btm_insert ?n (0 :: proc_id) ids) = insert ?n procs"
    using Cons.prems(2) by (metis keys_btm_insert list.set_map set_bts_insert)
  ultimately show ?case using Cons.IH [OF n(2)] by (simp add: Let_def)
qed simp

lemma collect_decls_exprs:
  "collect_decls ds ids exprs = Inr (ids', exprs') \<Longrightarrow>
   snd ` set exprs' \<subseteq> snd ` set exprs \<union> set (map decl_expr ds)"
proof (induction ds ids exprs rule: collect_decls.induct)
  case (2 d ds ids exprs)
  then have "snd ` set exprs' \<subseteq> snd ` set (btm_insert (node (decl_name d)) (decl_expr d) exprs) \<union> set (map decl_expr ds)"
    by (simp add: Let_def split: if_splits)
  also have "snd ` set (btm_insert (node (decl_name d)) (decl_expr d) exprs) \<subseteq> insert (decl_expr d) (snd ` set exprs)"
    using image_mono [OF set_btm_insert [of "node (decl_name d)" "decl_expr d" exprs], of snd] by simp
  finally show ?case by auto
qed simp

lemma collect_processes_typed:
  assumes "well_typed m"
  shows "\<exists>ids exprs. collect_processes m = Inr (ids, exprs) \<and> dom (map_of ids) = process_name_set m \<and>
    snd ` set exprs \<subseteq> set (map decl_expr (declarations m))"
proof -
  have "process_names (declarations m) {} = Inr (process_name_set m)"
    using assms by (auto simp: process_names_iff well_typed_def process_name_set_def)
  then obtain ids0 exprs where c: "collect_decls (declarations m) [] [] = Inr (ids0, exprs)"
    using collect_decls_typed [of "declarations m" "{}" "process_name_set m" "[]" "[]"] by auto
  define ids where "ids = fold (\<lambda>(idx, name). btm_insert name (of_nat idx)) (enumerate 0 (map fst ids0)) ids0"
  have col: "collect_processes m = Inr (ids, exprs)" by (simp add: collect_processes_def c ids_def)
  have "set (map fst ids) = fst ` set exprs" using collect_processes_ok(1) [OF col] by simp
  moreover have "fst ` set exprs = process_name_set m"
    using collect_decls_ok [OF c] by (auto simp: process_name_set_def)
  ultimately have "dom (map_of ids) = process_name_set m" by (simp add: dom_map_of_conv_image_fst)
  moreover have "snd ` set exprs \<subseteq> set (map decl_expr (declarations m))" using collect_decls_exprs [OF c] by auto
  ultimately show ?thesis using col by blast
qed

lemma compile_event_typed:
  "typed_seg ty seg vars vars' \<Longrightarrow> \<exists>pat. compile_event_seg c seg = Inr pat"
  by (cases rule: typed_seg.cases) auto

lemma sync_typed: "sync_ok k sync \<Longrightarrow> \<exists>chs. sync_channels k sync s = Inr chs"
  by (cases k) auto

lemma compile_expr_typed:
  "typed chans (dom (map_of (pb_proc_ids b))) vars e \<Longrightarrow> expr_ok e \<Longrightarrow> \<exists>i b'. compile_expr e b = Inr (i, b')"
proof (induction e b arbitrary: vars rule: compile_expr.induct)
  case (3 ev following s b)
  then obtain ty vars' where t: "typed_seg ty (ev_seg (node ev)) vars vars'"
      "typed chans (dom (map_of (pb_proc_ids b))) vars' following" by (auto simp: typed_simps)
  from compile_event_typed [OF t(1)] obtain pat where p: "compile_event_pat ev = Inr pat"
    unfolding compile_event_pat_def by blast
  from 3(1) [OF p t(2)] 3(3) obtain i b' where "compile_expr following b = Inr (i, b')" by auto
  with p show ?case by (cases "intern (NPrefix pat i) (Some s) b'") simp
next
  case (4 k l r s b)
  from 4(1) [of vars] 4(3,4) obtain i b1 where l: "compile_expr l b = Inr (i, b1)" by (auto simp: typed_simps)
  then have "pb_proc_ids b1 = pb_proc_ids b" using compile_expr_grows [OF l] by (simp add: grows_def)
  with 4(2) [OF l refl, of vars] 4(3,4) obtain j b2 where "compile_expr r b1 = Inr (j, b2)" by (auto simp: typed_simps)
  with l show ?case by (cases "intern (choice_node k i j) (Some s) b2") simp
next
  case (5 k l r sync s b)
  from 5(1) [of vars] 5(3,4) obtain i b1 where l: "compile_expr l b = Inr (i, b1)" by (auto simp: typed_simps)
  then have "pb_proc_ids b1 = pb_proc_ids b" using compile_expr_grows [OF l] by (simp add: grows_def)
  with 5(2) [OF l refl, of vars] 5(3,4) obtain j b2 where "compile_expr r b1 = Inr (j, b2)" by (auto simp: typed_simps)
  moreover obtain chs where "sync_channels k sync s = Inr chs" using sync_typed 5(4) by fastforce
  ultimately show ?case using l by (cases "intern (NParallel i j chs) (Some s) b2") simp
next
  case (6 inner hide s b)
  from 6(1) [of vars] 6(2,3) obtain i b1 where l: "compile_expr inner b = Inr (i, b1)" by (auto simp: typed_simps)
  then show ?case by (cases "intern (NHide i (channel_set hide)) (Some s) b1") simp
qed (auto simp: typed_simps intern_def Let_def split: option.splits)

lemma compile_roots_typed:
  "(\<forall>e \<in> ran (map_of exprs). typed chans procs Map.empty e \<and> expr_ok e) \<Longrightarrow> dom (map_of (pb_proc_ids b)) = procs \<Longrightarrow>
   fst ` set ids \<subseteq> dom (map_of exprs) \<Longrightarrow> compile_roots exprs ids b \<noteq> Some (Inl err)"
proof (induction exprs ids b rule: compile_roots.induct)
  case (2 exprs name q ids b)
  then obtain e where e: "map_of exprs name = Some e" by auto
  then have "typed chans (dom (map_of (pb_proc_ids b))) Map.empty e" "expr_ok e" using 2(2,3) by (auto simp: ranI)
  from compile_expr_typed [OF this] obtain i b1 where c: "compile_expr e b = Inr (i, b1)" by blast
  then have "pb_proc_ids b1 = pb_proc_ids b" using compile_expr_grows [OF c] by (simp add: grows_def)
  with 2 e c show ?case by auto
qed simp

lemma resolve_error:
  "resolve exprs roots spans eid memo visiting = Some (Inl e) \<Longrightarrow> lts_message e = ''cyclic process reference''"
proof (induction exprs roots spans eid memo visiting rule: resolve.induct)
  case (1 exprs roots spans eid memo visiting)
  from 1(2) show ?case
    by (subst (asm) resolve.simps) (auto split: option.splits if_splits expr_node.splits sum.splits dest: 1(1))
qed

lemma resolve_all_error:
  "resolve_all exprs roots spans ids memo visiting = Some (Inl e) \<Longrightarrow> lts_message e = ''cyclic process reference''"
  by (induction exprs roots spans ids memo visiting rule: resolve_all.induct)
    (auto split: option.splits sum.splits dest: resolve_error)

lemma compile_module_typed:
  assumes m: "well_typed m" "module_ok m" and e0: "initial_expr m = Inr e0" and small: "module_nodes m e0 \<le> 2 ^ 32"
    and err: "compile_module m = Some (Inl e)"
  shows "lts_message e = ''cyclic process reference''"
proof -
  let ?G = "channel_env_of m" and ?P = "process_name_set m"
  obtain chs where chs: "compile_channels m = Inr chs" using compile_channels_typed [OF m(1)] by blast
  obtain ids exprs where col: "collect_processes m = Inr (ids, exprs)" "dom (map_of ids) = ?P"
      "snd ` set exprs \<subseteq> set (map decl_expr (declarations m))"
    using collect_processes_typed [OF m(1)] by blast
  have decl: "typed ?G ?P Map.empty (decl_expr d) \<and> expr_ok (decl_expr d)" if "d \<in> set (declarations m)" for d
    using m that by (auto simp: well_typed_def module_ok_def)
  have e0_mem: "e0 \<in> set (map decl_expr (declarations m)) \<union> set_option (entry m)"
    using e0 by (auto simp: initial_expr_def split: option.splits list.splits)
  then have "typed ?G ?P Map.empty e0" "expr_ok e0" using m by (auto simp: well_typed_def module_ok_def)
  then obtain i0 b where c0: "compile_expr e0 (new_builder chs ids) = Inr (i0, b)"
    using compile_expr_typed [of ?G "new_builder chs ids" Map.empty e0] col(2) by (auto simp: new_builder_def)
  have ids: "pb_proc_ids b = ids" using compile_expr_grows [OF c0] by (simp add: grows_def new_builder_def)
  have "ran (map_of exprs) \<subseteq> set (map decl_expr (declarations m))"
    using col(3) by (force simp: ran_def dest: map_of_SomeD)
  then have ran: "\<forall>e \<in> ran (map_of exprs). typed ?G ?P Map.empty e \<and> expr_ok e" using decl by auto
  have "fst ` set ids \<subseteq> dom (map_of exprs)"
    using collect_processes_ok(1) [OF col(1)] by (metis dom_map_of_conv_image_fst list.set_map order_refl)
  with compile_roots_typed [OF ran] col(2) ids have no_err: "compile_roots exprs ids b \<noteq> Some (Inl x)" for x by simp
  from compile_stages(1) [OF chs col(1) e0 c0 small] no_err obtain b1 where
    b1: "compile_roots exprs ids b = Some (Inr b1)" by (metis old.sum.exhaust option.exhaust)
  from err chs col(1) e0 c0 b1 have "finish b1 = Some (Inl e)"
    by (auto simp: compile_module_def split: option.splits sum.splits)
  then show ?thesis
    by (auto simp: finish_def compute_resolved_def split: option.splits sum.splits dest: resolve_all_error)
qed

section \<open>Typed states\<close>

text \<open>A program compiled from a module: the table denotes the process bodies, and references are resolved to them.\<close>

definition compiled_from :: "cmodule \<Rightarrow> proc_ids \<Rightarrow> expr_id list \<Rightarrow> program \<Rightarrow> bool" where
  "compiled_from m ids roots p \<longleftrightarrow>
     program_wf p \<and> agrees (pr_channels p) (channel_env_of m) \<and>
     (\<forall>d \<in> set (declarations m). \<exists>q. map_of ids (node (decl_name d)) = Some q \<and>
        denotes ids (pr_exprs p) (roots ! unat q) (decl_expr d)) \<and>
     (\<forall>i. in_program p i \<longrightarrow> resolves_to (pr_exprs p) roots i (pr_resolved p ! unat i))"

definition typed_at :: "cmodule \<Rightarrow> proc_ids \<Rightarrow> program \<Rightarrow> expr_id \<Rightarrow> var_env \<Rightarrow> bool" where
  "typed_at m ids p i vars \<longleftrightarrow>
     (\<exists>e. denotes ids (pr_exprs p) i e \<and> typed (channel_env_of m) (process_name_set m) vars e)"

text \<open>Every variable in scope is bound to a value of its domain.\<close>

definition env_typed :: "var_env \<Rightarrow> env \<Rightarrow> bool" where
  "env_typed vars env \<longleftrightarrow>
     (\<forall>x ty. vars x = Some ty \<longrightarrow> (\<exists>lo hi v. ty = RangeType lo hi \<and> map_of env x = Some v \<and> lo \<le> v \<and> v \<le> hi))"

fun typed_state :: "cmodule \<Rightarrow> proc_ids \<Rightarrow> program \<Rightarrow> cspm_state \<Rightarrow> bool" where
  "typed_state m ids p (SExpr i env) = (\<exists>vars. typed_at m ids p i vars \<and> env_typed vars env)"
| "typed_state m ids p (SParallel sync l r) = (typed_state m ids p l \<and> typed_state m ids p r)"
| "typed_state m ids p (SHide hide s) = typed_state m ids p s"

text \<open>The labels of the events of a module.\<close>

definition typed_label :: "channel_env \<Rightarrow> string \<Rightarrow> bool" where
  "typed_label chans l \<longleftrightarrow> l = tau \<or> chans l = Some UnitType \<or>
     (\<exists>c lo hi v. chans c = Some (RangeType lo hi) \<and> lo \<le> v \<and> v \<le> hi \<and> l = event_label c v)"

lemma typed_state_make_hide [simp]: "typed_state m ids p (make_hide_state h s) = typed_state m ids p s"
  by (cases s) (simp_all add: make_hide_state_def)

lemma typed_at_node:
  assumes "typed_at m ids p i vars" and "node_at p i = Some nd"
  shows "case nd of
      NStop \<Rightarrow> True
    | NRef q \<Rightarrow> \<exists>n. map_of ids n = Some q \<and> n \<in> process_name_set m
    | NPrefix pat n \<Rightarrow> \<exists>ev ty vars'. compile_event_pat ev = Inr pat \<and>
        channel_env_of m (node (ev_channel (node ev))) = Some ty \<and>
        typed_seg ty (ev_seg (node ev)) vars vars' \<and> typed_at m ids p n vars'
    | NChoiceExternal l r \<Rightarrow> typed_at m ids p l vars \<and> typed_at m ids p r vars
    | NChoiceInternal l r \<Rightarrow> typed_at m ids p l vars \<and> typed_at m ids p r vars
    | NParallel l r chs \<Rightarrow> typed_at m ids p l vars \<and> typed_at m ids p r vars
    | NHide j chs \<Rightarrow> typed_at m ids p j vars"
proof -
  obtain e where e: "denotes ids (pr_exprs p) i e" "typed (channel_env_of m) (process_name_set m) vars e"
    using assms(1) unfolding typed_at_def by blast
  have nd: "nth_opt (pr_exprs p) (unat i) = Some nd" using assms(2) by (simp add: node_at_def)
  obtain v s where "e = Spanned v s" by (cases e)
  with e nd show ?thesis
    by (cases v) (auto simp: typed_at_def typed_simps split: expr_node.splits)
qed

lemma typed_at_ref:
  assumes "compiled_from m ids roots p" "well_typed m"
    and "map_of ids n = Some q" and "n \<in> process_name_set m"
  shows "typed_at m ids p (roots ! unat q) Map.empty"
proof -
  obtain d where d: "d \<in> set (declarations m)" "n = node (decl_name d)"
    using assms(4) by (auto simp: process_name_set_def)
  with assms show ?thesis by (fastforce simp: compiled_from_def well_typed_def typed_at_def)
qed

lemma typed_at_resolves:
  assumes "resolves_to (pr_exprs p) roots i r" and "compiled_from m ids roots p" "well_typed m"
  shows "typed_at m ids p i vars \<Longrightarrow> \<exists>nd. node_at p i = Some nd \<and>
    (if is_ref nd then typed_at m ids p r Map.empty else r = i)"
  using assms(1)
proof (induction arbitrary: vars rule: resolves_to.induct)
  case (Done i nd)
  then show ?case by (auto simp: node_at_def)
next
  case (Follow i q t r)
  have nd: "node_at p i = Some (NRef q)" using Follow.hyps(1) by (simp add: node_at_def)
  from typed_at_node [OF Follow.prems nd] obtain n where "map_of ids n = Some q" "n \<in> process_name_set m" by auto
  from typed_at_ref [OF assms(2,3) this] Follow.hyps(2) have "typed_at m ids p t Map.empty"
    by (simp add: nth_opt_def split: if_splits)
  with Follow.IH [OF this] show ?case using nd by (auto split: if_splits)
qed

lemma env_typed_empty [simp]: "env_typed Map.empty env"
  by (simp add: env_typed_def)

text \<open>The expression behind an id, after its references are resolved.\<close>

lemma typed_at_target:
  assumes c: "compiled_from m ids roots p" "well_typed m" and i: "typed_at m ids p i vars"
    and ref: "node_at p i = Some (NRef q)" and t: "resolved_at p i = Some t"
  shows "typed_at m ids p t Map.empty"
proof -
  have "in_program p i" using ref by (rule node_at_in_program)
  with c(1) have "resolves_to (pr_exprs p) roots i (pr_resolved p ! unat i)" by (simp add: compiled_from_def)
  moreover have "t = pr_resolved p ! unat i" using t by (simp add: resolved_at_def nth_opt_def split: if_splits)
  ultimately show ?thesis using typed_at_resolves [OF _ c i] ref by fastforce
qed

lemma typed_state_from_expr:
  "state_from_expr p i env = Some s \<Longrightarrow> compiled_from m ids roots p \<Longrightarrow> well_typed m \<Longrightarrow>
   typed_at m ids p i vars \<Longrightarrow> env_typed vars env \<Longrightarrow> typed_state m ids p s"
proof (induction arbitrary: vars rule: state_from_expr_induct)
  case (step f p i env s)
  note IH = step(1) [OF _ step(3,4)] and body = step(2) and c = step(3,4) and i = step(5) and env = step(6)
  from body obtain nd where nd: "node_at p i = Some nd" by (auto split: option.splits)
  note node = typed_at_node [OF i nd]
  show ?case
  proof (cases nd)
    case (NRef q)
    with body nd obtain t where t: "resolved_at p i = Some t" "f p t [] = Some s" by (auto split: option.splits)
    from typed_at_target [OF c i nd [unfolded NRef] t(1)] show ?thesis by (rule IH [OF t(2)]) simp
  next
    case (NParallel l r sync)
    with body nd node env show ?thesis by (auto simp: bind_eq_Some_conv intro: IH)
  next
    case (NHide j hide)
    with body nd node env show ?thesis by (auto simp: bind_eq_Some_conv intro: IH)
  qed (use body nd i env in auto)
qed

text \<open>An event under a typed environment: it has an instance, its label is typed, and the variables in scope after
  it are bound to their domains.\<close>

lemma typed_event_step:
  assumes a: "agrees (pr_channels p) chans" and pat: "compile_event_pat ev = Inr pat"
    and ch: "chans (node (ev_channel (node ev))) = Some ty" and t: "typed_seg ty (ev_seg (node ev)) vars vars'"
    and env: "env_typed vars env" and step: "event_step (map_of (pr_channels p)) pat env l env'"
  shows "typed_label chans l \<and> env_typed vars' env'"
  using t
proof cases
  case Unit
  with pat step ch env show ?thesis
    by (auto simp: compile_event_pat_def typed_label_def elim!: event_step_cases)
next
  case (Dot lo n hi s)
  with pat step ch env show ?thesis
    by (auto simp: compile_event_pat_def typed_label_def elim!: event_step_cases)
next
  case (Out lo n hi s)
  with pat step ch env show ?thesis
    by (auto simp: compile_event_pat_def typed_label_def elim!: event_step_cases)
next
  case (OutVar x lo hi s)
  let ?c = "node (ev_channel (node ev))"
  from OutVar env obtain v where v: "map_of env x = Some v" "lo \<le> v" "v \<le> hi" by (fastforce simp: env_typed_def)
  from OutVar pat have "pat = POutVar ?c x" by (simp add: compile_event_pat_def)
  with step v(1) have "l = event_label ?c v" "env' = env" by (auto elim!: event_step_cases)
  moreover from this(1) have "typed_label chans l"
    using ch OutVar(1) v(2,3) unfolding typed_label_def by blast
  ultimately show ?thesis using env OutVar by simp
next
  case (In lo n hi s)
  with pat step ch env show ?thesis
    by (auto simp: compile_event_pat_def typed_label_def elim!: event_step_cases)
next
  case (Bind x lo hi s)
  let ?c = "node (ev_channel (node ev))"
  from Bind ch a have chs: "map_of (pr_channels p) ?c = Some (ChIntRange lo hi)" by (simp add: agrees_def)
  from Bind pat have "pat = PInBind ?c x" by (simp add: compile_event_pat_def)
  with step chs obtain v where v: "lo \<le> v" "v \<le> hi" "l = event_label ?c v" "env' = btm_insert x v env"
    by (auto elim!: event_step_cases)
  then have "typed_label chans l" using ch Bind by (auto simp: typed_label_def)
  moreover have "env_typed vars' env'" using env v Bind by (auto simp: env_typed_def)
  ultimately show ?thesis by blast
qed

lemma typed_event_enabled:
  assumes "agrees (pr_channels p) chans" and "compile_event_pat ev = Inr pat"
    and "chans (node (ev_channel (node ev))) = Some ty" and "typed_seg ty (ev_seg (node ev)) vars vars'"
    and "env_typed vars env" and "\<And>lo hi. ty = RangeType lo hi \<Longrightarrow> lo \<le> hi"
  shows "eval_event p pat env \<noteq> []"
  using assms(4)
proof cases
  case (OutVar x lo hi s)
  then obtain v where "map_of env x = Some v" using assms(5) by (fastforce simp: env_typed_def)
  with OutVar assms(2) show ?thesis by (auto simp: compile_event_pat_def)
next
  case (Bind x lo hi s)
  then have "lo \<in> set (word_range lo hi)" using assms(6) by simp
  then have "word_range lo hi \<noteq> []" by (metis empty_iff list.set(1))
  with Bind assms show ?thesis by (auto simp: agrees_def compile_event_pat_def)
qed (use assms in \<open>auto simp: compile_event_pat_def\<close>)

lemma typed_sos:
  "sos p s l s' \<Longrightarrow> compiled_from m ids roots p \<Longrightarrow> well_typed m \<Longrightarrow> typed_state m ids p s \<Longrightarrow>
   typed_label (channel_env_of m) l \<and> typed_state m ids p s'"
proof (induction rule: sos.induct)
  case (Reference e q t st l s' env)
  then obtain vars where "typed_at m ids p e vars" by auto
  from typed_at_target [OF Reference.prems(1,2) this Reference.hyps(1,2)] have "typed_at m ids p t Map.empty" .
  from typed_state_from_expr [OF Reference.hyps(3) Reference.prems(1,2) this] Reference show ?case by simp
next
  case (Prefix e ev n env l env' s')
  then obtain vars where e: "typed_at m ids p e vars" "env_typed vars env" by auto
  from typed_at_node [OF this(1) Prefix.hyps(1)] obtain ev' ty vars' where
    ev: "compile_event_pat ev' = Inr ev" "channel_env_of m (node (ev_channel (node ev'))) = Some ty"
        "typed_seg ty (ev_seg (node ev')) vars vars'" "typed_at m ids p n vars'" by auto
  have "agrees (pr_channels p) (channel_env_of m)" using Prefix.prems(1) by (simp add: compiled_from_def)
  from typed_event_step [OF this ev(1-3) e(2) Prefix.hyps(2)] have
    "typed_label (channel_env_of m) l" "env_typed vars' env'" by auto
  with typed_state_from_expr [OF Prefix.hyps(3) Prefix.prems(1,2) ev(4)] show ?case by blast
next
  case (ExtLeft e a b env st l s')
  then show ?case using typed_state_from_expr [OF ExtLeft.hyps(2) ExtLeft.prems(1,2)]
      typed_at_node [OF _ ExtLeft.hyps(1)] by fastforce
next
  case (ExtRight e a b env st l s')
  then show ?case using typed_state_from_expr [OF ExtRight.hyps(2) ExtRight.prems(1,2)]
      typed_at_node [OF _ ExtRight.hyps(1)] by fastforce
next
  case (IntLeft e a b env s')
  then show ?case using typed_state_from_expr [OF IntLeft.hyps(2) IntLeft.prems(1,2)]
      typed_at_node [OF _ IntLeft.hyps(1)] by (fastforce simp: typed_label_def)
next
  case (IntRight e a b env s')
  then show ?case using typed_state_from_expr [OF IntRight.hyps(2) IntRight.prems(1,2)]
      typed_at_node [OF _ IntRight.hyps(1)] by (fastforce simp: typed_label_def)
next
  case (ExprPar e a b sync env x y l s')
  then show ?case using typed_state_from_expr [OF ExprPar.hyps(2) ExprPar.prems(1,2)]
      typed_state_from_expr [OF ExprPar.hyps(3) ExprPar.prems(1,2)] typed_at_node [OF _ ExprPar.hyps(1)] by fastforce
next
  case (ExprHide e i hide env x l s')
  then show ?case using typed_state_from_expr [OF ExprHide.hyps(2) ExprHide.prems(1,2)]
      typed_at_node [OF _ ExprHide.hyps(1)] by fastforce
next
  case (HideStep x l x' hide)
  then show ?case by (auto simp: hide_label_def typed_label_def)
qed auto

section \<open>Reachable states are typed\<close>

lemma from_module_typed:
  assumes "well_typed m" and "from_module m = Some (Inr cp)" and "initial_expr m = Inr e0"
    and "module_nodes m e0 \<le> 2 ^ 32"
  shows "\<exists>ids roots. compiled_from m ids roots (cp_program cp) \<and> typed_state m ids (cp_program cp) (cp_initial cp)"
proof -
  from from_module_table [OF assms(2-4)] obtain ids roots i0 where
    t: "program_wf (cp_program cp)" "compile_channels m = Inr (pr_channels (cp_program cp))"
      "denotes ids (pr_exprs (cp_program cp)) i0 e0" "state_from_expr (cp_program cp) i0 [] = Some (cp_initial cp)"
      "\<forall>d \<in> set (declarations m). \<exists>q. map_of ids (node (decl_name d)) = Some q \<and>
          denotes ids (pr_exprs (cp_program cp)) (roots ! unat q) (decl_expr d)"
      "\<forall>i. in_program (cp_program cp) i \<longrightarrow>
          resolves_to (pr_exprs (cp_program cp)) roots i (pr_resolved (cp_program cp) ! unat i)" by blast
  have "agrees (pr_channels (cp_program cp)) (channel_env_of m)" using compile_channels_typed [OF assms(1)] t(2) by auto
  with t have c: "compiled_from m ids roots (cp_program cp)" by (simp add: compiled_from_def)
  have "e0 \<in> set (map decl_expr (declarations m)) \<union> set_option (entry m)"
    using assms(3) by (auto simp: initial_expr_def split: option.splits list.splits)
  with assms(1) t(3) have "typed_at m ids (cp_program cp) i0 Map.empty"
    unfolding typed_at_def well_typed_def by blast
  from typed_state_from_expr [OF t(4) c assms(1) this] c show ?thesis by auto
qed

lemma reachable_typed:
  assumes "compiled_from m ids roots p" and "well_typed m" and "typed_state m ids p s0"
    and "s \<in> reachable (transitions_for p) s0"
  shows "typed_state m ids p s"
proof -
  have "reachable (transitions_for p) s0 \<subseteq> {s. typed_state m ids p s}"
  proof (rule reachable_closed)
    fix s assume s: "s \<in> {s. typed_state m ids p s}"
    show "succs (transitions_for p) s \<subseteq> {s. typed_state m ids p s}"
    proof
      fix t assume "t \<in> succs (transitions_for p) s"
      then obtain out l where "transitions_for p s = Some out" "(l, t) \<in> set out"
        by (auto simp: succs_def split: option.splits)
      then have "sos p s l t" by (auto simp: transitions_for_iff)
      from typed_sos [OF this assms(1,2)] s show "t \<in> {s. typed_state m ids p s}" by simp
    qed
  qed (use assms(3) in simp)
  with assms(4) show ?thesis by blast
qed

text \<open>The expressions a state waits at.\<close>

fun leaves :: "cspm_state \<Rightarrow> (expr_id \<times> env) list" where
  "leaves (SExpr i env) = [(i, env)]"
| "leaves (SParallel sync l r) = leaves l @ leaves r"
| "leaves (SHide hide s) = leaves s"

lemma typed_leaves: "typed_state m ids p s \<Longrightarrow> (i, env) \<in> set (leaves s) \<Longrightarrow> \<exists>vars. typed_at m ids p i vars \<and> env_typed vars env"
  by (induction s) auto

lemma domains_nonempty:
  assumes "well_typed m" and "channel_env_of m c = Some (RangeType lo hi)"
  shows "lo \<le> hi"
proof -
  from assms(2) have "(c, RangeType lo hi) \<in> set (declared_channels (channels m))"
    unfolding channel_env_of_def by (rule map_of_SomeD)
  then obtain d where "d \<in> set (channels m)" "the (declared_type d) = RangeType lo hi"
    by (auto simp: declared_channels_def)
  moreover from this(1) have "declared_type d \<noteq> None" using assms(1) by (simp add: well_typed_def)
  ultimately show ?thesis
    by (auto simp: declared_type_def split: option.splits channel_domain.splits if_splits)
qed

lemma typed_leaf_enabled:
  assumes c: "compiled_from m ids roots p" "well_typed m" and s: "typed_state m ids p s"
    and leaf: "(i, env) \<in> set (leaves s)" and nd: "node_at p i = Some (NPrefix pat n)"
  shows "eval_event p pat env \<noteq> []"
proof -
  obtain vars where v: "typed_at m ids p i vars" "env_typed vars env" using typed_leaves [OF s leaf] by blast
  from typed_at_node [OF v(1) nd] obtain ev ty vars' where
    ev: "compile_event_pat ev = Inr pat" "channel_env_of m (node (ev_channel (node ev))) = Some ty"
        "typed_seg ty (ev_seg (node ev)) vars vars'" by auto
  show ?thesis
    by (rule typed_event_enabled [where chans = "channel_env_of m", OF _ ev v(2)])
      (use c ev(2) domains_nonempty in \<open>auto simp: compiled_from_def\<close>)
qed

section \<open>Properties\<close>

text \<open>C25: the compiler reports no error on a well-typed and well-formed module with an entry process, but for
  cyclic references between processes.\<close>

theorem well_typed_compiles:
  assumes "well_typed m" and "module_ok m" and "initial_expr m = Inr e0" and "module_nodes m e0 \<le> 2 ^ 32"
    and "compile_module m = Some (Inl e)"
  shows "lts_message e = ''cyclic process reference''"
  by (rule compile_module_typed [OF assms])

text \<open>A module with \<open>P = Q\<close> and \<open>Q = P\<close>.\<close>

definition cyclic_module :: cmodule where
  "cyclic_module =
     \<lparr>channels = [],
      declarations = [\<lparr>decl_name = here ''P'', decl_expr = here (Ref (here ''Q''))\<rparr>,
                      \<lparr>decl_name = here ''Q'', decl_expr = here (Ref (here ''P''))\<rparr>],
      assertions = [], entry = Some (here Stop)\<rparr>"

theorem well_typed_compiles_witness:
  "well_typed cyclic_module \<and> compile_module cyclic_module = Some (Inl (LtsError ''cyclic process reference'' (Some no_span))) \<and>
   lts_message (LtsError ''cyclic process reference'' (Some no_span)) = ''cyclic process reference''"
proof -
  have w: "well_typed cyclic_module" "module_ok cyclic_module" "initial_expr cyclic_module = Inr (here Stop)"
    "module_nodes cyclic_module (here Stop) \<le> 2 ^ 32"
    by (simp_all add: well_typed_def module_ok_def cyclic_module_def initial_expr_def module_nodes_def
        declared_channels_def process_name_set_def typed_simps)
  have c: "compile_module cyclic_module = Some (Inl (LtsError ''cyclic process reference'' (Some no_span)))"
    by code_simp
  from well_typed_compiles [OF w c] w c show ?thesis by simp
qed

text \<open>C26: in every reachable state of a well-typed module the labels are \<open>tau\<close>, a channel without payload, or a
  channel and a value of its domain.\<close>

theorem reachable_labels_typed:
  assumes "well_typed m" and "initial_expr m = Inr e0" and "module_nodes m e0 \<le> 2 ^ 32"
    and "from_module m = Some (Inr cp)"
    and "s \<in> reachable (transitions (provider_of cp)) (initial_state (provider_of cp))"
    and "transitions (provider_of cp) s = Some out" and "(l, t) \<in> set out"
  shows "typed_label (channel_env_of m) l"
proof -
  obtain ids roots where c: "compiled_from m ids roots (cp_program cp)" "typed_state m ids (cp_program cp) (cp_initial cp)"
    using from_module_typed [OF assms(1,4,2,3)] by blast
  have "typed_state m ids (cp_program cp) s"
    by (rule reachable_typed [OF c(1) assms(1) c(2)]) (use assms(5) in \<open>simp add: provider_of_def\<close>)
  moreover have "sos (cp_program cp) s l t" using assms(6,7) by (auto simp: provider_of_def transitions_for_iff)
  ultimately show ?thesis using typed_sos [OF _ c(1) assms(1)] by blast
qed

theorem reachable_labels_typed_witness:
  "typed_label (channel_env_of demo_module) ''tau''"
proof -
  have w: "well_typed demo_module" "initial_expr demo_module = Inr demo_entry"
    "module_nodes demo_module demo_entry \<le> 2 ^ 32"
    by (simp_all add: well_typed_def demo_module_def initial_expr_def module_nodes_def declared_type_def
        declared_channels_def channel_env_of_def process_name_set_def typed_simps typed_seg.simps names_in_def demo_entry_def)
  have t: "transitions (provider_of demo_provider) (initial_state (provider_of demo_provider)) =
      Some [(''tau'', SHide [''a''] (SExpr 3 [(''x'', 0)])), (''tau'', SHide [''a''] (SExpr 3 [(''x'', 1)]))]"
    by code_simp
  show ?thesis
    by (rule reachable_labels_typed [OF w demo_from_module reachable_init t,
        where t = "SHide [''a''] (SExpr 3 [(''x'', 0)])"]) simp
qed

text \<open>C27: no event of a reachable state of a well-typed module is lost: every prefix a component waits at has an
  instance, with its variables bound.\<close>

theorem reachable_prefix_enabled:
  assumes "well_typed m" and "initial_expr m = Inr e0" and "module_nodes m e0 \<le> 2 ^ 32"
    and "from_module m = Some (Inr cp)"
    and "s \<in> reachable (transitions (provider_of cp)) (initial_state (provider_of cp))"
    and "(i, env) \<in> set (leaves s)" and "node_at (cp_program cp) i = Some (NPrefix pat n)"
  shows "eval_event (cp_program cp) pat env \<noteq> []"
proof -
  obtain ids roots where c: "compiled_from m ids roots (cp_program cp)" "typed_state m ids (cp_program cp) (cp_initial cp)"
    using from_module_typed [OF assms(1,4,2,3)] by blast
  have "typed_state m ids (cp_program cp) s"
    by (rule reachable_typed [OF c(1) assms(1) c(2)]) (use assms(5) in \<open>simp add: provider_of_def\<close>)
  from typed_leaf_enabled [OF c(1) assms(1) this assms(6,7)] show ?thesis .
qed

theorem reachable_prefix_enabled_witness:
  "eval_event (cp_program demo_provider) (POutVar ''a'' ''x'') [(''x'', 1)] \<noteq> []"
proof -
  have w: "well_typed demo_module" "initial_expr demo_module = Inr demo_entry"
    "module_nodes demo_module demo_entry \<le> 2 ^ 32"
    by (simp_all add: well_typed_def demo_module_def initial_expr_def module_nodes_def declared_type_def
        declared_channels_def channel_env_of_def process_name_set_def typed_simps typed_seg.simps names_in_def demo_entry_def)
  have t: "transitions (provider_of demo_provider) (initial_state (provider_of demo_provider)) =
      Some [(''tau'', SHide [''a''] (SExpr 3 [(''x'', 0)])), (''tau'', SHide [''a''] (SExpr 3 [(''x'', 1)]))]"
    by code_simp
  have "SHide [''a''] (SExpr 3 [(''x'', 1)]) \<in>
      reachable (transitions (provider_of demo_provider)) (initial_state (provider_of demo_provider))"
    using reachable_step [OF reachable_init [of _ "transitions (provider_of demo_provider)"] t] by simp
  from reachable_prefix_enabled [OF w demo_from_module this, of 3 "[(''x'', 1)]" "POutVar ''a'' ''x''" 2]
  show ?thesis by (simp add: demo_provider_def node_at_def nth_opt_def)
qed

end
