(* ===== verification/Cspx_Store.thy ===== *)
theory Cspx_Store
  imports Cspx_State
begin

text \<open>
  The interfaces of the explorer: \<^verbatim>\<open>StateStore\<close> (\<^verbatim>\<open>store.rs\<close>) and \<^verbatim>\<open>WorkQueue\<close> (\<^verbatim>\<open>queue.rs\<close>),
  as dictionaries of operations and as locales with the laws a client may use, and their two
  in-memory implementations (\<^verbatim>\<open>store_inmemory.rs\<close>, \<^verbatim>\<open>queue_inmemory.rs\<close>).
\<close>

section \<open>I/O errors\<close>

datatype io_kind = WouldBlock | AlreadyExists | IoInvalidInput | InvalidData | NotFound | OtherIo

datatype io_error = IoError (io_kind: io_kind) (io_message: string)

section \<open>The interfaces\<close>

text \<open>An insertion changes the store also when it fails, so it returns the new store in both cases.\<close>

record ('s, 'st) store_ops =
  store_insert :: "'s \<Rightarrow> 'st \<Rightarrow> (io_error + bool) \<times> 'st"
  store_len :: "'st \<Rightarrow> nat"

definition store_is_empty :: "('s, 'st) store_ops \<Rightarrow> 'st \<Rightarrow> bool" where
  "store_is_empty so st = (store_len so st = 0)"

record ('s, 'q) queue_ops =
  queue_push :: "'s \<Rightarrow> 'q \<Rightarrow> 'q"
  queue_pop :: "'q \<Rightarrow> ('s \<times> 'q) option"
  queue_is_empty :: "'q \<Rightarrow> bool"

text \<open>The laws of a store: \<open>contents\<close> is the set it represents, \<open>good\<close> its invariant and \<open>ok\<close>
  the states it can hold. A successful insertion reports whether the state is new; a failing one may or may
  not have added it.\<close>

locale state_store =
  fixes ops :: "('s, 'st) store_ops"
    and contents :: "'st \<Rightarrow> 's set"
    and good :: "'st \<Rightarrow> bool"
    and ok :: "'s \<Rightarrow> bool"
  assumes insert_Inr: "good st \<Longrightarrow> ok s \<Longrightarrow> store_insert ops s st = (Inr b, st') \<Longrightarrow>
      good st' \<and> (b \<longleftrightarrow> s \<notin> contents st) \<and> contents st' = insert s (contents st)"
    and insert_Inl: "good st \<Longrightarrow> ok s \<Longrightarrow> store_insert ops s st = (Inl e, st') \<Longrightarrow>
      good st' \<and> contents st \<subseteq> contents st' \<and> contents st' \<subseteq> insert s (contents st)"
    and len_contents: "good st \<Longrightarrow> finite (contents st) \<and> store_len ops st = card (contents st)"
begin

lemma is_empty: "good st \<Longrightarrow> store_is_empty ops st \<longleftrightarrow> contents st = {}"
  using len_contents by (auto simp: store_is_empty_def)

end

text \<open>A store that cannot fail.\<close>

locale total_store = state_store +
  assumes no_error: "store_insert ops s st \<noteq> (Inl e, st')"
begin

lemma insert_total:
  assumes "good st" and "ok s"
  shows "\<exists>st'. store_insert ops s st = (Inr (s \<notin> contents st), st') \<and> good st' \<and>
      contents st' = insert s (contents st)"
proof -
  obtain r st' where r: "store_insert ops s st = (r, st')" by fastforce
  with no_error obtain b where "r = Inr b" by (cases r) auto
  with r insert_Inr [OF assms, of b st'] show ?thesis by auto
qed

end

text \<open>The laws of a queue: it represents a list, from which states come out in the order they
  went in.\<close>

locale work_queue =
  fixes ops :: "('s, 'q) queue_ops" and items :: "'q \<Rightarrow> 's list"
  assumes push_items: "items (queue_push ops s q) = items q @ [s]"
    and pop_None: "queue_pop ops q = None \<longleftrightarrow> items q = []"
    and pop_Some: "queue_pop ops q = Some (s, q') \<Longrightarrow> items q = s # items q'"
    and is_empty_items: "queue_is_empty ops q \<longleftrightarrow> items q = []"

section \<open>store\_inmemory.rs and queue\_inmemory.rs\<close>

text \<open>A \<^verbatim>\<open>HashSet\<close> is the set of its elements, a \<^verbatim>\<open>VecDeque\<close> the list of its elements from front
  to back.\<close>

definition in_memory_insert :: "'s \<Rightarrow> 's set \<Rightarrow> (io_error + bool) \<times> 's set" where
  "in_memory_insert s states = (Inr (s \<notin> states), insert s states)"

definition in_memory_len :: "'s set \<Rightarrow> nat" where
  "in_memory_len states = card states"

definition in_memory_store :: "('s, 's set) store_ops" where
  "in_memory_store = \<lparr>store_insert = in_memory_insert, store_len = in_memory_len\<rparr>"

definition vec_push :: "'s \<Rightarrow> 's list \<Rightarrow> 's list" where
  "vec_push s q = q @ [s]"

definition vec_pop :: "'s list \<Rightarrow> ('s \<times> 's list) option" where
  "vec_pop q = (case q of [] \<Rightarrow> None | s # q' \<Rightarrow> Some (s, q'))"

definition vec_is_empty :: "'s list \<Rightarrow> bool" where
  "vec_is_empty q = (q = [])"

definition vec_work_queue :: "('s, 's list) queue_ops" where
  "vec_work_queue =
     \<lparr>queue_push = vec_push, queue_pop = vec_pop, queue_is_empty = vec_is_empty\<rparr>"

interpretation in_memory: total_store in_memory_store "\<lambda>S. S" finite "\<lambda>_. True"
  by unfold_locales (auto simp: in_memory_store_def in_memory_insert_def in_memory_len_def)

interpretation vec_queue: work_queue vec_work_queue "\<lambda>q. q"
  by unfold_locales
    (auto simp: vec_work_queue_def vec_push_def vec_pop_def vec_is_empty_def split: list.splits)

end
