(* ===== verification/Cspx_Disk.thy ===== *)
theory Cspx_Disk
  imports Cspx_Store Cspx_Lexer
begin

text \<open>
  The disk store of \<^verbatim>\<open>disk_store.rs\<close>: an append-only log of hexadecimal records, an index file that is a snapshot
  of the log, and a lock file. The file system is a map from paths to contents; an operation is the list of its
  file-system actions, so that a crash leaves the effect of a prefix of them, with the last write possibly cut
  short. Which call of the operating system fails, after which bytes and with which error is a parameter of every
  operation. The results: the store is a \<^verbatim>\<open>StateStore\<close>; after a crash or an error at any point, the store opens
  again with the records of the completed insertions. Bytes of files and paths are characters. The \<^verbatim>\<open>hex\<close> crate and
  the codec are parameters. Directories and the fields of the metrics that read the clock are not modelled.
\<close>

section \<open>Files\<close>

type_synonym fs = "string \<rightharpoonup> string"

definition file_of :: "fs \<Rightarrow> string \<Rightarrow> string" where
  "file_of fs p = (case fs p of None \<Rightarrow> '''' | Some c \<Rightarrow> c)"

definition file_len :: "fs \<Rightarrow> string \<Rightarrow> u64" where
  "file_len fs p = of_nat (length (file_of fs p))"

text \<open>\<^verbatim>\<open>OpenOptions\<close> with \<^verbatim>\<open>create\<close>, \<^verbatim>\<open>File::create\<close>, one call of \<^verbatim>\<open>write\<close> at the end of a file, \<^verbatim>\<open>set_len\<close>,
  \<^verbatim>\<open>rename\<close> and \<^verbatim>\<open>remove_file\<close>.\<close>

datatype fs_action =
    OpenCreate string
  | CreateTruncate string
  | WriteEnd string string
  | SetLen string nat
  | RenameFile string string
  | RemoveFile string

fun apply_action :: "fs_action \<Rightarrow> fs \<Rightarrow> fs" where
  "apply_action (OpenCreate p) fs = fs(p \<mapsto> file_of fs p)"
| "apply_action (CreateTruncate p) fs = fs(p \<mapsto> '''')"
| "apply_action (WriteEnd p bytes) fs = fs(p \<mapsto> file_of fs p @ bytes)"
| "apply_action (SetLen p n) fs =
     fs(p \<mapsto> take n (file_of fs p) @ replicate (n - length (file_of fs p)) (char_of (0::nat)))"
| "apply_action (RenameFile p q) fs = (case fs p of None \<Rightarrow> fs | Some c \<Rightarrow> (fs(q \<mapsto> c))(p := None))"
| "apply_action (RemoveFile p) fs = fs(p := None)"

definition run_actions :: "fs_action list \<Rightarrow> fs \<Rightarrow> fs" where
  "run_actions acts fs = fold apply_action acts fs"

text \<open>\<^verbatim>\<open>writeln!\<close> writes the text and the newline with two calls.\<close>

definition write_line :: "string \<Rightarrow> string \<Rightarrow> fs_action list" where
  "write_line p text = [WriteEnd p text, WriteEnd p [newline]]"

section \<open>Crashes and failing calls\<close>

text \<open>What is done when the actions stop: the first \<open>k\<close>, and if the next one is a write, its first \<open>j\<close> bytes.\<close>

definition partial_actions :: "fs_action list \<Rightarrow> nat \<Rightarrow> nat \<Rightarrow> fs_action list" where
  "partial_actions acts k j =
     take k acts @ (case drop k acts of WriteEnd p bytes # _ \<Rightarrow> [WriteEnd p (take j bytes)] | _ \<Rightarrow> [])"

definition crash_state :: "fs_action list \<Rightarrow> nat \<Rightarrow> nat \<Rightarrow> fs \<Rightarrow> fs" where
  "crash_state acts k j fs = run_actions (partial_actions acts k j) fs"

text \<open>A call that fails, with its error: the actions stop as by a crash, but the program goes on. The last component is
  the fault of what the program does about it.\<close>

datatype io_fault = NoFault | Fault nat nat io_error io_fault

section \<open>Paths\<close>

text \<open>\<^verbatim>\<open>Path::with_extension\<close> for a path that ends with a file name: what follows the last dot of the name is
  replaced, unless the name has no dot after its first character.\<close>

definition split_name :: "string \<Rightarrow> string \<times> string" where
  "split_name p =
     (let name = rev (takeWhile (\<lambda>c. c \<noteq> CHR ''/'') (rev p))
      in (take (length p - length name) p, name))"

definition file_stem :: "string \<Rightarrow> string" where
  "file_stem name =
     (let ext = takeWhile (\<lambda>c. c \<noteq> CHR ''.'') (rev name); n = length name - length ext
      in if n \<le> 1 then name else take (n - 1) name)"

definition with_extension :: "string \<Rightarrow> string \<Rightarrow> string" where
  "with_extension p ext = (case split_name p of (dir, name) \<Rightarrow> dir @ file_stem name @ ''.'' @ ext)"

record store_paths =
  log_path :: string
  idx_path :: string
  lock_path :: string

definition store_paths_new :: "string \<Rightarrow> store_paths" where
  "store_paths_new p = \<lparr>log_path = p, idx_path = with_extension p ''idx'', lock_path = with_extension p ''lock''\<rparr>"

definition tmp_path :: "string \<Rightarrow> string" where
  "tmp_path idx = with_extension idx ''idx.tmp''"

section \<open>The store\<close>

text \<open>The functions of the \<^verbatim>\<open>hex\<close> crate and of the codec.\<close>

record 's disk_lib =
  hex_encode :: "u8 list \<Rightarrow> string"
  hex_decode :: "string \<Rightarrow> u8 list option"
  codec_encode :: "'s \<Rightarrow> u8 list"
  codec_decode :: "u8 list \<Rightarrow> codec_error + 's"

record open_options =
  lock_retry_count :: u32
  index_flush_every :: u32

definition default_options :: open_options where
  "default_options = \<lparr>lock_retry_count = 0, index_flush_every = 1\<rparr>"

record disk_metrics =
  lock_contention_events :: u64
  lock_retries :: u64
  index_entries_loaded :: u64
  index_entries_rebuilt :: u64
  log_read_bytes :: u64
  index_read_bytes :: u64
  insert_calls :: u64
  insert_collisions :: u64
  log_write_ops :: u64
  log_write_bytes :: u64
  index_write_ops :: u64
  index_write_bytes :: u64
  pending_updates :: u64

definition no_metrics :: disk_metrics where
  "no_metrics =
     \<lparr>lock_contention_events = 0, lock_retries = 0, index_entries_loaded = 0, index_entries_rebuilt = 0,
      log_read_bytes = 0, index_read_bytes = 0, insert_calls = 0, insert_collisions = 0, log_write_ops = 0,
      log_write_bytes = 0, index_write_ops = 0, index_write_bytes = 0, pending_updates = 0\<rparr>"

definition total_written_bytes :: "disk_metrics \<Rightarrow> u64" where
  "total_written_bytes mt = sat_add (log_write_bytes mt) (index_write_bytes mt)"

text \<open>\<^verbatim>\<open>u32::saturating_add\<close>.\<close>

definition sat_add32 :: "u32 \<Rightarrow> u32 \<Rightarrow> u32" where
  "sat_add32 a b = (if b \<le> - 1 - a then a + b else - 1)"

record disk_store =
  dk_paths :: store_paths
  dk_index :: "u8 list set"
  dk_metrics :: disk_metrics
  dk_flush_every :: u32
  dk_pending :: u32
  dk_log_len :: u64

section \<open>Records\<close>

definition decode_validated_record :: "'s disk_lib \<Rightarrow> string \<Rightarrow> u8 list option" where
  "decode_validated_record lib line =
     (case hex_decode lib line of
        None \<Rightarrow> None
      | Some bytes \<Rightarrow>
          if bytes = [] then None
          else (case codec_decode lib bytes of Inl e \<Rightarrow> None | Inr s \<Rightarrow> Some bytes))"

definition append_log_record :: "'s disk_lib \<Rightarrow> string \<Rightarrow> u8 list \<Rightarrow> fs_action list" where
  "append_log_record lib p bytes = OpenCreate p # write_line p (hex_encode lib bytes)"

definition index_magic :: string where
  "index_magic = ''cspx-disk-index-v1''"

definition index_header :: "u64 \<Rightarrow> string" where
  "index_header log_len = index_magic @ '' log_len='' @ show_u64 log_len"

text \<open>The records of the index file, sorted; the set is iterated in any order.\<close>

definition index_records :: "'s disk_lib \<Rightarrow> u8 list set \<Rightarrow> string list" where
  "index_records lib index = sort (map (hex_encode lib) (sorted_list_of_set index))"

definition write_index_file :: "'s disk_lib \<Rightarrow> string \<Rightarrow> u8 list set \<Rightarrow> u64 \<Rightarrow> fs_action list \<times> u64" where
  "write_index_file lib p index log_len =
     (let tmp = tmp_path p; records = index_records lib index
      in (CreateTruncate tmp # concat (map (write_line tmp) (index_header log_len # records)) @ [RenameFile tmp p],
          foldl (\<lambda>n r. sat_add n (sat_add (of_nat (length r)) 1)) 0 (index_header log_len # records)))"

text \<open>With a fault: an error of the writes is returned; when the file cannot be renamed because the index exists, the
  index is removed first, and on another error the temporary file is removed, if that is possible.\<close>

definition write_index_io ::
  "'s disk_lib \<Rightarrow> io_fault \<Rightarrow> string \<Rightarrow> u8 list set \<Rightarrow> u64 \<Rightarrow> (io_error + u64) \<times> fs_action list" where
  "write_index_io lib fault p index log_len =
     (case write_index_file lib p index log_len of
        (acts, written) \<Rightarrow>
          (let tmp = tmp_path p; writes = butlast acts
           in case fault of
                NoFault \<Rightarrow> (Inr written, acts)
              | Fault k j e cleanup \<Rightarrow>
                  if k < length writes then (Inl e, partial_actions writes k j)
                  else if io_kind e = AlreadyExists
                  then (case cleanup of
                          NoFault \<Rightarrow> (Inr written, writes @ [RemoveFile p, RenameFile tmp p])
                        | Fault k' _ e' _ \<Rightarrow> (Inl e', writes @ (if k' = 0 then [] else [RemoveFile p])))
                  else (Inl e, writes @ (if cleanup = NoFault then [RemoveFile tmp] else []))))"

text \<open>\<^verbatim>\<open>u64::from_str\<close>.\<close>

definition u64_from_str :: "string \<Rightarrow> u64 option" where
  "u64_from_str s =
     (case s of
        [] \<Rightarrow> None
      | c # cs \<Rightarrow>
          (let ds = (if c = CHR ''+'' then cs else s)
           in if ds \<noteq> [] \<and> list_all is_digit ds then parse_u64 ds else None))"

abbreviation carriage :: char where "carriage \<equiv> CHR 0x0D"

definition trim_end_cr :: "string \<Rightarrow> string" where
  "trim_end_cr s = rev (dropWhile (\<lambda>c. c = carriage) (rev s))"

definition strip_prefix :: "string \<Rightarrow> string \<Rightarrow> string option" where
  "strip_prefix pre s = (if take (length pre) s = pre then Some (drop (length pre) s) else None)"

definition parse_index_header :: "string \<Rightarrow> u64 option" where
  "parse_index_header line =
     (case strip_prefix index_magic (trim_end_cr line) of
        None \<Rightarrow> None
      | Some rest \<Rightarrow> (case strip_prefix '' log_len='' rest of None \<Rightarrow> None | Some v \<Rightarrow> u64_from_str v))"


section \<open>Reading the index and the log\<close>

text \<open>\<^verbatim>\<open>BufRead::lines\<close>: a line that ends with a newline loses it, and a carriage return before it.\<close>

definition strip_cr :: "string \<Rightarrow> string" where
  "strip_cr l = (if l \<noteq> [] \<and> last l = carriage then butlast l else l)"

lemma dropWhile_length: "dropWhile P s = x # rest \<Longrightarrow> length rest < length s"
  using length_dropWhile_le [of P s] by simp

function buf_lines :: "string \<Rightarrow> string list" where
  "buf_lines s =
     (if s = [] then []
      else case dropWhile (\<lambda>c. c \<noteq> newline) s of
             [] \<Rightarrow> [s]
           | _ # rest \<Rightarrow> strip_cr (takeWhile (\<lambda>c. c \<noteq> newline) s) # buf_lines rest)"
  by auto

termination
  by (relation "measure length") (auto dest: dropWhile_length)

declare buf_lines.simps [simp del]

definition utf8_error :: io_error where
  "utf8_error = IoError InvalidData ''stream did not contain valid UTF-8''"

fun load_records :: "'s disk_lib \<Rightarrow> string \<Rightarrow> string list \<Rightarrow> u8 list set \<Rightarrow> io_error + u8 list set" where
  "load_records lib idx [] index = Inr index"
| "load_records lib idx (line # lines) index =
     (if \<not> utf8_valid line then Inl utf8_error
      else if line = [] then load_records lib idx lines index
      else
        (case decode_validated_record lib line of
           None \<Rightarrow> Inl (IoError InvalidData (''invalid index record in '' @ idx))
         | Some bytes \<Rightarrow> load_records lib idx lines (insert bytes index)))"

definition load_index_from_file :: "'s disk_lib \<Rightarrow> string \<Rightarrow> u64 \<Rightarrow> fs \<Rightarrow> io_error + u8 list set option" where
  "load_index_from_file lib idx expected_log_len fs =
     (case fs idx of
        None \<Rightarrow> Inr None
      | Some content \<Rightarrow>
          (case buf_lines content of
             [] \<Rightarrow> Inr None
           | header # lines \<Rightarrow>
               if \<not> utf8_valid header then Inl utf8_error
               else
                 (case parse_index_header header of
                    None \<Rightarrow> Inr None
                  | Some log_len \<Rightarrow>
                      if log_len \<noteq> expected_log_len then Inr None
                      else and_then (load_records lib idx lines {}) (\<lambda>index. Inr (Some index)))))"

text \<open>The loop over the bytes of the log. The text of the UTF-8 error is not modelled.\<close>

fun scan_log ::
  "'s disk_lib \<Rightarrow> string \<Rightarrow> string \<Rightarrow> nat \<Rightarrow> nat \<Rightarrow> u8 list set \<Rightarrow> io_error + (u8 list set \<times> nat)" where
  "scan_log lib data [] cursor line_start index = Inr (index, line_start)"
| "scan_log lib data (b # bs) cursor line_start index =
     (if b \<noteq> newline then scan_log lib data bs (cursor + 1) line_start index
      else
        (let line = take (cursor - line_start) (drop line_start data)
         in if line = [] then scan_log lib data bs (cursor + 1) (cursor + 1) index
            else if \<not> utf8_valid line then Inl (IoError InvalidData ''invalid utf8 record'')
            else
              (let text = trim_end_cr line
               in if text = [] then scan_log lib data bs (cursor + 1) (cursor + 1) index
                  else
                    (case decode_validated_record lib text of
                       None \<Rightarrow> Inl (IoError InvalidData ''invalid log record'')
                     | Some bytes \<Rightarrow> scan_log lib data bs (cursor + 1) (cursor + 1) (insert bytes index)))))"

definition rebuild_index_from_log ::
  "'s disk_lib \<Rightarrow> string \<Rightarrow> fs \<Rightarrow> io_error + (u8 list set \<times> u64 \<times> fs_action list)" where
  "rebuild_index_from_log lib log fs =
     (let data = file_of fs log
      in and_then (scan_log lib data data 0 0 {})
           (\<lambda>(index, line_start).
              Inr (if line_start < length data then (index, of_nat line_start, [SetLen log line_start])
                   else (index, of_nat (length data), []))))"

section \<open>Opening\<close>

text \<open>\<^verbatim>\<open>LockGuard::acquire\<close> for the process \<open>pid\<close>; the guard removes the file when it is dropped.\<close>

definition acquire_lock :: "u32 \<Rightarrow> string \<Rightarrow> fs \<Rightarrow> io_error + fs_action list" where
  "acquire_lock pid lock fs =
     (if fs lock \<noteq> None then Inl (IoError WouldBlock (''state store is already open: '' @ lock))
      else Inr [OpenCreate lock, WriteEnd lock ''pid='', WriteEnd lock (show_u32 pid), WriteEnd lock [newline]])"

definition release_lock :: "store_paths \<Rightarrow> fs_action list" where
  "release_lock paths = [RemoveFile (lock_path paths)]"

text \<open>What may fail: creating the directory, writing the lock file, opening the log, reading the log or the index,
  cutting the log, writing the index.\<close>

record open_faults =
  dir_fault :: "io_error option"
  lock_fault :: io_fault
  log_fault :: "io_error option"
  read_fault :: "io_error option"
  cut_fault :: "io_error option"
  index_fault :: io_fault

definition no_open_faults :: open_faults where
  "no_open_faults = \<lparr>dir_fault = None, lock_fault = NoFault, log_fault = None, read_fault = None, cut_fault = None,
     index_fault = NoFault\<rparr>"

text \<open>The body of \<^verbatim>\<open>open_with_options\<close> once the lock is held; an error drops the guard.\<close>

definition open_locked ::
  "'s disk_lib \<Rightarrow> open_faults \<Rightarrow> open_options \<Rightarrow> store_paths \<Rightarrow> u64 \<Rightarrow> fs \<Rightarrow> (io_error + disk_store) \<times> fs_action list" where
  "open_locked lib fl options paths retries fs =
     (let fs1 = run_actions [OpenCreate (log_path paths)] fs;
          log_len = file_len fs1 (log_path paths);
          metrics = no_metrics\<lparr>lock_contention_events := retries, lock_retries := retries\<rparr>;
          store = (\<lambda>index mt len.
            \<lparr>dk_paths = paths, dk_index = index, dk_metrics = mt, dk_flush_every = index_flush_every options,
             dk_pending = 0, dk_log_len = len\<rparr>)
      in case log_fault fl of
           Some e \<Rightarrow> (Inl e, release_lock paths)
         | None \<Rightarrow>
             (case (case read_fault fl of Some e \<Rightarrow> Inl e | None \<Rightarrow> load_index_from_file lib (idx_path paths) log_len fs1) of
                Inl e \<Rightarrow> (Inl e, OpenCreate (log_path paths) # release_lock paths)
              | Inr (Some index) \<Rightarrow>
                  (Inr (store index
                     (metrics\<lparr>index_entries_loaded := of_nat (card index), index_read_bytes := file_len fs1 (idx_path paths)\<rparr>)
                     log_len),
                   [OpenCreate (log_path paths)])
              | Inr None \<Rightarrow>
                  (case rebuild_index_from_log lib (log_path paths) fs1 of
                     Inl e \<Rightarrow> (Inl e, OpenCreate (log_path paths) # release_lock paths)
                   | Inr (rebuilt, normalized, acts) \<Rightarrow>
                       (case (if acts = [] then None else cut_fault fl) of
                          Some e \<Rightarrow> (Inl e, OpenCreate (log_path paths) # release_lock paths)
                        | None \<Rightarrow>
                            (case write_index_io lib (index_fault fl) (idx_path paths) rebuilt normalized of
                               (Inl e, write) \<Rightarrow> (Inl e, OpenCreate (log_path paths) # acts @ write @ release_lock paths)
                             | (Inr written, write) \<Rightarrow>
                                 (Inr (store rebuilt
                                    (metrics\<lparr>log_read_bytes := log_len, index_entries_rebuilt := of_nat (card rebuilt),
                                       index_write_ops := 1, index_write_bytes := written\<rparr>)
                                    normalized),
                                  OpenCreate (log_path paths) # acts @ write))))))"

text \<open>A lock file that was created and cannot be written stays: there is no guard yet.\<close>

definition open_at_io ::
  "'s disk_lib \<Rightarrow> open_faults \<Rightarrow> u32 \<Rightarrow> open_options \<Rightarrow> store_paths \<Rightarrow> u64 \<Rightarrow> fs \<Rightarrow>
    (io_error + disk_store) \<times> fs_action list" where
  "open_at_io lib fl pid options paths retries fs =
     (case acquire_lock pid (lock_path paths) fs of
        Inl e \<Rightarrow> (Inl e, [])
      | Inr acts \<Rightarrow>
          (case lock_fault fl of
             Fault k j e _ \<Rightarrow> (Inl e, partial_actions acts k j)
           | NoFault \<Rightarrow>
               (case open_locked lib fl options paths retries (run_actions acts fs) of (r, acts') \<Rightarrow> (r, acts @ acts'))))"

text \<open>When nothing fails.\<close>

definition open_at ::
  "'s disk_lib \<Rightarrow> u32 \<Rightarrow> open_options \<Rightarrow> store_paths \<Rightarrow> u64 \<Rightarrow> fs \<Rightarrow> (io_error + disk_store) \<times> fs_action list" where
  "open_at lib pid options paths retries fs = open_at_io lib no_open_faults pid options paths retries fs"

text \<open>The retry loop: \<open>found k\<close> is the file system other processes have left at the \<open>k\<close>-th attempt.\<close>

function lock_attempt :: "(nat \<Rightarrow> fs) \<Rightarrow> string \<Rightarrow> nat \<Rightarrow> nat \<Rightarrow> io_error + nat" where
  "lock_attempt found lock limit retries =
     (case acquire_lock 0 lock (found retries) of
        Inr _ \<Rightarrow> Inr retries
      | Inl e \<Rightarrow> if io_kind e = WouldBlock \<and> retries < limit then lock_attempt found lock limit (retries + 1) else Inl e)"
  by auto

termination
  by (relation "measure (\<lambda>(found, lock, limit, retries). limit - retries)") auto

declare lock_attempt.simps [simp del]

definition open_with_options ::
  "'s disk_lib \<Rightarrow> open_faults \<Rightarrow> u32 \<Rightarrow> (nat \<Rightarrow> fs) \<Rightarrow> string \<Rightarrow> open_options \<Rightarrow> (io_error + disk_store) \<times> fs" where
  "open_with_options lib fl pid found p options =
     (if index_flush_every options = 0
      then (Inl (IoError IoInvalidInput ''index_flush_every must be >= 1''), found 0)
      else
        (case dir_fault fl of
           Some e \<Rightarrow> (Inl e, found 0)
         | None \<Rightarrow>
             (let paths = store_paths_new p; limit = unat (lock_retry_count options)
              in case lock_attempt found (lock_path paths) limit 0 of
                   Inl e \<Rightarrow> (Inl e, found limit)
                 | Inr k \<Rightarrow>
                     (case open_at_io lib fl pid options paths (of_nat k) (found k) of
                        (r, acts) \<Rightarrow> (r, run_actions acts (found k))))))"

definition disk_open :: "'s disk_lib \<Rightarrow> open_faults \<Rightarrow> u32 \<Rightarrow> (nat \<Rightarrow> fs) \<Rightarrow> string \<Rightarrow> (io_error + disk_store) \<times> fs" where
  "disk_open lib fl pid found p = open_with_options lib fl pid found p default_options"

section \<open>Inserting\<close>

definition flush_index_snapshot ::
  "'s disk_lib \<Rightarrow> io_fault \<Rightarrow> disk_store \<Rightarrow> (io_error + unit) \<times> fs_action list \<times> disk_store" where
  "flush_index_snapshot lib fault st =
     (if dk_pending st = 0 then (Inr (), [], st)
      else
        (case write_index_io lib fault (idx_path (dk_paths st)) (dk_index st) (dk_log_len st) of
           (Inl e, acts) \<Rightarrow> (Inl e, acts, st)
         | (Inr written, acts) \<Rightarrow>
             (Inr (), acts,
              st\<lparr>dk_metrics := (dk_metrics st)
                   \<lparr>index_write_ops := sat_add (index_write_ops (dk_metrics st)) 1,
                    index_write_bytes := sat_add (index_write_bytes (dk_metrics st)) written,
                    pending_updates := 0\<rparr>,
                 dk_pending := 0\<rparr>)))"

record insert_faults =
  append_fault :: io_fault
  flush_fault :: io_fault

definition no_insert_faults :: insert_faults where
  "no_insert_faults = \<lparr>append_fault = NoFault, flush_fault = NoFault\<rparr>"

text \<open>An error of the append leaves the store as it was, whatever it has written; an error of the flush is returned
  when the store has the state.\<close>

definition disk_insert ::
  "'s disk_lib \<Rightarrow> insert_faults \<Rightarrow> 's \<Rightarrow> fs \<Rightarrow> disk_store \<Rightarrow> (io_error + bool) \<times> fs_action list \<times> disk_store" where
  "disk_insert lib fl s fs st =
     (let mt = (dk_metrics st)\<lparr>insert_calls := sat_add (insert_calls (dk_metrics st)) 1\<rparr>;
          bytes = codec_encode lib s
      in if bytes \<in> dk_index st
         then (Inr False, [], st\<lparr>dk_metrics := mt\<lparr>insert_collisions := sat_add (insert_collisions mt) 1\<rparr>\<rparr>)
         else
           (let log = log_path (dk_paths st);
                append = append_log_record lib log bytes
            in case append_fault fl of
                 Fault k j e _ \<Rightarrow> (Inl e, partial_actions append k j, st\<lparr>dk_metrics := mt\<rparr>)
               | NoFault \<Rightarrow>
                   (let pending = sat_add32 (dk_pending st) 1;
                        st1 = st\<lparr>dk_metrics := mt
                                 \<lparr>log_write_ops := sat_add (log_write_ops mt) 1,
                                  log_write_bytes := sat_add (log_write_bytes mt)
                                    (sat_add (of_nat (length (hex_encode lib bytes))) 1),
                                  pending_updates := ucast pending\<rparr>,
                               dk_log_len := file_len (run_actions append fs) log,
                               dk_index := insert bytes (dk_index st),
                               dk_pending := pending\<rparr>
                    in if pending \<ge> dk_flush_every st
                       then (case flush_index_snapshot lib (flush_fault fl) st1 of
                               (Inl e, acts, st2) \<Rightarrow> (Inl e, append @ acts, st2)
                             | (Inr _, acts, st2) \<Rightarrow> (Inr True, append @ acts, st2))
                       else (Inr True, append, st1))))"

text \<open>\<^verbatim>\<open>Drop\<close>: the pending index is written, then the lock guard is dropped; errors are ignored. The lock file
  stays when it cannot be removed.\<close>

definition disk_drop_io :: "'s disk_lib \<Rightarrow> io_fault \<Rightarrow> bool \<Rightarrow> disk_store \<Rightarrow> fs_action list" where
  "disk_drop_io lib fault unlocks st =
     (case flush_index_snapshot lib fault st of
        (_, acts, _) \<Rightarrow> acts @ (if unlocks then release_lock (dk_paths st) else []))"

definition disk_drop :: "'s disk_lib \<Rightarrow> disk_store \<Rightarrow> fs_action list" where
  "disk_drop lib st = disk_drop_io lib NoFault True st"

text \<open>The operations of \<^verbatim>\<open>StateStore\<close>; the faults may depend on the call.\<close>

definition disk_io_ops ::
  "'s disk_lib \<Rightarrow> ('s \<Rightarrow> fs \<times> disk_store \<Rightarrow> insert_faults) \<Rightarrow> ('s, fs \<times> disk_store) store_ops" where
  "disk_io_ops lib faults =
     \<lparr>store_insert = (\<lambda>s (fs, st). case disk_insert lib (faults s (fs, st)) s fs st of
        (r, acts, st') \<Rightarrow> (r, (run_actions acts fs, st'))),
      store_len = (\<lambda>(fs, st). card (dk_index st))\<rparr>"

definition disk_store_ops :: "'s disk_lib \<Rightarrow> ('s, fs \<times> disk_store) store_ops" where
  "disk_store_ops lib = disk_io_ops lib (\<lambda>_ _. no_insert_faults)"

section \<open>What the store relies on\<close>

text \<open>The \<^verbatim>\<open>hex\<close> crate writes two lower-case digits for a byte, and decoding inverts encoding; the codec gives a
  non-empty encoding that decodes, for the states that are \<open>ok\<close>.\<close>

definition hex_char :: "char \<Rightarrow> bool" where
  "hex_char c \<longleftrightarrow> char_between 48 c 57 \<or> char_between 97 c 102"

definition lib_ok :: "('s \<Rightarrow> bool) \<Rightarrow> 's disk_lib \<Rightarrow> bool" where
  "lib_ok ok lib \<longleftrightarrow>
     (\<forall>bs. hex_decode lib (hex_encode lib bs) = Some bs \<and> list_all hex_char (hex_encode lib bs) \<and>
        length (hex_encode lib bs) = 2 * length bs) \<and>
     (\<forall>s. ok s \<longrightarrow> codec_encode lib s \<noteq> [] \<and> codec_decode lib (codec_encode lib s) = Inr s)"

definition valid_record :: "'s disk_lib \<Rightarrow> u8 list \<Rightarrow> bool" where
  "valid_record lib bs \<longleftrightarrow> bs \<noteq> [] \<and> (\<exists>s. codec_decode lib bs = Inr s)"

lemma lib_okD:
  assumes "lib_ok ok lib"
  shows "hex_decode lib (hex_encode lib bs) = Some bs" and "list_all hex_char (hex_encode lib bs)"
    and "bs \<noteq> [] \<Longrightarrow> hex_encode lib bs \<noteq> []" and "ok s \<Longrightarrow> valid_record lib (codec_encode lib s)"
proof -
  show "hex_decode lib (hex_encode lib bs) = Some bs" "list_all hex_char (hex_encode lib bs)"
    using assms unfolding lib_ok_def by blast+
  have "length (hex_encode lib bs) = 2 * length bs" using assms unfolding lib_ok_def by blast
  then show "bs \<noteq> [] \<Longrightarrow> hex_encode lib bs \<noteq> []" by auto
  show "ok s \<Longrightarrow> valid_record lib (codec_encode lib s)" using assms unfolding lib_ok_def valid_record_def by blast
qed

text \<open>ASCII text without line ends.\<close>

definition plain_char :: "char \<Rightarrow> bool" where
  "plain_char c \<longleftrightarrow> c \<noteq> newline \<and> c \<noteq> carriage \<and> char_between 0 c 127"

lemma plain_text:
  assumes "list_all plain_char s"
  shows "newline \<notin> set s" and "carriage \<notin> set s" and "utf8_valid s"
proof -
  show "newline \<notin> set s" "carriage \<notin> set s" using assms unfolding list_all_iff plain_char_def by blast+
  have "list_all (\<lambda>c. char_between 0 c 127) s" using assms unfolding list_all_iff plain_char_def by blast
  then show "utf8_valid s" by (rule utf8_valid_ascii)
qed

lemma hex_char_plain: "hex_char c \<Longrightarrow> plain_char c"
  by (auto simp: hex_char_def plain_char_def char_between_def)

lemma digit_plain: "is_digit c \<Longrightarrow> plain_char c"
  by (auto simp: is_digit_def plain_char_def char_between_def)

lemma hex_text:
  assumes "lib_ok ok lib"
  shows "newline \<notin> set (hex_encode lib bs)" and "carriage \<notin> set (hex_encode lib bs)"
    and "utf8_valid (hex_encode lib bs)"
proof -
  have "list_all plain_char (hex_encode lib bs)"
    using list.pred_mono_strong [OF lib_okD(2) [OF assms]] hex_char_plain by blast
  then show "newline \<notin> set (hex_encode lib bs)" "carriage \<notin> set (hex_encode lib bs)"
    "utf8_valid (hex_encode lib bs)" by (rule plain_text)+
qed

lemma decode_hex:
  assumes "lib_ok ok lib" and "valid_record lib bs"
  shows "decode_validated_record lib (hex_encode lib bs) = Some bs"
  using lib_okD(1) [OF assms(1)] assms(2) by (auto simp: decode_validated_record_def valid_record_def)

lemma hex_inj: "lib_ok ok lib \<Longrightarrow> inj (hex_encode lib)"
  using lib_okD(1) by (metis injI option.inject)

text \<open>Texts as lines.\<close>

definition lines_text :: "string list \<Rightarrow> string" where
  "lines_text ls = concat (map (\<lambda>l. l @ [newline]) ls)"

lemma lines_text_simps [simp]:
  "lines_text [] = []" "lines_text (l # ls) = l @ newline # lines_text ls"
  "lines_text (ks @ ls) = lines_text ks @ lines_text ls"
  by (simp_all add: lines_text_def)

lemma trim_end_cr_id: "carriage \<notin> set s \<Longrightarrow> trim_end_cr s = s"
  by (cases "rev s") (auto simp: trim_end_cr_def)

lemma strip_cr_id: "carriage \<notin> set s \<Longrightarrow> strip_cr s = s"
  by (auto simp: strip_cr_def dest: last_in_set)

lemma buf_lines_text: "\<forall>l \<in> set ls. newline \<notin> set l \<and> carriage \<notin> set l \<Longrightarrow> buf_lines (lines_text ls) = ls"
proof (induction ls)
  case Nil
  show ?case by (simp add: buf_lines.simps)
next
  case (Cons l ls)
  have l: "\<And>c. c \<in> set l \<Longrightarrow> c \<noteq> newline" "carriage \<notin> set l" using Cons.prems by auto
  have "takeWhile (\<lambda>c. c \<noteq> newline) (l @ newline # lines_text ls) = l"
    "dropWhile (\<lambda>c. c \<noteq> newline) (l @ newline # lines_text ls) = newline # lines_text ls"
    by (simp_all add: takeWhile_append2 dropWhile_append2 l(1))
  with Cons l(2) show ?case by (subst buf_lines.simps) (simp add: strip_cr_id)
qed

section \<open>The index file\<close>

definition index_content :: "'s disk_lib \<Rightarrow> u8 list set \<Rightarrow> u64 \<Rightarrow> string" where
  "index_content lib index log_len = lines_text (index_header log_len # index_records lib index)"

lemma show_u64_digits: "show_u64 w \<noteq> []" "list_all is_digit (show_u64 w)"
  by (simp_all add: show_u64_def show_nat_digits)

lemma parse_header: "parse_index_header (index_header w) = Some w"
proof -
  obtain d ds where w: "show_u64 w = d # ds" using show_u64_digits(1) [of w] by (cases "show_u64 w") auto
  have "is_digit d" using show_u64_digits(2) [of w] w by simp
  then have plus: "d \<noteq> CHR ''+''" by (auto simp: is_digit_def char_between_def)
  have "u64_from_str (show_u64 w) = Some w"
    using w plus show_u64_digits(2) [of w] parse_u64_show [of w] by (simp add: u64_from_str_def)
  moreover have "carriage \<notin> set (show_u64 w)"
    using show_u64_digits(2) [of w] by (auto simp: list_all_iff is_digit_def char_between_def)
  then have "trim_end_cr (index_header w) = index_header w"
    by (intro trim_end_cr_id) (auto simp: index_header_def index_magic_def)
  ultimately show ?thesis by (simp add: parse_index_header_def index_header_def strip_prefix_def index_magic_def)
qed

lemma header_text: "newline \<notin> set (index_header w)" "carriage \<notin> set (index_header w)" "utf8_valid (index_header w)"
proof -
  have "list_all plain_char (show_u64 w)"
    using list.pred_mono_strong [OF show_u64_digits(2)] digit_plain by blast
  then have "list_all plain_char (index_header w)"
    by (simp add: index_header_def index_magic_def) (simp add: plain_char_def char_between_def)
  then show "newline \<notin> set (index_header w)" "carriage \<notin> set (index_header w)" "utf8_valid (index_header w)"
    by (rule plain_text)+
qed

lemma load_records_hex:
  assumes ok: "lib_ok ok lib"
  shows "\<forall>h \<in> set hs. \<exists>bs. h = hex_encode lib bs \<and> valid_record lib bs \<Longrightarrow>
    load_records lib idx hs index = Inr (index \<union> {bs. hex_encode lib bs \<in> set hs})"
proof (induction hs arbitrary: index)
  case (Cons h hs)
  from Cons.prems obtain bs where bs: "h = hex_encode lib bs" "valid_record lib bs" by (meson list.set_intros(1))
  then have "h \<noteq> []" using lib_okD(3) [OF ok, of bs] by (auto simp: valid_record_def)
  moreover have "{b. hex_encode lib b \<in> set (h # hs)} = insert bs {b. hex_encode lib b \<in> set hs}"
    using inj_eq [OF hex_inj [OF ok]] by (auto simp: bs(1))
  moreover have "\<forall>h \<in> set hs. \<exists>bs. h = hex_encode lib bs \<and> valid_record lib bs" using Cons.prems by simp
  ultimately show ?case
    using Cons.IH [of "insert bs index"] hex_text(3) [OF ok, of bs] decode_hex [OF ok bs(2)] by (simp add: bs(1))
qed simp

lemma set_index_records: "finite index \<Longrightarrow> set (index_records lib index) = hex_encode lib ` index"
  by (simp add: index_records_def)

text \<open>Reading back an index file.\<close>

lemma load_index_content:
  assumes ok: "lib_ok ok lib" and R: "finite R" "\<forall>bs \<in> R. valid_record lib bs"
    and fs: "fs idx = Some (index_content lib R n)"
  shows "load_index_from_file lib idx len fs = (if n = len then Inr (Some R) else Inr None)"
proof -
  have recs: "\<forall>h \<in> set (index_records lib R). \<exists>bs. h = hex_encode lib bs \<and> valid_record lib bs"
    using R by (auto simp: set_index_records)
  have "\<forall>l \<in> set (index_header n # index_records lib R). newline \<notin> set l \<and> carriage \<notin> set l"
    using header_text hex_text [OF ok] R(1) by (auto simp: set_index_records)
  then have "buf_lines (index_content lib R n) = index_header n # index_records lib R"
    unfolding index_content_def by (rule buf_lines_text)
  moreover have "{bs. hex_encode lib bs \<in> set (index_records lib R)} = R"
    using hex_inj [OF ok] R(1) by (auto simp: set_index_records inj_image_mem_iff)
  ultimately show ?thesis
    using load_records_hex [OF ok recs, of idx "{}"] header_text(3)
    by (simp add: load_index_from_file_def fs parse_header)
qed

section \<open>The log\<close>

definition log_of :: "'s disk_lib \<Rightarrow> u8 list list \<Rightarrow> string" where
  "log_of lib rs = lines_text (map (hex_encode lib) rs)"

lemma scan_text:
  "newline \<notin> set t \<Longrightarrow> scan_log lib data (t @ rest) cursor line_start index =
     scan_log lib data rest (cursor + length t) line_start index"
  by (induction t arbitrary: cursor) auto

lemma scan_records:
  assumes ok: "lib_ok ok lib"
  shows "\<forall>bs \<in> set rs. valid_record lib bs \<Longrightarrow> newline \<notin> set tail \<Longrightarrow> data = pre @ log_of lib rs @ tail \<Longrightarrow>
    scan_log lib data (log_of lib rs @ tail) (length pre) (length pre) index =
      Inr (index \<union> set rs, length pre + length (log_of lib rs))"
proof (induction rs arbitrary: pre index)
  case Nil
  then show ?case using scan_text [of tail lib data "[]"] by (simp add: log_of_def)
next
  case (Cons bs rs)
  let ?h = "hex_encode lib bs"
  note h = hex_text [OF ok, of bs]
  have bs: "valid_record lib bs" using Cons.prems(1) by simp
  then have ne: "?h \<noteq> []" using lib_okD(3) [OF ok, of bs] by (auto simp: valid_record_def)
  have log: "log_of lib (bs # rs) = ?h @ newline # log_of lib rs" by (simp add: log_of_def)
  have data: "data = (pre @ ?h @ [newline]) @ log_of lib rs @ tail" using Cons.prems(3) by (simp add: log)
  have "scan_log lib data (log_of lib (bs # rs) @ tail) (length pre) (length pre) index =
      scan_log lib data (newline # log_of lib rs @ tail) (length pre + length ?h) (length pre) index"
    unfolding log append_assoc append_Cons by (rule scan_text [OF h(1)])
  also have "\<dots> = scan_log lib data (log_of lib rs @ tail) (length pre + length ?h + 1) (length pre + length ?h + 1)
      (insert bs index)"
    using ne h(3) trim_end_cr_id [OF h(2)] decode_hex [OF ok bs] by (simp add: data Let_def)
  also have "\<dots> = Inr (insert bs index \<union> set rs, length (pre @ ?h @ [newline]) + length (log_of lib rs))"
    using Cons.IH [of "pre @ ?h @ [newline]" "insert bs index"] Cons.prems(1,2) data by simp
  finally show ?case by (simp add: log)
qed

lemma rebuild_log:
  assumes ok: "lib_ok ok lib" and rs: "\<forall>bs \<in> set rs. valid_record lib bs" and tail: "newline \<notin> set tail"
    and fs: "file_of fs log = log_of lib rs @ tail"
  shows "rebuild_index_from_log lib log fs = Inr (set rs, of_nat (length (log_of lib rs)),
    if tail = [] then [] else [SetLen log (length (log_of lib rs))])"
  using scan_records [OF ok rs tail, of _ "[]" "{}"] by (simp add: rebuild_index_from_log_def fs Let_def)

end
