(* ===== verification/Cspx_Disk_Crash.thy ===== *)
theory Cspx_Disk_Crash
  imports Cspx_Disk
begin

text \<open>
  Crash safety of the disk store. The life of a store is a sequence of steps: opening, inserting, closing, errors
  and crashes in the middle of each, and the removal of a stale lock file, which no operation of the store does. The
  invariant: the log is the records of the attempted insertions, followed by a torn line, and the index file is
  missing or a snapshot of a prefix of the log. So the store opens again once the lock file is gone, with every
  acknowledged insertion.
\<close>

section \<open>Sequences of file actions\<close>

lemma run_actions_simps [simp]:
  "run_actions [] fs = fs" "run_actions (a # acts) fs = run_actions acts (apply_action a fs)"
  "run_actions (as @ bs) fs = run_actions bs (run_actions as fs)"
  by (simp_all add: run_actions_def)

text \<open>\<open>P\<close> holds of whatever a crash leaves.\<close>

definition crash_all :: "(fs \<Rightarrow> bool) \<Rightarrow> fs_action list \<Rightarrow> fs \<Rightarrow> bool" where
  "crash_all P acts fs \<longleftrightarrow> (\<forall>k j. P (crash_state acts k j fs))"

lemma crash_allD: "crash_all P acts fs \<Longrightarrow> P (crash_state acts k j fs)"
  by (simp add: crash_all_def)

lemma crash_all_Nil: "P fs \<Longrightarrow> crash_all P [] fs"
  by (simp add: crash_all_def crash_state_def partial_actions_def)

lemma crash_all_Cons:
  assumes "P fs" and "\<And>p bytes j. a = WriteEnd p bytes \<Longrightarrow> P (apply_action (WriteEnd p (take j bytes)) fs)"
    and "crash_all P acts (apply_action a fs)"
  shows "crash_all P (a # acts) fs"
  unfolding crash_all_def
proof (intro allI)
  fix k j
  show "P (crash_state (a # acts) k j fs)"
  proof (cases k)
    case 0
    then show ?thesis using assms(1,2) by (cases a) (simp_all add: crash_state_def partial_actions_def)
  next
    case (Suc k')
    then show ?thesis using assms(3) by (simp add: crash_all_def crash_state_def partial_actions_def)
  qed
qed

lemma crash_all_append:
  assumes "crash_all P as fs" and "crash_all P bs (run_actions as fs)"
  shows "crash_all P (as @ bs) fs"
  unfolding crash_all_def
proof (intro allI)
  fix k j
  show "P (crash_state (as @ bs) k j fs)"
  proof (cases "k < length as")
    case True
    then have "drop k as \<noteq> []" by simp
    then obtain a as' where "drop k as = a # as'" by (cases "drop k as") auto
    then have "crash_state (as @ bs) k j fs = crash_state as k j fs"
      using True by (simp add: crash_state_def partial_actions_def)
    with assms(1) show ?thesis by (simp add: crash_all_def)
  next
    case False
    then have "crash_state (as @ bs) k j fs = crash_state bs (k - length as) j (run_actions as fs)"
      by (simp add: crash_state_def partial_actions_def)
    with assms(2) show ?thesis by (simp add: crash_all_def)
  qed
qed

lemma crash_all_run:
  assumes "crash_all P acts fs"
  shows "P (run_actions acts fs)"
  using crash_allD [OF assms, of "length acts" 0] by (simp add: crash_state_def partial_actions_def)

lemma crash_all_mono: "crash_all P acts fs \<Longrightarrow> (\<And>f. P f \<Longrightarrow> Q f) \<Longrightarrow> crash_all Q acts fs"
  by (simp add: crash_all_def)

text \<open>Actions that stopped leave what a crash leaves.\<close>

lemma partial_actions_simps [simp]:
  "partial_actions [] k j = []" "partial_actions (a # acts) (Suc k) j = a # partial_actions acts k j"
  "partial_actions (WriteEnd p bytes # acts) 0 j = [WriteEnd p (take j bytes)]"
  by (simp_all add: partial_actions_def)

lemma crash_state_partial: "\<exists>i l. crash_state (partial_actions acts k j) k' j' fs = crash_state acts i l fs"
proof (induction acts arbitrary: k k' fs)
  case Nil
  show ?case by (intro exI [of _ k'] exI [of _ j']) simp
next
  case (Cons a acts)
  have now: "crash_state (a # as) 0 l fs = crash_state (a # acts) 0 l fs" for as l
    by (cases a) (simp_all add: crash_state_def partial_actions_def)
  show ?case
  proof (cases k)
    case 0
    show ?thesis
    proof (cases a)
      case (WriteEnd p bytes)
      have "crash_state [WriteEnd p (take j bytes)] k' j' fs = crash_state (a # acts) 0 (if k' = 0 then min j' j else j) fs"
        by (cases k') (simp_all add: crash_state_def WriteEnd)
      then show ?thesis using 0 WriteEnd by auto
    qed (use 0 now [of "[]" 0] in \<open>auto simp: partial_actions_def crash_state_def intro!: exI [of _ 0]\<close>)
  next
    case (Suc n)
    show ?thesis
    proof (cases k')
      case 0
      then show ?thesis using Suc now [of "partial_actions acts n j" j'] by auto
    next
      case k': (Suc m)
      from Cons.IH [of n m "apply_action a fs"] obtain i l where
        "crash_state (partial_actions acts n j) m j' (apply_action a fs) = crash_state acts i l (apply_action a fs)" by blast
      then have "crash_state (partial_actions (a # acts) k j) k' j' fs = crash_state (a # acts) (Suc i) l fs"
        using Suc k' by (simp add: crash_state_def)
      then show ?thesis by blast
    qed
  qed
qed

lemma crash_all_partial: "crash_all P acts fs \<Longrightarrow> crash_all P (partial_actions acts k j) fs"
  unfolding crash_all_def using crash_state_partial by metis

text \<open>The files an action changes.\<close>

fun act_paths :: "fs_action \<Rightarrow> string set" where
  "act_paths (OpenCreate p) = {p}"
| "act_paths (CreateTruncate p) = {p}"
| "act_paths (WriteEnd p _) = {p}"
| "act_paths (SetLen p _) = {p}"
| "act_paths (RenameFile p q) = {p, q}"
| "act_paths (RemoveFile p) = {p}"

lemma apply_action_frame: "q \<notin> act_paths a \<Longrightarrow> apply_action a fs q = fs q"
  by (cases a) (auto split: option.splits)

lemma run_actions_frame: "\<forall>a \<in> set acts. q \<notin> act_paths a \<Longrightarrow> run_actions acts fs q = fs q"
  by (induction acts arbitrary: fs) (simp_all add: apply_action_frame)

lemma crash_all_frame:
  assumes "\<And>fs fs'. (\<And>q. q \<in> Q \<Longrightarrow> fs' q = fs q) \<Longrightarrow> P fs \<Longrightarrow> P fs'"
    and "\<forall>a \<in> set acts. act_paths a \<inter> Q = {}" and "P fs"
  shows "crash_all P acts fs"
  using assms(2,3)
proof (induction acts arbitrary: fs)
  case (Cons a acts)
  have step: "P (apply_action b fs)" if "act_paths b \<inter> Q = {}" for b
    using assms(1) [of "apply_action b fs" fs] apply_action_frame [of _ b fs] that Cons.prems(2) by blast
  show ?case
  proof (rule crash_all_Cons)
    fix p bytes j
    assume "a = WriteEnd p bytes"
    then show "P (apply_action (WriteEnd p (take j bytes)) fs)" using Cons.prems(1) by (intro step) simp
  qed (use Cons step in auto)
qed (simp add: crash_all_Nil)

section \<open>What the files hold\<close>

definition distinct_paths :: "store_paths \<Rightarrow> bool" where
  "distinct_paths ps \<longleftrightarrow> distinct [log_path ps, idx_path ps, lock_path ps, tmp_path (idx_path ps)]"

text \<open>The index file is missing, or the snapshot of a prefix of the records.\<close>

definition snapshot :: "'s disk_lib \<Rightarrow> u8 list list \<Rightarrow> string option \<Rightarrow> bool" where
  "snapshot lib rs c \<longleftrightarrow>
     c = None \<or> (\<exists>rs1 rs2. rs = rs1 @ rs2 \<and> c = Some (index_content lib (set rs1) (of_nat (length (log_of lib rs1)))))"

text \<open>The log holds the records \<open>rs\<close> and a torn line \<open>tl\<close>.\<close>

definition durable :: "'s disk_lib \<Rightarrow> store_paths \<Rightarrow> u8 list list \<Rightarrow> string \<Rightarrow> fs \<Rightarrow> bool" where
  "durable lib ps rs torn fs \<longleftrightarrow>
     (\<forall>bs \<in> set rs. valid_record lib bs) \<and> newline \<notin> set torn \<and> file_of fs (log_path ps) = log_of lib rs @ torn \<and>
     length (log_of lib rs @ torn) < 2 ^ 64 \<and> snapshot lib rs (fs (idx_path ps))"

lemma durable_frame:
  "(\<And>q. q \<in> {log_path ps, idx_path ps} \<Longrightarrow> fs' q = fs q) \<Longrightarrow> durable lib ps rs torn fs \<Longrightarrow> durable lib ps rs torn fs'"
  by (simp add: durable_def file_of_def)

lemma snapshot_append: "snapshot lib rs c \<Longrightarrow> snapshot lib (rs @ rs') c"
  unfolding snapshot_def by (metis append.assoc)

lemma snapshot_self: "snapshot lib rs (Some (index_content lib (set rs) (of_nat (length (log_of lib rs)))))"
  unfolding snapshot_def by blast

lemma log_of_append [simp]: "log_of lib (rs @ rs') = log_of lib rs @ log_of lib rs'"
  by (simp add: log_of_def)

lemma log_of_one [simp]: "log_of lib [bs] = hex_encode lib bs @ [newline]"
  by (simp add: log_of_def)

lemma log_of_Nil [simp]: "log_of lib [] = []"
  by (simp add: log_of_def)

lemma log_of_empty: "log_of lib rs = [] \<longleftrightarrow> rs = []"
  by (cases rs) (simp_all add: log_of_def)

lemma u64_of_nat: "n < 2 ^ 64 \<Longrightarrow> unat (of_nat n :: u64) = n"
  by (simp add: unat_of_nat)

text \<open>A snapshot whose recorded length is that of the log is complete.\<close>

lemma load_snapshot:
  assumes ok: "lib_ok ok lib" and d: "durable lib ps rs torn fs"
  shows "load_index_from_file lib (idx_path ps) (file_len fs (log_path ps)) fs \<in>
    {Inr None} \<union> (if torn = [] then {Inr (Some (set rs))} else {})"
proof (cases "fs (idx_path ps)")
  case None
  then show ?thesis by (simp add: load_index_from_file_def)
next
  case (Some c)
  with d obtain rs1 rs2 where rs: "rs = rs1 @ rs2"
    and c: "fs (idx_path ps) = Some (index_content lib (set rs1) (of_nat (length (log_of lib rs1))))"
    by (auto simp: durable_def snapshot_def)
  have log: "file_of fs (log_path ps) = log_of lib rs @ torn" "length (log_of lib rs @ torn) < 2 ^ 64"
    using d by (simp_all add: durable_def)
  have valid: "\<forall>bs \<in> set rs1. valid_record lib bs" using d rs by (simp add: durable_def)
  have same: "rs2 = [] \<and> torn = []"
    if "(of_nat (length (log_of lib rs1)) :: u64) = file_len fs (log_path ps)"
  proof -
    have "unat (of_nat (length (log_of lib rs1)) :: u64) = length (log_of lib rs1)"
      "unat (file_len fs (log_path ps)) = length (log_of lib rs @ torn)"
      unfolding file_len_def log(1) by (rule u64_of_nat; use log(2) rs in simp)+
    with that rs have "length (log_of lib rs2) + length torn = 0" by simp
    then show ?thesis by (simp add: log_of_empty)
  qed
  show ?thesis
    using load_index_content [where fs = fs, OF ok finite_set [of rs1] valid c, of "file_len fs (log_path ps)"] same rs by auto
qed

text \<open>Writing the index file.\<close>

lemma run_write_lines:
  "fs t = Some c \<Longrightarrow> run_actions (concat (map (write_line t) ls)) fs t = Some (c @ lines_text ls)"
  by (induction ls arbitrary: fs c) (simp_all add: write_line_def file_of_def)

lemma write_lines_paths: "\<forall>a \<in> set (concat (map (write_line t) ls)). act_paths a = {t}"
  by (auto simp: write_line_def)

lemma write_index_acts:
  "fst (write_index_file lib idx R n) =
     (CreateTruncate (tmp_path idx) # concat (map (write_line (tmp_path idx)) (index_header n # index_records lib R))) @
     [RenameFile (tmp_path idx) idx]"
  by (simp add: write_index_file_def Let_def)

lemma partial_actions_paths: "b \<in> set (partial_actions acts k j) \<Longrightarrow> \<exists>a \<in> set acts. act_paths b = act_paths a"
proof -
  assume b: "b \<in> set (partial_actions acts k j)"
  then consider "b \<in> set acts" | p bytes rest where "drop k acts = WriteEnd p bytes # rest" "b = WriteEnd p (take j bytes)"
    by (cases "drop k acts"; cases "hd (drop k acts)") (auto simp: partial_actions_def dest: in_set_takeD)
  then show ?thesis
  proof cases
    case 2
    then have "WriteEnd p bytes \<in> set acts" by (metis in_set_dropD list.set_intros(1))
    with 2 show ?thesis by force
  qed blast
qed

text \<open>Whatever fails, no other file changes, and the index file is the old one, the new one or missing.\<close>

definition index_step :: "string \<Rightarrow> string \<Rightarrow> fs \<Rightarrow> fs \<Rightarrow> bool" where
  "index_step idx content fs fs' \<longleftrightarrow>
     (\<forall>q. q \<notin> {tmp_path idx, idx} \<longrightarrow> fs' q = fs q) \<and> fs' idx \<in> {fs idx, None, Some content}"

lemma index_writes:
  fixes lib :: "'s disk_lib" and R n
  assumes "tmp_path idx \<noteq> idx"
  defines "writes \<equiv> butlast (fst (write_index_file lib idx R n))"
  shows "crash_all (index_step idx (index_content lib R n) fs) writes fs"
    and "run_actions writes fs (tmp_path idx) = Some (index_content lib R n)"
    and "q \<noteq> tmp_path idx \<Longrightarrow> run_actions writes fs q = fs q" and "\<forall>a \<in> set writes. act_paths a = {tmp_path idx}"
proof -
  let ?t = "tmp_path idx"
  have w: "writes = CreateTruncate ?t # concat (map (write_line ?t) (index_header n # index_records lib R))"
    unfolding writes_def write_index_acts by (rule butlast_snoc)
  show paths: "\<forall>a \<in> set writes. act_paths a = {?t}"
    unfolding w using write_lines_paths [of ?t "index_header n # index_records lib R"] by auto
  show "run_actions writes fs ?t = Some (index_content lib R n)"
    unfolding w using run_write_lines [of "fs(?t \<mapsto> '''')" ?t "''''" "index_header n # index_records lib R"]
    by (simp add: index_content_def)
  show "q \<noteq> ?t \<Longrightarrow> run_actions writes fs q = fs q" by (rule run_actions_frame) (use paths in auto)
  show "crash_all (index_step idx (index_content lib R n) fs) writes fs"
    by (rule crash_all_frame [of "- {?t}"]) (use assms(1) paths in \<open>auto simp: index_step_def\<close>)
qed

lemma write_index_io_cases:
  assumes "write_index_io lib fault idx R n = (r, acts)"
  defines "writes \<equiv> butlast (fst (write_index_file lib idx R n))"
  shows "(\<exists>k j. acts = partial_actions writes k j) \<or>
    (\<exists>tail \<in> {[RenameFile (tmp_path idx) idx], [RemoveFile idx, RenameFile (tmp_path idx) idx], [], [RemoveFile idx],
        [RemoveFile (tmp_path idx)]}. acts = writes @ tail)"
proof -
  obtain w where w: "write_index_file lib idx R n = (writes @ [RenameFile (tmp_path idx) idx], w)"
    unfolding writes_def write_index_acts butlast_snoc by (simp add: write_index_file_def Let_def)
  show ?thesis
    using assms(1) unfolding write_index_io_def w
    by (auto simp: Let_def split: io_fault.splits if_splits)
qed

lemma write_index_io_crash:
  assumes ne: "tmp_path idx \<noteq> idx" and w: "write_index_io lib fault idx R n = (r, acts)"
  shows "crash_all (index_step idx (index_content lib R n) fs) acts fs"
proof -
  let ?t = "tmp_path idx" and ?writes = "butlast (fst (write_index_file lib idx R n))"
  note writes = index_writes [where lib = lib and R = R and n = n, OF ne]
  have tail: "crash_all (index_step idx (index_content lib R n) fs) acts' (run_actions ?writes fs)"
    if "acts' \<in> {[RenameFile ?t idx], [RemoveFile idx, RenameFile ?t idx], [], [RemoveFile idx], [RemoveFile ?t]}" for acts'
    using that writes(2,3) [where fs = fs] ne
    by (elim insertE emptyE; simp only:)
      (intro crash_all_Cons crash_all_Nil; auto simp: index_step_def simp del: run_actions_simps)+
  from write_index_io_cases [OF w] show ?thesis
  proof
    assume "\<exists>k j. acts = partial_actions ?writes k j"
    with crash_all_partial [OF writes(1)] show ?thesis by blast
  qed (use crash_all_append [OF writes(1) tail] in blast)
qed

lemma write_index_io_paths:
  assumes ne: "tmp_path idx \<noteq> idx" and w: "write_index_io lib fault idx R n = (r, acts)" and a: "a \<in> set acts"
  shows "act_paths a \<subseteq> {tmp_path idx, idx}"
proof -
  let ?writes = "butlast (fst (write_index_file lib idx R n))"
  have writes: "\<forall>a \<in> set ?writes. act_paths a = {tmp_path idx}" by (rule index_writes(4) [OF ne])
  then have "act_paths b \<subseteq> {tmp_path idx}" if "b \<in> set (partial_actions ?writes k j)" for b k j
    using partial_actions_paths [OF that] by auto
  with write_index_io_cases [OF w] a writes show ?thesis by fastforce
qed

lemma write_index_io_ok: "write_index_io lib NoFault idx R n = (Inr (snd (write_index_file lib idx R n)), fst (write_index_file lib idx R n))"
  by (simp add: write_index_io_def case_prod_beta' Let_def)

section \<open>The operations\<close>

text \<open>What a store holds, and a running store that agrees with its files.\<close>

definition holds :: "'s disk_lib \<Rightarrow> store_paths \<Rightarrow> u8 list list \<Rightarrow> disk_store \<Rightarrow> bool" where
  "holds lib ps rs st \<longleftrightarrow> dk_paths st = ps \<and> dk_index st = set rs \<and> dk_log_len st = of_nat (length (log_of lib rs))"

definition agrees :: "'s disk_lib \<Rightarrow> store_paths \<Rightarrow> u8 list list \<Rightarrow> fs \<Rightarrow> disk_store \<Rightarrow> bool" where
  "agrees lib ps rs fs st \<longleftrightarrow>
     durable lib ps rs [] fs \<and> dk_paths st = ps \<and> dk_index st = set rs \<and>
     dk_log_len st = of_nat (length (log_of lib rs))"

lemma agrees_holds: "agrees lib ps rs fs st \<longleftrightarrow> durable lib ps rs [] fs \<and> holds lib ps rs st"
  by (simp add: agrees_def holds_def)

definition survives :: "'s disk_lib \<Rightarrow> store_paths \<Rightarrow> u8 list list \<Rightarrow> fs \<Rightarrow> bool" where
  "survives lib ps rs fs \<longleftrightarrow> (\<exists>torn. durable lib ps rs torn fs)"

lemma survives_frame:
  "(\<And>q. q \<in> {log_path ps, idx_path ps} \<Longrightarrow> fs' q = fs q) \<Longrightarrow> survives lib ps rs fs \<Longrightarrow> survives lib ps rs fs'"
  unfolding survives_def by (elim exE, rule exI, rule durable_frame) auto

lemma survives_crash_frame:
  assumes "\<forall>a \<in> set acts. act_paths a \<inter> {log_path ps, idx_path ps} = {}" and "survives lib ps rs fs"
  shows "crash_all (survives lib ps rs) acts fs"
  by (rule crash_all_frame [of "{log_path ps, idx_path ps}"]) (rule survives_frame, assumption+, rule assms, rule assms)

lemma agrees_survives: "agrees lib ps rs fs st \<Longrightarrow> survives lib ps rs fs"
  by (auto simp: agrees_def survives_def)

lemma survives_release: "distinct_paths ps \<Longrightarrow> survives lib ps rs fs \<Longrightarrow> crash_all (survives lib ps rs) (release_lock ps) fs"
  by (rule survives_crash_frame) (auto simp: release_lock_def distinct_paths_def)

text \<open>Writing the snapshot of records the log starts with.\<close>

lemma durable_index_step:
  assumes ps: "distinct_paths ps" and d: "durable lib ps (rs @ rs2) torn fs"
    and st: "index_step (idx_path ps) (index_content lib (set rs) (of_nat (length (log_of lib rs)))) fs fs'"
  shows "durable lib ps (rs @ rs2) torn fs'"
proof -
  have "fs' (log_path ps) = fs (log_path ps)" using st ps by (auto simp: index_step_def distinct_paths_def)
  moreover have "snapshot lib (rs @ rs2) (fs' (idx_path ps))"
    using st d snapshot_append [OF snapshot_self [of lib rs], of rs2] by (auto simp: index_step_def durable_def snapshot_def)
  ultimately show ?thesis using d by (simp add: durable_def file_of_def)
qed

lemma snapshot_crash:
  assumes ps: "distinct_paths ps" and d: "durable lib ps (rs @ rs2) torn fs"
    and w: "write_index_io lib fault (idx_path ps) (set rs) (of_nat (length (log_of lib rs))) = (r, acts)"
  shows "crash_all (durable lib ps (rs @ rs2) torn) acts fs"
proof -
  have "tmp_path (idx_path ps) \<noteq> idx_path ps" using ps by (auto simp: distinct_paths_def)
  from crash_all_mono [OF write_index_io_crash [OF this w, of fs]] durable_index_step [OF ps d] show ?thesis by blast
qed

lemma flush_cases:
  assumes "flush_index_snapshot lib fault st = (r, acts, st')"
  shows "(acts = [] \<and> st' = st \<and> r = Inr ()) \<or>
    (\<exists>w. write_index_io lib fault (idx_path (dk_paths st)) (dk_index st) (dk_log_len st) = (w, acts) \<and>
      (\<forall>e. r = Inl e \<longleftrightarrow> w = Inl e)) \<and>
    dk_paths st' = dk_paths st \<and> dk_index st' = dk_index st \<and> dk_log_len st' = dk_log_len st"
  using assms unfolding flush_index_snapshot_def
  by (cases "dk_pending st = 0"; cases "write_index_io lib fault (idx_path (dk_paths st)) (dk_index st) (dk_log_len st)";
      cases "fst (write_index_io lib fault (idx_path (dk_paths st)) (dk_index st) (dk_log_len st))") auto

lemma flush_ok:
  assumes ps: "distinct_paths ps" and h: "holds lib ps rs st" and d: "durable lib ps (rs @ rs2) torn fs"
    and fl: "flush_index_snapshot lib fault st = (r, acts, st')"
  shows "crash_all (durable lib ps (rs @ rs2) torn) acts fs" and "holds lib ps rs st'"
    and "lock_path ps \<notin> \<Union> (act_paths ` set acts)"
proof -
  from flush_cases [OF fl] h show "holds lib ps rs st'" by (auto simp: holds_def)
  have "acts = [] \<or> (\<exists>w. write_index_io lib fault (idx_path ps) (set rs) (of_nat (length (log_of lib rs))) = (w, acts))"
    using flush_cases [OF fl] h by (auto simp: holds_def)
  then show "crash_all (durable lib ps (rs @ rs2) torn) acts fs"
    using snapshot_crash [OF ps d] crash_all_Nil [where P = "durable lib ps (rs @ rs2) torn", OF d] by blast
  have "tmp_path (idx_path ps) \<noteq> idx_path ps" "lock_path ps \<notin> {tmp_path (idx_path ps), idx_path ps}"
    using ps by (auto simp: distinct_paths_def)
  with flush_cases [OF fl] h write_index_io_paths show "lock_path ps \<notin> \<Union> (act_paths ` set acts)"
    unfolding holds_def by fastforce
qed

lemma flush_no_fault: "flush_index_snapshot lib NoFault st = (r, acts, st') \<Longrightarrow> r = Inr ()"
  by (auto simp: flush_index_snapshot_def write_index_io_ok split: if_splits)

text \<open>Dropping a store, also when the log has a record or a torn line more.\<close>

lemma drop_io_ok:
  assumes ps: "distinct_paths ps" and h: "holds lib ps rs st" and d: "durable lib ps (rs @ rs2) torn fs"
  shows "crash_all (survives lib ps (rs @ rs2)) (disk_drop_io lib fault unlocks st) fs"
proof -
  obtain r acts st' where f: "flush_index_snapshot lib fault st = (r, acts, st')" by (metis prod_cases3)
  note fl = flush_ok [OF ps h d f]
  have s: "survives lib ps (rs @ rs2) (run_actions acts fs)"
    using crash_all_run [OF fl(1)] by (auto simp: survives_def simp del: run_actions_simps)
  have c: "crash_all (survives lib ps (rs @ rs2)) acts fs"
    by (rule crash_all_mono [OF fl(1)]) (auto simp: survives_def)
  have ps': "dk_paths st = ps" using h by (simp add: holds_def)
  have "crash_all (survives lib ps (rs @ rs2)) (if unlocks then release_lock ps else []) (run_actions acts fs)"
    using survives_release [OF ps s] crash_all_Nil [where P = "survives lib ps (rs @ rs2)", OF s] by simp
  from crash_all_append [OF c this] show ?thesis unfolding disk_drop_io_def f prod.case ps' .
qed

lemma drop_ok:
  assumes ps: "distinct_paths ps" and a: "agrees lib ps rs fs st"
  shows "crash_all (survives lib ps rs) (disk_drop lib st) fs" and "run_actions (disk_drop lib st) fs (lock_path ps) = None"
  using drop_io_ok [of ps lib rs st "[]" "[]" fs NoFault True] assms
  by (simp_all add: disk_drop_def disk_drop_io_def release_lock_def agrees_holds holds_def split: prod.split)

text \<open>Appending a record.\<close>

lemma append_ok:
  assumes ok: "lib_ok ok lib" and ps: "distinct_paths ps" and d: "durable lib ps rs [] fs" and bs: "valid_record lib bs"
    and len: "length (log_of lib rs) + length (hex_encode lib bs) + 1 < 2 ^ 64"
  shows "durable lib ps (rs @ [bs]) [] (run_actions (append_log_record lib (log_path ps) bs) fs)"
    and "crash_all (\<lambda>fs'. survives lib ps rs fs' \<or> survives lib ps (rs @ [bs]) fs')
      (append_log_record lib (log_path ps) bs) fs"
proof -
  let ?p = "log_path ps"
  let ?h = "hex_encode lib bs"
  have idx: "idx_path ps \<noteq> ?p" using ps by (auto simp: distinct_paths_def)
  have log: "file_of fs ?p = log_of lib rs" and snap: "snapshot lib rs (fs (idx_path ps))"
    and valid: "\<forall>b \<in> set rs. valid_record lib b" using d by (simp_all add: durable_def)
  have h: "newline \<notin> set ?h" by (rule hex_text [OF ok])
  have torn: "durable lib ps rs (take j ?h) (fs(?p \<mapsto> log_of lib rs @ take j ?h))" for j
    using snap valid h len idx by (auto simp: durable_def file_of_def dest: in_set_takeD)
  have full: "durable lib ps rs ?h (fs(?p \<mapsto> log_of lib rs @ ?h))" using torn [of "length ?h"] by simp
  have done_: "durable lib ps (rs @ [bs]) [] (fs(?p \<mapsto> log_of lib rs @ ?h @ [newline]))"
    using snap valid bs len idx by (auto simp: durable_def file_of_def intro: snapshot_append)
  have open_: "durable lib ps rs [] (fs(?p \<mapsto> log_of lib rs))" using torn [of 0] by simp
  show "durable lib ps (rs @ [bs]) [] (run_actions (append_log_record lib ?p bs) fs)"
    using done_ by (simp add: append_log_record_def write_line_def file_of_def [of "fs(_ \<mapsto> _)"] log)
  show "crash_all (\<lambda>fs'. survives lib ps rs fs' \<or> survives lib ps (rs @ [bs]) fs')
      (append_log_record lib ?p bs) fs"
    unfolding append_log_record_def write_line_def
  proof (intro crash_all_Cons crash_all_Nil)
    fix p bytes j
    assume "WriteEnd ?p ?h = WriteEnd p bytes"
    then show "survives lib ps rs (apply_action (WriteEnd p (take j bytes)) (apply_action (OpenCreate ?p) fs)) \<or>
        survives lib ps (rs @ [bs]) (apply_action (WriteEnd p (take j bytes)) (apply_action (OpenCreate ?p) fs))"
      using torn [of j] by (auto simp: survives_def file_of_def [of "fs(_ \<mapsto> _)"] log)
  next
    fix p bytes j
    assume "WriteEnd ?p [newline] = WriteEnd p bytes"
    then show "survives lib ps rs (apply_action (WriteEnd p (take j bytes))
          (apply_action (WriteEnd ?p ?h) (apply_action (OpenCreate ?p) fs))) \<or>
        survives lib ps (rs @ [bs]) (apply_action (WriteEnd p (take j bytes))
          (apply_action (WriteEnd ?p ?h) (apply_action (OpenCreate ?p) fs)))"
      using full done_ by (cases j) (auto simp: survives_def file_of_def [of "fs(_ \<mapsto> _)"] log)
  qed (use d open_ full done_ in \<open>auto simp: survives_def file_of_def [of "fs(_ \<mapsto> _)"] log\<close>)
qed

text \<open>The records after an insertion.\<close>

definition with_record :: "u8 list list \<Rightarrow> u8 list \<Rightarrow> u8 list list" where
  "with_record rs bs = (if bs \<in> set rs then rs else rs @ [bs])"

lemma insert_old:
  assumes "codec_encode lib s \<in> dk_index st"
  shows "\<exists>st'. disk_insert lib fl s fs st = (Inr False, [], st') \<and> dk_paths st' = dk_paths st \<and>
    dk_index st' = dk_index st \<and> dk_log_len st' = dk_log_len st"
  using assms by (simp add: disk_insert_def Let_def)

lemma insert_append_fault:
  assumes "codec_encode lib s \<notin> dk_index st" and "append_fault fl = Fault k j e cleanup"
  shows "\<exists>st'. disk_insert lib fl s fs st =
      (Inl e, partial_actions (append_log_record lib (log_path (dk_paths st)) (codec_encode lib s)) k j, st') \<and>
    dk_paths st' = dk_paths st \<and> dk_index st' = dk_index st \<and> dk_log_len st' = dk_log_len st"
  using assms by (simp add: disk_insert_def Let_def)

lemma insert_new:
  assumes "codec_encode lib s \<notin> dk_index st" and "append_fault fl = NoFault"
  defines "app \<equiv> append_log_record lib (log_path (dk_paths st)) (codec_encode lib s)"
  shows "\<exists>st1 r acts st'. disk_insert lib fl s fs st = (and_then r (\<lambda>_. Inr True), app @ acts, st') \<and>
    dk_paths st1 = dk_paths st \<and> dk_index st1 = insert (codec_encode lib s) (dk_index st) \<and>
    dk_log_len st1 = file_len (run_actions app fs) (log_path (dk_paths st)) \<and>
    (r = Inr () \<and> acts = [] \<and> st' = st1 \<or> flush_index_snapshot lib (flush_fault fl) st1 = (r, acts, st'))"
proof -
  define st1 where "st1 = st\<lparr>dk_metrics := (dk_metrics st)
       \<lparr>insert_calls := sat_add (insert_calls (dk_metrics st)) 1,
        log_write_ops := sat_add (log_write_ops (dk_metrics st)) 1,
        log_write_bytes := sat_add (log_write_bytes (dk_metrics st))
          (sat_add (of_nat (length (hex_encode lib (codec_encode lib s)))) 1),
        pending_updates := ucast (sat_add32 (dk_pending st) 1)\<rparr>,
      dk_log_len := file_len (run_actions app fs) (log_path (dk_paths st)),
      dk_index := insert (codec_encode lib s) (dk_index st), dk_pending := sat_add32 (dk_pending st) 1\<rparr>"
  obtain r acts st' where f: "flush_index_snapshot lib (flush_fault fl) st1 = (r, acts, st')" by (metis prod_cases3)
  have "disk_insert lib fl s fs st =
      (if dk_flush_every st \<le> sat_add32 (dk_pending st) 1
       then (and_then r (\<lambda>_. Inr True), app @ acts, st') else (Inr True, app, st1))"
    using assms(1,2) f by (cases r) (simp_all add: disk_insert_def Let_def app_def st1_def del: run_actions_simps)
  moreover have "dk_paths st1 = dk_paths st" "dk_index st1 = insert (codec_encode lib s) (dk_index st)"
    "dk_log_len st1 = file_len (run_actions app fs) (log_path (dk_paths st))"
    by (simp_all add: st1_def)
  ultimately show ?thesis using f
    by (cases "dk_flush_every st \<le> sat_add32 (dk_pending st) 1")
      (rule exI [of _ st1], rule exI [of _ r], simp, rule exI [of _ st1], rule exI [of _ "Inr ()"], simp)
qed

text \<open>An insertion: what it returns and leaves when it succeeds, and what an error or a crash leaves, also when the
  store is dropped after it.\<close>

definition inserted :: "'s disk_lib \<Rightarrow> store_paths \<Rightarrow> u8 list list \<Rightarrow> u8 list \<Rightarrow> fs \<Rightarrow> bool" where
  "inserted lib ps rs bs fs \<longleftrightarrow> survives lib ps rs fs \<or> survives lib ps (with_record rs bs) fs"

lemma insert_settled:
  assumes ok: "lib_ok ok lib" and ps: "distinct_paths ps" and a: "agrees lib ps rs fs st" and s: "ok s"
    and len: "length (log_of lib rs) + 2 * length (codec_encode lib s) + 1 < 2 ^ 64"
    and ins: "disk_insert lib fl s fs st = (r, acts, st')"
  defines "rs' \<equiv> with_record rs (codec_encode lib s)"
  shows "crash_all (inserted lib ps rs (codec_encode lib s)) acts fs \<and>
    (\<exists>rs1 rs2 torn. durable lib ps (rs1 @ rs2) torn (run_actions acts fs) \<and> holds lib ps rs1 st' \<and>
       rs1 @ rs2 \<in> {rs, rs'} \<and> (\<forall>b. r = Inr b \<longrightarrow> b = (codec_encode lib s \<notin> set rs) \<and> rs1 = rs' \<and> rs2 = [] \<and> torn = [])) \<and>
    lock_path ps \<notin> \<Union> (act_paths ` set acts)"
proof -
  let ?bs = "codec_encode lib s"
  let ?app = "append_log_record lib (log_path ps) ?bs"
  have a': "durable lib ps rs [] fs" "dk_paths st = ps" "dk_index st = set rs" "holds lib ps rs st"
    using a by (simp_all add: agrees_def holds_def)
  have app_paths: "\<forall>a \<in> set ?app. act_paths a = {log_path ps}" by (simp add: append_log_record_def write_line_def)
  have lock: "lock_path ps \<noteq> log_path ps" using ps by (auto simp: distinct_paths_def)
  show ?thesis
  proof (cases "?bs \<in> set rs")
    case True
    with insert_old [of lib s st fl fs] ins a' have "acts = []" "r = Inr False" "holds lib ps rs st'" "rs' = rs"
      by (auto simp: holds_def rs'_def with_record_def)
    moreover from a'(1) have "durable lib ps (rs @ []) [] fs" by simp
    moreover have "crash_all (inserted lib ps rs ?bs) [] fs"
      using agrees_survives [OF a] by (intro crash_all_Nil) (simp add: inserted_def)
    ultimately show ?thesis using True by (intro conjI exI [of _ rs] exI [of _ "[]"]) auto
  next
    case False
    have rs': "rs' = rs @ [?bs]" using False by (simp add: rs'_def with_record_def)
    have hlen: "length (hex_encode lib ?bs) = 2 * length ?bs" using ok unfolding lib_ok_def by blast
    have app: "durable lib ps rs' [] (run_actions ?app fs)" "crash_all (inserted lib ps rs ?bs) ?app fs"
      using append_ok [OF ok ps a'(1) lib_okD(4) [OF ok s]] len hlen rs'
      unfolding inserted_def rs'_def [symmetric] by simp_all
    show ?thesis
    proof (cases "append_fault fl")
      case (Fault k j e cleanup)
      with insert_append_fault [of lib s st fl k j e cleanup fs] False a' ins
      have i: "r = Inl e" "acts = partial_actions ?app k j" "holds lib ps rs st'" by (auto simp: holds_def)
      have c: "crash_all (inserted lib ps rs ?bs) acts fs" unfolding i(2) by (rule crash_all_partial [OF app(2)])
      obtain rs2 torn where d: "durable lib ps (rs @ rs2) torn (run_actions acts fs)" "rs @ rs2 \<in> {rs, rs'}"
        using crash_all_run [OF c] rs' unfolding inserted_def rs'_def [symmetric] survives_def
        by (metis append_Nil2 insert_iff)
      have "lock_path ps \<notin> \<Union> (act_paths ` set acts)"
        using app_paths lock partial_actions_paths [of _ ?app k j] unfolding i(2) by fastforce
      with c d i show ?thesis by (intro conjI exI [of _ rs] exI [of _ rs2] exI [of _ torn]) auto
    next
      case NoFault
      obtain st1 r1 acts1 st1' where i: "disk_insert lib fl s fs st = (and_then r1 (\<lambda>_. Inr True), ?app @ acts1, st1')"
        "dk_paths st1 = ps" "dk_index st1 = insert ?bs (set rs)"
        "dk_log_len st1 = file_len (run_actions ?app fs) (log_path ps)"
        "r1 = Inr () \<and> acts1 = [] \<and> st1' = st1 \<or> flush_index_snapshot lib (flush_fault fl) st1 = (r1, acts1, st1')"
        using insert_new [of lib s st fl fs] False NoFault a'(2,3) by auto
      have "file_of (run_actions ?app fs) (log_path ps) = log_of lib rs'" using app(1) by (simp add: durable_def)
      with i(2-4) have h: "holds lib ps rs' st1" by (simp add: holds_def rs' file_len_def del: run_actions_simps)
      have d: "durable lib ps (rs' @ []) [] (run_actions ?app fs)" using app(1) by simp
      have fl: "crash_all (durable lib ps (rs' @ []) []) acts1 (run_actions ?app fs)" "holds lib ps rs' st1'"
        "lock_path ps \<notin> \<Union> (act_paths ` set acts1)"
        using i(5) flush_ok [OF ps h d] crash_all_Nil [of "durable lib ps (rs' @ []) []", OF d] h by auto
      have "crash_all (inserted lib ps rs ?bs) (?app @ acts1) fs"
        by (intro crash_all_append [OF app(2)] crash_all_mono [OF fl(1)]) (auto simp: inserted_def survives_def rs'_def)
      moreover have "durable lib ps (rs' @ []) [] (run_actions (?app @ acts1) fs)" using crash_all_run [OF fl(1)] by simp
      moreover have "lock_path ps \<notin> \<Union> (act_paths ` set (?app @ acts1))" using app_paths lock fl(3) by auto
      ultimately show ?thesis using i(1) ins False fl(2)
        by (intro conjI exI [of _ rs'] exI [of _ "[]"]) (auto simp: and_then_eq_Inr)
    qed
  qed
qed

text \<open>Opening.\<close>

lemma acquire_ok:
  assumes "fs (lock_path ps) = None"
  shows "\<exists>acts. acquire_lock pid (lock_path ps) fs = Inr acts \<and> (\<forall>a \<in> set acts. act_paths a = {lock_path ps}) \<and>
    run_actions acts fs (lock_path ps) \<noteq> None"
  using assms by (auto simp: acquire_lock_def)

lemma set_len_ok:
  assumes ps: "distinct_paths ps" and d: "durable lib ps rs torn fs"
  shows "durable lib ps rs [] (apply_action (SetLen (log_path ps) (length (log_of lib rs))) fs)"
  using assms by (auto simp: durable_def distinct_paths_def file_of_def [of "fs(_ \<mapsto> _)"])

text \<open>What \<open>open_locked\<close> does: it gives up with the lock released, or it opens.\<close>

lemma open_locked_cases:
  assumes ok: "lib_ok ok lib" and d: "durable lib ps rs torn (run_actions [OpenCreate (log_path ps)] fs)"
    and op: "open_locked lib fl opts ps n fs = (r, acts)"
  defines "trim \<equiv> (if torn = [] then [] else [SetLen (log_path ps) (length (log_of lib rs))])"
    and "len \<equiv> of_nat (length (log_of lib rs)) :: u64"
  shows "(\<exists>e. r = Inl e \<and> fl \<noteq> no_open_faults \<and>
      (acts = release_lock ps \<or> acts = OpenCreate (log_path ps) # release_lock ps \<or>
       (\<exists>w. write_index_io lib (index_fault fl) (idx_path ps) (set rs) len = (Inl e, w) \<and>
          acts = OpenCreate (log_path ps) # trim @ w @ release_lock ps))) \<or>
    (\<exists>st. r = Inr st \<and> holds lib ps rs st \<and>
      (torn = [] \<and> acts = [OpenCreate (log_path ps)] \<or>
       (\<exists>x w. write_index_io lib (index_fault fl) (idx_path ps) (set rs) len = (Inr x, w) \<and>
          acts = OpenCreate (log_path ps) # trim @ w)))"
proof -
  let ?p = "log_path ps" and ?fs1 = "run_actions [OpenCreate (log_path ps)] fs"
  have valid: "\<forall>bs \<in> set rs. valid_record lib bs" "newline \<notin> set torn" "file_of ?fs1 ?p = log_of lib rs @ torn"
    using d by (simp_all add: durable_def del: run_actions_simps)
  note rebuild = rebuild_log [where fs = ?fs1, OF ok valid]
  show ?thesis
  proof (cases "log_fault fl")
    case (Some e)
    with op show ?thesis by (auto simp: open_locked_def Let_def no_open_faults_def simp del: run_actions_simps)
  next
    case log: None
    show ?thesis
    proof (cases "read_fault fl")
      case (Some e)
      with op log show ?thesis by (auto simp: open_locked_def Let_def no_open_faults_def simp del: run_actions_simps)
    next
      case read: None
      from load_snapshot [OF ok d] consider
        (loaded) "torn = []" "load_index_from_file lib (idx_path ps) (file_len ?fs1 ?p) ?fs1 = Inr (Some (set rs))"
        | (none) "load_index_from_file lib (idx_path ps) (file_len ?fs1 ?p) ?fs1 = Inr None"
        by (auto simp del: run_actions_simps split: if_splits)
      then show ?thesis
      proof cases
        case loaded
        then have "file_len ?fs1 ?p = len" using valid(3) by (simp add: file_len_def len_def del: run_actions_simps)
        with loaded op log read show ?thesis
          by (auto simp: open_locked_def Let_def holds_def len_def simp del: run_actions_simps)
      next
        case none
        show ?thesis
        proof (cases "if trim = [] then None else cut_fault fl")
          case (Some e)
          with none op log read show ?thesis
            by (auto simp: open_locked_def Let_def rebuild trim_def no_open_faults_def simp del: run_actions_simps split: if_splits)
        next
          case cutting: None
          obtain x w where w: "write_index_io lib (index_fault fl) (idx_path ps) (set rs) len = (x, w)" by fastforce
          have nofault: "index_fault fl \<noteq> NoFault" if "x = Inl e" for e
            using w that by (auto simp: write_index_io_ok)
          then have "fl \<noteq> no_open_faults" if "x = Inl e" for e using that by (auto simp: no_open_faults_def)
          with w cutting none op log read show ?thesis
            by (cases x) (auto simp: open_locked_def Let_def rebuild holds_def trim_def len_def
                simp del: run_actions_simps split: if_splits)
        qed
      qed
    qed
  qed
qed

lemma open_locked_ok:
  assumes ok: "lib_ok ok lib" and ps: "distinct_paths ps" and d: "durable lib ps rs torn fs"
    and op: "open_locked lib fl opts ps n fs = (r, acts)"
  shows "crash_all (survives lib ps rs) acts fs"
    and "r = Inr st \<Longrightarrow> agrees lib ps rs (run_actions acts fs) st \<and> lock_path ps \<notin> \<Union> (act_paths ` set acts)"
    and "fl = no_open_faults \<Longrightarrow> \<exists>st. r = Inr st"
proof -
  let ?p = "log_path ps" and ?fs1 = "run_actions [OpenCreate (log_path ps)] fs"
  let ?cut = "if torn = [] then [] else [SetLen ?p (length (log_of lib rs))]"
  let ?len = "of_nat (length (log_of lib rs)) :: u64"
  have ne: "tmp_path (idx_path ps) \<noteq> idx_path ps" "lock_path ps \<notin> {?p, tmp_path (idx_path ps), idx_path ps}"
    using ps by (auto simp: distinct_paths_def)
  have d1: "durable lib ps rs torn ?fs1"
    using d ps by (auto simp: durable_def distinct_paths_def file_of_def [of "fs(_ \<mapsto> _)"])
  have s0: "survives lib ps rs fs" and s1: "survives lib ps rs ?fs1" using d d1 unfolding survives_def by blast+
  have first: "crash_all (survives lib ps rs) (OpenCreate ?p # as) fs"
    if "crash_all (survives lib ps rs) as ?fs1" for as
    using that s0 by (intro crash_all_Cons) simp_all
  have d2: "durable lib ps rs [] (run_actions ?cut ?fs1)"
    using d1 set_len_ok [OF ps d1] by (cases "torn = []") simp_all
  have c2: "crash_all (survives lib ps rs) ?cut ?fs1"
    using s1 d2 by (cases "torn = []") (auto intro!: crash_all_Cons crash_all_Nil simp: survives_def simp del: apply_action.simps)
  have index: "crash_all (durable lib ps rs []) w (run_actions ?cut ?fs1)"
    if "write_index_io lib fault (idx_path ps) (set rs) ?len = (x, w)" for fault x w
    using snapshot_crash [OF ps _ that, of "[]"] d2 by simp
  have cut_index: "crash_all (survives lib ps rs) (?cut @ w) ?fs1"
    if "write_index_io lib fault (idx_path ps) (set rs) ?len = (x, w)" for fault x w
    by (rule crash_all_append [OF c2], rule crash_all_mono [OF index [OF that]]) (auto simp: survives_def)
  note cases = open_locked_cases [OF ok d1 op]
  have release: "crash_all (survives lib ps rs) (?cut @ w @ release_lock ps) ?fs1"
    if "write_index_io lib fault (idx_path ps) (set rs) ?len = (x, w)" for fault x w
    using crash_all_append [OF cut_index [OF that] survives_release [OF ps crash_all_run [OF cut_index [OF that]]]] by simp
  show "crash_all (survives lib ps rs) acts fs"
    using cases
  proof (elim disjE exE conjE)
    fix e w
    assume "write_index_io lib (index_fault fl) (idx_path ps) (set rs) ?len = (Inl e, w)"
      "acts = OpenCreate ?p # ?cut @ w @ release_lock ps"
    then show ?thesis using first [OF release] by simp
  next
    fix x w
    assume "write_index_io lib (index_fault fl) (idx_path ps) (set rs) ?len = (Inr x, w)"
      "acts = OpenCreate ?p # ?cut @ w"
    then show ?thesis using first [OF cut_index] by simp
  qed (use survives_release [OF ps s0] first [OF survives_release [OF ps s1]]
      first [OF crash_all_Nil [where P = "survives lib ps rs", OF s1]] in simp_all)
  show "fl = no_open_faults \<Longrightarrow> \<exists>st. r = Inr st" using cases by blast
  assume "r = Inr st"
  with cases have st: "holds lib ps rs st" and acts: "torn = [] \<and> acts = [OpenCreate ?p] \<or>
      (\<exists>x w. write_index_io lib (index_fault fl) (idx_path ps) (set rs) ?len = (Inr x, w) \<and> acts = OpenCreate ?p # ?cut @ w)"
    by auto
  from acts show "agrees lib ps rs (run_actions acts fs) st \<and> lock_path ps \<notin> \<Union> (act_paths ` set acts)"
  proof (elim disjE exE conjE)
    fix x w
    assume w: "write_index_io lib (index_fault fl) (idx_path ps) (set rs) ?len = (Inr x, w)" "acts = OpenCreate ?p # ?cut @ w"
    have "durable lib ps rs [] (run_actions acts fs)" using crash_all_run [OF index [OF w(1)]] by (simp add: w(2))
    moreover have "lock_path ps \<notin> \<Union> (act_paths ` set acts)"
      using write_index_io_paths [OF ne(1) w(1)] ne(2) by (auto simp: w(2) split: if_splits)
    ultimately show ?thesis using st by (simp add: agrees_holds)
  qed (use st d1 ne in \<open>simp add: agrees_holds\<close>)
qed

text \<open>An opening that returns a store has the lock; without faults it returns one when the lock is free.\<close>

lemma open_at_io_ok:
  assumes ok: "lib_ok ok lib" and ps: "distinct_paths ps" and s: "survives lib ps rs fs"
    and op: "open_at_io lib fl pid opts ps n fs = (r, acts)"
  shows "crash_all (survives lib ps rs) acts fs"
    and "r = Inr st \<Longrightarrow> agrees lib ps rs (run_actions acts fs) st \<and> run_actions acts fs (lock_path ps) \<noteq> None"
    and "fl = no_open_faults \<Longrightarrow> fs (lock_path ps) = None \<Longrightarrow> \<exists>st. r = Inr st"
proof -
  have "crash_all (survives lib ps rs) acts fs \<and>
    (\<forall>st. r = Inr st \<longrightarrow> agrees lib ps rs (run_actions acts fs) st \<and> run_actions acts fs (lock_path ps) \<noteq> None) \<and>
    (fl = no_open_faults \<longrightarrow> fs (lock_path ps) = None \<longrightarrow> (\<exists>st. r = Inr st))"
  proof (cases "fs (lock_path ps) = None")
    case False
    with op s show ?thesis by (auto simp: open_at_io_def acquire_lock_def crash_all_Nil)
  next
    case True
    obtain acts1 where a: "acquire_lock pid (lock_path ps) fs = Inr acts1"
      "\<forall>a \<in> set acts1. act_paths a = {lock_path ps}" "run_actions acts1 fs (lock_path ps) \<noteq> None"
      using acquire_ok [of fs ps pid, OF True] by blast
    have "\<forall>a \<in> set acts1. act_paths a \<inter> {log_path ps, idx_path ps} = {}"
      using a(2) ps by (auto simp: distinct_paths_def)
    then have c1: "crash_all (survives lib ps rs) acts1 fs" using s by (rule survives_crash_frame)
    then obtain torn where d: "durable lib ps rs torn (run_actions acts1 fs)"
      using crash_all_run [OF c1] by (auto simp: survives_def)
    show ?thesis
    proof (cases "lock_fault fl")
      case (Fault k j e cleanup)
      with op a have "r = Inl e" "acts = partial_actions acts1 k j" by (simp_all add: open_at_io_def)
      with Fault crash_all_partial [OF c1] show ?thesis by (auto simp: no_open_faults_def)
    next
      case NoFault
      obtain r2 acts2 where o: "open_locked lib fl opts ps n (run_actions acts1 fs) = (r2, acts2)" by fastforce
      with op a NoFault have r: "r = r2" "acts = acts1 @ acts2" by (simp_all add: open_at_io_def)
      note l = open_locked_ok [OF ok ps d o]
      have "run_actions acts fs (lock_path ps) \<noteq> None" if "r2 = Inr st" for st
        using l(2) [OF that] run_actions_frame [of acts2 "lock_path ps" "run_actions acts1 fs"] a(3) by (auto simp: r(2))
      with l crash_all_append [OF c1 l(1)] show ?thesis by (auto simp: r)
    qed
  qed
  then show "crash_all (survives lib ps rs) acts fs"
    and "r = Inr st \<Longrightarrow> agrees lib ps rs (run_actions acts fs) st \<and> run_actions acts fs (lock_path ps) \<noteq> None"
    and "fl = no_open_faults \<Longrightarrow> fs (lock_path ps) = None \<Longrightarrow> \<exists>st. r = Inr st" by blast+
qed

lemma open_at_ok:
  assumes ok: "lib_ok ok lib" and ps: "distinct_paths ps" and s: "survives lib ps rs fs"
    and lock: "fs (lock_path ps) = None"
  shows "\<exists>st acts. open_at lib pid opts ps n fs = (Inr st, acts) \<and> agrees lib ps rs (run_actions acts fs) st"
proof -
  obtain r acts where o: "open_at_io lib no_open_faults pid opts ps n fs = (r, acts)" by fastforce
  note oi = open_at_io_ok [OF ok ps s o]
  from oi(3) [OF refl lock] obtain st where "r = Inr st" by blast
  with oi(2) [OF this] o show ?thesis by (simp add: open_at_def)
qed

section \<open>The life of a store\<close>

record 's life =
  files :: fs
  running :: "disk_store option"
  acked :: "'s set"
  attempted :: "'s set"

definition no_life :: "'s life" where
  "no_life = \<lparr>files = (\<lambda>_. None), running = None, acked = {}, attempted = {}\<rparr>"

text \<open>No operation of the store removes a lock file that another process left: somebody does it by hand.\<close>

definition remove_lock :: "store_paths \<Rightarrow> fs \<Rightarrow> fs" where
  "remove_lock ps fs = fs(lock_path ps := None)"

text \<open>An insertion is acknowledged when it returns. An opening that fails or crashes leaves a prefix of its actions.
  When an insertion fails, the store is dropped; a crash leaves a prefix of the actions of the insertion and of the
  drop. Closing is a drop, completed or not. A log that reaches \<open>2 ^ 64\<close> bytes is out of scope.\<close>

inductive life_step :: "('s \<Rightarrow> bool) \<Rightarrow> 's disk_lib \<Rightarrow> open_options \<Rightarrow> store_paths \<Rightarrow> 's life \<Rightarrow> 's life \<Rightarrow> bool"
  for ok lib opts ps where
  life_open: "running L = None \<Longrightarrow> open_at_io lib fl pid opts ps n (files L) = (Inr st, acts) \<Longrightarrow>
    life_step ok lib opts ps L (L\<lparr>files := run_actions acts (files L), running := Some st\<rparr>)"
| life_open_stops: "running L = None \<Longrightarrow> open_at_io lib fl pid opts ps n (files L) = (r, acts) \<Longrightarrow>
    life_step ok lib opts ps L (L\<lparr>files := crash_state acts k j (files L)\<rparr>)"
| life_insert: "running L = Some st \<Longrightarrow> ok s \<Longrightarrow>
    length (file_of (files L) (log_path ps)) + 2 * length (codec_encode lib s) + 1 < 2 ^ 64 \<Longrightarrow>
    disk_insert lib fl s (files L) st = (Inr b, acts, st') \<Longrightarrow>
    life_step ok lib opts ps L
      (L\<lparr>files := run_actions acts (files L), running := Some st', acked := insert s (acked L),
         attempted := insert s (attempted L)\<rparr>)"
| life_insert_stops: "running L = Some st \<Longrightarrow> ok s \<Longrightarrow>
    length (file_of (files L) (log_path ps)) + 2 * length (codec_encode lib s) + 1 < 2 ^ 64 \<Longrightarrow>
    disk_insert lib fl s (files L) st = (r, acts, st') \<Longrightarrow>
    life_step ok lib opts ps L
      (L\<lparr>files := crash_state (acts @ disk_drop_io lib fault unlocks st') k j (files L), running := None,
         attempted := insert s (attempted L)\<rparr>)"
| life_close: "running L = Some st \<Longrightarrow>
    life_step ok lib opts ps L
      (L\<lparr>files := crash_state (disk_drop_io lib fault unlocks st) k j (files L), running := None\<rparr>)"
| life_unlock: "running L = None \<Longrightarrow> life_step ok lib opts ps L (L\<lparr>files := remove_lock ps (files L)\<rparr>)"

text \<open>The invariant.\<close>

definition between :: "'s disk_lib \<Rightarrow> 's life \<Rightarrow> u8 list set \<Rightarrow> bool" where
  "between lib L R \<longleftrightarrow> codec_encode lib ` acked L \<subseteq> R \<and> R \<subseteq> codec_encode lib ` attempted L"

definition life_ok :: "'s disk_lib \<Rightarrow> store_paths \<Rightarrow> 's life \<Rightarrow> bool" where
  "life_ok lib ps L \<longleftrightarrow>
     (\<exists>rs. between lib L (set rs) \<and>
        (case running L of
           None \<Rightarrow> survives lib ps rs (files L)
         | Some st \<Rightarrow> agrees lib ps rs (files L) st \<and> files L (lock_path ps) \<noteq> None))"

lemma life_ok_idle: "running L = None \<Longrightarrow> life_ok lib ps L \<longleftrightarrow> (\<exists>rs. between lib L (set rs) \<and> survives lib ps rs (files L))"
  by (simp add: life_ok_def)

lemma life_ok_busy: "running L = Some st \<Longrightarrow>
    life_ok lib ps L \<longleftrightarrow> (\<exists>rs. between lib L (set rs) \<and> agrees lib ps rs (files L) st \<and> files L (lock_path ps) \<noteq> None)"
  by (simp add: life_ok_def)

lemma remove_lock_ok: "distinct_paths ps \<Longrightarrow> survives lib ps rs fs \<Longrightarrow> survives lib ps rs (remove_lock ps fs)"
  by (erule survives_frame [rotated]) (auto simp: remove_lock_def distinct_paths_def)

lemma between_files [simp]:
  "between lib (L\<lparr>files := f\<rparr>) R \<longleftrightarrow> between lib L R"
  "between lib (L\<lparr>files := f, running := x\<rparr>) R \<longleftrightarrow> between lib L R"
  by (simp_all add: between_def)

lemma between_attempt:
  "between lib L (set rs) \<Longrightarrow> acked L' \<subseteq> insert s (acked L) \<Longrightarrow> attempted L' = insert s (attempted L) \<Longrightarrow>
    between lib L' (set (with_record rs (codec_encode lib s)))"
  "between lib L (set rs) \<Longrightarrow> acked L' = acked L \<Longrightarrow> attempted L' = insert s (attempted L) \<Longrightarrow> between lib L' (set rs)"
  by (auto simp: between_def with_record_def)

lemma insert_stops:
  assumes ok: "lib_ok ok lib" and ps: "distinct_paths ps" and a: "agrees lib ps rs fs st" and s: "ok s"
    and len: "length (log_of lib rs) + 2 * length (codec_encode lib s) + 1 < 2 ^ 64"
    and ins: "disk_insert lib fl s fs st = (r, acts, st')"
  shows "inserted lib ps rs (codec_encode lib s) (crash_state (acts @ disk_drop_io lib fault unlocks st') k j fs)"
proof -
  note i = insert_settled [OF ok ps a s len ins]
  from i obtain rs1 rs2 torn where d: "durable lib ps (rs1 @ rs2) torn (run_actions acts fs)" "holds lib ps rs1 st'"
    "rs1 @ rs2 \<in> {rs, with_record rs (codec_encode lib s)}" by blast
  have "crash_all (inserted lib ps rs (codec_encode lib s)) (disk_drop_io lib fault unlocks st') (run_actions acts fs)"
    by (rule crash_all_mono [OF drop_io_ok [OF ps d(2,1)]]) (use d(3) in \<open>auto simp: inserted_def\<close>)
  with crash_all_append i show ?thesis by (meson crash_allD)
qed

lemma life_step_ok:
  assumes ok: "lib_ok ok lib" and ps: "distinct_paths ps" and step: "life_step ok lib opts ps L L'" and L: "life_ok lib ps L"
  shows "life_ok lib ps L'"
  using step
proof cases
  case (life_open fl pid n st acts)
  then obtain rs where rs: "between lib L (set rs)" "survives lib ps rs (files L)" using L life_ok_idle by blast
  from open_at_io_ok(2) [OF ok ps rs(2) life_open(3) refl] rs(1) life_open(1) show ?thesis by (auto simp: life_ok_def)
next
  case (life_open_stops fl pid n r acts k j)
  then obtain rs where rs: "between lib L (set rs)" "survives lib ps rs (files L)" using L life_ok_idle by blast
  from crash_allD [OF open_at_io_ok(1) [OF ok ps rs(2) life_open_stops(3)]] rs(1) life_open_stops(1,2)
  show ?thesis by (auto simp: life_ok_def)
next
  case (life_insert st s fl b acts st')
  then obtain rs where rs: "between lib L (set rs)" "agrees lib ps rs (files L) st" "files L (lock_path ps) \<noteq> None"
    using L life_ok_busy by blast
  let ?rs' = "with_record rs (codec_encode lib s)"
  have log: "file_of (files L) (log_path ps) = log_of lib rs" using rs(2) by (simp add: agrees_def durable_def)
  note i = insert_settled [OF ok ps rs(2) life_insert(3) _ life_insert(5)]
  then have "agrees lib ps ?rs' (run_actions acts (files L)) st'" "lock_path ps \<notin> \<Union> (act_paths ` set acts)"
    using life_insert(4) log by (auto simp: agrees_holds)
  then have "agrees lib ps ?rs' (run_actions acts (files L)) st' \<and> run_actions acts (files L) (lock_path ps) \<noteq> None"
    using run_actions_frame [of acts "lock_path ps" "files L"] rs(3) by auto
  moreover have "between lib L' (set ?rs')" by (rule between_attempt(1) [OF rs(1)]) (use life_insert(1) in auto)
  ultimately show ?thesis using life_insert(1) by (auto simp: life_ok_def)
next
  case (life_insert_stops st s fl r acts st' fault unlocks k j)
  then obtain rs where rs: "between lib L (set rs)" "agrees lib ps rs (files L) st" using L life_ok_busy by blast
  have log: "file_of (files L) (log_path ps) = log_of lib rs" using rs(2) by (simp add: agrees_def durable_def)
  have "inserted lib ps rs (codec_encode lib s) (files L')"
    using insert_stops [OF ok ps rs(2) life_insert_stops(3) _ life_insert_stops(5)] life_insert_stops(1,4) log by simp
  moreover have "between lib L' (set rs)" "between lib L' (set (with_record rs (codec_encode lib s)))"
    using between_attempt(1,2) [OF rs(1), of L' s] life_insert_stops(1) by auto
  ultimately show ?thesis using life_insert_stops(1) by (auto simp: life_ok_def inserted_def)
next
  case (life_close st fault unlocks k j)
  then obtain rs where rs: "between lib L (set rs)" "agrees lib ps rs (files L) st" using L life_ok_busy by blast
  then have "durable lib ps (rs @ []) [] (files L)" "holds lib ps rs st" by (simp_all add: agrees_holds)
  from crash_allD [OF drop_io_ok [OF ps this(2,1)]] rs(1) life_close(1)
  show ?thesis by (auto simp: life_ok_def)
next
  case life_unlock
  then obtain rs where rs: "between lib L (set rs)" "survives lib ps rs (files L)" using L life_ok_idle by blast
  from remove_lock_ok [OF ps rs(2)] rs(1) life_unlock show ?thesis by (auto simp: life_ok_def)
qed

lemma no_life_ok: "life_ok lib ps no_life"
  by (auto simp: life_ok_def no_life_def between_def survives_def durable_def file_of_def snapshot_def
      intro!: exI [of _ "[]"])

lemma life_steps_ok:
  assumes "lib_ok ok lib" and "distinct_paths ps" and "(life_step ok lib opts ps)\<^sup>*\<^sup>* no_life L"
  shows "life_ok lib ps L"
  using assms(3) by (induction rule: rtranclp_induct) (auto intro: no_life_ok life_step_ok [OF assms(1,2)])

lemma life_locked:
  assumes "lib_ok ok lib" and "distinct_paths ps" and "(life_step ok lib opts ps)\<^sup>*\<^sup>* no_life L" and "running L \<noteq> None"
  shows "files L (lock_path ps) \<noteq> None"
  using life_steps_ok [OF assms(1-3)] assms(4) by (auto simp: life_ok_def)

lemma life_reopens:
  assumes ok: "lib_ok ok lib" and ps: "distinct_paths ps" and L: "(life_step ok lib opts ps)\<^sup>*\<^sup>* no_life L"
    and idle: "running L = None"
  shows "\<exists>st acts. open_at lib pid opts ps n (remove_lock ps (files L)) = (Inr st, acts) \<and>
    codec_encode lib ` acked L \<subseteq> dk_index st \<and> dk_index st \<subseteq> codec_encode lib ` attempted L"
proof -
  obtain rs where rs: "between lib L (set rs)" "survives lib ps rs (files L)"
    using life_steps_ok [OF ok ps L] life_ok_idle [OF idle] by blast
  have "remove_lock ps (files L) (lock_path ps) = None" by (simp add: remove_lock_def)
  from open_at_ok [OF ok ps remove_lock_ok [OF ps rs(2)] this, of pid opts n] obtain st acts where
    "open_at lib pid opts ps n (remove_lock ps (files L)) = (Inr st, acts)" "dk_index st = set rs"
    unfolding agrees_def by blast
  with rs(1) show ?thesis unfolding between_def by simp
qed

end
