(* ===== verification/Cspx_Explore.thy ===== *)
theory Cspx_Explore
  imports Cspx_Reach Cspx_Store Cspx_Compile
begin

text \<open>
  The state-space explorers of \<^verbatim>\<open>explore.rs\<close>: the serial worklist loop, the level-synchronous
  parallel loop, and its deterministic variant, each generic in the transition provider and in the store.
  The thread pool is rayon's: building it may fail and its parallel map is a parameter \<open>par_map\<close>; what the
  code relies on is that collecting the results keeps the order of the inputs. Of the
  profile the counters are modelled; the nanosecond fields are readings of the clock.
\<close>

section \<open>Options and profiles\<close>

record parallel_explore_options =
  workers :: nat
  deterministic :: bool
  seed :: u64

definition default_parallel_options :: parallel_explore_options where
  "default_parallel_options = \<lparr>workers = 1, deterministic = False, seed = 0\<rparr>"

datatype explore_profile_mode = SerialMode | ParallelMode | ParallelDeterministicMode

record explore_profile =
  pf_mode :: explore_profile_mode
  pf_workers :: nat
  levels :: u64
  expanded_states :: u64
  discovered_states :: u64
  generated_transitions :: u64

definition new_profile :: "explore_profile_mode \<Rightarrow> nat \<Rightarrow> explore_profile" where
  "new_profile md n =
     \<lparr>pf_mode = md, pf_workers = n, levels = 0, expanded_states = 0, discovered_states = 0,
      generated_transitions = 0\<rparr>"

definition add_expanded :: "u64 \<Rightarrow> explore_profile \<Rightarrow> explore_profile" where
  "add_expanded n p = p\<lparr>expanded_states := sat_add (expanded_states p) n\<rparr>"

definition add_discovered :: "explore_profile \<Rightarrow> explore_profile" where
  "add_discovered p = p\<lparr>discovered_states := sat_add (discovered_states p) 1\<rparr>"

definition add_generated :: "u64 \<Rightarrow> explore_profile \<Rightarrow> explore_profile" where
  "add_generated n p = p\<lparr>generated_transitions := sat_add (generated_transitions p) n\<rparr>"

definition add_level :: "explore_profile \<Rightarrow> explore_profile" where
  "add_level p = p\<lparr>levels := sat_add (levels p) 1\<rparr>"

definition stats_of :: "u64 \<Rightarrow> u64 \<Rightarrow> stats" where
  "stats_of n m = \<lparr>st_states = Some n, st_transitions = Some m\<rparr>"

text \<open>The profile is there or not; without one nothing is counted.\<close>

type_synonym profile = "explore_profile option"

section \<open>Inserting discovered states\<close>

text \<open>The inner loop of the three explorers: insert each state, put the new ones into the queue.
  The first failing insertion ends the exploration.\<close>

fun visit_all ::
  "('s, 'st) store_ops \<Rightarrow> ('s, 'q) queue_ops \<Rightarrow> 's list \<Rightarrow> 'st \<Rightarrow> 'q \<Rightarrow> u64 \<Rightarrow> profile
     \<Rightarrow> (io_error + u64 \<times> profile) \<times> 'st \<times> 'q" where
  "visit_all so qo [] store queue states prof = (Inr (states, prof), store, queue)"
| "visit_all so qo (s # ss) store queue states prof =
     (case store_insert so s store of
        (Inl e, store') \<Rightarrow> (Inl e, store', queue)
      | (Inr inserted, store') \<Rightarrow>
          if inserted
          then visit_all so qo ss store' (queue_push qo s queue) (states + 1)
                 (map_option add_discovered prof)
          else visit_all so qo ss store' queue states prof)"

section \<open>The serial explorer\<close>

type_synonym ('st, 'q) explored = "((io_error + stats \<times> profile) \<times> 'st \<times> 'q) option"

partial_function (option) serial_loop ::
  "('s, 'st) store_ops \<Rightarrow> ('s, 'q) queue_ops \<Rightarrow> 's transition_provider
     \<Rightarrow> 'st \<Rightarrow> 'q \<Rightarrow> u64 \<Rightarrow> u64 \<Rightarrow> profile \<Rightarrow> ('st, 'q) explored" where
  "serial_loop so qo provider store queue states transn prof =
     (case queue_pop qo queue of
        None \<Rightarrow> Some (Inr (stats_of states transn, prof), store, queue)
      | Some (state, queue1) \<Rightarrow>
          (case transitions provider state of
             None \<Rightarrow> None
           | Some nexts \<Rightarrow>
               (case visit_all so qo (map snd nexts) store queue1 states
                       (map_option (\<lambda>p. add_generated (of_nat (length nexts)) (add_expanded 1 p)) prof) of
                  (Inl e, store', queue') \<Rightarrow> Some (Inl e, store', queue')
                | (Inr (states', prof'), store', queue') \<Rightarrow>
                    serial_loop so qo provider store' queue' states'
                      (sat_add transn (of_nat (length nexts))) prof')))"

definition explore_serial_internal ::
  "('s, 'st) store_ops \<Rightarrow> ('s, 'q) queue_ops \<Rightarrow> 's transition_provider
     \<Rightarrow> 'st \<Rightarrow> 'q \<Rightarrow> profile \<Rightarrow> ('st, 'q) explored" where
  "explore_serial_internal so qo provider store queue prof =
     (case visit_all so qo [initial_state provider] store queue 0 prof of
        (Inl e, store', queue') \<Rightarrow> Some (Inl e, store', queue')
      | (Inr (states, prof'), store', queue') \<Rightarrow>
          serial_loop so qo provider store' queue' states 0 prof')"

definition explore ::
  "('s, 'st) store_ops \<Rightarrow> ('s, 'q) queue_ops \<Rightarrow> 's transition_provider \<Rightarrow> 'st \<Rightarrow> 'q
     \<Rightarrow> ((io_error + stats) \<times> 'st \<times> 'q) option" where
  "explore so qo provider store queue =
     map_option (\<lambda>(r, st, q). (map_sum (\<lambda>e. e) fst r, st, q))
       (explore_serial_internal so qo provider store queue None)"

definition explore_profiled ::
  "('s, 'st) store_ops \<Rightarrow> ('s, 'q) queue_ops \<Rightarrow> 's transition_provider \<Rightarrow> 'st \<Rightarrow> 'q
     \<Rightarrow> ('st, 'q) explored" where
  "explore_profiled so qo provider store queue =
     explore_serial_internal so qo provider store queue (Some (new_profile SerialMode 1))"

section \<open>The parallel explorers\<close>

record 's transition_batch =
  tb_generated :: u64
  tb_states :: "'s list"

text \<open>What is used of rayon: building a pool, and the parallel map of an installed pool.\<close>

record ('a, 's) rayon =
  pool_build :: "nat \<Rightarrow> io_error option"
  par_map :: "('a \<Rightarrow> 's transition_batch option) \<Rightarrow> 'a list \<Rightarrow> 's transition_batch list option"

definition state_batch :: "'s transition_provider \<Rightarrow> 's \<Rightarrow> 's transition_batch option" where
  "state_batch provider s =
     map_option (\<lambda>out. \<lparr>tb_generated = of_nat (length out), tb_states = map snd out\<rparr>)
       (transitions provider s)"

fun insert_batches ::
  "('s, 'st) store_ops \<Rightarrow> 's transition_batch list \<Rightarrow> 'st \<Rightarrow> 's list \<Rightarrow> u64 \<Rightarrow> u64 \<Rightarrow> profile
     \<Rightarrow> (io_error + u64 \<times> u64 \<times> profile) \<times> 'st \<times> 's list" where
  "insert_batches so [] store next_frontier states transn prof =
     (Inr (states, transn, prof), store, next_frontier)"
| "insert_batches so (b # bs) store next_frontier states transn prof =
     (case visit_all so vec_work_queue (tb_states b) store next_frontier states
             (map_option (add_generated (tb_generated b)) prof) of
        (Inl e, store', next_frontier') \<Rightarrow> (Inl e, store', next_frontier')
      | (Inr (states', prof'), store', next_frontier') \<Rightarrow>
          insert_batches so bs store' next_frontier' states' (sat_add transn (tb_generated b)) prof')"

partial_function (option) parallel_loop ::
  "('s, 's) rayon \<Rightarrow> ('s, 'st) store_ops \<Rightarrow> 's transition_provider
     \<Rightarrow> 'st \<Rightarrow> 's list \<Rightarrow> u64 \<Rightarrow> u64 \<Rightarrow> profile \<Rightarrow> ((io_error + stats \<times> profile) \<times> 'st) option" where
  "parallel_loop ray so provider store frontier states transn prof =
     (if frontier = [] then Some (Inr (stats_of states transn, prof), store)
      else
        (case par_map ray (state_batch provider) frontier of
           None \<Rightarrow> None
         | Some batches \<Rightarrow>
             (case insert_batches so batches store [] states transn
                     (map_option (\<lambda>p. add_expanded (of_nat (length frontier)) (add_level p)) prof) of
                (Inl e, store', next_frontier) \<Rightarrow> Some (Inl e, store')
              | (Inr (states', transn', prof'), store', next_frontier) \<Rightarrow>
                  parallel_loop ray so provider store' next_frontier states' transn' prof')))"

text \<open>The common beginning of the two parallel explorers: insert the initial state, build the
  pool, run the loop on the first frontier.\<close>

definition start_parallel ::
  "('a, 's) rayon \<Rightarrow> ('s, 'st) store_ops \<Rightarrow> 's transition_provider \<Rightarrow> 'st \<Rightarrow> nat \<Rightarrow> profile
     \<Rightarrow> ('st \<Rightarrow> 's list \<Rightarrow> u64 \<Rightarrow> u64 \<Rightarrow> profile \<Rightarrow> ((io_error + stats \<times> profile) \<times> 'st) option)
     \<Rightarrow> ((io_error + stats \<times> profile) \<times> 'st) option" where
  "start_parallel ray so provider store n prof loop =
     (case visit_all so vec_work_queue [initial_state provider] store [] 0 prof of
        (Inl e, store', frontier) \<Rightarrow> Some (Inl e, store')
      | (Inr (states, prof'), store', frontier) \<Rightarrow>
          (case pool_build ray (max n 1) of
             Some err \<Rightarrow> Some (Inl (IoError OtherIo (io_message err)), store')
           | None \<Rightarrow> loop store' frontier states 0 prof'))"

definition explore_parallel_nondeterministic_internal ::
  "('s, 's) rayon \<Rightarrow> ('s, 'st) store_ops \<Rightarrow> 's transition_provider \<Rightarrow> 'st \<Rightarrow> nat \<Rightarrow> profile
     \<Rightarrow> ((io_error + stats \<times> profile) \<times> 'st) option" where
  "explore_parallel_nondeterministic_internal ray so provider store n prof =
     start_parallel ray so provider store n prof (parallel_loop ray so provider)"

section \<open>The deterministic parallel explorer\<close>

text \<open>\<^verbatim>\<open>par_chunks(chunk_size)\<close> splits the frontier into chunks of \<open>chunk_size\<close> states.\<close>

function chunks :: "nat \<Rightarrow> 'a list \<Rightarrow> 'a list list" where
  "chunks n xs = (if xs = [] \<or> n = 0 then [] else take n xs # chunks n (drop n xs))"
  by pat_completeness auto

termination
  by (relation "measure (length \<circ> snd)") auto

declare chunks.simps [simp del]

text \<open>\<^verbatim>\<open>v.sort(); v.dedup()\<close>.\<close>

definition sort_dedup :: "'s::linorder list \<Rightarrow> 's list" where
  "sort_dedup xs = remdups_adj (sort xs)"

fun chunk_generate ::
  "'s transition_provider \<Rightarrow> 's list \<Rightarrow> u64 \<Rightarrow> 's list \<Rightarrow> (u64 \<times> 's list) option" where
  "chunk_generate provider [] generated states = Some (generated, states)"
| "chunk_generate provider (s # ss) generated states =
     (case transitions provider s of
        None \<Rightarrow> None
      | Some out \<Rightarrow>
          chunk_generate provider ss (sat_add generated (of_nat (length out)))
            (states @ map snd out))"

definition chunk_batch ::
  "'s::linorder transition_provider \<Rightarrow> 's list \<Rightarrow> 's transition_batch option" where
  "chunk_batch provider chunk =
     map_option (\<lambda>(generated, states). \<lparr>tb_generated = generated, tb_states = sort_dedup states\<rparr>)
       (chunk_generate provider chunk 0 [])"

definition chunk_size :: "nat \<Rightarrow> nat \<Rightarrow> nat" where
  "chunk_size len n = max ((len + n - 1) div n) 1"

partial_function (option) deterministic_loop ::
  "('s list, 's) rayon \<Rightarrow> ('s, 'st) store_ops \<Rightarrow> 's::linorder transition_provider \<Rightarrow> nat
     \<Rightarrow> 'st \<Rightarrow> 's list \<Rightarrow> u64 \<Rightarrow> u64 \<Rightarrow> profile \<Rightarrow> ((io_error + stats \<times> profile) \<times> 'st) option" where
  "deterministic_loop ray so provider n store frontier states transn prof =
     (if frontier = [] then Some (Inr (stats_of states transn, prof), store)
      else
        (case par_map ray (chunk_batch provider) (chunks (chunk_size (length frontier) n) frontier) of
           None \<Rightarrow> None
         | Some chs \<Rightarrow>
             (let prof1 = map_option (\<lambda>p. add_expanded (of_nat (length frontier)) (add_level p)) prof;
                  prof2 = map_option (fold (\<lambda>b. add_generated (tb_generated b)) chs) prof1;
                  transn' = fold (\<lambda>b t. sat_add t (tb_generated b)) chs transn;
                  candidates = sort_dedup (concat (map tb_states chs))
              in (case visit_all so vec_work_queue candidates store [] states prof2 of
                    (Inl e, store', next_frontier) \<Rightarrow> Some (Inl e, store')
                  | (Inr (states', prof'), store', next_frontier) \<Rightarrow>
                      deterministic_loop ray so provider n store' next_frontier states' transn' prof'))))"

definition explore_parallel_deterministic_internal ::
  "('s list, 's) rayon \<Rightarrow> ('s, 'st) store_ops \<Rightarrow> 's::linorder transition_provider \<Rightarrow> 'st \<Rightarrow> nat
     \<Rightarrow> u64 \<Rightarrow> profile \<Rightarrow> ((io_error + stats \<times> profile) \<times> 'st) option" where
  "explore_parallel_deterministic_internal ray so provider store n sd prof =
     start_parallel ray so provider store n prof (deterministic_loop ray so provider n)"

section \<open>The public entry points\<close>

definition drop_profile ::
  "((io_error + stats \<times> profile) \<times> 'st) option \<Rightarrow> ((io_error + stats) \<times> 'st) option" where
  "drop_profile = map_option (\<lambda>(r, st). (map_sum (\<lambda>e. e) fst r, st))"

definition explore_parallel ::
  "('s, 's) rayon \<Rightarrow> ('s, 'st) store_ops \<Rightarrow> 's transition_provider \<Rightarrow> 'st \<Rightarrow> nat
     \<Rightarrow> ((io_error + stats) \<times> 'st) option" where
  "explore_parallel ray so provider store n =
     drop_profile (explore_parallel_nondeterministic_internal ray so provider store (max n 1) None)"

definition explore_parallel_profiled ::
  "('s, 's) rayon \<Rightarrow> ('s, 'st) store_ops \<Rightarrow> 's transition_provider \<Rightarrow> 'st \<Rightarrow> nat
     \<Rightarrow> ((io_error + stats \<times> profile) \<times> 'st) option" where
  "explore_parallel_profiled ray so provider store n =
     explore_parallel_nondeterministic_internal ray so provider store (max n 1)
       (Some (new_profile ParallelMode (max n 1)))"

definition explore_parallel_with_options ::
  "('s, 's) rayon \<Rightarrow> ('s list, 's) rayon \<Rightarrow> ('s, 'st) store_ops \<Rightarrow> 's::linorder transition_provider
     \<Rightarrow> 'st \<Rightarrow> parallel_explore_options \<Rightarrow> ((io_error + stats) \<times> 'st) option" where
  "explore_parallel_with_options ray cray so provider store options =
     (if deterministic options
      then drop_profile (explore_parallel_deterministic_internal cray so provider store
             (max (workers options) 1) (seed options) None)
      else drop_profile (explore_parallel_nondeterministic_internal ray so provider store
             (max (workers options) 1) None))"

definition explore_parallel_profiled_with_options ::
  "('s, 's) rayon \<Rightarrow> ('s list, 's) rayon \<Rightarrow> ('s, 'st) store_ops \<Rightarrow> 's::linorder transition_provider
     \<Rightarrow> 'st \<Rightarrow> parallel_explore_options \<Rightarrow> ((io_error + stats \<times> profile) \<times> 'st) option" where
  "explore_parallel_profiled_with_options ray cray so provider store options =
     (let worker_count = max (workers options) 1;
          mode = (if deterministic options then ParallelDeterministicMode else ParallelMode);
          prof = Some (new_profile mode worker_count)
      in if deterministic options
         then explore_parallel_deterministic_internal cray so provider store worker_count
                (seed options) prof
         else explore_parallel_nondeterministic_internal ray so provider store worker_count prof)"

section \<open>The loop invariant\<close>

text \<open>A profile, present when \<open>w\<close>, counts \<open>n\<close> expanded states, \<open>d\<close> discovered ones and \<open>g\<close> transitions.\<close>

definition prof_counts :: "bool \<Rightarrow> nat \<Rightarrow> nat \<Rightarrow> nat \<Rightarrow> profile \<Rightarrow> bool" where
  "prof_counts w n d g prof \<longleftrightarrow>
     (w \<longleftrightarrow> prof \<noteq> None) \<and>
     (\<forall>p. prof = Some p \<longrightarrow> expanded_states p = sat_of_nat n \<and>
        discovered_states p = sat_of_nat d \<and> generated_transitions p = sat_of_nat g)"

lemma sat_add_1: "sat_add (sat_of_nat m) 1 = sat_of_nat (Suc m)"
  using sat_add_sat [of m 1] by (simp add: sat_of_nat_def)

lemma prof_counts_add:
  "prof_counts w n d g prof \<Longrightarrow> prof_counts w n (Suc d) g (map_option add_discovered prof)"
  "prof_counts w n d g prof \<Longrightarrow> k < 2 ^ 64 \<Longrightarrow>
     prof_counts w (n + k) d g (map_option (add_expanded (of_nat k)) prof)"
  "prof_counts w n d g prof \<Longrightarrow>
     prof_counts w n d (g + k) (map_option (add_generated (sat_of_nat k)) prof)"
  "prof_counts w n d g prof \<Longrightarrow> prof_counts w n d g (map_option add_level prof)"
  by (auto simp: prof_counts_def add_discovered_def add_expanded_def add_generated_def add_level_def
      sat_add_1 sat_of_nat_small)

definition explored_sum :: "'s trans_fun \<Rightarrow> 's set \<Rightarrow> 's list \<Rightarrow> nat" where
  "explored_sum tr V W = (\<Sum>s \<in> V - set W. out_degree tr s)"

definition explore_inv ::
  "bool \<Rightarrow> 's trans_fun \<Rightarrow> 's \<Rightarrow> 's set \<Rightarrow> 's list \<Rightarrow> u64 \<Rightarrow> u64 \<Rightarrow> profile \<Rightarrow> bool" where
  "explore_inv w tr s0 V W states transn prof \<longleftrightarrow>
     bfs_inv tr {s0} V W \<and> states = of_nat (card V) \<and> transn = sat_of_nat (explored_sum tr V W) \<and>
     prof_counts w (card V - length W) (card V) (explored_sum tr V W) prof"

text \<open>One round: the states \<open>B\<close> are expanded.\<close>

lemma explore_round:
  assumes inv: "explore_inv w tr s0 V (B @ W) states transn prof" and fin: "finite_lts tr s0"
    and new: "distinct new" "set new = (\<Union>s \<in> set B. succs tr s) - V"
    and prof: "prof_counts w (card V - length (B @ W) + length B) (card V + length new)
      (explored_sum tr V (B @ W) + (\<Sum>s \<leftarrow> B. out_degree tr s)) prof'"
  shows "explore_inv w tr s0 (V \<union> set new) (W @ new) (states + of_nat (length new))
    (sat_add transn (sat_of_nat (\<Sum>s \<leftarrow> B. out_degree tr s))) prof'"
proof -
  from inv have bfs: "bfs_inv tr {s0} V (B @ W)" by (simp add: explore_inv_def)
  have finV: "finite V" by (rule bfs_finite [OF bfs fin])
  have disj: "set new \<inter> V = {}" using new(2) by auto
  note sum = bfs_expand_sum [OF bfs disj finV]
  have card: "card (V \<union> set new) = card V + length new" by (rule bfs_card [OF finV new(1) disj])
  have "length (B @ W) \<le> card V"
    using bfs finV by (metis bfs_inv_def card_mono distinct_card)
  with inv prof card sum bfs_expand [OF bfs new] show ?thesis
    by (simp add: explore_inv_def explored_sum_def)
qed

lemma explore_done:
  assumes "explore_inv w tr s0 V [] states transn prof"
  shows "V = reachable tr s0" and "states = of_nat (card (reachable tr s0))"
    and "transn = sat_of_nat (\<Sum>s \<in> reachable tr s0. out_degree tr s)"
    and "prof_counts w (card (reachable tr s0)) (card (reachable tr s0))
      (\<Sum>s \<in> reachable tr s0. out_degree tr s) prof"
  using assms bfs_done [of tr "{s0}" V] by (auto simp: explore_inv_def explored_sum_def)

lemma bfs_length_bound:
  "bfs_inv tr {s0} V W \<Longrightarrow> finite_lts tr s0 \<Longrightarrow> sizes_fit tr s0 \<Longrightarrow> length W < 2 ^ 64"
  by (metis bfs_inv_def card_mono distinct_card finite_lts_def le_less_trans sizes_fit_def
      subset_trans)

lemma out_degree_fits: "sizes_fit tr s0 \<Longrightarrow> s \<in> reachable tr s0 \<Longrightarrow> out_degree tr s < 2 ^ 64"
  by (auto simp: sizes_fit_def out_degree_def split: option.split)

section \<open>The explorers on a store that does not fail\<close>

locale explorer = total_store so contents good ok + work_queue qo items
  for so :: "('s, 'st) store_ops" and contents :: "'st \<Rightarrow> 's set" and good :: "'st \<Rightarrow> bool"
    and ok :: "'s \<Rightarrow> bool" and qo :: "('s, 'q) queue_ops" and items :: "'q \<Rightarrow> 's list"
begin

lemma visit_all_total:
  assumes "good store" and "\<forall>s \<in> set ss. ok s" and "prof_counts w n d g prof"
  shows "\<exists>store' queue' prof'.
    visit_all so qo ss store queue states prof =
      (Inr (states + of_nat (length (fresh (contents store) ss)), prof'), store', queue') \<and>
    good store' \<and> contents store' = contents store \<union> set ss \<and>
    items queue' = items queue @ fresh (contents store) ss \<and>
    prof_counts w n (d + length (fresh (contents store) ss)) g prof'"
  using assms
proof (induction ss arbitrary: store queue states prof d)
  case (Cons s ss)
  from Cons.prems insert_total [of store s] obtain store1 where
    ins: "store_insert so s store = (Inr (s \<notin> contents store), store1)"
    and st1: "good store1" "contents store1 = insert s (contents store)" by auto
  show ?case
  proof (cases "s \<in> contents store")
    case True
    with Cons.IH [OF st1(1) _ Cons.prems(3), of queue states] Cons.prems(2) st1(2) ins
    show ?thesis by (simp add: insert_absorb)
  next
    case False
    with Cons.IH [OF st1(1) _ prof_counts_add(1) [OF Cons.prems(3)], of "queue_push qo s queue" "states + 1"]
      Cons.prems(2) st1(2) ins
    show ?thesis by (auto simp: push_items algebra_simps)
  qed
qed simp

lemma serial_loop_total:
  assumes fin: "finite_lts (transitions provider) s0" and fit: "sizes_fit (transitions provider) s0"
    and oks: "\<forall>s \<in> reachable (transitions provider) s0. ok s"
  shows "good store \<Longrightarrow> explore_inv w (transitions provider) s0 (contents store) (items queue) states transn prof \<Longrightarrow>
    \<exists>store' queue' states' transn' prof'.
      serial_loop so qo provider store queue states transn prof =
        Some (Inr (stats_of states' transn', prof'), store', queue') \<and> good store' \<and>
      explore_inv w (transitions provider) s0 (contents store') [] states' transn' prof'"
proof (induction "bfs_measure (transitions provider) {s0} (contents store) (items queue)"
    arbitrary: store queue states transn prof rule: less_induct)
  case less
  let ?tr = "transitions provider"
  note good = less.prems(1) and inv = less.prems(2)
  from inv have bfs: "bfs_inv ?tr {s0} (contents store) (items queue)" by (simp add: explore_inv_def)
  show ?case
  proof (cases "queue_pop qo queue")
    case None
    then have "items queue = []" using pop_None by blast
    with None good inv show ?thesis by (subst serial_loop.simps) auto
  next
    case (Some sq)
    then obtain s queue1 where pop: "queue_pop qo queue = Some (s, queue1)" by (cases sq) auto
    then have items: "items queue = [s] @ items queue1" by (simp add: pop_Some)
    with bfs have s: "s \<in> reachable ?tr s0" by (auto simp: bfs_inv_def)
    with fin obtain out where out: "?tr s = Some out" by (auto simp: finite_lts_def)
    with fit s have len: "length out < 2 ^ 64" by (simp add: sizes_fit_def)
    let ?new = "fresh (contents store) (map snd out)"
    let ?prof = "map_option (\<lambda>p. add_generated (of_nat (length out)) (add_expanded 1 p)) prof"
    have pc: "prof_counts w (card (contents store) - length (items queue) + 1) (card (contents store))
        (explored_sum ?tr (contents store) (items queue) + length out) ?prof"
      using prof_counts_add(3) [OF prof_counts_add(2), of _ _ _ _ prof 1 "length out"] inv len
      by (simp add: explore_inv_def option.map_comp comp_def sat_of_nat_small)
    have okd: "\<forall>t \<in> set (map snd out). ok t"
      using oks reachable_step [OF s out] by auto
    from visit_all_total [OF good okd pc, of queue1 states] obtain store' queue' prof' where
      v: "visit_all so qo (map snd out) store queue1 states ?prof =
            (Inr (states + of_nat (length ?new), prof'), store', queue')" and
      good': "good store'" and cont: "contents store' = contents store \<union> set ?new" and
      items': "items queue' = items queue1 @ ?new" and
      prof': "prof_counts w (card (contents store) - length (items queue) + 1)
        (card (contents store) + length ?new)
        (explored_sum ?tr (contents store) (items queue) + length out) prof'"
      by (auto simp: set_fresh)
    have new: "distinct ?new" "set ?new = (\<Union>s \<in> set [s]. succs ?tr s) - contents store"
      by (auto simp: distinct_fresh set_fresh succs_def out)
    have deg: "(\<Sum>s \<leftarrow> [s]. out_degree ?tr s) = length out" by (simp add: out_degree_def out)
    have inv': "explore_inv w ?tr s0 (contents store') (items queue') (states + of_nat (length ?new))
        (sat_add transn (of_nat (length out))) prof'"
      using explore_round [OF _ fin new, of w "items queue1" states transn prof prof'] inv items
        prof' deg len cont items' by (simp add: sat_of_nat_small)
    have "bfs_measure ?tr {s0} (contents store') (items queue') < bfs_measure ?tr {s0} (contents store) (items queue)"
      using bfs_expand_measure [OF _ new] bfs fin items cont items' by (simp add: finite_lts_def)
    from less.hyps [OF this good' inv'] pop out v show ?thesis
      by (subst serial_loop.simps) simp
  qed
qed

lemma explore_serial_total:
  assumes fin: "finite_lts (transitions provider) (initial_state provider)"
    and fit: "sizes_fit (transitions provider) (initial_state provider)"
    and oks: "\<forall>s \<in> reachable (transitions provider) (initial_state provider). ok s"
    and start: "good store" "contents store = {}" "items queue = []"
    and prof: "prof_counts w 0 0 0 prof"
  shows "\<exists>store' queue' states' transn' prof'.
      explore_serial_internal so qo provider store queue prof =
        Some (Inr (stats_of states' transn', prof'), store', queue') \<and> good store' \<and>
      explore_inv w (transitions provider) (initial_state provider) (contents store') [] states' transn' prof'"
proof -
  let ?s0 = "initial_state provider"
  from visit_all_total [OF start(1) _ prof, of "[?s0]" queue 0] oks start(2,3)
  obtain store1 queue1 prof1 where
    v: "visit_all so qo [?s0] store queue 0 prof = (Inr (1, prof1), store1, queue1)" and
    st1: "good store1" "contents store1 = {?s0}" "items queue1 = [?s0]" and
    prof1: "prof_counts w 0 1 0 prof1" by auto
  have "explore_inv w (transitions provider) ?s0 (contents store1) (items queue1) 1 0 prof1"
    using prof1 bfs_init [of "[?s0]"] by (simp add: explore_inv_def st1 explored_sum_def)
  from serial_loop_total [OF fin fit oks st1(1) this] v show ?thesis
    by (auto simp: explore_serial_internal_def)
qed

end

interpretation serial_in_memory: explorer in_memory_store "\<lambda>S. S" finite "\<lambda>_. True"
  vec_work_queue "\<lambda>q. q" ..

section \<open>The parallel explorers\<close>

text \<open>Expanding a frontier in batches amounts to visiting the concatenation of their states.\<close>

fun batch_states :: "'s transition_batch list \<Rightarrow> 's list" where
  "batch_states [] = []"
| "batch_states (b # bs) = tb_states b @ batch_states bs"

lemma batch_states_concat: "batch_states bs = concat (map tb_states bs)"
  by (induction bs) auto

lemma map_opt_batches:
  assumes "map_opt (state_batch provider) ss = Some batches"
  shows "set (batch_states batches) = (\<Union>s \<in> set ss. succs (transitions provider) s)"
    and "map tb_generated batches = map (\<lambda>s. of_nat (out_degree (transitions provider) s)) ss"
  using assms
proof (induction ss arbitrary: batches)
  case (Cons s ss)
  case 1
  with Cons(1) show ?case
    by (force simp: state_batch_def succs_def split: option.splits)
next
  case (Cons s ss)
  case 2
  with Cons(2) show ?case
    by (auto simp: state_batch_def out_degree_def split: option.splits)
qed simp_all

lemma map_opt_batches_total:
  "\<forall>s \<in> set ss. transitions provider s \<noteq> None \<Longrightarrow> \<exists>bs. map_opt (state_batch provider) ss = Some bs"
  by (rule map_opt_total) (auto simp: state_batch_def)

sublocale total_store \<subseteq> frontier: explorer ops contents good ok vec_work_queue "\<lambda>q. q"
  ..

context total_store
begin

lemma insert_batches_total:
  assumes "good store" and "\<forall>s \<in> set (batch_states bs). ok s" and "prof_counts w n d g prof"
    and "map tb_generated bs = map sat_of_nat gs"
  shows "\<exists>store' prof'.
    insert_batches ops bs store front states (sat_of_nat k) prof =
      (Inr (states + of_nat (length (fresh (contents store) (batch_states bs))),
            sat_of_nat (k + sum_list gs), prof'),
       store', front @ fresh (contents store) (batch_states bs)) \<and>
    good store' \<and> contents store' = contents store \<union> set (batch_states bs) \<and>
    prof_counts w n (d + length (fresh (contents store) (batch_states bs))) (g + sum_list gs) prof'"
  using assms
proof (induction bs arbitrary: store front states k prof d g gs)
  case (Cons b bs)
  from Cons.prems(4) obtain j js where gs: "gs = j # js" "tb_generated b = sat_of_nat j"
    "map tb_generated bs = map sat_of_nat js" by (cases gs) auto
  let ?new = "fresh (contents store) (tb_states b)"
  from frontier.visit_all_total [OF Cons.prems(1) _ prof_counts_add(3) [OF Cons.prems(3), of j],
      of "tb_states b" front states] Cons.prems(2)
  obtain store1 prof1 where
    v: "visit_all ops vec_work_queue (tb_states b) store front states
          (map_option (add_generated (tb_generated b)) prof) =
        (Inr (states + of_nat (length ?new), prof1), store1, front @ ?new)"
    and st1: "good store1" "contents store1 = contents store \<union> set (tb_states b)"
    and prof1: "prof_counts w n (d + length ?new) (g + j) prof1"
    by (auto simp: gs(2))
  from Cons.IH [OF st1(1) _ prof1 gs(3), of "front @ ?new" "states + of_nat (length ?new)" "k + j"]
    Cons.prems(2) st1(2) v
  show ?case by (auto simp: gs fresh_append algebra_simps Un_assoc)
qed simp

lemma parallel_loop_total:
  assumes fin: "finite_lts (transitions provider) s0" and fit: "sizes_fit (transitions provider) s0"
    and oks: "\<forall>s \<in> reachable (transitions provider) s0. ok s"
    and pool: "par_map ray = map_opt"
  shows "good store \<Longrightarrow> explore_inv w (transitions provider) s0 (contents store) front states transn prof \<Longrightarrow>
    \<exists>store' states' transn' prof'.
      parallel_loop ray ops provider store front states transn prof =
        Some (Inr (stats_of states' transn', prof'), store') \<and> good store' \<and>
      explore_inv w (transitions provider) s0 (contents store') [] states' transn' prof'"
proof (induction "bfs_measure (transitions provider) {s0} (contents store) front"
    arbitrary: store front states transn prof rule: less_induct)
  case less
  let ?tr = "transitions provider"
  note good = less.prems(1) and inv = less.prems(2)
  from inv have bfs: "bfs_inv ?tr {s0} (contents store) front" by (simp add: explore_inv_def)
  show ?case
  proof (cases "front = []")
    case True
    with good inv show ?thesis by (subst parallel_loop.simps) auto
  next
    case False
    have reach: "s \<in> reachable ?tr s0" if "s \<in> set front" for s
      using bfs that by (rule bfs_work_reachable)
    with fin obtain bs where bs: "map_opt (state_batch provider) front = Some bs"
      using map_opt_batches_total [of front provider] by (auto simp: finite_lts_def)
    note states = map_opt_batches(1) [OF bs]
    have gen: "map tb_generated bs = map sat_of_nat (map (out_degree ?tr) front)"
      using map_opt_batches(2) [OF bs] reach out_degree_fits [OF fit] by (auto simp: sat_of_nat_small)
    have oks': "\<forall>s \<in> set (batch_states bs). ok s"
      using oks reach reachable_succ by (fastforce simp: states)
    let ?new = "fresh (contents store) (batch_states bs)"
    let ?sum = "\<Sum>s \<leftarrow> front. out_degree ?tr s"
    let ?prof = "map_option (\<lambda>p. add_expanded (of_nat (length front)) (add_level p)) prof"
    have "prof_counts w (card (contents store) - length front + length front) (card (contents store))
        (explored_sum ?tr (contents store) front) ?prof"
      using prof_counts_add(2) [OF prof_counts_add(4), of _ _ _ _ prof "length front"] inv
        bfs_length_bound [OF bfs fin fit]
      by (simp add: explore_inv_def option.map_comp comp_def)
    from insert_batches_total [OF good oks' this gen, of "[]" states "explored_sum ?tr (contents store) front"]
    obtain store' prof' where
      i: "insert_batches ops bs store [] states (sat_of_nat (explored_sum ?tr (contents store) front)) ?prof =
        (Inr (states + of_nat (length ?new),
              sat_of_nat (explored_sum ?tr (contents store) front + ?sum), prof'), store', ?new)"
      and good': "good store'" and cont: "contents store' = contents store \<union> set ?new"
      and prof': "prof_counts w (card (contents store) - length front + length front)
        (card (contents store) + length ?new)
        (explored_sum ?tr (contents store) front + ?sum) prof'"
      by (auto simp: set_fresh)
    have tr: "transn = sat_of_nat (explored_sum ?tr (contents store) front)"
      using inv by (simp add: explore_inv_def)
    have new: "distinct ?new" "set ?new = (\<Union>s \<in> set front. succs ?tr s) - contents store"
      by (auto simp: distinct_fresh set_fresh states)
    have inv': "explore_inv w ?tr s0 (contents store') ?new (states + of_nat (length ?new))
        (sat_of_nat (explored_sum ?tr (contents store) front + ?sum)) prof'"
      using explore_round [OF _ fin new, of w "[]" states transn prof prof'] inv prof' cont
      by (simp add: tr)
    have "bfs_measure ?tr {s0} (contents store') ?new < bfs_measure ?tr {s0} (contents store) front"
      using bfs_expand_measure [OF _ new False, of "{s0}" "[]"] bfs fin cont by (simp add: finite_lts_def)
    from less.hyps [OF this good' inv'] False bs i pool tr show ?thesis
      by (subst parallel_loop.simps) simp
  qed
qed

end

section \<open>The deterministic parallel explorer\<close>

lemma concat_chunks: "0 < n \<Longrightarrow> concat (chunks n xs) = xs"
proof (induction n xs rule: chunks.induct)
  case (1 n xs)
  then show ?case by (subst chunks.simps) auto
qed

lemma set_sort_dedup [simp]: "set (sort_dedup xs) = set xs"
  by (simp add: sort_dedup_def)

lemma chunk_generate_total:
  assumes "\<forall>s \<in> set ss. transitions provider s \<noteq> None"
    and "\<forall>s \<in> set ss. out_degree (transitions provider) s < 2 ^ 64"
  shows "\<exists>states. chunk_generate provider ss (sat_of_nat k) acc =
      Some (sat_of_nat (k + (\<Sum>s \<leftarrow> ss. out_degree (transitions provider) s)), acc @ states) \<and>
    set states = (\<Union>s \<in> set ss. succs (transitions provider) s)"
  using assms
proof (induction ss arbitrary: k acc)
  case (Cons s ss)
  then obtain out where out: "transitions provider s = Some out" by auto
  with Cons.prems have "length out < 2 ^ 64" by (simp add: out_degree_def)
  with Cons.IH [of "k + length out" "acc @ map snd out"] Cons.prems out show ?case
    by (auto simp: sat_of_nat_small out_degree_def succs_def algebra_simps)
qed simp

lemma chunk_batches_total:
  assumes "\<forall>s \<in> set (concat css). transitions provider s \<noteq> None"
    and "\<forall>s \<in> set (concat css). out_degree (transitions provider) s < 2 ^ 64"
  shows "\<exists>chs. map_opt (chunk_batch provider) css = Some chs \<and>
    set (concat (map tb_states chs)) = (\<Union>s \<in> set (concat css). succs (transitions provider) s) \<and>
    map tb_generated chs =
      map sat_of_nat (map (\<lambda>c. \<Sum>s \<leftarrow> c. out_degree (transitions provider) s) css)"
  using assms
proof (induction css)
  case (Cons c css)
  have "\<forall>s \<in> set (concat css). transitions provider s \<noteq> None"
    "\<forall>s \<in> set (concat css). out_degree (transitions provider) s < 2 ^ 64"
    using Cons.prems by auto
  from Cons.IH [OF this] obtain chs where "map_opt (chunk_batch provider) css = Some chs"
    "set (concat (map tb_states chs)) = (\<Union>s \<in> set (concat css). succs (transitions provider) s)"
    "map tb_generated chs =
      map sat_of_nat (map (\<lambda>c. \<Sum>s \<leftarrow> c. out_degree (transitions provider) s) css)" by blast
  moreover from chunk_generate_total [of c provider 0 "[]"] Cons.prems obtain states where
    "chunk_generate provider c 0 [] =
       Some (sat_of_nat (\<Sum>s \<leftarrow> c. out_degree (transitions provider) s), states)"
    "set states = (\<Union>s \<in> set c. succs (transitions provider) s)" by auto
  then have "chunk_batch provider c = Some \<lparr>tb_generated = sat_of_nat
        (\<Sum>s \<leftarrow> c. out_degree (transitions provider) s), tb_states = sort_dedup states\<rparr>"
    and "set (sort_dedup states) = (\<Union>s \<in> set c. succs (transitions provider) s)"
    by (simp_all add: chunk_batch_def)
  ultimately show ?case by simp
qed simp

lemma fold_generated:
  "map tb_generated chs = map sat_of_nat gs \<Longrightarrow>
     fold (\<lambda>b t. sat_add t (tb_generated b)) chs (sat_of_nat k) = sat_of_nat (k + sum_list gs)"
  by (induction chs arbitrary: gs k) (auto simp: Cons_eq_map_conv algebra_simps)

lemma prof_counts_fold:
  "map tb_generated chs = map sat_of_nat gs \<Longrightarrow> prof_counts w n d g prof \<Longrightarrow>
     prof_counts w n d (g + sum_list gs) (map_option (fold (\<lambda>b. add_generated (tb_generated b)) chs) prof)"
proof (induction chs arbitrary: gs g prof)
  case (Cons c chs)
  then obtain j js where "gs = j # js" "tb_generated c = sat_of_nat j"
    "map tb_generated chs = map sat_of_nat js" by (cases gs) auto
  with Cons.IH [OF this(3) prof_counts_add(3) [OF Cons.prems(2), of j]] show ?case
    by (simp add: option.map_comp comp_def algebra_simps)
qed (simp add: option.map_id)

lemma sum_list_concat: "sum_list (map (\<lambda>c. sum_list (map f c)) css) = sum_list (map f (concat css))"
  for f :: "'a \<Rightarrow> nat"
  by (induction css) auto

text \<open>The deterministic explorer sorts states, so their type is ordered.\<close>

locale ordered_store = total_store ops contents good ok
  for ops :: "('s::linorder, 'st) store_ops" and contents good ok
begin

lemma deterministic_loop_total:
  fixes provider :: "'s transition_provider"
  assumes fin: "finite_lts (transitions provider) s0" and fit: "sizes_fit (transitions provider) s0"
    and oks: "\<forall>s \<in> reachable (transitions provider) s0. ok s"
    and pool: "par_map ray = map_opt"
  shows "good store \<Longrightarrow> explore_inv w (transitions provider) s0 (contents store)
      front states transn prof \<Longrightarrow>
    \<exists>store' states' transn' prof'.
      deterministic_loop ray ops provider n store front states transn prof =
        Some (Inr (stats_of states' transn', prof'), store') \<and> good store' \<and>
      explore_inv w (transitions provider) s0 (contents store') [] states' transn' prof'"
proof (induction "bfs_measure (transitions provider) {s0} (contents store) front"
    arbitrary: store front states transn prof rule: less_induct)
  case less
  let ?tr = "transitions provider"
  note good = less.prems(1) and inv = less.prems(2)
  from inv have bfs: "bfs_inv ?tr {s0} (contents store) front" by (simp add: explore_inv_def)
  show ?case
  proof (cases "front = []")
    case True
    with good inv show ?thesis by (subst deterministic_loop.simps) auto
  next
    case False
    have reach: "s \<in> reachable ?tr s0" if "s \<in> set front" for s
      using bfs that by (rule bfs_work_reachable)
    let ?css = "chunks (chunk_size (length front) n) front"
    have css: "concat ?css = front" by (rule concat_chunks) (simp add: chunk_size_def)
    have "\<forall>s \<in> set front. ?tr s \<noteq> None \<and> out_degree ?tr s < 2 ^ 64"
      using reach fin out_degree_fits [OF fit] by (simp add: finite_lts_def)
    with chunk_batches_total [of ?css provider] obtain chs where
      chs: "map_opt (chunk_batch provider) ?css = Some chs" and
      cands: "set (concat (map tb_states chs)) = (\<Union>s \<in> set front. succs ?tr s)" and
      gen: "map tb_generated chs = map sat_of_nat (map (\<lambda>c. \<Sum>s \<leftarrow> c. out_degree ?tr s) ?css)"
      unfolding css by auto
    let ?cands = "sort_dedup (concat (map tb_states chs))"
    let ?new = "fresh (contents store) ?cands" and ?sum = "\<Sum>s \<leftarrow> front. out_degree ?tr s"
    let ?prof = "map_option (fold (\<lambda>b. add_generated (tb_generated b)) chs)
      (map_option (\<lambda>p. add_expanded (of_nat (length front)) (add_level p)) prof)"
    have sum: "sum_list (map (\<lambda>c. \<Sum>s \<leftarrow> c. out_degree ?tr s) ?css) = ?sum"
      by (simp add: sum_list_concat css)
    have pc: "prof_counts w (card (contents store) - length front + length front) (card (contents store))
        (explored_sum ?tr (contents store) front + ?sum) ?prof"
      using prof_counts_fold [OF gen prof_counts_add(2) [OF prof_counts_add(4)], of _ _ _ _ prof "length front"]
        inv bfs_length_bound [OF bfs fin fit]
      by (simp add: explore_inv_def option.map_comp comp_def sum)
    have okd: "\<forall>s \<in> set ?cands. ok s"
    proof
      fix t assume "t \<in> set ?cands"
      with cands obtain s where "s \<in> set front" "t \<in> succs ?tr s" by auto
      with oks reach reachable_succ show "ok t" by metis
    qed
    from frontier.visit_all_total [OF good okd pc, of "[]" states] obtain store' prof' where
      v: "visit_all ops vec_work_queue ?cands store [] states ?prof =
        (Inr (states + of_nat (length ?new), prof'), store', ?new)"
      and good': "good store'" and cont: "contents store' = contents store \<union> set ?new"
      and prof': "prof_counts w (card (contents store) - length front + length front)
        (card (contents store) + length ?new)
        (explored_sum ?tr (contents store) front + ?sum) prof'"
      by (auto simp: set_fresh)
    have tr: "fold (\<lambda>b t. sat_add t (tb_generated b)) chs transn =
        sat_of_nat (explored_sum ?tr (contents store) front + ?sum)"
      using inv fold_generated [OF gen] by (simp add: explore_inv_def sum)
    have new: "distinct ?new" "set ?new = (\<Union>s \<in> set front. succs ?tr s) - contents store"
      using cands by (auto simp: distinct_fresh set_fresh)
    have inv': "explore_inv w ?tr s0 (contents store') ?new (states + of_nat (length ?new))
        (sat_of_nat (explored_sum ?tr (contents store) front + ?sum)) prof'"
      using explore_round [OF _ fin new, of w "[]" states transn prof prof'] inv prof' cont
      by (simp add: explore_inv_def)
    have "bfs_measure ?tr {s0} (contents store') ?new < bfs_measure ?tr {s0} (contents store) front"
      using bfs_expand_measure [OF _ new False, of "{s0}" "[]"] bfs fin cont by (simp add: finite_lts_def)
    from less.hyps [OF this good' inv'] False chs v pool tr show ?thesis
      by (subst deterministic_loop.simps) (simp add: Let_def)
  qed
qed

end

interpretation in_memory_ordered: ordered_store in_memory_store "\<lambda>S. S" finite "\<lambda>_. True"
  ..

section \<open>The exactness of the entry points\<close>

text \<open>The hypotheses of an exact run, and what it yields: the number of reachable states, the
  number of their transitions (saturating), and a store that holds exactly the reachable states.\<close>

definition explorable :: "'s transition_provider \<Rightarrow> bool" where
  "explorable provider \<longleftrightarrow> finite_lts (transitions provider) (initial_state provider) \<and>
     sizes_fit (transitions provider) (initial_state provider)"

definition reached :: "'s transition_provider \<Rightarrow> 's set" where
  "reached provider = reachable (transitions provider) (initial_state provider)"

definition exact_stats :: "'s transition_provider \<Rightarrow> stats" where
  "exact_stats provider =
     stats_of (of_nat (card (reached provider)))
       (sat_of_nat (\<Sum>s \<in> reached provider. out_degree (transitions provider) s))"

lemma explore_inv_result:
  assumes "explore_inv w (transitions provider) (initial_state provider) V [] states transn prof"
  shows "V = reached provider \<and> stats_of states transn = exact_stats provider \<and>
    prof_counts w (card (reached provider)) (card (reached provider))
      (\<Sum>s \<in> reached provider. out_degree (transitions provider) s) prof"
  using explore_done [OF assms] by (simp add: exact_stats_def reached_def)

context explorer
begin

lemma explore_exact:
  assumes ex: "explorable provider" and oks: "\<forall>s \<in> reached provider. ok s"
    and start: "good store" "contents store = {}" "items queue = []" and prof: "prof_counts w 0 0 0 prof"
  shows "\<exists>store' queue' prof'. explore_serial_internal so qo provider store queue prof =
      Some (Inr (exact_stats provider, prof'), store', queue') \<and> good store' \<and> contents store' = reached provider \<and>
    prof_counts w (card (reached provider)) (card (reached provider))
      (\<Sum>s \<in> reached provider. out_degree (transitions provider) s) prof'"
  using explore_serial_total [OF _ _ oks [unfolded reached_def] start prof] ex
  by (auto simp: explorable_def dest!: explore_inv_result)

end

context total_store
begin

lemma start_parallel_exact:
  assumes loop: "\<And>store front states transn prof. good store \<Longrightarrow>
      explore_inv w (transitions provider) (initial_state provider) (contents store) front states transn prof \<Longrightarrow>
      \<exists>store' states' transn' prof'.
        loop store front states transn prof = Some (Inr (stats_of states' transn', prof'), store') \<and>
        good store' \<and>
        explore_inv w (transitions provider) (initial_state provider) (contents store') [] states' transn' prof'"
    and oks: "\<forall>s \<in> reached provider. ok s"
    and start: "good store" "contents store = {}" and prof: "prof_counts w 0 0 0 prof"
    and pool: "pool_build ray (max n 1) = None"
  shows "\<exists>store' prof'. start_parallel ray ops provider store n prof loop =
      Some (Inr (exact_stats provider, prof'), store') \<and> contents store' = reached provider \<and>
    prof_counts w (card (reached provider)) (card (reached provider))
      (\<Sum>s \<in> reached provider. out_degree (transitions provider) s) prof'"
proof -
  let ?s0 = "initial_state provider"
  have "\<forall>s \<in> set [?s0]. ok s" using oks by (simp add: reached_def)
  from frontier.visit_all_total [OF start(1) this prof, of "[]" 0] start(2) obtain store1 prof1 where
    v: "visit_all ops vec_work_queue [?s0] store [] 0 prof = (Inr (1, prof1), store1, [?s0])" and
    st1: "good store1" "contents store1 = {?s0}" and prof1: "prof_counts w 0 1 0 prof1" by auto
  have "explore_inv w (transitions provider) ?s0 (contents store1) [?s0] 1 0 prof1"
    using prof1 bfs_init [of "[?s0]"] by (simp add: explore_inv_def st1 explored_sum_def)
  from loop [OF st1(1) this] v pool show ?thesis
    by (auto simp: start_parallel_def dest!: explore_inv_result)
qed

lemma parallel_exact:
  assumes ex: "explorable provider" and oks: "\<forall>s \<in> reached provider. ok s"
    and start: "good store" "contents store = {}" and prof: "prof_counts w 0 0 0 prof"
    and pool: "pool_build ray (max n 1) = None" "par_map ray = map_opt"
  shows "\<exists>store' prof'. explore_parallel_nondeterministic_internal ray ops provider store n prof =
      Some (Inr (exact_stats provider, prof'), store') \<and> contents store' = reached provider \<and>
    prof_counts w (card (reached provider)) (card (reached provider))
      (\<Sum>s \<in> reached provider. out_degree (transitions provider) s) prof'"
  unfolding explore_parallel_nondeterministic_internal_def
  by (rule start_parallel_exact [OF _ oks start prof pool(1)], rule parallel_loop_total)
    (use ex oks pool(2) in \<open>simp_all add: explorable_def reached_def\<close>)

end

context ordered_store
begin

lemma deterministic_exact:
  fixes provider :: "'s transition_provider"
  assumes ex: "explorable provider" and oks: "\<forall>s \<in> reached provider. ok s"
    and start: "good store" "contents store = {}" and prof: "prof_counts w 0 0 0 prof"
    and pool: "pool_build ray (max n 1) = None" "par_map ray = map_opt"
  shows "\<exists>store' prof'. explore_parallel_deterministic_internal ray ops provider store n sd prof =
      Some (Inr (exact_stats provider, prof'), store') \<and> contents store' = reached provider \<and>
    prof_counts w (card (reached provider)) (card (reached provider))
      (\<Sum>s \<in> reached provider. out_degree (transitions provider) s) prof'"
  unfolding explore_parallel_deterministic_internal_def
  by (rule start_parallel_exact [OF _ oks start prof pool(1)], rule deterministic_loop_total)
    (use ex oks pool(2) in \<open>simp_all add: explorable_def reached_def\<close>)

end

lemma new_profile_counts: "prof_counts True 0 0 0 (Some (new_profile md n))" "prof_counts False 0 0 0 None"
  by (simp_all add: prof_counts_def new_profile_def)

section \<open>Properties\<close>

text \<open>A system is explorable when some finite set of states contains the initial one and is closed
  under the transitions.\<close>

lemma explorableI:
  assumes "finite V" and "card V < 2 ^ 64" and "initial_state provider \<in> V"
    and closed: "\<And>s. s \<in> V \<Longrightarrow> \<exists>out. transitions provider s = Some out \<and> snd ` set out \<subseteq> V \<and>
      length out < 2 ^ 64"
  shows "explorable provider"
proof -
  have "succs (transitions provider) s \<subseteq> V" if "s \<in> V" for s
    using closed [OF that] by (auto simp: succs_def)
  with assms(3) have sub: "reachable (transitions provider) (initial_state provider) \<subseteq> V"
    by (intro reachable_closed) auto
  with assms(1,2) have "finite (reachable (transitions provider) (initial_state provider))"
    and "card (reachable (transitions provider) (initial_state provider)) < 2 ^ 64"
    by (auto intro: finite_subset le_less_trans [OF card_mono])
  with sub closed show ?thesis
    by (fastforce simp: explorable_def finite_lts_def sizes_fit_def)
qed

text \<open>The transition system of \<open>demo_module\<close>: it loops through \<open>a?x\<close> and \<open>a!x\<close>, both hidden.\<close>

definition demo_lts :: "cspm_state transition_provider" where
  "demo_lts = provider_of demo_provider"

definition demo_states :: "cspm_state list" where
  "demo_states = [SHide [''a''] (SExpr 6 []), SHide [''a''] (SExpr 3 [(''x'', 0)]),
     SHide [''a''] (SExpr 3 [(''x'', 1)]), SHide [''a''] (SExpr 4 [(''x'', 0)]),
     SHide [''a''] (SExpr 4 [])]"

lemma demo_lts_closed:
  "list_all (\<lambda>s. case transitions demo_lts s of None \<Rightarrow> False
     | Some out \<Rightarrow> list_all (\<lambda>(l, t). t \<in> set demo_states) out \<and> length out < 10) demo_states"
  by code_simp

lemma demo_lts_initial: "initial_state demo_lts \<in> set demo_states"
  by code_simp

lemma demo_lts_explorable: "explorable demo_lts"
proof (rule explorableI [of "set demo_states"])
  show "initial_state demo_lts \<in> set demo_states" by (fact demo_lts_initial)
  have "card (set demo_states) \<le> length demo_states" by (rule card_length)
  then show "card (set demo_states) < 2 ^ 64" by (simp add: demo_states_def)
  show "\<exists>out. transitions demo_lts s = Some out \<and>
      snd ` set out \<subseteq> set demo_states \<and> length out < 2 ^ 64" if "s \<in> set demo_states" for s
    using demo_lts_closed that by (fastforce simp: list_all_iff split: option.splits)
qed simp

text \<open>C4: the serial explorer on an in-memory store ends on every finite transition system; it
  returns the number of reachable states and of their transitions, and leaves exactly the reachable states in
  the store.\<close>

theorem explore_serial_correct:
  assumes "explorable provider"
  shows "\<exists>queue. explore in_memory_store vec_work_queue provider {} [] =
    Some (Inr (exact_stats provider), reached provider, queue)"
  using serial_in_memory.explore_exact [OF assms _ _ _ _ new_profile_counts(2), of "{}" "[]"]
  by (auto simp: explore_def)

theorem explore_serial_correct_witness:
  "\<exists>queue. explore in_memory_store vec_work_queue demo_lts {} [] =
    Some (Inr (exact_stats demo_lts), reached demo_lts, queue)"
  by (rule explore_serial_correct [OF demo_lts_explorable])

text \<open>C5: the parallel explorers, deterministic or not, with any number of workers and any seed,
  return the statistics and the store of the serial one, provided the pool can be built and its map keeps the
  order.\<close>

theorem explore_parallel_correct:
  assumes "explorable provider"
    and "pool_build ray = (\<lambda>n. None)" and "par_map ray = map_opt"
    and "pool_build cray = (\<lambda>n. None)" and "par_map cray = map_opt"
  shows "explore_parallel_with_options ray cray in_memory_store provider {} options =
    Some (Inr (exact_stats provider), reached provider)"
proof (cases "deterministic options")
  case True
  with in_memory_ordered.deterministic_exact [OF assms(1) _ _ _ new_profile_counts(2) _ assms(5),
      of "{}" "max (workers options) 1" "seed options"] assms(4)
  show ?thesis by (auto simp: explore_parallel_with_options_def drop_profile_def)
next
  case False
  with in_memory.parallel_exact [OF assms(1) _ _ _ new_profile_counts(2) _ assms(3),
      of "{}" "max (workers options) 1"] assms(2)
  show ?thesis by (auto simp: explore_parallel_with_options_def drop_profile_def)
qed

theorem explore_parallel_correct_witness:
  "explore_parallel_with_options \<lparr>pool_build = \<lambda>n. None, par_map = map_opt\<rparr>
      \<lparr>pool_build = \<lambda>n. None, par_map = map_opt\<rparr> in_memory_store demo_lts {}
      \<lparr>workers = 4, deterministic = True, seed = 42\<rparr> =
    Some (Inr (exact_stats demo_lts), reached demo_lts)"
  by (rule explore_parallel_correct [OF demo_lts_explorable]) simp_all

text \<open>A profiled run returns the same statistics, and its counters agree with them: as many
  states discovered and expanded as there are, and as many transitions generated (each saturating at 64
  bits).\<close>

theorem explore_profile_counters:
  assumes "explorable provider"
  shows "\<exists>p queue. explore_profiled in_memory_store vec_work_queue provider {} [] =
      Some (Inr (exact_stats provider, Some p), reached provider, queue) \<and>
    discovered_states p = sat_of_nat (card (reached provider)) \<and>
    expanded_states p = sat_of_nat (card (reached provider)) \<and>
    Some (generated_transitions p) = st_transitions (exact_stats provider)"
proof -
  from serial_in_memory.explore_exact [OF assms _ _ _ _ new_profile_counts(1), of "{}" "[]" SerialMode 1]
  obtain queue prof where
    "explore_profiled in_memory_store vec_work_queue provider {} [] =
      Some (Inr (exact_stats provider, prof), reached provider, queue)" and
    "prof_counts True (card (reached provider)) (card (reached provider))
      (\<Sum>s \<in> reached provider. out_degree (transitions provider) s) prof"
    by (auto simp: explore_profiled_def)
  then show ?thesis by (cases prof) (auto simp: prof_counts_def exact_stats_def stats_of_def)
qed

theorem explore_profile_counters_witness:
  "\<exists>p queue. explore_profiled in_memory_store vec_work_queue demo_lts {} [] =
      Some (Inr (exact_stats demo_lts, Some p), reached demo_lts, queue) \<and>
    discovered_states p = sat_of_nat (card (reached demo_lts)) \<and>
    expanded_states p = sat_of_nat (card (reached demo_lts)) \<and>
    Some (generated_transitions p) = st_transitions (exact_stats demo_lts)"
  by (rule explore_profile_counters [OF demo_lts_explorable])

end
