(* ===== verification/Cspx_Disk_Spec.thy ===== *)
theory Cspx_Disk_Spec
  imports Cspx_Disk_Crash Cspx_Explore
begin

text \<open>
  What the disk store promises: it implements \<^verbatim>\<open>StateStore\<close>, so the explorer's results hold on it, and what it has
  stored is there after it is closed and opened again; it survives crashes and errors; its lock and its error paths.
\<close>

section \<open>The store of the explorer\<close>

text \<open>The states a run may insert are those of a finite set \<open>U\<close> whose records fit in a file.\<close>

definition log_size :: "'s disk_lib \<Rightarrow> 's \<Rightarrow> nat" where
  "log_size lib s = 2 * length (codec_encode lib s) + 1"

definition disk_setup :: "('s \<Rightarrow> bool) \<Rightarrow> 's disk_lib \<Rightarrow> store_paths \<Rightarrow> 's set \<Rightarrow> bool" where
  "disk_setup ok lib ps U \<longleftrightarrow> lib_ok ok lib \<and> distinct_paths ps \<and> finite U \<and> (\<forall>s \<in> U. ok s) \<and>
     (\<Sum>s \<in> U. log_size lib s) < 2 ^ 64"

definition disk_contents :: "'s disk_lib \<Rightarrow> 's set \<Rightarrow> fs \<times> disk_store \<Rightarrow> 's set" where
  "disk_contents lib U w = {s \<in> U. codec_encode lib s \<in> dk_index (snd w)}"

definition disk_good :: "('s \<Rightarrow> bool) \<Rightarrow> 's disk_lib \<Rightarrow> store_paths \<Rightarrow> 's set \<Rightarrow> fs \<times> disk_store \<Rightarrow> bool" where
  "disk_good ok lib ps U w \<longleftrightarrow> disk_setup ok lib ps U \<and>
     (\<exists>ss. agrees lib ps (map (codec_encode lib) ss) (fst w) (snd w) \<and> distinct ss \<and> set ss \<subseteq> U)"

lemma setup_codec:
  assumes "disk_setup ok lib ps U"
  shows "inj_on (codec_encode lib) U"
proof -
  have "codec_decode lib (codec_encode lib s) = Inr s" if "s \<in> U" for s
    using assms that unfolding disk_setup_def lib_ok_def by blast
  then show ?thesis by (metis Inr_inject inj_onI)
qed

lemma contents_of:
  assumes "disk_setup ok lib ps U" and "S \<subseteq> U" and "dk_index (snd w) = codec_encode lib ` S"
  shows "disk_contents lib U w = S"
proof -
  have "codec_encode lib s \<in> codec_encode lib ` S \<longleftrightarrow> s \<in> S" if "s \<in> U" for s
    by (rule inj_on_image_mem_iff [OF setup_codec [OF assms(1)] that assms(2)])
  then show ?thesis using assms(2) by (auto simp: disk_contents_def assms(3))
qed

lemma log_of_size:
  assumes "lib_ok ok lib"
  shows "length (log_of lib (map (codec_encode lib) ss)) = (\<Sum>s \<leftarrow> ss. log_size lib s)"
proof (induction ss)
  case (Cons s ss)
  have "length (hex_encode lib (codec_encode lib s)) = 2 * length (codec_encode lib s)"
    using assms unfolding lib_ok_def by blast
  with Cons show ?case using log_of_append [of lib "[codec_encode lib s]" "map (codec_encode lib) ss"]
    by (simp add: log_size_def)
qed simp

lemma log_fits:
  assumes "disk_setup ok lib ps U" and "distinct ss" and "set ss \<subseteq> U" and "s \<in> U" and "s \<notin> set ss"
  shows "length (log_of lib (map (codec_encode lib) ss)) + 2 * length (codec_encode lib s) + 1 < 2 ^ 64"
proof -
  have "(\<Sum>t \<leftarrow> s # ss. log_size lib t) = (\<Sum>t \<in> set (s # ss). log_size lib t)"
    using assms(2,5) by (simp add: sum_list_distinct_conv_sum_set)
  also have "\<dots> \<le> (\<Sum>t \<in> U. log_size lib t)"
    by (rule sum_mono2) (use assms in \<open>auto simp: disk_setup_def\<close>)
  finally show ?thesis
    using assms(1) log_of_size [of ok lib ss] by (simp add: disk_setup_def log_size_def)
qed

text \<open>Whatever fails, the files of an insertion and of the drop after it survive, and the index of the store has at
  most the new record more; an insertion that returns has it.\<close>

lemma disk_insert_settled:
  assumes su: "disk_setup ok lib ps U" and ag: "agrees lib ps (map (codec_encode lib) ss) fs st"
    and ss: "distinct ss" "set ss \<subseteq> U" and s: "s \<in> U" and ins: "disk_insert lib fl s fs st = (r, acts, st')"
  defines "ss' \<equiv> (if s \<in> set ss then ss else ss @ [s])"
  shows "r = Inr b \<Longrightarrow> b = (s \<notin> set ss) \<and> agrees lib ps (map (codec_encode lib) ss') (run_actions acts fs) st'"
    and "survives lib ps (map (codec_encode lib) ss) (crash_state (acts @ disk_drop_io lib fault unlocks st') k j fs) \<or>
      survives lib ps (map (codec_encode lib) ss') (crash_state (acts @ disk_drop_io lib fault unlocks st') k j fs)"
proof -
  let ?e = "codec_encode lib"
  have lib: "lib_ok ok lib" and ps: "distinct_paths ps" and oks: "ok s" using su s by (auto simp: disk_setup_def)
  have mem: "?e s \<in> ?e ` set ss \<longleftrightarrow> s \<in> set ss"
    using inj_on_image_mem_iff [OF setup_codec [OF su] s ss(2)] by simp
  have idx: "dk_index st = ?e ` set ss" using ag by (simp add: agrees_def)
  have "(r = Inr b \<longrightarrow> b = (s \<notin> set ss) \<and> agrees lib ps (map ?e ss') (run_actions acts fs) st') \<and>
    inserted lib ps (map ?e ss) (?e s) (crash_state (acts @ disk_drop_io lib fault unlocks st') k j fs)"
  proof (cases "s \<in> set ss")
    case True
    then have i: "acts = []" "r = Inr False" "holds lib ps (map ?e ss) st'"
      using insert_old [of lib s st fl fs] ins idx ag by (auto simp: agrees_holds holds_def)
    have "durable lib ps (map ?e ss @ []) [] fs" using ag by (simp add: agrees_def)
    from crash_allD [OF drop_io_ok [OF ps i(3) this]] i ag True show ?thesis
      by (simp add: agrees_holds inserted_def ss'_def)
  next
    case False
    note fits = log_fits [OF su ss s False]
    have "with_record (map ?e ss) (?e s) = map ?e ss'" using mem False by (simp add: with_record_def ss'_def)
    then show ?thesis
      using insert_settled [where rs = "map ?e ss", OF lib ps ag oks fits ins] mem False
        insert_stops [where rs = "map ?e ss", OF lib ps ag oks fits ins, of fault unlocks k j]
      by (auto simp: agrees_holds)
  qed
  moreover have "inserted lib ps (map ?e ss) (?e s) f \<longleftrightarrow>
      survives lib ps (map ?e ss) f \<or> survives lib ps (map ?e ss') f" for f
    using mem by (auto simp: inserted_def with_record_def ss'_def)
  ultimately show "r = Inr b \<Longrightarrow> b = (s \<notin> set ss) \<and> agrees lib ps (map ?e ss') (run_actions acts fs) st'"
    and "survives lib ps (map (codec_encode lib) ss) (crash_state (acts @ disk_drop_io lib fault unlocks st') k j fs) \<or>
      survives lib ps (map (codec_encode lib) ss') (crash_state (acts @ disk_drop_io lib fault unlocks st') k j fs)"
    by blast+
qed

lemma disk_insert_good:
  assumes good: "disk_good ok lib ps U (fs, st)" and s: "s \<in> U"
    and ins: "disk_insert lib fl s fs st = (Inr b, acts, st')"
  shows "b = (s \<notin> disk_contents lib U (fs, st))" and "disk_good ok lib ps U (run_actions acts fs, st')"
    and "disk_contents lib U (run_actions acts fs, st') = insert s (disk_contents lib U (fs, st))"
proof -
  let ?e = "codec_encode lib"
  from good obtain ss where su: "disk_setup ok lib ps U" and ag: "agrees lib ps (map ?e ss) fs st"
    and ss: "distinct ss" "set ss \<subseteq> U" by (auto simp: disk_good_def)
  let ?ss' = "if s \<in> set ss then ss else ss @ [s]"
  note i = disk_insert_settled(1) [OF su ag ss s ins refl]
  then have ag': "agrees lib ps (map ?e ?ss') (run_actions acts fs) st'" by blast
  show "disk_good ok lib ps U (run_actions acts fs, st')"
    unfolding disk_good_def fst_conv snd_conv using su ag' ss s
    by (intro conjI exI [of _ ?ss']) auto
  have "disk_contents lib U (run_actions acts fs, st') = set ?ss'" "disk_contents lib U (fs, st) = set ss"
    using ss(2) s ag ag' by (auto simp: agrees_def intro!: contents_of [OF su])
  with i show "b = (s \<notin> disk_contents lib U (fs, st))"
    and "disk_contents lib U (run_actions acts fs, st') = insert s (disk_contents lib U (fs, st))" by auto
qed

lemma disk_insert_no_fault: "disk_insert lib no_insert_faults s fs st \<noteq> (Inl e, acts, st')"
proof
  assume ins: "disk_insert lib no_insert_faults s fs st = (Inl e, acts, st')"
  then have new: "codec_encode lib s \<notin> dk_index st" using insert_old [of lib s st no_insert_faults fs] by auto
  have "append_fault no_insert_faults = NoFault" "flush_fault no_insert_faults = NoFault"
    by (simp_all add: no_insert_faults_def)
  from insert_new [where st = st, OF new this(1), of fs] this(2) ins flush_no_fault show False
    by fastforce
qed

text \<open>A disk store whose calls of the operating system may fail is a \<^verbatim>\<open>StateStore\<close> too: what it holds is its index.\<close>

definition index_good :: "('s \<Rightarrow> bool) \<Rightarrow> 's disk_lib \<Rightarrow> store_paths \<Rightarrow> 's set \<Rightarrow> fs \<times> disk_store \<Rightarrow> bool" where
  "index_good ok lib ps U w \<longleftrightarrow> disk_setup ok lib ps U \<and> dk_index (snd w) \<subseteq> codec_encode lib ` U"

lemma disk_insert_index:
  assumes "disk_insert lib fl s fs st = (r, acts, st')"
  shows "dk_index st' = dk_index st \<or> dk_index st' = insert (codec_encode lib s) (dk_index st)"
    and "r = Inr b \<Longrightarrow> b = (codec_encode lib s \<notin> dk_index st) \<and> dk_index st' = insert (codec_encode lib s) (dk_index st)"
proof -
  have "(dk_index st' = dk_index st \<or> dk_index st' = insert (codec_encode lib s) (dk_index st)) \<and>
    (r = Inr b \<longrightarrow> b = (codec_encode lib s \<notin> dk_index st) \<and> dk_index st' = insert (codec_encode lib s) (dk_index st))"
  proof (cases "codec_encode lib s \<in> dk_index st")
    case True
    with insert_old [OF True, of fl fs] assms show ?thesis by auto
  next
    case False
    show ?thesis
    proof (cases "append_fault fl")
      case (Fault k j e cleanup)
      with insert_append_fault [OF False, of fl k j e cleanup fs] assms show ?thesis by auto
    next
      case NoFault
      from insert_new [OF False NoFault, of fs] obtain st1 r1 acts1 st1' where
        "disk_insert lib fl s fs st = (and_then r1 (\<lambda>_. Inr True),
          append_log_record lib (log_path (dk_paths st)) (codec_encode lib s) @ acts1, st1')"
        "dk_index st1 = insert (codec_encode lib s) (dk_index st)"
        "r1 = Inr () \<and> acts1 = [] \<and> st1' = st1 \<or> flush_index_snapshot lib (flush_fault fl) st1 = (r1, acts1, st1')" by blast
      with False assms flush_cases show ?thesis by (fastforce simp: and_then_eq_Inr)
    qed
  qed
  then show "dk_index st' = dk_index st \<or> dk_index st' = insert (codec_encode lib s) (dk_index st)"
    and "r = Inr b \<Longrightarrow> b = (codec_encode lib s \<notin> dk_index st) \<and> dk_index st' = insert (codec_encode lib s) (dk_index st)"
    by blast+
qed

lemma index_contents:
  assumes "index_good ok lib ps U w"
  shows "dk_index (snd w) = codec_encode lib ` disk_contents lib U w" and "finite (disk_contents lib U w)"
    and "card (dk_index (snd w)) = card (disk_contents lib U w)"
proof -
  have su: "disk_setup ok lib ps U" and sub: "disk_contents lib U w \<subseteq> U"
    using assms by (auto simp: index_good_def disk_contents_def)
  show eq: "dk_index (snd w) = codec_encode lib ` disk_contents lib U w"
    using assms by (auto simp: index_good_def disk_contents_def)
  show "finite (disk_contents lib U w)" using su sub finite_subset by (auto simp: disk_setup_def)
  show "card (dk_index (snd w)) = card (disk_contents lib U w)"
    unfolding eq by (rule card_image [OF inj_on_subset [OF setup_codec [OF su] sub]])
qed

interpretation disk_io: state_store "disk_io_ops lib faults" "disk_contents lib U" "index_good ok lib ps U" "\<lambda>s. s \<in> U"
  for lib faults ok ps U
proof unfold_locales
  fix w s b w'
  assume g: "index_good ok lib ps U w" and s: "s \<in> U" and ins: "store_insert (disk_io_ops lib faults) s w = (Inr b, w')"
  obtain fs st where w: "w = (fs, st)" by fastforce
  obtain r acts st' where d: "disk_insert lib (faults s w) s fs st = (r, acts, st')" by (metis prod_cases3)
  with ins have r: "r = Inr b" "w' = (run_actions acts fs, st')" by (simp_all add: disk_io_ops_def w)
  note i = disk_insert_index(2) [OF d r(1)]
  have e: "codec_encode lib t = codec_encode lib s \<longleftrightarrow> t = s" if "t \<in> U" for t
    using inj_on_eq_iff [OF setup_codec that s] g by (auto simp: index_good_def)
  show "index_good ok lib ps U w' \<and> b = (s \<notin> disk_contents lib U w) \<and>
      disk_contents lib U w' = insert s (disk_contents lib U w)"
    using g s i e by (auto simp: index_good_def disk_contents_def w r(2))
next
  fix w s e w'
  assume g: "index_good ok lib ps U w" and s: "s \<in> U" and ins: "store_insert (disk_io_ops lib faults) s w = (Inl e, w')"
  obtain fs st where w: "w = (fs, st)" by fastforce
  obtain r acts st' where d: "disk_insert lib (faults s w) s fs st = (r, acts, st')" by (metis prod_cases3)
  with ins have w': "w' = (run_actions acts fs, st')" by (simp add: disk_io_ops_def w)
  have eq: "codec_encode lib t = codec_encode lib s \<longleftrightarrow> t = s" if "t \<in> U" for t
    using inj_on_eq_iff [OF setup_codec that s] g by (auto simp: index_good_def)
  show "index_good ok lib ps U w' \<and> disk_contents lib U w \<subseteq> disk_contents lib U w' \<and>
      disk_contents lib U w' \<subseteq> insert s (disk_contents lib U w)"
    using g s disk_insert_index(1) [OF d] eq by (auto simp: index_good_def disk_contents_def w w')
next
  fix w
  assume "index_good ok lib ps U w"
  from index_contents [OF this]
  show "finite (disk_contents lib U w) \<and> store_len (disk_io_ops lib faults) w = card (disk_contents lib U w)"
    by (simp add: disk_io_ops_def case_prod_beta)
qed

text \<open>Without faults.\<close>

lemma disk_ops_insert:
  assumes "disk_good ok lib ps U w" and "s \<in> U" and "store_insert (disk_store_ops lib) s w = (r, w')"
  shows "r = Inr (s \<notin> disk_contents lib U w) \<and> disk_good ok lib ps U w' \<and>
    disk_contents lib U w' = insert s (disk_contents lib U w)"
proof -
  obtain fs st where p: "w = (fs, st)" by fastforce
  obtain r' acts st' where d: "disk_insert lib no_insert_faults s fs st = (r', acts, st')" by (metis prod_cases3)
  then have r: "r = r'" "w' = (run_actions acts fs, st')" using assms(3) by (simp_all add: disk_store_ops_def disk_io_ops_def p)
  obtain b where "r' = Inr b" using d disk_insert_no_fault [of lib s fs st] by (cases r') auto
  with disk_insert_good [OF _ assms(2) d [unfolded this], of ok ps] assms(1) p r show ?thesis by simp
qed

lemma disk_good_index: "disk_good ok lib ps U w \<Longrightarrow> index_good ok lib ps U w"
  by (auto simp: disk_good_def index_good_def agrees_def)

lemma disk_no_error: "store_insert (disk_store_ops lib) s w \<noteq> (Inl e, w')"
  using disk_insert_no_fault by (cases w) (fastforce simp: disk_store_ops_def disk_io_ops_def split: prod.splits)

interpretation disk: total_store "disk_store_ops lib" "disk_contents lib U" "disk_good ok lib ps U" "\<lambda>s. s \<in> U"
  for ok lib ps U
proof unfold_locales
  show "store_insert (disk_store_ops lib) s st \<noteq> (Inl e, st')" for s st e st' by (rule disk_no_error)
  then show "disk_good ok lib ps U st' \<and> disk_contents lib U st \<subseteq> disk_contents lib U st' \<and>
      disk_contents lib U st' \<subseteq> insert s (disk_contents lib U st)"
    if "store_insert (disk_store_ops lib) s st = (Inl e, st')" for s st e st' using that by blast
  show "finite (disk_contents lib U w) \<and> store_len (disk_store_ops lib) w = card (disk_contents lib U w)"
    if "disk_good ok lib ps U w" for w
    using disk_io.len_contents [OF disk_good_index [OF that]] by (simp add: disk_store_ops_def)
qed (auto dest: disk_ops_insert)

text \<open>A store that has been opened on empty files, filled by the explorer, closed and opened again.\<close>

lemma fresh_agrees:
  assumes "lib_ok ok lib" and "distinct_paths ps" and "open_at lib pid opts ps n (\<lambda>_. None) = (Inr st, acts)"
  shows "agrees lib ps [] (run_actions acts (\<lambda>_. None)) st"
  using open_at_ok [OF assms(1,2), of "[]" "\<lambda>_. None" pid opts n] assms(3)
  by (auto simp: survives_def durable_def file_of_def snapshot_def)

lemma close_reopens:
  assumes ok: "lib_ok ok lib" and ps: "distinct_paths ps" and a: "agrees lib ps rs fs st"
  shows "\<exists>st2 acts2. open_at lib pid opts ps n (run_actions (disk_drop lib st) fs) = (Inr st2, acts2) \<and>
    dk_index st2 = set rs"
  using open_at_ok [OF ok ps crash_all_run [OF drop_ok(1) [OF ps a]] drop_ok(2) [OF ps a], of pid opts n]
  unfolding agrees_def by blast

lemma explore_disk:
  assumes ok: "lib_ok ok lib" and ps: "distinct_paths ps" and ex: "explorable provider"
    and oks: "\<forall>s \<in> reached provider. ok s" and size: "(\<Sum>s \<in> reached provider. log_size lib s) < 2 ^ 64"
    and op: "open_at lib pid opts ps n (\<lambda>_. None) = (Inr st, acts)"
  shows "\<exists>fs' st' queue.
    explore (disk_store_ops lib) vec_work_queue provider (run_actions acts (\<lambda>_. None), st) [] =
      Some (Inr (exact_stats provider), (fs', st'), queue) \<and>
    (\<exists>st2 acts2. open_at lib pid opts ps n (run_actions (disk_drop lib st') fs') = (Inr st2, acts2) \<and>
      dk_index st2 = codec_encode lib ` reached provider)"
proof -
  let ?U = "reached provider"
  let ?w = "(run_actions acts (\<lambda>_. None), st)"
  have "finite ?U" using ex by (simp add: explorable_def reached_def finite_lts_def)
  then have su: "disk_setup ok lib ps ?U" using assms by (simp add: disk_setup_def)
  have ag: "agrees lib ps [] (run_actions acts (\<lambda>_. None)) st" by (rule fresh_agrees [OF ok ps op])
  then have good: "disk_good ok lib ps ?U ?w"
    using su by (auto simp: disk_good_def intro!: exI [of _ "[]"])
  have empty: "disk_contents lib ?U ?w = {}" using ag by (simp add: disk_contents_def agrees_def)
  obtain w queue where run: "explore (disk_store_ops lib) vec_work_queue provider ?w [] =
      Some (Inr (exact_stats provider), w, queue)"
    and w: "disk_good ok lib ps ?U w" "disk_contents lib ?U w = ?U"
    using disk.frontier.explore_exact [OF ex _ good empty refl new_profile_counts(2)] by (auto simp: explore_def)
  obtain fs' st' where p: "w = (fs', st')" by fastforce
  from w(1) p obtain ss where ag': "agrees lib ps (map (codec_encode lib) ss) fs' st'" and ss: "set ss \<subseteq> ?U"
    by (auto simp: disk_good_def)
  have "set ss = ?U"
    using contents_of [OF su ss, of w] ag' w(2) p by (simp add: agrees_def)
  with close_reopens [OF ok ps ag', of pid opts n] run p show ?thesis by auto
qed

section \<open>A library for the witnesses\<close>

definition hex_digit :: "nat \<Rightarrow> char" where
  "hex_digit n = char_of (if n < 10 then 48 + n else 87 + n)"

definition hex_of_byte :: "u8 \<Rightarrow> string" where
  "hex_of_byte b = [hex_digit (unat b div 16), hex_digit (unat b mod 16)]"

definition hex_value :: "char \<Rightarrow> nat" where
  "hex_value c = (if char_between 48 c 57 then of_char c - 48 else of_char c - 87)"

fun hex_parse :: "string \<Rightarrow> u8 list option" where
  "hex_parse [] = Some []"
| "hex_parse [c] = None"
| "hex_parse (a # b # cs) =
     (if hex_char a \<and> hex_char b
      then map_option (\<lambda>bs. of_nat (16 * hex_value a + hex_value b) # bs) (hex_parse cs) else None)"

definition demo_lib :: "cspm_state disk_lib" where
  "demo_lib = \<lparr>hex_encode = (\<lambda>bs. concat (map hex_of_byte bs)), hex_decode = hex_parse, codec_encode = encode,
     codec_decode = decode\<rparr>"

lemma hex_digit_value: "n < 16 \<Longrightarrow> hex_char (hex_digit n) \<and> hex_value (hex_digit n) = n"
  by (auto simp: hex_digit_def hex_char_def hex_value_def char_between_def)

lemma hex_byte: "hex_char (hex_digit (unat (b :: u8) div 16)) \<and> hex_char (hex_digit (unat b mod 16)) \<and>
    of_nat (16 * hex_value (hex_digit (unat b div 16)) + hex_value (hex_digit (unat b mod 16))) = b"
proof -
  have "unat b < 256" using unsigned_less [of b, where ?'a = nat] by simp
  then have "unat b div 16 < 16" by simp
  then show ?thesis using hex_digit_value [of "unat b div 16"] hex_digit_value [of "unat b mod 16"] by simp
qed

lemma encode_nonempty: "encode s \<noteq> []"
  by (cases s) simp_all

lemma demo_lib_ok: "lib_ok state_ok demo_lib"
proof -
  have "hex_parse (concat (map hex_of_byte bs)) = Some bs \<and> list_all hex_char (concat (map hex_of_byte bs)) \<and>
      length (concat (map hex_of_byte bs)) = 2 * length bs" for bs
    by (induction bs) (use hex_byte in \<open>auto simp: hex_of_byte_def\<close>)
  then show ?thesis by (simp add: lib_ok_def demo_lib_def encode_nonempty cspm_codec.dec_enc)
qed

definition demo_paths :: store_paths where
  "demo_paths = store_paths_new ''run/states.log''"

lemma demo_paths_distinct: "distinct_paths demo_paths"
  by code_simp

section \<open>The lock and the error paths\<close>

text \<open>The lock is taken at the first attempt that finds it free, and not after \<open>limit\<close> retries.\<close>

lemma lock_attempt_from:
  "lock_attempt found lock limit k =
     (if \<exists>i. k \<le> i \<and> i \<le> max k limit \<and> found i lock = None
      then Inr (LEAST i. k \<le> i \<and> found i lock = None)
      else Inl (IoError WouldBlock (''state store is already open: '' @ lock)))"
proof (induction "limit - k" arbitrary: k)
  case 0
  then show ?case
    by (subst lock_attempt.simps) (auto simp: acquire_lock_def le_antisym intro!: Least_equality [symmetric])
next
  case (Suc d)
  then have k: "k < limit" by simp
  have IH: "lock_attempt found lock limit (k + 1) =
     (if \<exists>i. k + 1 \<le> i \<and> i \<le> max (k + 1) limit \<and> found i lock = None
      then Inr (LEAST i. k + 1 \<le> i \<and> found i lock = None)
      else Inl (IoError WouldBlock (''state store is already open: '' @ lock)))"
    by (rule Suc.hyps(1)) (use Suc.hyps(2) in simp)
  show ?case
  proof (cases "found k lock = None")
    case True
    then have "(LEAST i. k \<le> i \<and> found i lock = None) = k" by (auto intro: Least_equality)
    moreover have "\<exists>i. k \<le> i \<and> i \<le> max k limit \<and> found i lock = None" using True by (intro exI [of _ k]) simp
    ultimately show ?thesis using True by (subst lock_attempt.simps) (simp add: acquire_lock_def)
  next
    case False
    then have eq: "(k \<le> i \<and> found i lock = None) = (k + 1 \<le> i \<and> found i lock = None)" for i
      by (metis Suc_eq_plus1 Suc_leD le_antisym not_less_eq_eq)
    have "max k limit = limit" "max (k + 1) limit = limit" using k by simp_all
    then have ex: "(\<exists>i. k \<le> i \<and> i \<le> max k limit \<and> found i lock = None) =
        (\<exists>i. k + 1 \<le> i \<and> i \<le> max (k + 1) limit \<and> found i lock = None)"
      using eq by metis
    have "lock_attempt found lock limit k = lock_attempt found lock limit (k + 1)"
      using False k by (subst lock_attempt.simps) (simp add: acquire_lock_def)
    then show ?thesis unfolding IH ex eq .
  qed
qed

lemma lock_retry:
  "lock_attempt found lock limit 0 =
     (if \<exists>i \<le> limit. found i lock = None then Inr (LEAST i. found i lock = None)
      else Inl (IoError WouldBlock (''state store is already open: '' @ lock)))"
  by (simp add: lock_attempt_from)

text \<open>An index file with the right header and a record that does not decode stops the opening, although the log
  is intact.\<close>

lemma corrupt_index_refused:
  assumes ps: "distinct_paths ps" and lock: "fs (lock_path ps) = None"
    and idx: "fs (idx_path ps) = Some (lines_text [index_header (file_len fs (log_path ps)), bad])"
    and bad: "list_all plain_char bad" "bad \<noteq> []" "decode_validated_record lib bad = None"
  shows "fst (open_at lib pid opts ps n fs) = Inl (IoError InvalidData (''invalid index record in '' @ idx_path ps))"
proof -
  obtain acts where acts: "acquire_lock pid (lock_path ps) fs = Inr acts" "\<forall>a \<in> set acts. act_paths a = {lock_path ps}"
    using acquire_ok [of fs ps pid, OF lock] by blast
  note faults = no_open_faults_def
  let ?fs1 = "run_actions [OpenCreate (log_path ps)] (run_actions acts fs)"
  have "run_actions acts fs q = fs q" if "q \<noteq> lock_path ps" for q
    by (rule run_actions_frame) (use acts(2) that in auto)
  then have fs1: "file_len ?fs1 (log_path ps) = file_len fs (log_path ps)" "?fs1 (idx_path ps) = fs (idx_path ps)"
    using ps by (auto simp: file_len_def distinct_paths_def file_of_def)
  have "buf_lines (lines_text [index_header (file_len fs (log_path ps)), bad]) =
      [index_header (file_len fs (log_path ps)), bad]"
    by (rule buf_lines_text) (use header_text plain_text [OF bad(1)] in auto)
  then have "load_index_from_file lib (idx_path ps) (file_len ?fs1 (log_path ps)) ?fs1 =
      Inl (IoError InvalidData (''invalid index record in '' @ idx_path ps))"
    unfolding fs1 by (simp add: load_index_from_file_def fs1(2) idx header_text(3) parse_header plain_text(3) [OF bad(1)] bad
      del: run_actions_simps)
  then show ?thesis
    by (simp add: open_at_def open_at_io_def acts(1) open_locked_def Let_def fs1(1) faults del: run_actions_simps split: prod.split)
qed

text \<open>When the extension of the store's path is \<^verbatim>\<open>idx\<close>, the log and the index are one file: the records of one
  session cannot be read by the next.\<close>

definition idx_session :: "io_error + disk_store" where
  "idx_session =
     (let ps = store_paths_new ''s.idx''
      in case open_at demo_lib 1 default_options ps 0 (\<lambda>_. None) of
           (Inl e, acts) \<Rightarrow> Inl e
         | (Inr st, acts) \<Rightarrow>
             (let fs = run_actions acts (\<lambda>_. None)
              in case disk_insert demo_lib no_insert_faults (SExpr 0 []) fs st of
                   (r, acts2, st2) \<Rightarrow>
                     fst (open_at demo_lib 2 default_options ps 0
                       (run_actions (disk_drop demo_lib st2) (run_actions acts2 fs)))))"

lemma idx_extension_collides: "idx_session = Inl (IoError InvalidData ''invalid log record'')"
  by code_simp

text \<open>An append that fails in the middle of a line leaves a torn line, and the next record is written behind it. Once
  the index file does not match the log, as after a crash before it is written, the store cannot be opened.\<close>

definition torn_session :: "io_error + disk_store" where
  "torn_session =
     (let ps = store_paths_new ''s.log'';
          insert = (\<lambda>fl s (fs, st). case disk_insert demo_lib fl s fs st of (_, acts, st') \<Rightarrow> (run_actions acts fs, st'))
      in case open_at demo_lib 1 default_options ps 0 (\<lambda>_. None) of
           (Inl e, acts) \<Rightarrow> Inl e
         | (Inr st, acts) \<Rightarrow>
             (let w1 = insert no_insert_faults (SExpr 0 []) (run_actions acts (\<lambda>_. None), st);
                  (fs2, st2) = insert (no_insert_faults\<lparr>append_fault := Fault 1 1 (IoError OtherIo ''disk full'') NoFault\<rparr>)
                    (SExpr 1 []) w1
              in case disk_insert demo_lib no_insert_faults (SExpr 2 []) fs2 st2 of
                   (_, acts3, _) \<Rightarrow>
                     fst (open_at demo_lib 2 default_options ps 0 (remove_lock ps (crash_state acts3 3 0 fs2)))))"

lemma torn_line_corrupts: "torn_session = Inl (IoError InvalidData ''invalid log record'')"
  by code_simp


section \<open>Properties\<close>


lemma demo_opens: "\<exists>st acts. open_at demo_lib pid default_options demo_paths 0 (\<lambda>_. None) = (Inr st, acts)"
  using open_at_ok [OF demo_lib_ok demo_paths_distinct, of "[]" "\<lambda>_. None" pid default_options 0]
  by (auto simp: survives_def durable_def file_of_def snapshot_def)


text \<open>C33: the explorer on a freshly opened disk store returns the statistics it returns on the in-memory store, and
  the store, closed and opened again, holds the encodings of exactly the reachable states.\<close>

theorem explore_disk_correct:
  assumes "lib_ok ok lib" and "distinct_paths ps" and "explorable provider" and "\<forall>s \<in> reached provider. ok s"
    and "(\<Sum>s \<in> reached provider. log_size lib s) < 2 ^ 64"
    and "open_at lib pid opts ps n (\<lambda>_. None) = (Inr st, acts)"
  shows "\<exists>fs' st' queue.
    explore (disk_store_ops lib) vec_work_queue provider (run_actions acts (\<lambda>_. None), st) [] =
      Some (Inr (exact_stats provider), (fs', st'), queue) \<and>
    (\<exists>st2 acts2. open_at lib pid opts ps n (run_actions (disk_drop lib st') fs') = (Inr st2, acts2) \<and>
      dk_index st2 = codec_encode lib ` reached provider)"
  by (rule explore_disk [OF assms])


lemma demo_reached: "reached demo_lts \<subseteq> set demo_states"
proof -
  have "succs (transitions demo_lts) s \<subseteq> set demo_states" if "s \<in> set demo_states" for s
    using demo_lts_closed that by (fastforce simp: succs_def list_all_iff split: option.splits)
  then show ?thesis unfolding reached_def by (intro reachable_closed) (use demo_lts_initial in auto)
qed

theorem explore_disk_correct_witness:
  "\<exists>st acts fs' st' queue.
    open_at demo_lib 1 default_options demo_paths 0 (\<lambda>_. None) = (Inr st, acts) \<and>
    explore (disk_store_ops demo_lib) vec_work_queue demo_lts (run_actions acts (\<lambda>_. None), st) [] =
      Some (Inr (exact_stats demo_lts), (fs', st'), queue) \<and>
    (\<exists>st2 acts2. open_at demo_lib 1 default_options demo_paths 0 (run_actions (disk_drop demo_lib st') fs') =
        (Inr st2, acts2) \<and> dk_index st2 = encode ` reached demo_lts)"
proof -
  obtain st acts where op: "open_at demo_lib 1 default_options demo_paths 0 (\<lambda>_. None) = (Inr st, acts)"
    using demo_opens by blast
  have states: "list_all state_ok demo_states"
    by (simp add: demo_states_def name_ok_def char_between_def)
  then have oks: "\<forall>s \<in> reached demo_lts. state_ok s" using demo_reached by (auto simp: list_all_iff)
  have sizes: "log_size demo_lib s \<le> 100" if "s \<in> set demo_states" for s
    using that by (auto simp: demo_states_def log_size_def demo_lib_def encode_len_def u32_be_def u64_be_def
        encode_string_def encode_binding_def be_bytes_def)
  have "card (reached demo_lts) \<le> card (set demo_states)" by (rule card_mono [OF _ demo_reached]) simp
  also have "\<dots> \<le> length demo_states" by (rule card_length)
  finally have card: "card (reached demo_lts) \<le> 5" by (simp add: demo_states_def)
  have "(\<Sum>s \<in> reached demo_lts. log_size demo_lib s) \<le> card (reached demo_lts) * 100"
    using sum_bounded_above [of "reached demo_lts" "log_size demo_lib" 100] sizes demo_reached by auto
  with card have "(\<Sum>s \<in> reached demo_lts. log_size demo_lib s) < 2 ^ 64" by simp
  from explore_disk_correct [OF demo_lib_ok demo_paths_distinct demo_lts_explorable oks this op] op
  show ?thesis unfolding demo_lib_def by (simp del: run_actions_simps)
qed

end
