(* ===== verification/Cspx_Hybrid.thy ===== *)
theory Cspx_Hybrid
  imports Cspx_Disk_Spec
begin

text \<open>
  The hybrid store of \<^verbatim>\<open>store_hybrid.rs\<close>: a set in memory which, once it is larger than a threshold, is copied to
  a disk store that follows it. The result: it is a \<^verbatim>\<open>StateStore\<close> whose insertions either succeed or leave the set
  as it was, whatever fails; while it spills the disk holds the encodings of the set, and as long as nothing has
  failed no others. The order in which a \<^verbatim>\<open>HashSet\<close> is iterated and the faults of the disk store are parameters; no
  other process changes the files.
\<close>

section \<open>The store\<close>

record hybrid_options =
  spill_threshold :: nat
  disk_options :: open_options

definition default_hybrid_options :: hybrid_options where
  "default_hybrid_options = \<lparr>spill_threshold = 100000, disk_options = default_options\<rparr>"

record 's hybrid_store =
  hy_memory :: "'s set"
  hy_path :: string
  hy_options :: hybrid_options
  hy_spill :: "disk_store option"

definition hybrid_open :: "string \<Rightarrow> hybrid_options \<Rightarrow> fs \<Rightarrow> io_error + 's hybrid_store" where
  "hybrid_open p options fs =
     (if spill_threshold options = 0 then Inl (IoError IoInvalidInput ''spill_threshold must be >= 1'')
      else if fs p \<noteq> None
      then Inl (IoError AlreadyExists (''spill path already exists; use a fresh path: '' @ p))
      else Inr \<lparr>hy_memory = {}, hy_path = p, hy_options = options, hy_spill = None\<rparr>)"

definition is_spilling :: "'s hybrid_store \<Rightarrow> bool" where
  "is_spilling hs = (hy_spill hs \<noteq> None)"

definition spill_metrics :: "'s hybrid_store \<Rightarrow> disk_metrics option" where
  "spill_metrics hs = map_option dk_metrics (hy_spill hs)"

text \<open>What may fail: opening the disk store, copying each state, dropping the disk store, and inserting into it.\<close>

record hybrid_faults =
  spill_open :: open_faults
  spill_copy :: "nat \<Rightarrow> insert_faults"
  spill_drop :: io_fault
  spill_unlocks :: bool
  spill_insert :: insert_faults

definition no_hybrid_faults :: hybrid_faults where
  "no_hybrid_faults = \<lparr>spill_open = no_open_faults, spill_copy = (\<lambda>_. no_insert_faults), spill_drop = NoFault,
     spill_unlocks = True, spill_insert = no_insert_faults\<rparr>"

text \<open>The loop that copies the set into the new disk store; an error drops the disk store.\<close>

fun spill_all :: "'s disk_lib \<Rightarrow> hybrid_faults \<Rightarrow> nat \<Rightarrow> 's list \<Rightarrow> fs \<Rightarrow> disk_store \<Rightarrow> (io_error + disk_store) \<times> fs" where
  "spill_all lib hf i [] fs st = (Inr st, fs)"
| "spill_all lib hf i (s # ss) fs st =
     (case disk_insert lib (spill_copy hf i) s fs st of
        (Inl e, acts, st') \<Rightarrow>
          (Inl e, run_actions (acts @ disk_drop_io lib (spill_drop hf) (spill_unlocks hf) st') fs)
      | (Inr _, acts, st') \<Rightarrow> spill_all lib hf (i + 1) ss (run_actions acts fs) st')"

definition activate_spill_if_needed ::
  "'s disk_lib \<Rightarrow> ('s set \<Rightarrow> 's list) \<Rightarrow> hybrid_faults \<Rightarrow> u32 \<Rightarrow> fs \<Rightarrow> 's hybrid_store \<Rightarrow>
    (io_error + unit) \<times> fs \<times> 's hybrid_store" where
  "activate_spill_if_needed lib order hf pid fs hs =
     (if hy_spill hs \<noteq> None \<or> card (hy_memory hs) \<le> spill_threshold (hy_options hs) then (Inr (), fs, hs)
      else
        (case open_with_options lib (spill_open hf) pid (\<lambda>_. fs) (hy_path hs) (disk_options (hy_options hs)) of
           (Inl e, fs1) \<Rightarrow> (Inl e, fs1, hs)
         | (Inr st, fs1) \<Rightarrow>
             (case spill_all lib hf 0 (order (hy_memory hs)) fs1 st of
                (Inl e, fs2) \<Rightarrow> (Inl e, fs2, hs)
              | (Inr st', fs2) \<Rightarrow> (Inr (), fs2, hs\<lparr>hy_spill := Some st'\<rparr>))))"

definition hybrid_insert ::
  "'s disk_lib \<Rightarrow> ('s set \<Rightarrow> 's list) \<Rightarrow> hybrid_faults \<Rightarrow> u32 \<Rightarrow> 's \<Rightarrow> fs \<times> 's hybrid_store \<Rightarrow>
    (io_error + bool) \<times> fs \<times> 's hybrid_store" where
  "hybrid_insert lib order hf pid s w =
     (case w of (fs, hs) \<Rightarrow>
        if s \<in> hy_memory hs then (Inr False, fs, hs)
        else
          (let hs1 = hs\<lparr>hy_memory := insert s (hy_memory hs)\<rparr>;
               should_spill = (card (hy_memory hs1) > spill_threshold (hy_options hs1));
               had_spill = (hy_spill hs1 \<noteq> None)
           in case activate_spill_if_needed lib order hf pid fs hs1 of
                (Inl e, fs1, hs2) \<Rightarrow> (Inl e, fs1, hs2\<lparr>hy_memory := hy_memory hs2 - {s}\<rparr>)
              | (Inr _, fs1, hs2) \<Rightarrow>
                  if should_spill \<and> had_spill
                  then
                    (case hy_spill hs2 of
                       None \<Rightarrow> (Inr True, fs1, hs2)
                     | Some st \<Rightarrow>
                         (case disk_insert lib (spill_insert hf) s fs1 st of
                            (Inl e, acts, st') \<Rightarrow>
                              (Inl e, run_actions acts fs1,
                               hs2\<lparr>hy_memory := hy_memory hs2 - {s}, hy_spill := Some st'\<rparr>)
                          | (Inr _, acts, st') \<Rightarrow>
                              (Inr True, run_actions acts fs1, hs2\<lparr>hy_spill := Some st'\<rparr>)))
                  else (Inr True, fs1, hs2)))"

text \<open>The operations of \<^verbatim>\<open>StateStore\<close>; the faults may depend on the call.\<close>

definition hybrid_store_ops ::
  "'s disk_lib \<Rightarrow> ('s set \<Rightarrow> 's list) \<Rightarrow> ('s \<Rightarrow> fs \<times> 's hybrid_store \<Rightarrow> hybrid_faults) \<Rightarrow> u32 \<Rightarrow>
    ('s, fs \<times> 's hybrid_store) store_ops" where
  "hybrid_store_ops lib order faults pid =
     \<lparr>store_insert = (\<lambda>s w. hybrid_insert lib order (faults s w) pid s w),
      store_len = (\<lambda>(fs, hs). card (hy_memory hs))\<rparr>"

text \<open>Dropping the store drops the disk store.\<close>

definition hybrid_drop :: "'s disk_lib \<Rightarrow> hybrid_faults \<Rightarrow> 's hybrid_store \<Rightarrow> fs_action list" where
  "hybrid_drop lib hf hs =
     (case hy_spill hs of None \<Rightarrow> [] | Some st \<Rightarrow> disk_drop_io lib (spill_drop hf) (spill_unlocks hf) st)"

section \<open>The invariant\<close>

text \<open>Before the spill the files hold no record; from then on the disk store mirrors the memory.\<close>

definition hybrid_good ::
  "('s \<Rightarrow> bool) \<Rightarrow> 's disk_lib \<Rightarrow> ('s set \<Rightarrow> 's list) \<Rightarrow> 's set \<Rightarrow> fs \<times> 's hybrid_store \<Rightarrow> bool" where
  "hybrid_good ok lib order U w \<longleftrightarrow>
     (let ps = store_paths_new (hy_path (snd w)); mem = hy_memory (snd w)
      in disk_setup ok lib ps U \<and> mem \<subseteq> U \<and> (\<forall>S. finite S \<longrightarrow> set (order S) = S) \<and>
         (case hy_spill (snd w) of
            None \<Rightarrow> survives lib ps [] (fst w) \<and> card mem \<le> spill_threshold (hy_options (snd w))
          | Some st \<Rightarrow> disk_good ok lib ps U (fst w, st) \<and> disk_contents lib U (fst w, st) = mem \<and>
              spill_threshold (hy_options (snd w)) < card mem))"

lemma hybrid_good_None:
  "hy_spill hs = None \<Longrightarrow> hybrid_good ok lib order U (fs, hs) \<longleftrightarrow>
     disk_setup ok lib (store_paths_new (hy_path hs)) U \<and> hy_memory hs \<subseteq> U \<and>
     (\<forall>S. finite S \<longrightarrow> set (order S) = S) \<and> survives lib (store_paths_new (hy_path hs)) [] fs \<and>
     card (hy_memory hs) \<le> spill_threshold (hy_options hs)"
  by (simp add: hybrid_good_def Let_def)

lemma hybrid_good_Some:
  "hy_spill hs = Some st \<Longrightarrow> hybrid_good ok lib order U (fs, hs) \<longleftrightarrow>
     disk_setup ok lib (store_paths_new (hy_path hs)) U \<and> hy_memory hs \<subseteq> U \<and>
     (\<forall>S. finite S \<longrightarrow> set (order S) = S) \<and> disk_good ok lib (store_paths_new (hy_path hs)) U (fs, st) \<and>
     disk_contents lib U (fs, st) = hy_memory hs \<and> spill_threshold (hy_options hs) < card (hy_memory hs)"
  by (simp add: hybrid_good_def Let_def)

lemma disk_insert_returns:
  obtains b acts st' where "disk_insert lib no_insert_faults s fs st = (Inr b, acts, st')"
  using disk_insert_no_fault [of lib s fs st] by (cases "disk_insert lib no_insert_faults s fs st"; cases "fst (disk_insert lib no_insert_faults s fs st)") auto

lemma spill_all_ok:
  assumes "disk_good ok lib ps U (fs, st)" and "set ss \<subseteq> U"
  shows "\<exists>st' fs'. spill_all lib no_hybrid_faults i ss fs st = (Inr st', fs') \<and> disk_good ok lib ps U (fs', st') \<and>
    disk_contents lib U (fs', st') = disk_contents lib U (fs, st) \<union> set ss"
  using assms
proof (induction ss arbitrary: fs st i)
  case (Cons s ss)
  obtain b acts st1 where d: "disk_insert lib no_insert_faults s fs st = (Inr b, acts, st1)"
    by (rule disk_insert_returns)
  have f: "spill_copy no_hybrid_faults i = no_insert_faults" by (simp add: no_hybrid_faults_def)
  have s: "s \<in> U" and ss: "set ss \<subseteq> U" using Cons.prems(2) by auto
  note i = disk_insert_good [OF Cons.prems(1) s d]
  from Cons.IH [OF i(2) ss, of "i + 1"] show ?case by (auto simp: d i f)
qed simp

lemma open_options_ok:
  assumes su: "disk_setup ok lib (store_paths_new p) U" and s: "survives lib (store_paths_new p) [] fs"
  shows "(\<exists>e. open_with_options lib no_open_faults pid (\<lambda>_. fs) p opts = (Inl e, fs)) \<and>
      (fs (lock_path (store_paths_new p)) \<noteq> None \<or> index_flush_every opts = 0) \<or>
    (\<exists>st fs'. open_with_options lib no_open_faults pid (\<lambda>_. fs) p opts = (Inr st, fs') \<and>
      disk_good ok lib (store_paths_new p) U (fs', st) \<and> disk_contents lib U (fs', st) = {})"
proof -
  let ?ps = "store_paths_new p"
  have lib: "lib_ok ok lib" and ps: "distinct_paths ?ps" using su by (simp_all add: disk_setup_def)
  have dir: "dir_fault no_open_faults = None" by (simp add: no_open_faults_def)
  consider (zero) "index_flush_every opts = 0" | (busy) "index_flush_every opts \<noteq> 0" "fs (lock_path ?ps) \<noteq> None"
    | (free) "index_flush_every opts \<noteq> 0" "fs (lock_path ?ps) = None" by blast
  then show ?thesis
  proof cases
    case free
    have lock: "lock_attempt (\<lambda>_. fs) (lock_path ?ps) k 0 = Inr 0" for k
      using free(2) by (subst lock_attempt.simps) (simp add: acquire_lock_def)
    obtain st acts where o: "open_at lib pid opts ?ps 0 fs = (Inr st, acts)" "agrees lib ?ps [] (run_actions acts fs) st"
      using open_at_ok [OF lib ps s free(2)] by blast
    have "disk_good ok lib ?ps U (run_actions acts fs, st)"
      using su o(2) by (auto simp: disk_good_def intro!: exI [of _ "[]"])
    moreover have "disk_contents lib U (run_actions acts fs, st) = {}"
      using o(2) by (simp add: disk_contents_def agrees_def)
    ultimately show ?thesis using free(1) o(1)
      by (simp add: open_with_options_def Let_def lock dir open_at_def)
  qed (auto simp: open_with_options_def Let_def lock_retry dir)
qed

text \<open>An insertion.\<close>

definition spill_blocked :: "fs \<times> 's hybrid_store \<Rightarrow> bool" where
  "spill_blocked w \<longleftrightarrow> hy_spill (snd w) = None \<and>
     card (hy_memory (snd w)) = spill_threshold (hy_options (snd w)) \<and>
     (fst w (lock_path (store_paths_new (hy_path (snd w)))) \<noteq> None \<or>
      index_flush_every (disk_options (hy_options (snd w))) = 0)"

lemma hybrid_insert_spilling:
  assumes good: "hybrid_good ok lib order U (fs, hs)" and s: "s \<in> U" "s \<notin> hy_memory hs" and st: "hy_spill hs = Some st"
    and ins: "hybrid_insert lib order no_hybrid_faults pid s (fs, hs) = (r, w')"
  shows "r = Inr True \<and> hybrid_good ok lib order U w' \<and> hy_memory (snd w') = insert s (hy_memory hs)"
proof -
  note g = good [unfolded hybrid_good_Some [OF st]]
  obtain b acts st' where d: "disk_insert lib no_insert_faults s fs st = (Inr b, acts, st')"
    by (rule disk_insert_returns)
  have f: "spill_insert no_hybrid_faults = no_insert_faults" by (simp add: no_hybrid_faults_def)
  have dg: "disk_good ok lib (store_paths_new (hy_path hs)) U (fs, st)" using g by blast
  note i = disk_insert_good [OF dg s(1) d]
  have fin: "finite (hy_memory hs)" using g by (meson disk_setup_def finite_subset)
  have w': "r = Inr True" "w' = (run_actions acts fs, hs\<lparr>hy_memory := insert s (hy_memory hs), hy_spill := Some st'\<rparr>)"
    using ins g s(2) st d fin by (simp_all add: hybrid_insert_def activate_spill_if_needed_def Let_def f)
  show ?thesis using g s fin i w' by (simp add: hybrid_good_def Let_def)
qed

lemma hybrid_insert_memory:
  assumes good: "hybrid_good ok lib order U (fs, hs)" and s: "s \<in> U" "s \<notin> hy_memory hs" and st: "hy_spill hs = None"
    and ins: "hybrid_insert lib order no_hybrid_faults pid s (fs, hs) = (r, w')"
  shows "(r = Inr True \<and> hybrid_good ok lib order U w' \<and> hy_memory (snd w') = insert s (hy_memory hs)) \<or>
    (\<exists>e. r = Inl e \<and> w' = (fs, hs) \<and> spill_blocked (fs, hs))"
proof (cases "card (insert s (hy_memory hs)) \<le> spill_threshold (hy_options hs)")
  case True
  note g = good [unfolded hybrid_good_None [OF st]]
  have "r = Inr True" "w' = (fs, hs\<lparr>hy_memory := insert s (hy_memory hs)\<rparr>)"
    using ins s(2) st True by (simp_all add: hybrid_insert_def activate_spill_if_needed_def Let_def)
  then show ?thesis using g s True st by (simp add: hybrid_good_def Let_def)
next
  case False
  note g = good [unfolded hybrid_good_None [OF st]]
  let ?p = "hy_path hs" and ?o = "disk_options (hy_options hs)"
  let ?mem = "insert s (hy_memory hs)"
  have f: "spill_open no_hybrid_faults = no_open_faults" by (simp add: no_hybrid_faults_def)
  have fin: "finite (hy_memory hs)" using g by (meson disk_setup_def finite_subset)
  have card: "card (hy_memory hs) = spill_threshold (hy_options hs)" using g False fin s(2) by simp
  have su: "disk_setup ok lib (store_paths_new ?p) U" "survives lib (store_paths_new ?p) [] fs" using g by simp_all
  from open_options_ok [OF su, of pid ?o] show ?thesis
  proof (elim disjE conjE exE)
    fix e assume "open_with_options lib no_open_faults pid (\<lambda>_. fs) ?p ?o = (Inl e, fs)"
    then have "r = Inl e" "w' = (fs, hs\<lparr>hy_memory := ?mem - {s}\<rparr>)"
      using ins s(2) st False by (simp_all add: hybrid_insert_def activate_spill_if_needed_def Let_def f)
    moreover have "?mem - {s} = hy_memory hs" using s(2) by auto
    ultimately have "r = Inl e" "w' = (fs, hs)" by simp_all
    moreover assume "fs (lock_path (store_paths_new ?p)) \<noteq> None"
    ultimately show ?thesis using st card by (simp add: spill_blocked_def)
  next
    fix e assume "open_with_options lib no_open_faults pid (\<lambda>_. fs) ?p ?o = (Inl e, fs)"
    then have "r = Inl e" "w' = (fs, hs\<lparr>hy_memory := ?mem - {s}\<rparr>)"
      using ins s(2) st False by (simp_all add: hybrid_insert_def activate_spill_if_needed_def Let_def f)
    moreover have "?mem - {s} = hy_memory hs" using s(2) by auto
    ultimately have "r = Inl e" "w' = (fs, hs)" by simp_all
    moreover assume "index_flush_every ?o = 0"
    ultimately show ?thesis using st card by (simp add: spill_blocked_def)
  next
    fix st1 fs1
    assume o: "open_with_options lib no_open_faults pid (\<lambda>_. fs) ?p ?o = (Inr st1, fs1)"
      "disk_good ok lib (store_paths_new ?p) U (fs1, st1)" "disk_contents lib U (fs1, st1) = {}"
    have ord: "set (order ?mem) = ?mem" using g fin by blast
    then have "set (order ?mem) \<subseteq> U" using g s(1) by simp
    from spill_all_ok [OF o(2) this, of 0] obtain st' fs' where sp: "spill_all lib no_hybrid_faults 0 (order ?mem) fs1 st1 = (Inr st', fs')"
      "disk_good ok lib (store_paths_new ?p) U (fs', st')" "disk_contents lib U (fs', st') = ?mem"
      using o(3) ord by auto
    have "r = Inr True" "w' = (fs', hs\<lparr>hy_memory := ?mem, hy_spill := Some st'\<rparr>)"
      using ins s(2) st False o(1) sp(1) by (simp_all add: hybrid_insert_def activate_spill_if_needed_def Let_def f)
    then show ?thesis using g s sp False by (simp add: hybrid_good_def Let_def)
  qed
qed

lemma hybrid_insert_old:
  assumes "s \<in> hy_memory hs"
  shows "hybrid_insert lib order hf pid s (fs, hs) = (Inr False, fs, hs)"
  using assms by (simp add: hybrid_insert_def)

lemma hybrid_insert_cases:
  assumes good: "hybrid_good ok lib order U w" and s: "s \<in> U" and ins: "hybrid_insert lib order no_hybrid_faults pid s w = (r, w')"
  shows "(r = Inr (s \<notin> hy_memory (snd w)) \<and> hybrid_good ok lib order U w' \<and>
      hy_memory (snd w') = insert s (hy_memory (snd w))) \<or>
    (\<exists>e. r = Inl e \<and> w' = w \<and> spill_blocked w)"
proof -
  obtain fs hs where w: "w = (fs, hs)" by fastforce
  show ?thesis
  proof (cases "s \<in> hy_memory hs")
    case True
    then show ?thesis using good ins w hybrid_insert_old [OF True] by (auto simp: insert_absorb)
  next
    case False
    show ?thesis
    proof (cases "hy_spill hs")
      case None
      from hybrid_insert_memory [OF good [unfolded w] s False None ins [unfolded w]] False w show ?thesis by simp
    next
      case (Some st)
      from hybrid_insert_spilling [OF good [unfolded w] s False Some ins [unfolded w]] False w show ?thesis by simp
    qed
  qed
qed

lemma good_index:
  assumes "hybrid_good ok lib order U w" and "hy_spill (snd w) = Some st"
  shows "dk_index st = codec_encode lib ` hy_memory (snd w)"
proof -
  from assms have g: "disk_good ok lib (store_paths_new (hy_path (snd w))) U (fst w, st)"
    "disk_contents lib U (fst w, st) = hy_memory (snd w)" and su: "disk_setup ok lib (store_paths_new (hy_path (snd w))) U"
    by (simp_all add: hybrid_good_def Let_def)
  from g(1) obtain ss where ss: "dk_index st = codec_encode lib ` set ss" "set ss \<subseteq> U"
    by (auto simp: disk_good_def agrees_def)
  with contents_of [OF su ss(2), of "(fst w, st)"] g(2) show ?thesis by simp
qed

section \<open>When calls of the operating system fail\<close>

text \<open>Before the spill the files hold records of an earlier attempt at most; from then on the disk store has the
  memory, and perhaps states whose insertion failed.\<close>

definition hybrid_inv ::
  "('s \<Rightarrow> bool) \<Rightarrow> 's disk_lib \<Rightarrow> ('s set \<Rightarrow> 's list) \<Rightarrow> 's set \<Rightarrow> fs \<times> 's hybrid_store \<Rightarrow> bool" where
  "hybrid_inv ok lib order U w \<longleftrightarrow>
     (let ps = store_paths_new (hy_path (snd w)); mem = hy_memory (snd w)
      in disk_setup ok lib ps U \<and> mem \<subseteq> U \<and> (\<forall>S. finite S \<longrightarrow> set (order S) = S) \<and>
         (case hy_spill (snd w) of
            None \<Rightarrow> (\<exists>ss. survives lib ps (map (codec_encode lib) ss) (fst w) \<and> distinct ss \<and> set ss \<subseteq> U) \<and>
              card mem \<le> spill_threshold (hy_options (snd w))
          | Some st \<Rightarrow> codec_encode lib ` mem \<subseteq> dk_index st \<and> dk_index st \<subseteq> codec_encode lib ` U \<and>
              spill_threshold (hy_options (snd w)) < card mem))"

lemma hybrid_inv_None:
  "hy_spill hs = None \<Longrightarrow> hybrid_inv ok lib order U (fs, hs) \<longleftrightarrow>
     disk_setup ok lib (store_paths_new (hy_path hs)) U \<and> hy_memory hs \<subseteq> U \<and> (\<forall>S. finite S \<longrightarrow> set (order S) = S) \<and>
     (\<exists>ss. survives lib (store_paths_new (hy_path hs)) (map (codec_encode lib) ss) fs \<and> distinct ss \<and> set ss \<subseteq> U) \<and>
     card (hy_memory hs) \<le> spill_threshold (hy_options hs)"
  by (simp add: hybrid_inv_def Let_def)

lemma hybrid_inv_Some:
  "hy_spill hs = Some st \<Longrightarrow> hybrid_inv ok lib order U (fs, hs) \<longleftrightarrow>
     disk_setup ok lib (store_paths_new (hy_path hs)) U \<and> hy_memory hs \<subseteq> U \<and> (\<forall>S. finite S \<longrightarrow> set (order S) = S) \<and>
     codec_encode lib ` hy_memory hs \<subseteq> dk_index st \<and> dk_index st \<subseteq> codec_encode lib ` U \<and>
     spill_threshold (hy_options hs) < card (hy_memory hs)"
  by (simp add: hybrid_inv_def Let_def)

lemma crash_state_all: "crash_state acts (length acts) j fs = run_actions acts fs"
  by (simp add: crash_state_def partial_actions_def)

lemma open_options_io:
  assumes su: "disk_setup ok lib (store_paths_new p) U" and s: "survives lib (store_paths_new p) rs fs"
    and op: "open_with_options lib fl pid (\<lambda>_. fs) p opts = (r, fs')"
  shows "case r of Inl e \<Rightarrow> survives lib (store_paths_new p) rs fs' | Inr st \<Rightarrow> agrees lib (store_paths_new p) rs fs' st"
proof (cases "index_flush_every opts = 0 \<or> dir_fault fl \<noteq> None \<or> fs (lock_path (store_paths_new p)) \<noteq> None")
  case True
  then have "\<exists>e. (r, fs') = (Inl e, fs)"
    unfolding op [symmetric] by (auto simp: open_with_options_def Let_def lock_retry split: option.splits)
  with s show ?thesis by auto
next
  case False
  have lib: "lib_ok ok lib" and ps: "distinct_paths (store_paths_new p)" using su by (simp_all add: disk_setup_def)
  obtain acts where o: "open_at_io lib fl pid opts (store_paths_new p) 0 fs = (r, acts)" "fs' = run_actions acts fs"
    using op False by (auto simp: open_with_options_def Let_def lock_attempt.simps acquire_lock_def split: prod.splits)
  note oi = open_at_io_ok [OF lib ps s o(1)]
  show ?thesis using crash_all_run [OF oi(1)] oi(2) unfolding o(2) by (cases r) auto
qed

lemma spill_all_io:
  assumes su: "disk_setup ok lib ps U"
  shows "agrees lib ps (map (codec_encode lib) ss) fs st \<Longrightarrow> distinct ss \<Longrightarrow> set ss \<subseteq> U \<Longrightarrow> set ts \<subseteq> U \<Longrightarrow>
    spill_all lib hf i ts fs st = (r, fs') \<Longrightarrow>
    \<exists>ss'. distinct ss' \<and> set ss' \<subseteq> U \<and>
      (case r of Inl e \<Rightarrow> survives lib ps (map (codec_encode lib) ss') fs'
       | Inr st' \<Rightarrow> agrees lib ps (map (codec_encode lib) ss') fs' st' \<and> set ss' = set ss \<union> set ts)"
proof (induction ts arbitrary: ss fs st i)
  case Nil
  then show ?case by (intro exI [of _ ss]) auto
next
  case (Cons t ts)
  let ?ss' = "if t \<in> set ss then ss else ss @ [t]"
  have t: "t \<in> U" "set ts \<subseteq> U" and ss': "distinct ?ss'" "set ?ss' \<subseteq> U" using Cons.prems(2-4) by auto
  obtain r1 acts st1 where d: "disk_insert lib (spill_copy hf i) t fs st = (r1, acts, st1)" by (metis prod_cases3)
  note i = disk_insert_settled [OF su Cons.prems(1-3) t(1) d]
  show ?case
  proof (cases r1)
    case (Inl e)
    let ?acts = "acts @ disk_drop_io lib (spill_drop hf) (spill_unlocks hf) st1"
    have r: "r = Inl e" "fs' = run_actions ?acts fs" using Cons.prems(5) by (simp_all add: d Inl)
    have "survives lib ps (map (codec_encode lib) ss) fs' \<or> survives lib ps (map (codec_encode lib) ?ss') fs'"
      using i(2) [of "spill_drop hf" "spill_unlocks hf" "length ?acts" 0] unfolding crash_state_all r(2) .
    then show ?thesis
    proof
      assume "survives lib ps (map (codec_encode lib) ss) fs'"
      then show ?thesis using Cons.prems(2,3) r(1) by (intro exI [of _ ss]) simp
    next
      assume "survives lib ps (map (codec_encode lib) ?ss') fs'"
      then show ?thesis using ss' r(1) by (intro exI [of _ ?ss']) simp
    qed
  next
    case (Inr b)
    have "agrees lib ps (map (codec_encode lib) ?ss') (run_actions acts fs) st1" using i(1) [OF Inr] by blast
    moreover have "spill_all lib hf (i + 1) ts (run_actions acts fs) st1 = (r, fs')" using Cons.prems(5) by (simp add: d Inr)
    ultimately obtain ss'' where s: "distinct ss''" "set ss'' \<subseteq> U"
      "case r of Inl e \<Rightarrow> survives lib ps (map (codec_encode lib) ss'') fs'
       | Inr st' \<Rightarrow> agrees lib ps (map (codec_encode lib) ss'') fs' st' \<and> set ss'' = set ?ss' \<union> set ts"
      using Cons.IH [of ?ss' "run_actions acts fs" st1 "i + 1"] ss' t(2) by blast
    moreover have "set ?ss' \<union> set ts = set ss \<union> set (t # ts)" by auto
    ultimately show ?thesis by (intro exI [of _ ss'']) (cases r, simp_all)
  qed
qed

text \<open>Starting the spill of a memory.\<close>

lemma activate_io:
  assumes su: "disk_setup ok lib (store_paths_new (hy_path hs)) U" and mem: "hy_memory hs \<subseteq> U"
    and order: "\<forall>S. finite S \<longrightarrow> set (order S) = S"
    and sv: "survives lib (store_paths_new (hy_path hs)) (map (codec_encode lib) ss) fs" "distinct ss" "set ss \<subseteq> U"
    and st: "hy_spill hs = None" and big: "spill_threshold (hy_options hs) < card (hy_memory hs)"
    and act: "activate_spill_if_needed lib order hf pid fs hs = (r, fs', hs')"
  shows "case r of
      Inl e \<Rightarrow> hs' = hs \<and> (\<exists>ss'. survives lib (store_paths_new (hy_path hs)) (map (codec_encode lib) ss') fs' \<and>
        distinct ss' \<and> set ss' \<subseteq> U)
    | Inr _ \<Rightarrow> \<exists>st'. hs' = hs\<lparr>hy_spill := Some st'\<rparr> \<and> codec_encode lib ` hy_memory hs \<subseteq> dk_index st' \<and>
        dk_index st' \<subseteq> codec_encode lib ` U"
proof -
  let ?ps = "store_paths_new (hy_path hs)"
  obtain r1 fs1 where o: "open_with_options lib (spill_open hf) pid (\<lambda>_. fs) (hy_path hs) (disk_options (hy_options hs)) = (r1, fs1)"
    by fastforce
  note oi = open_options_io [OF su sv(1) o]
  show ?thesis
  proof (cases r1)
    case (Inl e)
    with act o st big have "r = Inl e" "fs' = fs1" "hs' = hs" by (simp_all add: activate_spill_if_needed_def)
    with oi Inl sv show ?thesis by auto
  next
    case (Inr st1)
    obtain r2 fs2 where sp: "spill_all lib hf 0 (order (hy_memory hs)) fs1 st1 = (r2, fs2)" by fastforce
    have ord: "set (order (hy_memory hs)) = hy_memory hs"
      using order mem su finite_subset unfolding disk_setup_def by blast
    have "agrees lib ?ps (map (codec_encode lib) ss) fs1 st1" using oi Inr by simp
    moreover have "set (order (hy_memory hs)) \<subseteq> U" using ord mem by simp
    ultimately obtain ss' where ss': "distinct ss'" "set ss' \<subseteq> U"
      "case r2 of Inl e \<Rightarrow> survives lib ?ps (map (codec_encode lib) ss') fs2
       | Inr st' \<Rightarrow> agrees lib ?ps (map (codec_encode lib) ss') fs2 st' \<and> set ss' = set ss \<union> hy_memory hs"
      using spill_all_io [OF su _ sv(2,3) _ sp] unfolding ord by blast
    show ?thesis
    proof (cases r2)
      case e: (Inl e)
      with act o Inr sp st big have "r = Inl e" "fs' = fs2" "hs' = hs" by (simp_all add: activate_spill_if_needed_def)
      with ss' e show ?thesis by auto
    next
      case st': (Inr st')
      with act o Inr sp st big have "r = Inr ()" "fs' = fs2" "hs' = hs\<lparr>hy_spill := Some st'\<rparr>"
        by (simp_all add: activate_spill_if_needed_def)
      moreover have "dk_index st' = codec_encode lib ` (set ss \<union> hy_memory hs)"
        using ss'(3) st' by (simp add: agrees_def image_Un image_comp)
      moreover have "set ss \<union> hy_memory hs \<subseteq> U" using sv(3) mem by simp
      ultimately show ?thesis by (auto intro!: exI [of _ st'] imageI)
    qed
  qed
qed

text \<open>An insertion keeps the invariant, and what it returns tells what it has done.\<close>

definition insert_outcome ::
  "'s disk_lib \<Rightarrow> hybrid_faults \<Rightarrow> 's \<Rightarrow> fs \<times> 's hybrid_store \<Rightarrow> io_error + bool \<Rightarrow> fs \<times> 's hybrid_store \<Rightarrow> bool"
where
  "insert_outcome lib hf s w r w' \<longleftrightarrow>
     (case r of
        Inr b \<Rightarrow> b = (s \<notin> hy_memory (snd w)) \<and> hy_memory (snd w') = insert s (hy_memory (snd w))
      | Inl e \<Rightarrow> s \<notin> hy_memory (snd w) \<and> hy_memory (snd w') = hy_memory (snd w) \<and>
          (case hy_spill (snd w) of
             None \<Rightarrow> hy_spill (snd w') = None
           | Some st \<Rightarrow> \<exists>st'. hy_spill (snd w') = Some st' \<and>
               dk_index st' =
                (if append_fault (spill_insert hf) = NoFault then insert (codec_encode lib s) (dk_index st) else dk_index st)))"

lemma disk_insert_error:
  "disk_insert lib fl s fs st = (Inl e, acts, st') \<Longrightarrow>
    dk_index st' = (if append_fault fl = NoFault then insert (codec_encode lib s) (dk_index st) else dk_index st)"
  by (auto simp: disk_insert_def flush_index_snapshot_def Let_def split: if_splits io_fault.splits prod.splits sum.splits)

lemma hybrid_insert_io:
  assumes inv: "hybrid_inv ok lib order U w" and s: "s \<in> U" and ins: "hybrid_insert lib order hf pid s w = (r, w')"
  shows "hybrid_inv ok lib order U w' \<and> insert_outcome lib hf s w r w'"
proof -
  obtain fs hs where w: "w = (fs, hs)" by fastforce
  let ?mem = "insert s (hy_memory hs)"
  let ?hs = "hs\<lparr>hy_memory := ?mem\<rparr>"
  have fin: "finite (hy_memory hs)" using inv by (auto simp: w hybrid_inv_def Let_def disk_setup_def intro: finite_subset)
  show ?thesis
  proof (cases "s \<in> hy_memory hs")
    case True
    then show ?thesis using inv ins w hybrid_insert_old [OF True] by (auto simp: insert_absorb insert_outcome_def)
  next
    case new: False
    then have undo_s: "?mem - {s} = hy_memory hs" by auto
    show ?thesis
    proof (cases "hy_spill hs")
      case (Some st)
      note i = inv [unfolded w hybrid_inv_Some [OF Some]]
      obtain r1 acts st' where d: "disk_insert lib (spill_insert hf) s fs st = (r1, acts, st')" by (metis prod_cases3)
      note ix = disk_insert_index [OF d]
      show ?thesis
      proof (cases r1)
        case (Inl e)
        then have "r = Inl e" "w' = (run_actions acts fs, hs\<lparr>hy_spill := Some st'\<rparr>)"
          using ins new Some d fin i undo_s by (simp_all add: w hybrid_insert_def activate_spill_if_needed_def Let_def)
        with i ix(1) new s Some disk_insert_error [OF d [unfolded Inl]] show ?thesis
          by (auto simp: hybrid_inv_def Let_def insert_outcome_def w)
      next
        case (Inr b)
        then have "r = Inr True" "w' = (run_actions acts fs, ?hs\<lparr>hy_spill := Some st'\<rparr>)"
          using ins new Some d fin i by (simp_all add: w hybrid_insert_def activate_spill_if_needed_def Let_def)
        with i ix(2) [OF Inr] new s fin show ?thesis by (auto simp: hybrid_inv_def Let_def insert_outcome_def w)
      qed
    next
      case None
      note i = inv [unfolded w hybrid_inv_None [OF None]]
      show ?thesis
      proof (cases "card ?mem \<le> spill_threshold (hy_options hs)")
        case True
        have "r = Inr True" "w' = (fs, ?hs)"
          using ins new None True by (simp_all add: w hybrid_insert_def activate_spill_if_needed_def Let_def)
        with i s True new None show ?thesis by (auto simp: hybrid_inv_def Let_def insert_outcome_def w)
      next
        case False
        obtain ra fs1 hs1 where a: "activate_spill_if_needed lib order hf pid fs ?hs = (ra, fs1, hs1)" by (metis prod_cases3)
        from i obtain ss where ss: "survives lib (store_paths_new (hy_path hs)) (map (codec_encode lib) ss) fs"
          "distinct ss" "set ss \<subseteq> U" by blast
        note act = activate_io [of ok lib ?hs U order ss fs hf pid ra fs1 hs1, simplified, OF _ _ _ ss None _ a]
        show ?thesis
        proof (cases ra)
          case (Inl e)
          with act i s False have h: "hs1 = ?hs" "\<exists>ss'. survives lib (store_paths_new (hy_path hs)) (map (codec_encode lib) ss') fs1 \<and>
            distinct ss' \<and> set ss' \<subseteq> U" by auto
          have "r = Inl e" "w' = (fs1, hs)"
            using ins new None a Inl h(1) undo_s by (simp_all add: w hybrid_insert_def Let_def)
          with i h(2) new None show ?thesis by (auto simp: hybrid_inv_def Let_def insert_outcome_def w)
        next
          case (Inr u)
          with act i s False obtain st' where h: "hs1 = ?hs\<lparr>hy_spill := Some st'\<rparr>"
            "codec_encode lib ` ?mem \<subseteq> dk_index st'" "dk_index st' \<subseteq> codec_encode lib ` U" by auto
          have "r = Inr True" "w' = (fs1, hs1)" using ins new None a Inr by (simp_all add: w hybrid_insert_def Let_def)
          with i h s new False show ?thesis by (auto simp: hybrid_inv_def Let_def insert_outcome_def w)
        qed
      qed
    qed
  qed
qed

lemma hybrid_good_inv:
  assumes "hybrid_good ok lib order U w"
  shows "hybrid_inv ok lib order U w"
proof (cases "hy_spill (snd w)")
  case None
  with assms show ?thesis by (auto simp: hybrid_good_def hybrid_inv_def Let_def intro: exI [of _ "[]"])
next
  case (Some st)
  with assms good_index [OF assms Some] show ?thesis by (simp add: hybrid_good_def hybrid_inv_def Let_def image_mono)
qed

interpretation hybrid: state_store "hybrid_store_ops lib order faults pid" "\<lambda>w. hy_memory (snd w)"
  "hybrid_inv ok lib order U" "\<lambda>s. s \<in> U" for ok lib order faults U pid
proof unfold_locales
  fix w assume "hybrid_inv ok lib order U w"
  then have "finite (hy_memory (snd w))"
    by (auto simp: hybrid_inv_def disk_setup_def Let_def intro: finite_subset)
  then show "finite (hy_memory (snd w)) \<and> store_len (hybrid_store_ops lib order faults pid) w = card (hy_memory (snd w))"
    by (cases w) (simp add: hybrid_store_ops_def)
next
  fix w s b w'
  assume g: "hybrid_inv ok lib order U w" and s: "s \<in> U"
    and ins: "store_insert (hybrid_store_ops lib order faults pid) s w = (Inr b, w')"
  then show "hybrid_inv ok lib order U w' \<and> b = (s \<notin> hy_memory (snd w)) \<and> hy_memory (snd w') = insert s (hy_memory (snd w))"
    using hybrid_insert_io [OF g s, of "faults s w" pid "Inr b" w'] by (simp add: hybrid_store_ops_def insert_outcome_def)
next
  fix w s e w'
  assume g: "hybrid_inv ok lib order U w" and s: "s \<in> U"
    and ins: "store_insert (hybrid_store_ops lib order faults pid) s w = (Inl e, w')"
  then have "hybrid_inv ok lib order U w'" "hy_memory (snd w') = hy_memory (snd w)"
    using hybrid_insert_io [OF g s, of "faults s w" pid "Inl e" w'] by (simp_all add: hybrid_store_ops_def insert_outcome_def)
  then show "hybrid_inv ok lib order U w' \<and> hy_memory (snd w) \<subseteq> hy_memory (snd w') \<and>
      hy_memory (snd w') \<subseteq> insert s (hy_memory (snd w))" by auto
qed

text \<open>The options and the path never change.\<close>

lemma activate_options:
  "activate_spill_if_needed lib order hf pid fs hs = (r, fs', hs') \<Longrightarrow> hy_options hs' = hy_options hs"
  by (auto simp: activate_spill_if_needed_def split: if_splits prod.splits sum.splits)

lemma hybrid_insert_options:
  assumes "hybrid_insert lib order hf pid s (fs, hs) = (r, w')"
  shows "hy_options (snd w') = hy_options hs"
proof -
  obtain r1 fs1 hs1 where a: "activate_spill_if_needed lib order hf pid fs (hs\<lparr>hy_memory := insert s (hy_memory hs)\<rparr>) = (r1, fs1, hs1)"
    by (metis prod_cases3)
  show ?thesis using assms activate_options [OF a]
    by (auto simp: hybrid_insert_def Let_def a split: if_splits prod.splits sum.splits option.splits)
qed

section \<open>Properties\<close>

lemma inv_spilling:
  "hybrid_inv ok lib order U w \<Longrightarrow> is_spilling (snd w) \<longleftrightarrow> spill_threshold (hy_options (snd w)) < card (hy_memory (snd w))"
  by (auto simp: hybrid_inv_def is_spilling_def Let_def split: option.splits)

lemma inv_index:
  "hybrid_inv ok lib order U w \<Longrightarrow> hy_spill (snd w) = Some st \<Longrightarrow> codec_encode lib ` hy_memory (snd w) \<subseteq> dk_index st"
  by (simp add: hybrid_inv_def Let_def)

text \<open>C34: an insertion into a hybrid store reports whether the state is new and adds it, or, whatever call of the
  operating system fails, it returns an error for a new state and leaves the states as they were and spilled or not as
  before; but when the spilling store has appended the record and its index file could not be written, the index on the
  disk has the state that the memory lacks. The store spills exactly when it holds more states than the threshold, and then the disk index has all its states. As
  long as no call has failed, the index is exactly their encodings, and an insertion fails, without changing
  anything, only when the spill begins and the lock is held or the options are invalid.\<close>

theorem hybrid_insert_correct:
  assumes "hybrid_inv ok lib order U w" and "s \<in> U" and "hybrid_insert lib order hf pid s w = (r, w')"
  shows "hybrid_inv ok lib order U w' \<and>
    (case r of
       Inr b \<Rightarrow> b = (s \<notin> hy_memory (snd w)) \<and> hy_memory (snd w') = insert s (hy_memory (snd w))
     | Inl e \<Rightarrow> s \<notin> hy_memory (snd w) \<and> hy_memory (snd w') = hy_memory (snd w) \<and>
         (case hy_spill (snd w) of
            None \<Rightarrow> hy_spill (snd w') = None
          | Some st \<Rightarrow> \<exists>st'. hy_spill (snd w') = Some st' \<and>
              dk_index st' =
                (if append_fault (spill_insert hf) = NoFault then insert (codec_encode lib s) (dk_index st) else dk_index st))) \<and>
    (is_spilling (snd w') \<longleftrightarrow> spill_threshold (hy_options (snd w')) < card (hy_memory (snd w'))) \<and>
    (\<forall>st. hy_spill (snd w') = Some st \<longrightarrow> codec_encode lib ` hy_memory (snd w') \<subseteq> dk_index st) \<and>
    (hf = no_hybrid_faults \<and> hybrid_good ok lib order U w \<longrightarrow>
       hybrid_good ok lib order U w' \<and>
       (\<forall>st. hy_spill (snd w') = Some st \<longrightarrow> dk_index st = codec_encode lib ` hy_memory (snd w')) \<and>
       (\<forall>e. r = Inl e \<longrightarrow> w' = w \<and> spill_blocked w))"
proof -
  note io = hybrid_insert_io [OF assms]
  have inv: "hybrid_inv ok lib order U w'" using io by blast
  have "hybrid_good ok lib order U w' \<and>
       (\<forall>st. hy_spill (snd w') = Some st \<longrightarrow> dk_index st = codec_encode lib ` hy_memory (snd w')) \<and>
       (\<forall>e. r = Inl e \<longrightarrow> w' = w \<and> spill_blocked w)"
    if "hf = no_hybrid_faults \<and> hybrid_good ok lib order U w"
  proof -
    have hf: "hf = no_hybrid_faults" and g: "hybrid_good ok lib order U w" using that by simp_all
    have c: "hybrid_good ok lib order U w'" "\<forall>e. r = Inl e \<longrightarrow> w' = w \<and> spill_blocked w"
      using hybrid_insert_cases [OF g assms(2) assms(3) [unfolded hf]] g by auto
    show ?thesis using good_index [OF c(1)] c by simp
  qed
  then show ?thesis
    using io inv_spilling [OF inv] inv_index [OF inv] unfolding insert_outcome_def by simp
qed

definition demo_hybrid :: "fs \<times> cspm_state hybrid_store" where
  "demo_hybrid = ((\<lambda>_. None), \<lparr>hy_memory = {SExpr 0 []}, hy_path = ''run/states.log'',
     hy_options = \<lparr>spill_threshold = 1, disk_options = default_options\<rparr>, hy_spill = None\<rparr>)"

lemma demo_hybrid_good: "hybrid_good state_ok demo_lib sorted_list_of_set {SExpr 0 [], SExpr 1 []} demo_hybrid"
proof -
  have "disk_setup state_ok demo_lib demo_paths {SExpr 0 [], SExpr 1 []}"
    using demo_lib_ok demo_paths_distinct
    by (simp add: disk_setup_def log_size_def demo_lib_def encode_len_def u32_be_def be_bytes_def)
  moreover have "survives demo_lib demo_paths [] (\<lambda>_. None)"
    by (simp add: survives_def durable_def file_of_def snapshot_def)
  ultimately show ?thesis by (simp add: demo_hybrid_def hybrid_good_None demo_paths_def)
qed

theorem hybrid_insert_correct_witness:
  "\<exists>w' st. hybrid_insert demo_lib sorted_list_of_set no_hybrid_faults 1 (SExpr 1 []) demo_hybrid = (Inr True, w') \<and>
    hy_memory (snd w') = {SExpr 1 [], SExpr 0 []} \<and> hy_spill (snd w') = Some st \<and>
    dk_index st = encode ` {SExpr 1 [], SExpr 0 []}"
proof -
  obtain r w' where ins: "hybrid_insert demo_lib sorted_list_of_set no_hybrid_faults 1 (SExpr 1 []) demo_hybrid = (r, w')"
    by (metis surj_pair)
  have blocked: "\<not> spill_blocked demo_hybrid" by (simp add: spill_blocked_def demo_hybrid_def default_options_def)
  note correct = hybrid_insert_correct [OF hybrid_good_inv [OF demo_hybrid_good] _ ins]
  from correct blocked demo_hybrid_good obtain b where r: "r = Inr b" by (cases r) auto
  have mem: "b = True" "hy_memory (snd w') = {SExpr 1 [], SExpr 0 []}"
    using correct by (auto simp: r demo_hybrid_def)
  have "hy_options (snd w') = \<lparr>spill_threshold = 1, disk_options = default_options\<rparr>"
    using hybrid_insert_options [OF ins [unfolded demo_hybrid_def]] by simp
  then have "is_spilling (snd w')" using correct mem(2) by simp
  then obtain st where st: "hy_spill (snd w') = Some st" by (auto simp: is_spilling_def)
  then have "dk_index st = encode ` {SExpr 1 [], SExpr 0 []}"
    using correct demo_hybrid_good mem(2) by (simp add: demo_lib_def)
  with ins r mem st show ?thesis by blast
qed

end
