(* ===== verification/Cspx_Simple.thy ===== *)
theory Cspx_Simple
  imports Cspx_Explore
begin

text \<open>
  The transition system of \<^verbatim>\<open>lts_simple.rs\<close>, with the single state \<^verbatim>\<open>STOP\<close>. The command \<^verbatim>\<open>typecheck\<close> explores
  it to fill its statistics.
\<close>

datatype simple_state = SimpleStop

text \<open>The derived order.\<close>

instantiation simple_state :: linorder
begin

definition less_eq_simple_state :: "simple_state \<Rightarrow> simple_state \<Rightarrow> bool" where
  "less_eq_simple_state a b = True"

definition less_simple_state :: "simple_state \<Rightarrow> simple_state \<Rightarrow> bool" where
  "less_simple_state a b = False"

instance
proof
  fix a b :: simple_state
  show "a \<le> b \<Longrightarrow> b \<le> a \<Longrightarrow> a = b" by (cases a; cases b) simp
qed (auto simp: less_eq_simple_state_def less_simple_state_def)

end

fun simple_encode :: "simple_state \<Rightarrow> u8 list" where
  "simple_encode SimpleStop = map byte_of_char ''STOP''"

definition simple_decode :: "u8 list \<Rightarrow> codec_error + simple_state" where
  "simple_decode bytes =
     (if bytes = map byte_of_char ''STOP'' then Inr SimpleStop
      else Inl (CodecError ''unknown SimpleState encoding''))"

record lts_error_simple =
  sl_message :: string
  sl_span :: "source_span option"

definition display_simple_error :: "lts_error_simple \<Rightarrow> string" where
  "display_simple_error e = display_error (sl_span e) (sl_message e)"

definition simple_state_from_expr :: "process_expr spanned \<Rightarrow> lts_error_simple + simple_state" where
  "simple_state_from_expr e =
     (case node e of
        Stop \<Rightarrow> Inr SimpleStop
      | _ \<Rightarrow> Inl \<lparr>sl_message = ''process expression is not supported by SimpleTransitionProvider yet'',
                  sl_span = Some (span e)\<rparr>)"

definition simple_provider :: "simple_state \<Rightarrow> simple_state transition_provider" where
  "simple_provider s = \<lparr>initial_state = s, transitions = (\<lambda>_. Some [])\<rparr>"

definition simple_from_module :: "cmodule \<Rightarrow> lts_error_simple + simple_state transition_provider" where
  "simple_from_module m =
     (case entry m of
        Some e \<Rightarrow> map_sum (\<lambda>x. x) simple_provider (simple_state_from_expr e)
      | None \<Rightarrow>
          if length (declarations m) = 1
          then map_sum (\<lambda>x. x) simple_provider (simple_state_from_expr (decl_expr (declarations m ! 0)))
          else Inl \<lparr>sl_message = ''entry process not specified'', sl_span = None\<rparr>)"

interpretation simple_codec: state_codec simple_encode simple_decode "\<lambda>_. True"
  by unfold_locales (metis (full_types) simple_decode_def simple_encode.simps simple_state.exhaust)

lemma simple_reached: "reached (simple_provider s) = {s}"
proof -
  have "reachable (transitions (simple_provider s)) s \<subseteq> {s}"
    by (rule reachable_closed) (auto simp: simple_provider_def succs_def)
  then show ?thesis by (auto simp: reached_def simple_provider_def)
qed

lemma simple_explorable: "explorable (simple_provider s)"
  by (rule explorableI [of "{s}"]) (simp_all add: simple_provider_def)

lemma simple_stats: "exact_stats (simple_provider s) = stats_of 1 0"
  by (simp add: exact_stats_def simple_reached) (simp add: simple_provider_def out_degree_def)

end
