(* ===== verification/Cspx_Trace.thy ===== *)
theory Cspx_Trace
  imports Cspx_Reach Cspx_Compile
begin

text \<open>
  Counterexample traces. The checkers remember for each state they discover the state and the label it was
  discovered from, and rebuild a trace by following these links back to the initial state
  (\<^verbatim>\<open>trace_events\<close>, \<^verbatim>\<open>trace_visible_events\<close>, \<^verbatim>\<open>reconstruct_trace\<close>: the same
  loop in the four checkers). The invariant \<open>pred_tree\<close> says that the links form a tree of
  real transitions, so that the loop ends and yields a path of the system.
\<close>

section \<open>Following the links\<close>

text \<open>The labels in the order the loop pushes them, from the state back to the root.\<close>

partial_function (option) back_labels ::
  "('k \<Rightarrow> ('k \<times> string) option) \<Rightarrow> 'k \<Rightarrow> string list option" where
  "back_labels pred current =
     (case pred current of
        None \<Rightarrow> Some []
      | Some pl \<Rightarrow>
          do { labels \<leftarrow> back_labels pred (fst pl); Some (snd pl # labels) })"

declare back_labels.simps [code]

definition visible :: "string list \<Rightarrow> string list" where
  "visible labels = filter (\<lambda>l. l \<noteq> tau) labels"

definition events_of :: "string list \<Rightarrow> counterexample_event list" where
  "events_of labels = map (\<lambda>l. \<lparr>ev_label = l\<rparr>) labels"

text \<open>\<^verbatim>\<open>trace_events\<close> of the deadlock checker and \<^verbatim>\<open>trace_visible_events\<close> of the divergence checker:
  the links are kept in the map of visited states, which has no link for the initial state.\<close>

type_synonym 's visited = "'s \<rightharpoonup> ('s \<times> string) option"

definition visited_pred :: "'s visited \<Rightarrow> 's \<Rightarrow> ('s \<times> string) option" where
  "visited_pred visited s = (case visited s of Some (Some pl) \<Rightarrow> Some pl | _ \<Rightarrow> None)"

definition trace_events :: "'s visited \<Rightarrow> 's \<Rightarrow> counterexample_event list option" where
  "trace_events visited current =
     map_option (\<lambda>labels. events_of (visible (rev labels)))
       (back_labels (visited_pred visited) current)"

section \<open>The links form a tree\<close>

inductive tree_path :: "('k \<Rightarrow> ('k \<times> string) option) \<Rightarrow> 'k \<Rightarrow> 'k \<Rightarrow> string list \<Rightarrow> bool"
  for pred root where
  Root: "pred root = None \<Longrightarrow> tree_path pred root root []"
| Node: "pred s = Some (p, l) \<Longrightarrow> tree_path pred root p ls \<Longrightarrow> tree_path pred root s (ls @ [l])"

lemma back_labels_tree: "tree_path pred root s ls \<Longrightarrow> back_labels pred s = Some (rev ls)"
  by (induction rule: tree_path.induct; subst back_labels.simps) simp_all

definition pred_tree ::
  "('k \<Rightarrow> string \<Rightarrow> 'k \<Rightarrow> bool) \<Rightarrow> 'k \<Rightarrow> 'k set \<Rightarrow> ('k \<Rightarrow> ('k \<times> string) option) \<Rightarrow> bool" where
  "pred_tree step root V pred \<longleftrightarrow>
     pred root = None \<and> root \<in> V \<and>
     (\<forall>s p l. pred s = Some (p, l) \<longrightarrow> s \<in> V \<and> p \<in> V \<and> step p l s) \<and>
     (\<forall>s \<in> V. \<exists>ls. tree_path pred root s ls)"

lemma pred_tree_init: "pred_tree step root {root} (\<lambda>_. None)"
  by (auto simp: pred_tree_def intro: tree_path.Root)

lemma tree_path_update:
  assumes "tree_path pred root s ls" and "\<forall>s p l. pred s = Some (p, l) \<longrightarrow> s \<in> V \<and> p \<in> V"
    and "root \<in> V" and "n \<notin> V"
  shows "s \<in> V \<Longrightarrow> tree_path (pred(n := x)) root s ls"
  using assms
proof (induction rule: tree_path.induct)
  case Root
  then show ?case by (intro tree_path.Root) auto
next
  case (Node s p l ls)
  then show ?case by (intro tree_path.Node [of _ _ p]) auto
qed

lemma pred_tree_insert:
  assumes tree: "pred_tree step root V pred" and "p \<in> V" and n: "n \<notin> V" and "step p l n"
  shows "pred_tree step root (insert n V) (pred(n := Some (p, l)))"
proof -
  have old: "\<exists>ls. tree_path (pred(n := Some (p, l))) root s ls" if "s \<in> V" for s
    using tree that n tree_path_update [of pred root s _ V n] by (fastforce simp: pred_tree_def)
  from old [OF \<open>p \<in> V\<close>] obtain ls where "tree_path (pred(n := Some (p, l))) root p ls" by blast
  then have "tree_path (pred(n := Some (p, l))) root n (ls @ [l])"
    by (intro tree_path.Node [of _ _ p]) auto
  with assms old show ?thesis by (auto simp: pred_tree_def)
qed

text \<open>What the loop returns for a node of the tree: the labels of a walk along real steps.\<close>

inductive walk :: "('k \<Rightarrow> string \<Rightarrow> 'k \<Rightarrow> bool) \<Rightarrow> 'k \<Rightarrow> string list \<Rightarrow> 'k \<Rightarrow> bool" for step where
  Nil: "walk step s [] s"
| Snoc: "walk step s ls t \<Longrightarrow> step t l u \<Longrightarrow> walk step s (ls @ [l]) u"

lemma pred_tree_walk:
  assumes "pred_tree step root V pred" and "s \<in> V"
  shows "\<exists>ls. back_labels pred s = Some (rev ls) \<and> walk step root ls s"
proof -
  from assms obtain ls where p: "tree_path pred root s ls" by (auto simp: pred_tree_def)
  from p assms(1) have "walk step root ls s"
    by (induction rule: tree_path.induct) (auto simp: pred_tree_def intro: walk.intros)
  with back_labels_tree [OF p] show ?thesis by blast
qed

definition tr_step :: "'s trans_fun \<Rightarrow> 's \<Rightarrow> string \<Rightarrow> 's \<Rightarrow> bool" where
  "tr_step tr s l t \<longleftrightarrow> (\<exists>out. tr s = Some out \<and> (l, t) \<in> set out)"

lemma walk_lpath: "walk (tr_step tr) s ls t \<Longrightarrow> lpath tr s ls t"
  by (induction rule: walk.induct) (auto simp: tr_step_def intro: lpath.Nil lpath_snoc)

section \<open>Discovering states\<close>

text \<open>The loop over the transitions of a state in the deadlock and divergence checkers: states not yet
  visited get a link and go to the queue.\<close>

fun discover ::
  "'s \<Rightarrow> (string \<times> 's) list \<Rightarrow> 's visited \<Rightarrow> 's list \<Rightarrow> u64 \<Rightarrow> 's visited \<times> 's list \<times> u64" where
  "discover s [] visited queue states = (visited, queue, states)"
| "discover s ((l, t) # nexts) visited queue states =
     (if visited t \<noteq> None then discover s nexts visited queue states
      else discover s nexts (visited(t \<mapsto> Some (s, l))) (queue @ [t]) (states + 1))"

lemma visited_pred_update: "visited_pred (visited(t \<mapsto> Some x)) = (visited_pred visited)(t := Some x)"
  by (auto simp: visited_pred_def)

lemma discover_correct:
  "discover s nexts visited queue states = (visited', queue', states') \<Longrightarrow>
   pred_tree (tr_step tr) root (dom visited) (visited_pred visited) \<Longrightarrow> s \<in> dom visited \<Longrightarrow>
   (\<forall>(l, t) \<in> set nexts. tr_step tr s l t) \<Longrightarrow>
     pred_tree (tr_step tr) root (dom visited') (visited_pred visited') \<and>
     dom visited' = dom visited \<union> set (fresh (dom visited) (map snd nexts)) \<and>
     queue' = queue @ fresh (dom visited) (map snd nexts) \<and>
     states' = states + of_nat (length (fresh (dom visited) (map snd nexts)))"
proof (induction s nexts visited queue states rule: discover.induct)
  case (2 s l t nexts visited queue states)
  show ?case
  proof (cases "visited t")
    case None
    let ?v = "visited(t \<mapsto> Some (s, l))"
    have dom: "dom ?v = insert t (dom visited)" by simp
    have "pred_tree (tr_step tr) root (dom ?v) (visited_pred ?v)"
      unfolding dom visited_pred_update using 2(4-6) None by (intro pred_tree_insert) auto
    moreover have "discover s nexts ?v (queue @ [t]) (states + 1) = (visited', queue', states')"
      using 2(3) None by (simp del: fun_upd_apply)
    moreover have "\<not> visited t \<noteq> None" using None by simp
    moreover have "s \<in> dom ?v" "\<forall>(l, t) \<in> set nexts. tr_step tr s l t" using 2(5,6) by auto
    ultimately have IH: "pred_tree (tr_step tr) root (dom visited') (visited_pred visited') \<and>
        dom visited' = dom ?v \<union> set (fresh (dom ?v) (map snd nexts)) \<and>
        queue' = (queue @ [t]) @ fresh (dom ?v) (map snd nexts) \<and>
        states' = states + 1 + of_nat (length (fresh (dom ?v) (map snd nexts)))"
      using 2(2) by blast
    have "t \<notin> dom visited" using None by auto
    with IH [THEN conjunct2] show ?thesis
      unfolding dom by (intro conjI IH [THEN conjunct1]) simp_all
  next
    case (Some x)
    then have "t \<in> dom visited" by auto
    have IH: "pred_tree (tr_step tr) root (dom visited') (visited_pred visited') \<and>
        dom visited' = dom visited \<union> set (fresh (dom visited) (map snd nexts)) \<and>
        queue' = queue @ fresh (dom visited) (map snd nexts) \<and>
        states' = states + of_nat (length (fresh (dom visited) (map snd nexts)))"
      using 2(3-6) Some by (intro 2(1)) auto
    from IH [THEN conjunct2] \<open>t \<in> dom visited\<close> show ?thesis
      by (intro conjI IH [THEN conjunct1]) simp_all
  qed
qed auto

text \<open>The trace of a visited state is the visible part of a path that leads to it.\<close>

lemma trace_events_correct:
  assumes "pred_tree (tr_step tr) root (dom visited) (visited_pred visited)" and "s \<in> dom visited"
  shows "\<exists>ls. trace_events visited s = Some (events_of (visible ls)) \<and> lpath tr root ls s"
proof -
  from pred_tree_walk [OF assms] obtain ls where
    "back_labels (visited_pred visited) s = Some (rev ls)" "walk (tr_step tr) root ls s" by blast
  then show ?thesis by (auto simp: trace_events_def dest: walk_lpath)
qed

section \<open>Results of a checker\<close>

text \<open>The \<^verbatim>\<open>CheckResult\<close> values of the property checkers.\<close>

definition check_pass :: "check_request \<Rightarrow> stats \<Rightarrow> check_result" where
  "check_pass request st =
     \<lparr>cr_name = ''check'', cr_model = None, cr_target = rq_target request, cr_status = Pass,
      cr_reason = None, cr_counterexample = None, cr_stats = Some st\<rparr>"

definition check_fail :: "check_request \<Rightarrow> counterexample \<Rightarrow> stats \<Rightarrow> check_result" where
  "check_fail request c st =
     \<lparr>cr_name = ''check'', cr_model = None, cr_target = rq_target request, cr_status = Fail,
      cr_reason = None, cr_counterexample = Some c, cr_stats = Some st\<rparr>"

definition check_error :: "check_request \<Rightarrow> string \<Rightarrow> check_result" where
  "check_error request message =
     \<lparr>cr_name = ''check'', cr_model = None, cr_target = rq_target request, cr_status = ErrorStatus,
      cr_reason = Some \<lparr>reason_kind = InvalidInputReason, reason_message = Some message\<rparr>,
      cr_counterexample = None, cr_stats = Some no_stats\<rparr>"

text \<open>The common body of the three checkers: select the module to check, compile it, run the check; an
  error of the compiler is reported with the hint of the property.\<close>

definition run_property_check ::
  "property_kind \<Rightarrow> string \<Rightarrow> (cspm_state transition_provider \<Rightarrow> cmodule \<Rightarrow> check_result option)
     \<Rightarrow> check_request \<Rightarrow> cmodule \<Rightarrow> check_result option" where
  "run_property_check kind md run request input =
     (let m = module_for_property_check input kind in
      case from_module m of
        None \<Rightarrow> None
      | Some (Inr cp) \<Rightarrow> run (provider_of cp) m
      | Some (Inl err) \<Rightarrow>
          Some (check_error request
            (format_invalid_input kind md (display_error (lts_span err) (lts_message err)) input)))"

end
