(* ===== verification/Cspx_Minimize.thy ===== *)
theory Cspx_Minimize
  imports Cspx_Reach Cspx_Types "HOL-Library.Sublist"
begin

text \<open>
  What is done to a counterexample before it is reported: the minimizer of
  \<^verbatim>\<open>minimize.rs\<close> and \<^verbatim>\<open>minimize_simple.rs\<close>, which drops events as long as an oracle confirms that the
  failure persists, and the explainer of \<^verbatim>\<open>explain_simple.rs\<close>, which completes the tags. The oracle runs the
  transition systems, so it may fail to return.
\<close>

section \<open>minimize\_simple.rs\<close>

type_synonym failure_oracle = "counterexample \<Rightarrow> bool option"

definition minimize :: "counterexample \<Rightarrow> counterexample" where
  "minimize c = c\<lparr>cx_is_minimized := False\<rparr>"

text \<open>\<^verbatim>\<open>candidate.events.remove(idx)\<close>.\<close>

definition remove_event :: "nat \<Rightarrow> counterexample \<Rightarrow> counterexample" where
  "remove_event idx c = c\<lparr>cx_events := take idx (cx_events c) @ drop (Suc idx) (cx_events c)\<rparr>"

text \<open>The inner loop: the first event that can be removed.\<close>

fun first_reduction :: "failure_oracle \<Rightarrow> counterexample \<Rightarrow> nat list \<Rightarrow> counterexample option option" where
  "first_reduction preserves_failure best [] = Some None"
| "first_reduction preserves_failure best (idx # idxs) =
     (case preserves_failure (remove_event idx best) of
        None \<Rightarrow> None
      | Some True \<Rightarrow> Some (Some (remove_event idx best))
      | Some False \<Rightarrow> first_reduction preserves_failure best idxs)"

lemma first_reduction_Some:
  "first_reduction preserves_failure best idxs = Some (Some c) \<Longrightarrow>
     \<exists>idx \<in> set idxs. c = remove_event idx best \<and> preserves_failure c = Some True"
  by (induction preserves_failure best idxs rule: first_reduction.induct)
    (auto split: option.splits bool.splits)

lemma first_reduction_None:
  "first_reduction preserves_failure best idxs = Some None \<Longrightarrow>
     \<forall>idx \<in> set idxs. preserves_failure (remove_event idx best) = Some False"
  by (induction preserves_failure best idxs rule: first_reduction.induct)
    (auto split: option.splits bool.splits)

lemma first_reduction_returns:
  "\<forall>c. preserves_failure c \<noteq> None \<Longrightarrow> first_reduction preserves_failure best idxs \<noteq> None"
  by (induction preserves_failure best idxs rule: first_reduction.induct)
    (auto split: option.splits bool.splits)

function minimize_loop :: "failure_oracle \<Rightarrow> counterexample \<Rightarrow> counterexample option" where
  "minimize_loop preserves_failure best =
     (case first_reduction preserves_failure best [0..<length (cx_events best)] of
        None \<Rightarrow> None
      | Some None \<Rightarrow> Some best
      | Some (Some candidate) \<Rightarrow> minimize_loop preserves_failure candidate)"
  by pat_completeness auto

termination minimize_loop
  by (relation "measure (\<lambda>(preserves_failure, best). length (cx_events best))")
    (auto simp: remove_event_def dest!: first_reduction_Some)

declare minimize_loop.simps [simp del]

definition minimize_with_oracle :: "counterexample \<Rightarrow> failure_oracle \<Rightarrow> counterexample option" where
  "minimize_with_oracle c preserves_failure =
     (if cx_kind c \<noteq> Trace then Some (c\<lparr>cx_is_minimized := False\<rparr>)
      else
        (case preserves_failure c of
           None \<Rightarrow> None
         | Some False \<Rightarrow> Some (c\<lparr>cx_is_minimized := False\<rparr>)
         | Some True \<Rightarrow>
             map_option (\<lambda>best. best\<lparr>cx_is_minimized := True\<rparr>) (minimize_loop preserves_failure c)))"

section \<open>explain\_simple.rs\<close>

definition failure_kinds :: "string list" where
  "failure_kinds = [''deadlock'', ''divergence'', ''nondeterminism'', ''refinement'']"

text \<open>\<^verbatim>\<open>tags.retain(|tag| dedup.insert(tag.clone()))\<close>: the first occurrence of each tag stays.\<close>

fun retain_first :: "string list \<Rightarrow> string list \<Rightarrow> string list" where
  "retain_first dedup [] = []"
| "retain_first dedup (t # ts) =
     (if t \<in> set dedup then retain_first dedup ts else t # retain_first (bts_insert t dedup) ts)"

definition add_kind :: "string \<Rightarrow> string list \<Rightarrow> string list" where
  "add_kind kind tags = (if kind \<in> set tags then tags @ [''kind:'' @ kind] else tags)"

definition explain_tags :: "string list \<Rightarrow> string list" where
  "explain_tags tags = retain_first [] (fold add_kind failure_kinds tags @ [''explained''])"

definition explain :: "counterexample \<Rightarrow> counterexample" where
  "explain c = c\<lparr>cx_tags := explain_tags (cx_tags c)\<rparr>"

section \<open>The minimizer\<close>

lemma subseq_remove_event: "subseq (cx_events (remove_event idx c)) (cx_events c)"
proof -
  have "subseq (drop (Suc idx) xs) (drop idx xs)" for xs :: "'a list"
    by (metis drop_Suc tl_drop subseq_order.refl list_emb_Nil2 list.exhaust_sel list_emb_Cons tl_Nil)
  then have "subseq (take idx xs @ drop (Suc idx) xs) (take idx xs @ drop idx xs)" for xs :: "'a list"
    by (simp only: subseq_append')
  from this [of "cx_events c"] show ?thesis by (simp add: remove_event_def)
qed

text \<open>The result of the loop: no single event can be removed any more.\<close>

definition reduces_to :: "failure_oracle \<Rightarrow> counterexample \<Rightarrow> counterexample \<Rightarrow> bool" where
  "reduces_to preserves_failure c r \<longleftrightarrow>
     subseq (cx_events r) (cx_events c) \<and> r = c\<lparr>cx_events := cx_events r\<rparr> \<and>
     (preserves_failure c = Some True \<longrightarrow> preserves_failure r = Some True) \<and>
     (\<forall>idx < length (cx_events r). preserves_failure (remove_event idx r) = Some False)"

lemma subseq_set: "subseq xs ys \<Longrightarrow> set xs \<subseteq> set ys"
  by (auto elim: list_emb_set)

lemma minimize_loop_reduces:
  "minimize_loop preserves_failure c = Some r \<Longrightarrow> reduces_to preserves_failure c r"
proof (induction preserves_failure c rule: minimize_loop.induct)
  case (1 preserves_failure best)
  note unf = minimize_loop.simps [of preserves_failure best]
  show ?case
  proof (cases "first_reduction preserves_failure best [0..<length (cx_events best)]")
    case None
    with 1(2) show ?thesis by (simp add: unf)
  next
    case (Some red)
    show ?thesis
    proof (cases red)
      case None
      with Some 1(2) first_reduction_None [of preserves_failure best] show ?thesis
        by (force simp: unf reduces_to_def)
    next
      case (Some candidate)
      with \<open>_ = Some red\<close> have red: "first_reduction preserves_failure best [0..<length (cx_events best)]
          = Some (Some candidate)" by simp
      with 1 have "reduces_to preserves_failure candidate r" by (auto simp: unf)
      moreover from first_reduction_Some [OF red] obtain idx where
        "candidate = remove_event idx best" "preserves_failure candidate = Some True" by blast
      ultimately show ?thesis
        using subseq_remove_event [of idx best] subseq_order.trans
        by (fastforce simp: reduces_to_def remove_event_def)
    qed
  qed
qed

lemma minimize_loop_returns:
  assumes "\<forall>c. preserves_failure c \<noteq> None"
  shows "minimize_loop preserves_failure c \<noteq> None"
  using assms
proof (induction preserves_failure c rule: minimize_loop.induct)
  case (1 preserves_failure best)
  then show ?case
    using first_reduction_returns [of preserves_failure best]
    by (subst minimize_loop.simps) (fastforce split: option.split)
qed

section \<open>The explainer\<close>

lemma set_retain_first: "set (retain_first d ts) = set ts - set d"
  by (induction d ts rule: retain_first.induct) auto

lemma distinct_retain_first: "distinct (retain_first d ts)"
  by (induction d ts rule: retain_first.induct) (auto simp: set_retain_first)

lemma retain_first_distinct: "distinct ts \<Longrightarrow> set ts \<inter> set d = {} \<Longrightarrow> retain_first d ts = ts"
  by (induction d ts rule: retain_first.induct) auto

lemma retain_first_old: "set ts \<subseteq> set d \<Longrightarrow> retain_first d ts = []"
  by (induction d ts rule: retain_first.induct) auto

lemma retain_first_set: "set d = set e \<Longrightarrow> retain_first d ts = retain_first e ts"
proof (induction d ts arbitrary: e rule: retain_first.induct)
  case (2 d t ts)
  then show ?case using "2.IH" [of "bts_insert t e"] by auto
qed simp

lemma retain_first_append:
  "retain_first d (xs @ ys) = retain_first d xs @ retain_first (bts_extend d xs) ys"
proof (induction d xs rule: retain_first.induct)
  case (1 d)
  then show ?case by (simp add: bts_extend_def)
next
  case (2 d t ts)
  show ?case
  proof (cases "t \<in> set d")
    case True
    then have "set (bts_extend d (t # ts)) = set (bts_extend d ts)" by auto
    from retain_first_set [OF this] 2(1) True show ?thesis by simp
  next
    case False
    have "set (bts_extend d (t # ts)) = set (bts_extend (bts_insert t d) ts)" by simp
    from retain_first_set [OF this] 2(2) False show ?thesis by simp
  qed
qed

lemma set_fold_add_kind:
  "\<forall>k \<in> set kinds. \<forall>j. k \<noteq> ''kind:'' @ j \<Longrightarrow>
     set (fold add_kind kinds tags) = set tags \<union> (\<lambda>k. ''kind:'' @ k) ` (set kinds \<inter> set tags)"
proof (induction kinds arbitrary: tags)
  case (Cons k kinds)
  have "set kinds \<inter> set (add_kind k tags) = set kinds \<inter> set tags"
    using Cons.prems by (auto simp: add_kind_def)
  moreover have "set (add_kind k tags) = set tags \<union> (\<lambda>k. ''kind:'' @ k) ` ({k} \<inter> set tags)"
    by (simp add: add_kind_def)
  moreover have "({k} \<inter> set tags) \<union> (set kinds \<inter> set tags) = set (k # kinds) \<inter> set tags" by auto
  ultimately show ?case using Cons by (simp only: fold_simps list.set_intros ball_simps image_Un
        flip: Un_assoc) (simp add: Un_assoc flip: image_Un)
qed simp

lemma failure_kinds_plain: "\<forall>k \<in> set failure_kinds. \<forall>j. k \<noteq> ''kind:'' @ j"
  by (simp add: failure_kinds_def)

lemma set_explain_tags:
  "set (explain_tags tags) =
     set tags \<union> (\<lambda>k. ''kind:'' @ k) ` (set failure_kinds \<inter> set tags) \<union> {''explained''}"
  by (simp add: explain_tags_def set_retain_first set_fold_add_kind [OF failure_kinds_plain])

lemma fold_add_kind: "\<exists>ys. fold add_kind kinds tags = tags @ ys"
proof (induction kinds arbitrary: tags)
  case (Cons k kinds)
  from Cons [of "add_kind k tags"] show ?case by (auto simp: add_kind_def split: if_splits)
qed simp

lemma explain_tags_idem: "explain_tags (explain_tags tags) = explain_tags tags"
proof -
  let ?ts = "explain_tags tags"
  obtain ys where ys: "fold add_kind failure_kinds ?ts = ?ts @ ys"
    using fold_add_kind by blast
  have "(\<lambda>k. ''kind:'' @ k) ` (set failure_kinds \<inter> set ?ts) \<subseteq> set ?ts"
  proof
    fix x assume "x \<in> (\<lambda>k. ''kind:'' @ k) ` (set failure_kinds \<inter> set ?ts)"
    then obtain k where k: "x = ''kind:'' @ k" "k \<in> set failure_kinds" "k \<in> set ?ts" by blast
    moreover have "k \<noteq> ''explained''" using k(2) by (auto simp: failure_kinds_def)
    ultimately have "k \<in> set tags" using failure_kinds_plain by (auto simp: set_explain_tags)
    with k(1,2) show "x \<in> set ?ts" unfolding set_explain_tags by blast
  qed
  moreover have "''explained'' \<in> set ?ts" by (simp add: set_explain_tags)
  ultimately have "set (fold add_kind failure_kinds ?ts) \<union> {''explained''} = set ?ts"
    unfolding set_fold_add_kind [OF failure_kinds_plain] by blast
  then have "set (ys @ [''explained'']) \<subseteq> set (bts_extend [] ?ts)" by (auto simp: ys)
  then have "retain_first (bts_extend [] ?ts) (ys @ [''explained'']) = []"
    by (rule retain_first_old)
  moreover have "explain_tags ?ts = retain_first [] ?ts @ retain_first (bts_extend [] ?ts) (ys @ [''explained''])"
    by (simp only: explain_tags_def [of ?ts] ys append_assoc retain_first_append)
  moreover have "retain_first [] ?ts = ?ts"
    by (rule retain_first_distinct) (simp_all add: explain_tags_def distinct_retain_first)
  ultimately show ?thesis by simp
qed

text \<open>What minimisation of an accepted counterexample returns.\<close>

lemma minimize_accepted:
  assumes "\<forall>c. preserves_failure c \<noteq> None" and "preserves_failure c = Some True"
  shows "\<exists>r. minimize_with_oracle c preserves_failure = Some (r\<lparr>cx_is_minimized := True\<rparr>) \<and>
    preserves_failure r = Some True \<and> subseq (cx_events r) (cx_events c) \<and>
    r = c\<lparr>cx_events := cx_events r\<rparr> \<and>
    (\<forall>idx < length (cx_events r). preserves_failure (remove_event idx r) = Some False)"
proof -
  from minimize_loop_returns [OF assms(1), of c] obtain r where
    r: "minimize_loop preserves_failure c = Some r" by auto
  have "cx_kind c = Trace" by (cases "cx_kind c") simp
  with r assms(2) have "minimize_with_oracle c preserves_failure = Some (r\<lparr>cx_is_minimized := True\<rparr>)"
    by (simp add: minimize_with_oracle_def)
  with minimize_loop_reduces [OF r] assms(2) show ?thesis by (auto simp: reduces_to_def)
qed

section \<open>Properties\<close>

text \<open>C12: the minimizer, run with an oracle that accepts the counterexample and always answers,
  returns a counterexample the oracle still accepts, obtained by dropping events only, from which no single
  event can be dropped; it is marked as minimized.\<close>

theorem minimize_one_minimal:
  assumes "\<forall>c. preserves_failure c \<noteq> None" and "preserves_failure c = Some True"
  shows "\<exists>r. minimize_with_oracle c preserves_failure = Some (r\<lparr>cx_is_minimized := True\<rparr>) \<and>
    preserves_failure r = Some True \<and> subseq (cx_events r) (cx_events c) \<and>
    r = c\<lparr>cx_events := cx_events r\<rparr> \<and>
    (\<forall>idx < length (cx_events r). preserves_failure (remove_event idx r) = Some False)"
  by (rule minimize_accepted [OF assms])

definition demo_counterexample :: counterexample where
  "demo_counterexample = \<lparr>cx_kind = Trace,
     cx_events = [\<lparr>ev_label = ''x''\<rparr>, \<lparr>ev_label = ''a''\<rparr>, \<lparr>ev_label = ''y''\<rparr>],
     cx_is_minimized = False, cx_tags = [''refinement'', ''model:T''], cx_source_spans = []\<rparr>"

theorem minimize_one_minimal_witness:
  "\<exists>r. minimize_with_oracle demo_counterexample (\<lambda>c. Some (\<lparr>ev_label = ''a''\<rparr> \<in> set (cx_events c)))
     = Some (r\<lparr>cx_is_minimized := True\<rparr>) \<and> \<lparr>ev_label = ''a''\<rparr> \<in> set (cx_events r)"
  using minimize_one_minimal [of "\<lambda>c. Some (\<lparr>ev_label = ''a''\<rparr> \<in> set (cx_events c))" demo_counterexample]
  by (auto simp: demo_counterexample_def)

text \<open>The explainer keeps every tag, adds a \<open>kind:\<close> tag for each failure kind among them and the tag
  \<open>explained\<close>, repeats none, and changes nothing when it runs again.\<close>

theorem explain_tags_correct:
  "distinct (cx_tags (explain c)) \<and>
   set (cx_tags (explain c)) = set (cx_tags c) \<union>
     (\<lambda>k. ''kind:'' @ k) ` (set failure_kinds \<inter> set (cx_tags c)) \<union> {''explained''} \<and>
   explain (explain c) = explain c"
  using explain_tags_idem [of "cx_tags c"] set_explain_tags [of "cx_tags c"]
  by (simp add: explain_def distinct_retain_first explain_tags_def [of "cx_tags c"])

end
