(* ===== verification/Cspx_Deadlock.thy ===== *)
theory Cspx_Deadlock
  imports Cspx_Trace Cspx_Minimize Cspx_Explore
begin

text \<open>
  The deadlock checker of \<^verbatim>\<open>check_deadlock.rs\<close>: a breadth-first search that stops at the first state
  without transitions. The main result: on finite systems it returns, it fails exactly when a deadlock is
  reachable, and the reported trace is the visible part of a path to a deadlocked state.
\<close>

section \<open>The checker\<close>

partial_function (option) deadlock_loop ::
  "'s transition_provider \<Rightarrow> 's visited \<Rightarrow> 's list \<Rightarrow> u64 \<Rightarrow> u64
     \<Rightarrow> ('s visited \<times> 's option \<times> u64 \<times> u64) option" where
  "deadlock_loop provider visited queue states transn =
     (case queue of
        [] \<Rightarrow> Some (visited, None, states, transn)
      | state # queue1 \<Rightarrow>
          (case transitions provider state of
             None \<Rightarrow> None
           | Some nexts \<Rightarrow>
               if nexts = [] then Some (visited, Some state, states, transn)
               else
                 (case discover state nexts visited queue1 states of
                    (visited', queue', states') \<Rightarrow>
                      deadlock_loop provider visited' queue' states' (transn + of_nat (length nexts)))))"

declare deadlock_loop.simps [code]

definition deadlock_counterexample ::
  "cmodule \<Rightarrow> counterexample_event list \<Rightarrow> counterexample" where
  "deadlock_counterexample m events =
     explain \<lparr>cx_kind = Trace, cx_events = events, cx_is_minimized = False,
              cx_tags = [''deadlock''], cx_source_spans = module_counterexample_spans m\<rparr>"

definition deadlock_free_check ::
  "'s transition_provider \<Rightarrow> check_request \<Rightarrow> cmodule \<Rightarrow> check_result option" where
  "deadlock_free_check provider request m =
     (let initial = initial_state provider in
      case deadlock_loop provider [initial \<mapsto> None] [initial] 1 0 of
        None \<Rightarrow> None
      | Some (visited, deadlock_state, states, transn) \<Rightarrow>
          (case deadlock_state of
             Some state \<Rightarrow>
               map_option (\<lambda>events.
                   check_fail request (deadlock_counterexample m events) (stats_of states transn))
                 (trace_events visited state)
           | None \<Rightarrow> Some (check_pass request (stats_of states transn))))"

definition deadlock_check :: "check_request \<Rightarrow> cmodule \<Rightarrow> check_result option" where
  "deadlock_check request input =
     run_property_check DeadlockFree ''F'' (\<lambda>provider m. deadlock_free_check provider request m)
       request input"

section \<open>The loop\<close>

definition deadlock_inv ::
  "'s trans_fun \<Rightarrow> 's \<Rightarrow> 's visited \<Rightarrow> 's list \<Rightarrow> u64 \<Rightarrow> u64 \<Rightarrow> bool" where
  "deadlock_inv tr s0 visited queue states transn \<longleftrightarrow>
     bfs_inv tr {s0} (dom visited) queue \<and>
     pred_tree (tr_step tr) s0 (dom visited) (visited_pred visited) \<and>
     (\<forall>s \<in> dom visited - set queue. tr s \<noteq> Some []) \<and>
     states = of_nat (card (dom visited)) \<and>
     transn = of_nat (\<Sum>s \<in> dom visited - set queue. out_degree tr s)"

lemma deadlock_inv_init: "deadlock_inv tr s0 [s0 \<mapsto> None] [s0] 1 0"
proof -
  have "visited_pred [s0 \<mapsto> None] = (\<lambda>_. None)" by (auto simp: visited_pred_def)
  then show ?thesis
    using bfs_init [of "[s0]" tr] pred_tree_init [of "tr_step tr" s0]
    by (simp add: deadlock_inv_def)
qed

text \<open>A round of a breadth-first search whose visited states carry links, shared with the divergence checker.\<close>

lemma discover_round:
  assumes bfs: "bfs_inv tr {s0} (dom visited) (s # queue)"
    and tree: "pred_tree (tr_step tr) s0 (dom visited) (visited_pred visited)"
    and out: "tr s = Some nexts" and fin: "finite_lts tr s0"
    and d: "discover s nexts visited queue (of_nat (card (dom visited))) = (visited', queue', states')"
  shows "bfs_inv tr {s0} (dom visited') queue'"
    and "pred_tree (tr_step tr) s0 (dom visited') (visited_pred visited')"
    and "dom visited' - set queue' = insert s (dom visited - set (s # queue))"
    and "states' = of_nat (card (dom visited'))"
    and "(\<Sum>t \<in> dom visited' - set queue'. out_degree tr t) =
         (\<Sum>t \<in> dom visited - set (s # queue). out_degree tr t) + length nexts"
    and "bfs_measure tr {s0} (dom visited') queue' < bfs_measure tr {s0} (dom visited) (s # queue)"
proof -
  let ?new = "fresh (dom visited) (map snd nexts)"
  have s: "s \<in> dom visited" using bfs by (auto simp: bfs_inv_def)
  have "\<forall>(l, t) \<in> set nexts. tr_step tr s l t" using out by (auto simp: tr_step_def)
  from discover_correct [OF d tree s this]
  have tree': "pred_tree (tr_step tr) s0 (dom visited') (visited_pred visited')"
    and dom': "dom visited' = dom visited \<union> set ?new" and queue': "queue' = queue @ ?new"
    and states': "states' = of_nat (card (dom visited)) + of_nat (length ?new)" by blast+
  have new: "distinct ?new" "set ?new = (\<Union>t \<in> set [s]. succs tr t) - dom visited"
    by (auto simp: distinct_fresh set_fresh succs_def out)
  have bfs1: "bfs_inv tr {s0} (dom visited) ([s] @ queue)" using bfs by simp
  have finV: "finite (dom visited)" by (rule bfs_finite [OF bfs fin])
  show "bfs_inv tr {s0} (dom visited') queue'"
    unfolding dom' queue' by (rule bfs_expand [OF bfs1 new])
  show "pred_tree (tr_step tr) s0 (dom visited') (visited_pred visited')" by (fact tree')
  show "dom visited' - set queue' = insert s (dom visited - set (s # queue))"
    unfolding dom' queue' using new(2) s bfs by (auto simp: bfs_inv_def)
  show "states' = of_nat (card (dom visited'))"
    unfolding dom' states' using bfs_card [OF finV new(1)] by (simp add: set_fresh Int_commute Diff_disjoint)
  show "(\<Sum>t \<in> dom visited' - set queue'. out_degree tr t) =
         (\<Sum>t \<in> dom visited - set (s # queue). out_degree tr t) + length nexts"
    unfolding dom' queue' using bfs_expand_sum [OF bfs1 _ finV, of ?new] new(2)
    by (auto simp: out_degree_def out)
  show "bfs_measure tr {s0} (dom visited') queue' < bfs_measure tr {s0} (dom visited) (s # queue)"
    unfolding dom' queue' using bfs_expand_measure [OF bfs1 new] fin by (simp add: finite_lts_def)
qed

lemma deadlock_loop_correct:
  assumes fin: "finite_lts (transitions provider) s0"
  shows "deadlock_inv (transitions provider) s0 visited queue states transn \<Longrightarrow>
    \<exists>visited' states' transn' queue'.
      deadlock_inv (transitions provider) s0 visited' queue' states' transn' \<and>
      (queue' \<noteq> [] \<longrightarrow> transitions provider (hd queue') = Some []) \<and>
      deadlock_loop provider visited queue states transn =
        Some (visited', if queue' = [] then None else Some (hd queue'), states', transn')"
proof (induction "bfs_measure (transitions provider) {s0} (dom visited) queue"
    arbitrary: visited queue states transn rule: less_induct)
  case less
  let ?tr = "transitions provider"
  note inv = less.prems
  show ?case
  proof (cases queue)
    case Nil
    with inv show ?thesis
      by (intro exI [of _ visited] exI [of _ states] exI [of _ transn] exI [of _ "[]"])
        (simp add: deadlock_loop.simps)
  next
    case (Cons s queue1)
    with inv have bfs: "bfs_inv ?tr {s0} (dom visited) (s # queue1)"
      and tree: "pred_tree (tr_step ?tr) s0 (dom visited) (visited_pred visited)"
      by (simp_all add: deadlock_inv_def)
    from bfs fin obtain nexts where out: "?tr s = Some nexts"
      by (fastforce simp: finite_lts_def bfs_inv_def)
    show ?thesis
    proof (cases "nexts = []")
      case True
      with inv Cons out show ?thesis
        by (intro exI [of _ visited] exI [of _ states] exI [of _ transn] exI [of _ queue])
          (simp add: deadlock_loop.simps)
    next
      case False
      obtain visited' queue' states' where
        d: "discover s nexts visited queue1 states = (visited', queue', states')"
        by (cases "discover s nexts visited queue1 states")
      have "discover s nexts visited queue1 (of_nat (card (dom visited))) = (visited', queue', states')"
        using d inv by (simp add: deadlock_inv_def)
      note round = discover_round [OF bfs tree out fin this]
      have "deadlock_inv ?tr s0 visited' queue' states' (transn + of_nat (length nexts))"
        using inv out False Cons round unfolding deadlock_inv_def by simp
      moreover have "deadlock_loop provider visited queue states transn =
          deadlock_loop provider visited' queue' states' (transn + of_nat (length nexts))"
        using Cons out False d by (subst deadlock_loop.simps) simp
      ultimately show ?thesis using less.hyps [of visited' queue'] round(6) Cons by simp
    qed
  qed
qed

lemma stuck_reachable_iff:
  assumes "deadlock_inv tr s0 visited [] states transn"
  shows "(\<forall>s \<in> reachable tr s0. tr s \<noteq> Some []) \<and> dom visited = reachable tr s0"
  using assms bfs_done [of tr "{s0}" "dom visited"] by (auto simp: deadlock_inv_def)

section \<open>Properties\<close>

lemma deadlock_verdict:
  assumes "explorable provider"
  shows "\<exists>r. deadlock_free_check provider request m = Some r \<and>
    (if \<exists>s \<in> reached provider. transitions provider s = Some []
     then cr_status r = Fail \<and>
       (\<exists>c ls s. cr_counterexample r = Some c \<and> lpath (transitions provider) (initial_state provider) ls s \<and>
          transitions provider s = Some [] \<and> cx_events c = events_of (visible ls))
     else cr_status r = Pass \<and> cr_counterexample r = None \<and>
       cr_stats r = Some (stats_of (of_nat (card (reached provider)))
         (of_nat (\<Sum>s \<in> reached provider. out_degree (transitions provider) s))))"
proof -
  let ?tr = "transitions provider" and ?s0 = "initial_state provider"
  have fin: "finite_lts ?tr ?s0" using assms by (simp add: explorable_def)
  from deadlock_loop_correct [OF fin deadlock_inv_init] obtain visited states transn queue where
    inv: "deadlock_inv ?tr ?s0 visited queue states transn" and
    stuck: "queue \<noteq> [] \<longrightarrow> ?tr (hd queue) = Some []" and
    run: "deadlock_loop provider [?s0 \<mapsto> None] [?s0] 1 0 =
        Some (visited, if queue = [] then None else Some (hd queue), states, transn)"
    by blast
  show ?thesis
  proof (cases "queue = []")
    case True
    with inv have "\<not> (\<exists>s \<in> reached provider. ?tr s = Some [])" "dom visited = reached provider"
      using stuck_reachable_iff [of ?tr ?s0 visited states transn] by (simp_all add: reached_def)
    with inv run True show ?thesis
      by (simp add: deadlock_free_check_def check_pass_def deadlock_inv_def)
  next
    case False
    then have "hd queue \<in> set queue" by simp
    with inv have s: "hd queue \<in> dom visited"
      and tree: "pred_tree (tr_step ?tr) ?s0 (dom visited) (visited_pred visited)"
      by (simp_all add: deadlock_inv_def bfs_inv_def subset_iff)
    with inv have "hd queue \<in> reached provider"
      by (auto simp: deadlock_inv_def bfs_inv_def reached_def)
    moreover from trace_events_correct [OF tree s] obtain ls where
      "trace_events visited (hd queue) = Some (events_of (visible ls))" "lpath ?tr ?s0 ls (hd queue)"
      by blast
    moreover define c where "c = deadlock_counterexample m (events_of (visible ls))"
    moreover have "cx_events c = events_of (visible ls)"
      by (simp add: c_def deadlock_counterexample_def explain_def)
    ultimately have "deadlock_free_check provider request m =
        Some (check_fail request c (stats_of states transn))"
      using run False by (simp add: deadlock_free_check_def)
    moreover have "cr_status (check_fail request c st) = Fail"
      "cr_counterexample (check_fail request c st) = Some c" for st by (simp_all add: check_fail_def)
    ultimately show ?thesis
      using \<open>hd queue \<in> reached provider\<close> \<open>lpath ?tr ?s0 ls (hd queue)\<close> \<open>cx_events c = _\<close> stuck False
      by (intro exI [of _ "check_fail request c (stats_of states transn)"]) auto
  qed
qed

text \<open>C11: on a finite transition system the deadlock checker returns. It passes exactly when every
  reachable state has a transition, with the statistics of the whole system; otherwise it fails with the
  visible part of a path from the initial state to a state without transitions.\<close>

theorem deadlock_check_correct:
  assumes "explorable provider"
  shows "\<exists>r. deadlock_free_check provider request m = Some r \<and>
    (if \<exists>s \<in> reached provider. transitions provider s = Some []
     then cr_status r = Fail \<and>
       (\<exists>c ls s. cr_counterexample r = Some c \<and> lpath (transitions provider) (initial_state provider) ls s \<and>
          transitions provider s = Some [] \<and> cx_events c = events_of (visible ls))
     else cr_status r = Pass \<and> cr_counterexample r = None \<and>
       cr_stats r = Some (stats_of (of_nat (card (reached provider)))
         (of_nat (\<Sum>s \<in> reached provider. out_degree (transitions provider) s))))"
  by (rule deadlock_verdict [OF assms])

theorem deadlock_check_correct_witness:
  "\<exists>r. deadlock_free_check demo_lts
        \<lparr>rq_command = CheckCmd, rq_model = None, rq_target = None\<rparr> demo_module = Some r"
  using deadlock_check_correct [OF demo_lts_explorable] by blast

end

