(* ===== verification/Cspx_Tarjan.thy ===== *)
theory Cspx_Tarjan
  imports Cspx_Prelude
begin

text \<open>
  \<^verbatim>\<open>tarjan_scc\<close> and \<^verbatim>\<open>find_first_tau_cycle_node\<close> of \<^verbatim>\<open>check_divergence.rs\<close>: Tarjan's algorithm on adjacency
  lists. The recursion of \<^verbatim>\<open>strong_connect\<close> has a depth bound (fuel); as many levels as there are nodes are
  enough, since every call visits a new node. An index outside an array, which panics, is the value
  \<^term>\<open>None\<close>. The result: the components are exactly the strongly connected components of the graph, each once,
  in an order without edges from earlier to later ones, and the node found is the first one on a cycle.
\<close>

section \<open>The algorithm\<close>

text \<open>The arguments \<^verbatim>\<open>strong_connect\<close> updates. The vector \<^verbatim>\<open>stack\<close> is a list with its last element first.\<close>

record tarjan =
  next_index :: nat
  indices :: "nat option list"
  lowlink :: "nat list"
  scc_stack :: "nat list"
  onstack :: "bool list"
  scc_out :: "nat list list"

definition open_node :: "nat \<Rightarrow> tarjan \<Rightarrow> tarjan" where
  "open_node v st =
     st\<lparr>next_index := next_index st + 1, indices := (indices st)[v := Some (next_index st)],
        lowlink := (lowlink st)[v := next_index st], scc_stack := v # scc_stack st,
        onstack := (onstack st)[v := True]\<rparr>"

definition lower :: "nat \<Rightarrow> nat \<Rightarrow> tarjan \<Rightarrow> tarjan" where
  "lower v x st = st\<lparr>lowlink := (lowlink st)[v := min (lowlink st ! v) x]\<rparr>"

fun pop_scc :: "nat \<Rightarrow> nat list \<Rightarrow> bool list \<Rightarrow> nat list \<times> nat list \<times> bool list" where
  "pop_scc v [] onst = ([], [], onst)"
| "pop_scc v (w # stack) onst =
     (if w = v then ([w], stack, onst[w := False])
      else case pop_scc v stack (onst[w := False]) of (scc, stack', onst') \<Rightarrow> (w # scc, stack', onst'))"

definition close_node :: "nat \<Rightarrow> tarjan \<Rightarrow> tarjan" where
  "close_node v st =
     (if lowlink st ! v = (case indices st ! v of Some i \<Rightarrow> i | None \<Rightarrow> lowlink st ! v)
      then (case pop_scc v (scc_stack st) (onstack st) of (scc, stack, onst) \<Rightarrow>
              st\<lparr>scc_stack := stack, onstack := onst, scc_out := scc_out st @ [scc]\<rparr>)
      else st)"

fun strong_connect :: "nat list list \<Rightarrow> nat \<Rightarrow> nat \<Rightarrow> tarjan \<Rightarrow> tarjan option"
  and connect_edges :: "nat list list \<Rightarrow> nat \<Rightarrow> nat \<Rightarrow> nat list \<Rightarrow> tarjan \<Rightarrow> tarjan option" where
  "strong_connect adj 0 v st = None"
| "strong_connect adj (Suc fuel) v st =
     map_option (close_node v) (connect_edges adj fuel v (adj ! v) (open_node v st))"
| "connect_edges adj fuel v [] st = Some st"
| "connect_edges adj fuel v (w # ws) st =
     (case nth_opt (indices st) w of
        None \<Rightarrow> None
      | Some None \<Rightarrow>
          (case strong_connect adj fuel w st of
             None \<Rightarrow> None
           | Some st' \<Rightarrow> connect_edges adj fuel v ws (lower v (lowlink st' ! w) st'))
      | Some (Some i) \<Rightarrow> connect_edges adj fuel v ws (if onstack st ! w then lower v i st else st))"

fun tarjan_roots :: "nat list list \<Rightarrow> nat list \<Rightarrow> tarjan \<Rightarrow> tarjan option" where
  "tarjan_roots adj [] st = Some st"
| "tarjan_roots adj (v # vs) st =
     (if indices st ! v = None
      then (case strong_connect adj (length adj) v st of
              None \<Rightarrow> None
            | Some st' \<Rightarrow> tarjan_roots adj vs st')
      else tarjan_roots adj vs st)"

definition tarjan_init :: "nat \<Rightarrow> tarjan" where
  "tarjan_init n =
     \<lparr>next_index = 0, indices = replicate n None, lowlink = replicate n 0, scc_stack = [],
      onstack = replicate n False, scc_out = []\<rparr>"

definition tarjan_scc :: "nat list list \<Rightarrow> nat list list option" where
  "tarjan_scc adj = map_option scc_out (tarjan_roots adj [0..<length adj] (tarjan_init (length adj)))"

fun mark_sccs :: "nat list list \<Rightarrow> nat list list \<Rightarrow> bool list \<Rightarrow> bool list option" where
  "mark_sccs adj [] in_cycle = Some in_cycle"
| "mark_sccs adj (scc # sccs) in_cycle =
     (if length scc > 1 then mark_sccs adj sccs (fold (\<lambda>v c. c[v := True]) scc in_cycle)
      else
        (case scc of
           [] \<Rightarrow> None
         | v # _ \<Rightarrow> mark_sccs adj sccs (if v \<in> set (adj ! v) then in_cycle[v := True] else in_cycle)))"

definition find_first_tau_cycle_node :: "nat list list \<Rightarrow> nat option option" where
  "find_first_tau_cycle_node adj =
     (case tarjan_scc adj of
        None \<Rightarrow> None
      | Some sccs \<Rightarrow>
          map_option (\<lambda>in_cycle. List.find (\<lambda>v. in_cycle ! v) [0..<length in_cycle])
            (mark_sccs adj sccs (replicate (length adj) False)))"

section \<open>The invariant\<close>

definition edges :: "nat list list \<Rightarrow> (nat \<times> nat) set" where
  "edges adj = {(v, w). v < length adj \<and> w \<in> set (adj ! v)}"

definition graph_ok :: "nat list list \<Rightarrow> bool" where
  "graph_ok adj \<longleftrightarrow> (\<forall>ws \<in> set adj. \<forall>w \<in> set ws. w < length adj)"

definition scc_of :: "nat list list \<Rightarrow> nat \<Rightarrow> nat set" where
  "scc_of adj v = {w. (v, w) \<in> (edges adj)\<^sup>* \<and> (w, v) \<in> (edges adj)\<^sup>*}"

definition indexed :: "tarjan \<Rightarrow> nat set" where
  "indexed st = {v. v < length (indices st) \<and> indices st ! v \<noteq> None}"

definition num :: "tarjan \<Rightarrow> nat \<Rightarrow> nat" where
  "num st v = the (indices st ! v)"

definition finished :: "tarjan \<Rightarrow> nat set" where
  "finished st = set (concat (scc_out st))"

text \<open>The shape of the arrays: the nodes with an index are those on the stack and those in a component.\<close>

definition arrays_ok :: "nat list list \<Rightarrow> tarjan \<Rightarrow> bool" where
  "arrays_ok adj st \<longleftrightarrow>
     length (indices st) = length adj \<and> length (lowlink st) = length adj \<and> length (onstack st) = length adj \<and>
     (\<forall>v < length adj. onstack st ! v \<longleftrightarrow> v \<in> set (scc_stack st)) \<and>
     indexed st = set (scc_stack st) \<union> finished st \<and> set (scc_stack st) \<inter> finished st = {} \<and>
     sorted_wrt (\<lambda>x y. num st y < num st x) (scc_stack st) \<and>
     (\<forall>v \<in> indexed st. num st v < next_index st)"

text \<open>The components found so far, and the edges out of visited nodes; \<open>G\<close> is the set of nodes on the call
  stack.\<close>

definition components_ok :: "nat list list \<Rightarrow> nat list list \<Rightarrow> bool" where
  "components_ok adj out \<longleftrightarrow>
     distinct (concat out) \<and> (\<forall>scc \<in> set out. \<exists>v \<in> set scc. set scc = scc_of adj v) \<and>
     (\<forall>x y. x \<in> set (concat out) \<longrightarrow> (x, y) \<in> edges adj \<longrightarrow> y \<in> set (concat out)) \<and>
     sorted_wrt (\<lambda>A B. \<forall>x \<in> set A. \<forall>y \<in> set B. (x, y) \<notin> edges adj) out"

definition tarjan_inv :: "nat list list \<Rightarrow> nat set \<Rightarrow> tarjan \<Rightarrow> bool" where
  "tarjan_inv adj G st \<longleftrightarrow>
     arrays_ok adj st \<and> components_ok adj (scc_out st) \<and> G \<subseteq> set (scc_stack st) \<and>
     (\<forall>x y. x \<in> indexed st - G \<longrightarrow> (x, y) \<in> edges adj \<longrightarrow> y \<in> indexed st) \<and>
     (\<forall>y \<in> set (scc_stack st). \<exists>g \<in> G. num st g \<le> num st y \<and> (y, g) \<in> (edges adj)\<^sup>*) \<and>
     (\<forall>g \<in> G. \<forall>y \<in> set (scc_stack st). num st g \<le> num st y \<longrightarrow> (g, y) \<in> (edges adj)\<^sup>*)"

text \<open>What a call leaves unchanged; \<open>X\<close> are the nodes whose \<open>lowlink\<close> it may change.\<close>

definition keeps :: "nat set \<Rightarrow> tarjan \<Rightarrow> tarjan \<Rightarrow> bool" where
  "keeps X st st' \<longleftrightarrow>
     length (indices st') = length (indices st) \<and> next_index st \<le> next_index st' \<and>
     (\<forall>x \<in> indexed st. indices st' ! x = indices st ! x) \<and>
     (\<forall>x \<in> indexed st - X. lowlink st' ! x = lowlink st ! x)"

text \<open>The loop over the edges of \<open>v\<close>: \<open>ds\<close> are the edges passed, \<open>pre\<close> the nodes pushed above \<open>v\<close>.\<close>

definition edges_inv ::
  "nat list list \<Rightarrow> nat set \<Rightarrow> nat \<Rightarrow> nat list \<Rightarrow> nat list \<Rightarrow> nat list \<Rightarrow> tarjan \<Rightarrow> bool" where
  "edges_inv adj G v ds base pre st \<longleftrightarrow>
     tarjan_inv adj (insert v G) st \<and> v < length adj \<and> v \<notin> G \<and> G \<subseteq> set base \<and>
     scc_stack st = pre @ v # base \<and> set ds \<subseteq> indexed st \<and> lowlink st ! v \<le> num st v \<and>
     (\<exists>y \<in> set (scc_stack st). num st y = lowlink st ! v \<and> (v, y) \<in> (edges adj)\<^sup>*) \<and>
     (\<forall>x \<in> set (pre @ [v]). \<forall>y \<in> set base. (x, y) \<in> edges adj \<longrightarrow> (x = v \<longrightarrow> y \<in> set ds) \<longrightarrow>
        lowlink st ! v \<le> num st y)"

text \<open>What a call of \<^verbatim>\<open>strong_connect\<close> promises its caller of \<open>lowlink[v]\<close>.\<close>

definition low_ok :: "nat list list \<Rightarrow> nat \<Rightarrow> nat list \<Rightarrow> tarjan \<Rightarrow> tarjan \<Rightarrow> bool" where
  "low_ok adj v pre st st' \<longleftrightarrow>
     scc_stack st' = pre @ scc_stack st \<and>
     (pre = [] \<and> next_index st \<le> lowlink st' ! v \<or>
      (\<exists>y \<in> set (scc_stack st'). num st' y = lowlink st' ! v \<and> (v, y) \<in> (edges adj)\<^sup>*)) \<and>
     (\<forall>x \<in> set pre. \<forall>y \<in> set (scc_stack st). (x, y) \<in> edges adj \<longrightarrow> lowlink st' ! v \<le> num st' y)"


section \<open>Opening a node\<close>

lemma seen_less: "arrays_ok adj st \<Longrightarrow> v \<in> indexed st \<Longrightarrow> v < length adj"
  by (simp add: arrays_ok_def indexed_def)

lemma seen_open: "v < length (indices st) \<Longrightarrow> indexed (open_node v st) = insert v (indexed st)"
  by (auto simp: indexed_def open_node_def nth_list_update)

lemma num_open: "v < length (indices st) \<Longrightarrow> num (open_node v st) x = (if x = v then next_index st else num st x)"
  by (simp add: num_def open_node_def)

lemma open_simps [simp]:
  "scc_stack (open_node v st) = v # scc_stack st" "scc_out (open_node v st) = scc_out st"
  "next_index (open_node v st) = Suc (next_index st)" "finished (open_node v st) = finished st"
  "lowlink (open_node v st) = (lowlink st)[v := next_index st]"
  "length (indices (open_node v st)) = length (indices st)"
  by (simp_all add: open_node_def finished_def)

lemma arrays_open:
  assumes a: "arrays_ok adj st" and v: "v < length adj" "v \<notin> indexed st"
  shows "arrays_ok adj (open_node v st)"
proof -
  have num: "num (open_node v st) x = (if x = v then next_index st else num st x)" for x
    using a v(1) by (intro num_open) (simp add: arrays_ok_def)
  have s: "indexed (open_node v st) = insert v (indexed st)"
    using a v(1) by (intro seen_open) (simp add: arrays_ok_def)
  from a v(2) have st: "v \<notin> set (scc_stack st)" "v \<notin> finished st"
      "\<forall>y \<in> set (scc_stack st). num st y < next_index st" by (auto simp: arrays_ok_def)
  have "sorted_wrt (\<lambda>x y. num (open_node v st) y < num (open_node v st) x) (v # scc_stack st)"
    using a st by (auto simp: num arrays_ok_def intro: sorted_wrt_mono_rel [rotated])
  moreover have "\<forall>x \<in> indexed (open_node v st). num (open_node v st) x < next_index (open_node v st)"
    using a unfolding s by (auto simp: num arrays_ok_def less_Suc_eq)
  moreover have "\<forall>x < length adj. onstack (open_node v st) ! x \<longleftrightarrow> x \<in> set (v # scc_stack st)"
    using a v(1) by (auto simp: arrays_ok_def open_node_def nth_list_update)
  moreover have "length (onstack (open_node v st)) = length adj"
    using a by (simp add: arrays_ok_def open_node_def)
  ultimately show ?thesis using a st s by (simp add: arrays_ok_def)
qed

lemma keeps_open:
  assumes "arrays_ok adj st" and "v < length adj" and "v \<notin> indexed st"
  shows "keeps {} st (open_node v st)"
proof -
  have "indices (open_node v st) ! x = indices st ! x" "(lowlink st)[v := next_index st] ! x = lowlink st ! x"
    if "x \<in> indexed st" for x
    using that assms(3) by (cases "x = v"; simp add: open_node_def)+
  then show ?thesis by (simp add: keeps_def)
qed

lemma tarjan_inv_open:
  assumes inv: "tarjan_inv adj G st" and v: "v < length adj" "v \<notin> indexed st"
    and reach: "\<forall>g \<in> G. (g, v) \<in> (edges adj)\<^sup>*"
  shows "edges_inv adj G v [] (scc_stack st) [] (open_node v st)"
proof -
  let ?o = "open_node v st"
  from inv have a: "arrays_ok adj st" by (simp add: tarjan_inv_def)
  have num: "num ?o x = (if x = v then next_index st else num st x)" for x
    using a v(1) by (intro num_open) (simp add: arrays_ok_def)
  have s: "indexed ?o = insert v (indexed st)" using a v(1) by (intro seen_open) (simp add: arrays_ok_def)
  from a have stack: "set (scc_stack st) \<subseteq> indexed st" "\<forall>y \<in> indexed st. num st y < next_index st"
    by (auto simp: arrays_ok_def)
  with v(2) have old: "y \<noteq> v" "num ?o y = num st y" "num st y < next_index st" if "y \<in> set (scc_stack st)" for y
    using that by (auto simp: num)
  from inv have G: "G \<subseteq> set (scc_stack st)" by (simp add: tarjan_inv_def)
  have "\<exists>g \<in> insert v G. num ?o g \<le> num ?o y \<and> (y, g) \<in> (edges adj)\<^sup>*" if "y \<in> set (v # scc_stack st)" for y
  proof (cases "y = v")
    case False
    with that have y: "y \<in> set (scc_stack st)" by simp
    with inv obtain g where "g \<in> G" "num st g \<le> num st y" "(y, g) \<in> (edges adj)\<^sup>*" by (auto simp: tarjan_inv_def)
    with y G old show ?thesis by (metis insertCI subsetD)
  qed auto
  moreover have "(g, y) \<in> (edges adj)\<^sup>*"
    if "g \<in> insert v G" "y \<in> set (v # scc_stack st)" "num ?o g \<le> num ?o y" for g y
  proof (cases "y = v")
    case True
    with that reach show ?thesis by auto
  next
    case False
    with that have y: "y \<in> set (scc_stack st)" by simp
    with that(3) old(1) old(3) [OF y] have "g \<noteq> v" by (auto simp: num)
    with that y G old inv show ?thesis by (auto simp: tarjan_inv_def num subset_iff)
  qed
  moreover have "\<forall>x y. x \<in> indexed ?o - insert v G \<longrightarrow> (x, y) \<in> edges adj \<longrightarrow> y \<in> indexed ?o"
    using inv unfolding s by (auto simp: tarjan_inv_def)
  ultimately have "tarjan_inv adj (insert v G) ?o"
    using inv arrays_open [OF a v] G by (auto simp: tarjan_inv_def)
  moreover have "v < length (lowlink st)" using a v(1) by (simp add: arrays_ok_def)
  ultimately show ?thesis using v G stack(1) by (auto simp: edges_inv_def num)
qed


section \<open>Passing an edge\<close>

lemma lower_simps [simp]:
  "scc_stack (lower v x st) = scc_stack st" "scc_out (lower v x st) = scc_out st"
  "next_index (lower v x st) = next_index st" "finished (lower v x st) = finished st"
  "indices (lower v x st) = indices st" "indexed (lower v x st) = indexed st" "num (lower v x st) = num st"
  by (simp_all add: lower_def finished_def indexed_def num_def fun_eq_iff)

lemma lowlink_lower:
  "v < length (lowlink st) \<Longrightarrow> lowlink (lower v x st) ! w = (if w = v then min (lowlink st ! v) x else lowlink st ! w)"
  by (simp add: lower_def)

lemma arrays_lower: "arrays_ok adj (lower v x st) = arrays_ok adj st"
  by (simp add: arrays_ok_def) (simp add: lower_def)

lemma tarjan_inv_lower: "tarjan_inv adj G (lower v x st) = tarjan_inv adj G st"
  by (simp add: tarjan_inv_def arrays_lower)

lemma keeps_lower: "keeps {v} st (lower v x st)"
proof -
  have "(lowlink st)[v := y] ! w = lowlink st ! w" if "w \<in> indexed st - {v}" for w y using that by simp
  then show ?thesis by (simp add: keeps_def) (simp add: lower_def)
qed

lemma keeps_refl: "keeps X st st"
  by (simp add: keeps_def)

lemma keeps_seen: "keeps X st st' \<Longrightarrow> indexed st \<subseteq> indexed st'"
  by (auto simp: keeps_def indexed_def)

lemma keeps_num: "keeps X st st' \<Longrightarrow> x \<in> indexed st \<Longrightarrow> num st' x = num st x"
  by (auto simp: keeps_def num_def)

lemma keeps_mono: "keeps X st st' \<Longrightarrow> X \<subseteq> Y \<Longrightarrow> keeps Y st st'"
  by (auto simp: keeps_def)

lemma keeps_trans:
  assumes "keeps X st st'" and "keeps X st' st''"
  shows "keeps X st st''"
  using assms keeps_seen [OF assms(1)] by (auto simp: keeps_def)

lemma edges_inv_arrays:
  assumes "edges_inv adj G v ds base pre st"
  shows "arrays_ok adj st" and "v < length adj" and "v < length (lowlink st)" and "length (indices st) = length adj"
proof -
  from assms show "arrays_ok adj st" by (simp only: edges_inv_def tarjan_inv_def)
  moreover from assms show "v < length adj" by (simp only: edges_inv_def)
  ultimately show "v < length (lowlink st)" "length (indices st) = length adj" by (simp_all add: arrays_ok_def)
qed

lemma edges_invD:
  assumes "edges_inv adj G v ds base pre st"
  shows "tarjan_inv adj (insert v G) st" and "v \<notin> G" and "G \<subseteq> set base" and "scc_stack st = pre @ v # base"
    and "set ds \<subseteq> indexed st" and "lowlink st ! v \<le> num st v"
    and "\<exists>y \<in> set (scc_stack st). num st y = lowlink st ! v \<and> (v, y) \<in> (edges adj)\<^sup>*"
    and "x \<in> set (pre @ [v]) \<Longrightarrow> y \<in> set base \<Longrightarrow> (x, y) \<in> edges adj \<Longrightarrow> x = v \<longrightarrow> y \<in> set ds \<Longrightarrow>
      lowlink st ! v \<le> num st y"
  using assms unfolding edges_inv_def by blast+

text \<open>An edge to a visited node.\<close>

lemma edges_inv_seen:
  assumes inv: "edges_inv adj G v ds base pre st" and w: "(v, w) \<in> edges adj" "indices st ! w = Some i" "w \<in> indexed st"
  shows "edges_inv adj G v (ds @ [w]) base pre (if onstack st ! w then lower v i st else st)"
proof (cases "onstack st ! w")
  case False
  have "w < length adj" by (rule seen_less [OF edges_inv_arrays(1) [OF inv] w(3)])
  with False edges_inv_arrays(1) [OF inv] have "w \<notin> set (scc_stack st)" by (simp add: arrays_ok_def)
  with inv have "w \<notin> set base" by (simp add: edges_inv_def)
  with edges_invD [OF inv] edges_inv_arrays(2) [OF inv] w(3) False show ?thesis by (simp add: edges_inv_def) blast
next
  case True
  have "w < length adj" by (rule seen_less [OF edges_inv_arrays(1) [OF inv] w(3)])
  with True edges_inv_arrays(1) [OF inv] have ws: "w \<in> set (scc_stack st)" by (simp add: arrays_ok_def)
  have i: "num st w = i" using w(2) by (simp add: num_def)
  have low: "lowlink (lower v i st) ! v = min (lowlink st ! v) i"
    using edges_inv_arrays(3) [OF inv] by (simp add: lowlink_lower)
  have "\<exists>y \<in> set (scc_stack st). num st y = min (lowlink st ! v) i \<and> (v, y) \<in> (edges adj)\<^sup>*"
  proof (cases "i \<le> lowlink st ! v")
    case True
    with ws i w(1) show ?thesis by (intro bexI [of _ w]) auto
  next
    case False
    with inv show ?thesis by (auto simp: edges_inv_def min_def)
  qed
  moreover have "min (lowlink st ! v) i \<le> num st y"
    if "x \<in> set (pre @ [v])" "y \<in> set base" "(x, y) \<in> edges adj" "x = v \<longrightarrow> y \<in> set (ds @ [w])" for x y
  proof (cases "y = w")
    case False
    with edges_invD(8) [OF inv that(1-3)] that(4) have "lowlink st ! v \<le> num st y" by auto
    then show ?thesis by simp
  qed (simp add: i)
  ultimately show ?thesis
    using edges_invD(1-6) [OF inv] edges_inv_arrays(2) [OF inv] w(3) True
    unfolding edges_inv_def by (simp add: low tarjan_inv_lower)
qed

text \<open>An edge to a new node, after the call for it has returned.\<close>

lemma edges_inv_child:
  assumes inv: "edges_inv adj G v ds base pre st" and w: "(v, w) \<in> edges adj" "w \<notin> indexed st"
    and child: "tarjan_inv adj (insert v G) st'" "w \<in> indexed st'" "keeps {} st st'" "low_ok adj w pw st st'"
  shows "edges_inv adj G v (ds @ [w]) base (pw @ pre) (lower v (lowlink st' ! w) st')"
proof -
  let ?low = "lowlink st' ! w"
  note i = edges_invD [OF inv]
  have stack: "set (scc_stack st) \<subseteq> indexed st" using edges_inv_arrays(1) [OF inv] by (simp add: arrays_ok_def)
  with i(4) have v: "v \<in> indexed st" by auto
  with edges_inv_arrays(1) [OF inv] have less: "num st v < next_index st" by (simp add: arrays_ok_def)
  have same: "lowlink st' ! v = lowlink st ! v" using child(3) v by (simp add: keeps_def)
  have num: "num st' y = num st y" if "y \<in> set (scc_stack st)" for y
    using keeps_num [OF child(3)] that stack by blast
  have num_v: "num st' v = num st v" using keeps_num [OF child(3) v] .
  have len: "v < length (lowlink st')"
    using child(1) edges_inv_arrays(2) [OF inv] by (simp add: tarjan_inv_def arrays_ok_def)
  have low: "lowlink (lower v ?low st') ! v = min (lowlink st ! v) ?low"
    using len same by (simp add: lowlink_lower)
  have st': "scc_stack st' = pw @ pre @ v # base" using child(4) i(4) by (simp add: low_ok_def)
  have "\<exists>y \<in> set (scc_stack st'). num st' y = min (lowlink st ! v) ?low \<and> (v, y) \<in> (edges adj)\<^sup>*"
  proof (cases "lowlink st ! v \<le> ?low")
    case True
    from i(7) obtain y where "y \<in> set (scc_stack st)" "num st y = lowlink st ! v" "(v, y) \<in> (edges adj)\<^sup>*" by blast
    with True num child(4) show ?thesis by (intro bexI [of _ y]) (auto simp: low_ok_def)
  next
    case False
    with i(6) less have "\<not> next_index st \<le> ?low" by linarith
    with child(4) obtain y where "y \<in> set (scc_stack st')" "num st' y = ?low" "(w, y) \<in> (edges adj)\<^sup>*"
      by (auto simp: low_ok_def)
    with False w(1) show ?thesis by (intro bexI [of _ y]) (auto intro: converse_rtrancl_into_rtrancl)
  qed
  moreover have "min (lowlink st ! v) ?low \<le> num st' y"
    if "x \<in> set ((pw @ pre) @ [v])" "y \<in> set base" "(x, y) \<in> edges adj" "x = v \<longrightarrow> y \<in> set (ds @ [w])" for x y
  proof (cases "x \<in> set pw")
    case True
    have "y \<in> set (scc_stack st)" using i(4) that(2) by simp
    with True child(4) that(3) have "?low \<le> num st' y" by (auto simp: low_ok_def)
    then show ?thesis by simp
  next
    case False
    have y: "y \<in> set (scc_stack st)" using i(4) that(2) by simp
    with stack w(2) have "y \<noteq> w" by auto
    with False that have "x \<in> set (pre @ [v])" "x = v \<longrightarrow> y \<in> set ds" by auto
    from i(8) [OF this(1) that(2,3) this(2)] have "lowlink st ! v \<le> num st y" .
    with num [OF y] show ?thesis by simp
  qed
  moreover have "set (ds @ [w]) \<subseteq> indexed st'"
    using i(5) keeps_seen [OF child(3)] child(2) by auto
  ultimately show ?thesis
    using i(2,3,6) edges_inv_arrays(2) [OF inv] child(1) st' num_v
    unfolding edges_inv_def low tarjan_inv_lower lower_simps by simp
qed


section \<open>Closing a node\<close>

lemma pop_scc_stack:
  "v \<notin> set pre \<Longrightarrow> pop_scc v (pre @ v # base) onst = (pre @ [v], base, fold (\<lambda>w c. c[w := False]) (pre @ [v]) onst)"
  by (induction pre arbitrary: onst) auto

lemma fold_update:
  "length (fold (\<lambda>w c. c[w := b]) ws onst) = length onst"
  "x < length onst \<Longrightarrow> fold (\<lambda>w c. c[w := b]) ws onst ! x = (if x \<in> set ws then b else onst ! x)"
  by (induction ws arbitrary: onst) (auto simp: nth_list_update)

lemma closed_rtrancl:
  assumes "(x, y) \<in> E\<^sup>*" and "x \<in> C" and "\<And>x y. x \<in> C \<Longrightarrow> (x, y) \<in> E \<Longrightarrow> y \<in> C"
  shows "y \<in> C"
  using assms(1,2) by (induction rule: rtrancl_induct) (use assms(3) in auto)

lemma distinct_decreasing: "sorted_wrt (\<lambda>x y. (f y :: nat) < f x) xs \<Longrightarrow> distinct xs"
  by (induction xs) auto

text \<open>The state when the loop over the edges of \<open>v\<close> has ended.\<close>

lemma edges_inv_stack:
  assumes "edges_inv adj G v ds base pre st"
  shows "distinct (pre @ v # base)" and "x \<in> set pre \<Longrightarrow> num st v < num st x" and "y \<in> set base \<Longrightarrow> num st y < num st v"
    and "indexed st = set (pre @ v # base) \<union> finished st" and "set (pre @ v # base) \<inter> finished st = {}"
proof -
  have a: "sorted_wrt (\<lambda>x y. num st y < num st x) (pre @ v # base)"
      "indexed st = set (pre @ v # base) \<union> finished st" "set (pre @ v # base) \<inter> finished st = {}"
    using edges_inv_arrays(1) [OF assms] unfolding arrays_ok_def edges_invD(4) [OF assms] by blast+
  from a(1) show "distinct (pre @ v # base)" by (rule distinct_decreasing)
  show "x \<in> set pre \<Longrightarrow> num st v < num st x" "y \<in> set base \<Longrightarrow> num st y < num st v"
    using a(1) by (auto simp: sorted_wrt_append)
  show "indexed st = set (pre @ v # base) \<union> finished st" "set (pre @ v # base) \<inter> finished st = {}" by (fact a)+
qed

lemma edges_inv_reach:
  assumes inv: "edges_inv adj G v ds base pre st" and g: "g \<in> insert v G"
  shows "(g, v) \<in> (edges adj)\<^sup>*"
proof -
  have "num st g \<le> num st v" using g edges_invD(3) [OF inv] edges_inv_stack(3) [OF inv, of g] by auto
  moreover have "v \<in> set (scc_stack st)" using edges_invD(4) [OF inv] by simp
  ultimately show ?thesis using g edges_invD(1) [OF inv] unfolding tarjan_inv_def by blast
qed

lemma close_not_root:
  assumes inv: "edges_inv adj G v (adj ! v) base pre st" and low: "lowlink st ! v \<noteq> num st v"
  shows "tarjan_inv adj G st"
proof -
  note i = edges_invD [OF inv] and s = edges_inv_stack [OF inv]
  from i(1) have t: "arrays_ok adj st" "components_ok adj (scc_out st)"
      "\<And>x y. x \<in> indexed st - insert v G \<Longrightarrow> (x, y) \<in> edges adj \<Longrightarrow> y \<in> indexed st"
      "\<And>y. y \<in> set (scc_stack st) \<Longrightarrow> \<exists>g \<in> insert v G. num st g \<le> num st y \<and> (y, g) \<in> (edges adj)\<^sup>*"
      "\<And>g y. g \<in> insert v G \<Longrightarrow> y \<in> set (scc_stack st) \<Longrightarrow> num st g \<le> num st y \<Longrightarrow> (g, y) \<in> (edges adj)\<^sup>*"
    unfolding tarjan_inv_def by blast+
  from i(6,7) low obtain y where y: "y \<in> set (scc_stack st)" "num st y < num st v" "(v, y) \<in> (edges adj)\<^sup>*"
    by fastforce
  from t(4) [OF y(1)] obtain g where g: "g \<in> insert v G" "num st g \<le> num st y" "(y, g) \<in> (edges adj)\<^sup>*" by blast
  with y have root: "g \<in> G" "num st g \<le> num st v" "(v, g) \<in> (edges adj)\<^sup>*" by auto
  have "\<exists>g \<in> G. num st g \<le> num st x \<and> (x, g) \<in> (edges adj)\<^sup>*" if "x \<in> set (scc_stack st)" for x
  proof -
    from t(4) [OF that] obtain h where h: "h \<in> insert v G" "num st h \<le> num st x" "(x, h) \<in> (edges adj)\<^sup>*" by blast
    show ?thesis
    proof (cases "h = v")
      case True
      with h root show ?thesis by (intro bexI [of _ g]) auto
    next
      case False
      with h show ?thesis by auto
    qed
  qed
  moreover have "y \<in> indexed st" if "x \<in> indexed st - G" "(x, y) \<in> edges adj" for x y
    using that t(3) [of x y] i(5) by (cases "x = v") (auto simp: edges_def)
  ultimately show ?thesis using t(1,2,5) i(3,4) unfolding tarjan_inv_def by auto
qed

lemma scc_members:
  assumes inv: "edges_inv adj G v (adj ! v) base pre st" and low: "lowlink st ! v = num st v"
  shows "set (pre @ [v]) = scc_of adj v"
    and "x \<in> set (pre @ [v]) \<Longrightarrow> (x, y) \<in> edges adj \<Longrightarrow> y \<in> set (pre @ [v]) \<union> finished st"
proof -
  note i = edges_invD [OF inv] and s = edges_inv_stack [OF inv]
  let ?C = "set (pre @ [v]) \<union> finished st"
  from i(1) have t: "components_ok adj (scc_out st)"
      "\<And>x y. x \<in> indexed st - insert v G \<Longrightarrow> (x, y) \<in> edges adj \<Longrightarrow> y \<in> indexed st"
      "\<And>y. y \<in> set (scc_stack st) \<Longrightarrow> \<exists>g \<in> insert v G. num st g \<le> num st y \<and> (y, g) \<in> (edges adj)\<^sup>*"
      "\<And>g y. g \<in> insert v G \<Longrightarrow> y \<in> set (scc_stack st) \<Longrightarrow> num st g \<le> num st y \<Longrightarrow> (g, y) \<in> (edges adj)\<^sup>*"
    unfolding tarjan_inv_def by blast+
  have fin: "y \<in> finished st" if "x \<in> finished st" "(x, y) \<in> edges adj" for x y
    using t(1) that by (auto simp: components_ok_def finished_def)
  show new: "y \<in> ?C" if xy: "x \<in> set (pre @ [v])" "(x, y) \<in> edges adj" for x y
  proof -
    have "y \<in> indexed st"
    proof (cases "x = v")
      case True
      with xy i(5) show ?thesis by (auto simp: edges_def)
    next
      case False
      with xy(1) s(1,4) i(3) have "x \<in> indexed st - insert v G" by auto
      from t(2) [OF this xy(2)] show ?thesis .
    qed
    moreover have "y \<notin> set base"
    proof
      assume y: "y \<in> set base"
      have "x = v \<longrightarrow> y \<in> set (adj ! v)" using xy(2) by (auto simp: edges_def)
      from i(8) [OF xy(1) y xy(2) this] s(3) [OF y] low show False by simp
    qed
    ultimately show ?thesis using s(4) by auto
  qed
  have closed: "y \<in> ?C" if "x \<in> ?C" "(x, y) \<in> edges adj" for x y using that new fin by blast
  show "set (pre @ [v]) = scc_of adj v"
  proof (intro set_eqI iffI)
    fix x assume x: "x \<in> set (pre @ [v])"
    then have xs: "x \<in> set (scc_stack st)" "num st v \<le> num st x" using i(4) s(2) [of x] by auto
    from t(4) [OF _ xs] have vx: "(v, x) \<in> (edges adj)\<^sup>*" by simp
    from t(3) [OF xs(1)] obtain g where g: "g \<in> insert v G" "(x, g) \<in> (edges adj)\<^sup>*" by blast
    have "g \<in> ?C" by (rule closed_rtrancl [OF g(2)]) (use x closed in auto)
    with g(1) i(3) s(1,5) have "g = v" by auto
    with vx g(2) show "x \<in> scc_of adj v" by (simp add: scc_of_def)
  next
    fix x assume "x \<in> scc_of adj v"
    then have x: "(v, x) \<in> (edges adj)\<^sup>*" "(x, v) \<in> (edges adj)\<^sup>*" by (auto simp: scc_of_def)
    have xc: "x \<in> ?C" by (rule closed_rtrancl [OF x(1)]) (use closed in auto)
    have "v \<in> finished st" if "x \<in> finished st" by (rule closed_rtrancl [OF x(2) that]) (use fin in auto)
    with xc s(5) show "x \<in> set (pre @ [v])" by auto
  qed
qed

lemma components_snoc:
  assumes c: "components_ok adj out" and new: "distinct scc" "set scc \<inter> set (concat out) = {}" "v \<in> set scc"
      "set scc = scc_of adj v"
    and closed: "\<And>x y. x \<in> set scc \<Longrightarrow> (x, y) \<in> edges adj \<Longrightarrow> y \<in> set scc \<union> set (concat out)"
  shows "components_ok adj (out @ [scc])"
proof -
  have "(x, y) \<notin> edges adj" if "x \<in> set (concat out)" "y \<in> set scc" for x y
    using c that new(2) unfolding components_ok_def by blast
  then have "sorted_wrt (\<lambda>A B. \<forall>x \<in> set A. \<forall>y \<in> set B. (x, y) \<notin> edges adj) (out @ [scc])"
    using c by (auto simp: components_ok_def sorted_wrt_append)
  moreover have "y \<in> set (concat (out @ [scc]))" if "x \<in> set (concat (out @ [scc]))" "(x, y) \<in> edges adj" for x y
  proof (cases "x \<in> set scc")
    case True
    from closed [OF this that(2)] show ?thesis by auto
  next
    case False
    with that(1) have "x \<in> set (concat out)" by auto
    with c that(2) have "y \<in> set (concat out)" unfolding components_ok_def by blast
    then show ?thesis by auto
  qed
  ultimately show ?thesis using c new unfolding components_ok_def by (auto intro: bexI [of _ v])
qed


lemma close_node_eq:
  assumes inv: "edges_inv adj G v ds base pre st"
  shows "close_node v st =
    (if lowlink st ! v = num st v
     then st\<lparr>scc_stack := base, onstack := fold (\<lambda>w c. c[w := False]) (pre @ [v]) (onstack st),
             scc_out := scc_out st @ [pre @ [v]]\<rparr>
     else st)"
proof -
  have "v \<notin> set pre" "v \<in> indexed st" using edges_inv_stack(1,4) [OF inv] by auto
  then show ?thesis
    by (simp add: close_node_def edges_invD(4) [OF inv] pop_scc_stack num_def) (auto simp: indexed_def)
qed

lemma close_root:
  assumes inv: "edges_inv adj G v (adj ! v) base pre st" and low: "lowlink st ! v = num st v"
  shows "tarjan_inv adj G (close_node v st)"
proof -
  note i = edges_invD [OF inv] and s = edges_inv_stack [OF inv] and m = scc_members [OF inv low]
  let ?c = "close_node v st"
  have c: "?c = st\<lparr>scc_stack := base, onstack := fold (\<lambda>w c. c[w := False]) (pre @ [v]) (onstack st),
             scc_out := scc_out st @ [pre @ [v]]\<rparr>"
    using low by (simp add: close_node_eq [OF inv])
  have same: "indexed ?c = indexed st" "num ?c = num st" "finished ?c = set (pre @ [v]) \<union> finished st"
    by (auto simp: c indexed_def num_def finished_def fun_eq_iff)
  from i(1) have t: "arrays_ok adj st" "components_ok adj (scc_out st)"
      "\<And>x y. x \<in> indexed st - insert v G \<Longrightarrow> (x, y) \<in> edges adj \<Longrightarrow> y \<in> indexed st"
      "\<And>y. y \<in> set (scc_stack st) \<Longrightarrow> \<exists>g \<in> insert v G. num st g \<le> num st y \<and> (y, g) \<in> (edges adj)\<^sup>*"
      "\<And>g y. g \<in> insert v G \<Longrightarrow> y \<in> set (scc_stack st) \<Longrightarrow> num st g \<le> num st y \<Longrightarrow> (g, y) \<in> (edges adj)\<^sup>*"
    unfolding tarjan_inv_def by blast+
  have "sorted_wrt (\<lambda>x y. num st y < num st x) base"
    using t(1) unfolding arrays_ok_def i(4) by (simp add: sorted_wrt_append)
  moreover have "onstack ?c ! x \<longleftrightarrow> x \<in> set base" if "x < length adj" for x
  proof -
    have "onstack ?c ! x = (x \<notin> set (pre @ [v]) \<and> onstack st ! x)"
      using that t(1) fold_update(2) [of x "onstack st" False "pre @ [v]"] by (simp add: c arrays_ok_def)
    moreover have "onstack st ! x \<longleftrightarrow> x \<in> set (pre @ v # base)"
      using that t(1) unfolding arrays_ok_def i(4) by blast
    ultimately show ?thesis using s(1) by auto
  qed
  moreover have "length (onstack ?c) = length adj" using t(1) by (simp add: c arrays_ok_def fold_update)
  moreover have "scc_stack ?c = base" "next_index ?c = next_index st" "lowlink ?c = lowlink st" "indices ?c = indices st"
    by (simp_all add: c)
  moreover have "indexed st = set base \<union> (set (pre @ [v]) \<union> finished st)"
    "set base \<inter> (set (pre @ [v]) \<union> finished st) = {}" using s(1,4,5) by auto
  ultimately have a: "arrays_ok adj ?c" using t(1) unfolding arrays_ok_def same by auto
  have comps: "components_ok adj (scc_out ?c)"
  proof -
    have "distinct (pre @ [v])" "set (pre @ [v]) \<inter> set (concat (scc_out st)) = {}"
      using s(1,5) by (auto simp: finished_def)
    from components_snoc [OF t(2) this _ m(1)] m(2) show ?thesis by (simp add: c finished_def)
  qed
  have "\<exists>g \<in> G. num st g \<le> num st x \<and> (x, g) \<in> (edges adj)\<^sup>*" if x: "x \<in> set base" for x
  proof -
    from t(4) [of x] x i(4) obtain g where g: "g \<in> insert v G" "num st g \<le> num st x" "(x, g) \<in> (edges adj)\<^sup>*" by auto
    with s(3) [OF x] have "g \<noteq> v" by auto
    with g show ?thesis by auto
  qed
  moreover have "y \<in> indexed st" if "x \<in> indexed st - G" "(x, y) \<in> edges adj" for x y
    using that t(3) [of x y] i(5) by (cases "x = v") (auto simp: edges_def)
  moreover have "(g, y) \<in> (edges adj)\<^sup>*" if "g \<in> G" "y \<in> set base" "num st g \<le> num st y" for g y
    using that t(5) [of g y] i(4) by auto
  moreover have "scc_stack ?c = base" by (simp add: c)
  ultimately show ?thesis using a comps i(3) unfolding tarjan_inv_def same by auto
qed

lemma close_correct:
  assumes inv: "edges_inv adj G v (adj ! v) (scc_stack st0) pre st" and less: "next_index st0 \<le> num st v"
  shows "tarjan_inv adj G (close_node v st)"
    and "\<exists>pre'. low_ok adj v pre' st0 (close_node v st)"
    and "keeps {} st (close_node v st)" and "indexed (close_node v st) = indexed st"
proof -
  note i = edges_invD [OF inv] and c = close_node_eq [OF inv]
  show "keeps {} st (close_node v st)" "indexed (close_node v st) = indexed st"
    unfolding c by (simp_all add: keeps_def indexed_def)
  show "tarjan_inv adj G (close_node v st)"
    using close_root [OF inv] close_not_root [OF inv] c by metis
  show "\<exists>pre'. low_ok adj v pre' st0 (close_node v st)"
  proof (cases "lowlink st ! v = num st v")
    case True
    with less show ?thesis by (intro exI [of _ "[]"]) (simp add: c low_ok_def)
  next
    case False
    have "lowlink st ! v \<le> num st y"
      if "x \<in> set (pre @ [v])" "y \<in> set (scc_stack st0)" "(x, y) \<in> edges adj" for x y
      using i(8) [OF that] that(3) by (auto simp: edges_def)
    with i(4,7) False show ?thesis by (intro exI [of _ "pre @ [v]"]) (auto simp: c low_ok_def)
  qed
qed

section \<open>The search\<close>

definition unseen :: "nat list list \<Rightarrow> tarjan \<Rightarrow> nat set" where
  "unseen adj st = {v. v < length adj} - indexed st"

lemma finite_unseen [simp]: "finite (unseen adj st)"
  by (simp add: unseen_def)

lemma unseen_card: "indexed st \<subseteq> indexed st' \<Longrightarrow> card (unseen adj st') \<le> card (unseen adj st)"
  by (rule card_mono) (auto simp: unseen_def)

lemma strong_connect_correct:
  shows "graph_ok adj \<Longrightarrow> tarjan_inv adj G st \<Longrightarrow> v < length adj \<Longrightarrow> v \<notin> indexed st \<Longrightarrow> \<forall>g \<in> G. (g, v) \<in> (edges adj)\<^sup>* \<Longrightarrow>
      card (unseen adj st) \<le> fuel \<Longrightarrow>
      \<exists>st' pre. strong_connect adj fuel v st = Some st' \<and> tarjan_inv adj G st' \<and> v \<in> indexed st' \<and>
        keeps {} st st' \<and> low_ok adj v pre st st'"
    and "graph_ok adj \<Longrightarrow> edges_inv adj G v ds base pre st \<Longrightarrow> ds @ ws = adj ! v \<Longrightarrow> card (unseen adj st) \<le> fuel \<Longrightarrow>
      \<exists>st' pre'. connect_edges adj fuel v ws st = Some st' \<and> edges_inv adj G v (adj ! v) base pre' st' \<and>
        keeps {v} st st'"
proof (induction adj fuel v st and adj fuel v ws st arbitrary: G and G ds base pre
    rule: strong_connect_connect_edges.induct)
  case (1 adj v st)
  then have "v \<in> unseen adj st" by (simp add: unseen_def)
  with 1(6) show ?case by (auto simp: card_eq_0_iff)
next
  case (2 adj fuel v st)
  let ?o = "open_node v st"
  have a: "arrays_ok adj st" using 2(3) by (simp add: tarjan_inv_def)
  have s: "indexed ?o = insert v (indexed st)" using a 2(4) by (intro seen_open) (simp add: arrays_ok_def)
  have "unseen adj ?o = unseen adj st - {v}" "v \<in> unseen adj st" using s 2(4,5) by (auto simp: unseen_def)
  then have "card (unseen adj ?o) \<le> fuel" using 2(7) by (simp add: card_Diff_singleton)
  from 2(1) [OF 2(2) tarjan_inv_open [OF 2(3-6)] _ this] obtain st1 pre where
    r: "connect_edges adj fuel v (adj ! v) ?o = Some st1" "edges_inv adj G v (adj ! v) (scc_stack st) pre st1"
      "keeps {v} ?o st1" by auto
  have k0: "keeps {} st ?o" by (rule keeps_open [OF a 2(4,5)])
  have "num st1 v = num ?o v" using keeps_num [OF r(3)] s by blast
  also have "\<dots> = next_index st" using a 2(4) by (simp add: num_open arrays_ok_def)
  finally have "next_index st \<le> num st1 v" by simp
  note c = close_correct [OF r(2) this]
  have "keeps {} st st1"
    using k0 r(3) 2(5) s unfolding keeps_def by auto
  with c(3) have "keeps {} st (close_node v st1)" by (rule keeps_trans [rotated])
  moreover have "v \<in> indexed (close_node v st1)" using keeps_seen [OF r(3)] s c(4) by auto
  ultimately show ?case using r(1) c(1,2) by auto
next
  case (3 adj fuel v st)
  then show ?case by (auto simp: keeps_refl)
next
  case (4 adj fuel v w ws st)
  note ok = 4(4) and inv = 4(5) and a = edges_inv_arrays [OF inv]
  have e: "(v, w) \<in> edges adj" using 4(6) a(2) by (auto simp: edges_def simp flip: 4(6))
  then have "w \<in> set (adj ! v)" by (simp add: edges_def)
  with ok nth_mem [OF a(2)] have w: "w < length adj" unfolding graph_ok_def by blast
  show ?case
  proof (cases "w \<in> indexed st")
    case True
    then obtain i where i: "indices st ! w = Some i" by (auto simp: indexed_def)
    define st1 where "st1 = (if onstack st ! w then lower v i st else st)"
    have s: "edges_inv adj G v (ds @ [w]) base pre st1"
      unfolding st1_def by (rule edges_inv_seen [OF inv e i True])
    have "unseen adj st1 = unseen adj st" by (simp add: st1_def unseen_def)
    with 4(3) [of "Some i" i, OF _ _ ok s [unfolded st1_def]] 4(6,7) i w a(4) obtain st' pre' where
      r: "connect_edges adj fuel v ws st1 = Some st'" "edges_inv adj G v (adj ! v) base pre' st'" "keeps {v} st1 st'"
      by (auto simp: st1_def nth_opt_def)
    have "keeps {v} st st1" by (simp add: st1_def keeps_refl keeps_lower)
    from keeps_trans [OF this r(3)] r(1,2) i w a(4) show ?thesis by (simp add: st1_def nth_opt_def) blast
  next
    case False
    with w a(4) have n: "nth_opt (indices st) w = Some None" by (simp add: indexed_def nth_opt_def)
    have "\<forall>g \<in> insert v G. (g, w) \<in> (edges adj)\<^sup>*"
      using edges_inv_reach [OF inv] e by (auto intro: rtrancl_into_rtrancl)
    with 4(1) [OF n refl ok edges_invD(1) [OF inv] w False _ 4(7)] obtain st1 pw where
      c: "strong_connect adj fuel w st = Some st1" "tarjan_inv adj (insert v G) st1" "w \<in> indexed st1" "keeps {} st st1"
        "low_ok adj w pw st st1" by blast
    define st2 where "st2 = lower v (lowlink st1 ! w) st1"
    have s: "edges_inv adj G v (ds @ [w]) base (pw @ pre) st2"
      unfolding st2_def by (rule edges_inv_child [OF inv e False c(2-5)])
    have "card (unseen adj st2) \<le> fuel"
      using unseen_card [OF keeps_seen [OF c(4)], of adj] 4(7) by (simp add: st2_def unseen_def)
    with 4(2) [OF n refl c(1) ok s [unfolded st2_def]] 4(6) obtain st' pre' where
      r: "connect_edges adj fuel v ws st2 = Some st'" "edges_inv adj G v (adj ! v) base pre' st'" "keeps {v} st2 st'"
      by (auto simp: st2_def)
    have "keeps {v} st st2"
      using keeps_mono [OF c(4)] keeps_lower keeps_trans unfolding st2_def by blast
    with r(3) have "keeps {v} st st'" by (rule keeps_trans [rotated])
    with n c(1) r(1,2) show ?thesis by (auto simp: st2_def)
  qed
qed


lemma tarjan_init_inv: "tarjan_inv adj {} (tarjan_init (length adj))"
proof -
  have "indexed (tarjan_init (length adj)) = {}" by (auto simp: indexed_def tarjan_init_def)
  then show ?thesis
    by (simp add: tarjan_inv_def arrays_ok_def components_ok_def finished_def) (simp add: tarjan_init_def)
qed

lemma tarjan_roots_correct:
  assumes ok: "graph_ok adj"
  shows "tarjan_inv adj {} st \<Longrightarrow> set vs \<subseteq> {..<length adj} \<Longrightarrow>
    \<exists>st'. tarjan_roots adj vs st = Some st' \<and> tarjan_inv adj {} st' \<and> indexed st \<union> set vs \<subseteq> indexed st'"
proof (induction vs arbitrary: st)
  case (Cons v vs)
  have v: "v < length adj" using Cons.prems(2) by simp
  have len: "length (indices st) = length adj" using Cons.prems(1) by (simp add: tarjan_inv_def arrays_ok_def)
  show ?case
  proof (cases "indices st ! v")
    case None
    then have "v \<notin> indexed st" by (simp add: indexed_def)
    moreover have "card (unseen adj st) \<le> length adj"
      using card_mono [of "{v. v < length adj}" "unseen adj st"] by (auto simp: unseen_def)
    ultimately obtain st1 where s: "strong_connect adj (length adj) v st = Some st1" "tarjan_inv adj {} st1"
        "v \<in> indexed st1" "keeps {} st st1"
      using strong_connect_correct(1) [OF ok Cons.prems(1) v] by blast
    from Cons.IH [OF s(2)] Cons.prems(2) obtain st' where
      "tarjan_roots adj vs st1 = Some st'" "tarjan_inv adj {} st'" "indexed st1 \<union> set vs \<subseteq> indexed st'" by auto
    with None s(1,3) keeps_seen [OF s(4)] show ?thesis by auto
  next
    case (Some i)
    with v len have "v \<in> indexed st" by (simp add: indexed_def)
    with Cons.IH [OF Cons.prems(1)] Cons.prems(2) Some show ?thesis by auto
  qed
qed simp

lemma tarjan_scc_components:
  assumes ok: "graph_ok adj"
  shows "\<exists>sccs. tarjan_scc adj = Some sccs \<and> components_ok adj sccs \<and> set (concat sccs) = {..<length adj}"
proof -
  from tarjan_roots_correct [OF ok tarjan_init_inv, of "[0..<length adj]"] obtain st where
    st: "tarjan_roots adj [0..<length adj] (tarjan_init (length adj)) = Some st" "tarjan_inv adj {} st"
      "{..<length adj} \<subseteq> indexed st" by (auto simp: atLeast0LessThan)
  have "scc_stack st = []" using st(2) by (cases "scc_stack st") (auto simp: tarjan_inv_def)
  with st(2) have "indexed st = finished st" "arrays_ok adj st" by (auto simp: tarjan_inv_def arrays_ok_def)
  with st(3) seen_less [of adj st] have "finished st = {..<length adj}" by auto
  with st(1,2) show ?thesis by (auto simp: tarjan_scc_def tarjan_inv_def finished_def)
qed

section \<open>Nodes on cycles\<close>

lemma scc_of_eq: "w \<in> scc_of adj v \<Longrightarrow> scc_of adj w = scc_of adj v"
  by (auto simp: scc_of_def intro: rtrancl_trans)

lemma scc_cycle:
  assumes scc: "distinct scc" "u \<in> set scc" "set scc = scc_of adj u" and v: "v \<in> set scc"
  shows "(v, v) \<in> (edges adj)\<^sup>+ \<longleftrightarrow> length scc > 1 \<or> v \<in> set (adj ! v) \<and> v < length adj"
proof
  assume "(v, v) \<in> (edges adj)\<^sup>+"
  then obtain w where w: "(v, w) \<in> edges adj" "(w, v) \<in> (edges adj)\<^sup>*" by (meson tranclD)
  show "length scc > 1 \<or> v \<in> set (adj ! v) \<and> v < length adj"
  proof (cases "w = v")
    case True
    with w(1) show ?thesis by (auto simp: edges_def)
  next
    case False
    have "w \<in> set scc" using w v scc_of_eq [of v adj u] scc(3) by (auto simp: scc_of_def)
    with False v have "card {v, w} \<le> card (set scc)" by (intro card_mono) auto
    with False scc(1) show ?thesis by (simp add: distinct_card)
  qed
next
  assume l: "length scc > 1 \<or> v \<in> set (adj ! v) \<and> v < length adj"
  show "(v, v) \<in> (edges adj)\<^sup>+"
  proof (cases "length scc > 1")
    case True
    have "set scc \<noteq> {v}" using distinct_card [OF scc(1)] True by auto
    with v obtain w where w: "w \<in> set scc" "w \<noteq> v" by auto
    with v scc(3) scc_of_eq [of v adj u] have "(v, w) \<in> (edges adj)\<^sup>*" "(w, v) \<in> (edges adj)\<^sup>*"
      by (auto simp: scc_of_def)
    with w(2) show ?thesis by (metis rtranclD trancl_rtrancl_trancl)
  next
    case False
    with l show ?thesis by (auto simp: edges_def)
  qed
qed

lemma mark_sccs_correct:
  assumes "\<forall>scc \<in> set sccs. distinct scc \<and> (\<exists>u \<in> set scc. set scc = scc_of adj u)"
    and "set (concat sccs) \<subseteq> {..<length adj}" and "length c = length adj"
  shows "\<exists>c'. mark_sccs adj sccs c = Some c' \<and> length c' = length adj \<and>
    (\<forall>v < length adj. c' ! v \<longleftrightarrow> c ! v \<or> v \<in> set (concat sccs) \<and> (v, v) \<in> (edges adj)\<^sup>+)"
  using assms
proof (induction sccs arbitrary: c)
  case (Cons scc sccs)
  from Cons.prems(1) obtain u where u: "distinct scc" "u \<in> set scc" "set scc = scc_of adj u" by auto
  note cyc = scc_cycle [OF u]
  show ?case
  proof (cases "length scc > 1")
    case True
    have "\<exists>c'. mark_sccs adj sccs (fold (\<lambda>v c. c[v := True]) scc c) = Some c' \<and> length c' = length adj \<and>
      (\<forall>v < length adj. c' ! v \<longleftrightarrow> fold (\<lambda>v c. c[v := True]) scc c ! v \<or>
         v \<in> set (concat sccs) \<and> (v, v) \<in> (edges adj)\<^sup>+)"
      using Cons.prems by (intro Cons.IH) (auto simp: fold_update)
    moreover have "fold (\<lambda>v c. c[v := True]) scc c ! v \<longleftrightarrow> c ! v \<or> v \<in> set scc \<and> (v, v) \<in> (edges adj)\<^sup>+"
      if "v < length adj" for v
      using that Cons.prems(3) True cyc [of v] by (simp add: fold_update(2) [of v c True scc])
    ultimately show ?thesis using True by auto
  next
    case False
    with u(2) obtain x where x: "scc = [x]" by (cases scc) (auto simp: not_less le_Suc_eq)
    let ?c = "if x \<in> set (adj ! x) then c[x := True] else c"
    have "\<exists>c'. mark_sccs adj sccs ?c = Some c' \<and> length c' = length adj \<and>
      (\<forall>v < length adj. c' ! v \<longleftrightarrow> ?c ! v \<or> v \<in> set (concat sccs) \<and> (v, v) \<in> (edges adj)\<^sup>+)"
      using Cons.prems by (intro Cons.IH) auto
    moreover have "?c ! v \<longleftrightarrow> c ! v \<or> v \<in> set scc \<and> (v, v) \<in> (edges adj)\<^sup>+" if "v < length adj" for v
      using that Cons.prems(3) False cyc [of v] by (cases "v = x") (simp_all add: x)
    ultimately show ?thesis using False x by auto
  qed
qed simp

lemma find_first_cycle:
  assumes ok: "graph_ok adj"
  shows "\<exists>r. find_first_tau_cycle_node adj = Some r \<and>
    (case r of
       None \<Rightarrow> acyclic (edges adj)
     | Some v \<Rightarrow> v < length adj \<and> (v, v) \<in> (edges adj)\<^sup>+ \<and> (\<forall>u < v. (u, u) \<notin> (edges adj)\<^sup>+))"
proof -
  from tarjan_scc_components [OF ok] obtain sccs where
    s: "tarjan_scc adj = Some sccs" "components_ok adj sccs" "set (concat sccs) = {..<length adj}" by blast
  from s(2) have "\<forall>scc \<in> set sccs. distinct scc \<and> (\<exists>u \<in> set scc. set scc = scc_of adj u)"
    by (auto simp: components_ok_def distinct_concat_iff)
  from mark_sccs_correct [OF this, of "replicate (length adj) False"] s(3) obtain c where
    c: "mark_sccs adj sccs (replicate (length adj) False) = Some c" "length c = length adj"
      "\<And>v. v < length adj \<Longrightarrow> c ! v \<longleftrightarrow> (v, v) \<in> (edges adj)\<^sup>+" by auto
  have dom: "v < length adj" if "(v, v) \<in> (edges adj)\<^sup>+" for v
    using that by (auto dest: tranclD simp: edges_def)
  have "case List.find (\<lambda>v. c ! v) [0..<length adj] of
       None \<Rightarrow> acyclic (edges adj)
     | Some v \<Rightarrow> v < length adj \<and> (v, v) \<in> (edges adj)\<^sup>+ \<and> (\<forall>u < v. (u, u) \<notin> (edges adj)\<^sup>+)"
    using c(3) dom by (auto simp: find_None_iff find_Some_iff acyclic_def split: option.split)
  with s(1) c(1,2) show ?thesis by (simp add: find_first_tau_cycle_node_def)
qed


section \<open>Properties\<close>

text \<open>C28: on every graph the algorithm returns the strongly connected components, each exactly once, and no edge
  leads from a component to a later one.\<close>

theorem tarjan_scc_correct:
  assumes "graph_ok adj"
  shows "\<exists>sccs. tarjan_scc adj = Some sccs \<and> distinct (concat sccs) \<and> set (concat sccs) = {..<length adj} \<and>
    (\<forall>scc \<in> set sccs. \<forall>v \<in> set scc. set scc = scc_of adj v) \<and>
    sorted_wrt (\<lambda>A B. \<forall>x \<in> set A. \<forall>y \<in> set B. (x, y) \<notin> edges adj) sccs"
proof -
  from tarjan_scc_components [OF assms] obtain sccs where
    s: "tarjan_scc adj = Some sccs" "components_ok adj sccs" "set (concat sccs) = {..<length adj}" by blast
  have "set scc = scc_of adj v" if "scc \<in> set sccs" "v \<in> set scc" for scc v
    using s(2) that scc_of_eq unfolding components_ok_def by metis
  with s show ?thesis by (auto simp: components_ok_def)
qed

theorem tarjan_scc_correct_witness:
  "tarjan_scc [[1], [2, 1], [0], [2]] = Some [[2, 1, 0], [3]] \<and>
   (\<exists>sccs. tarjan_scc [[1], [2, 1], [0], [2]] = Some sccs \<and> (\<forall>scc \<in> set sccs. \<forall>v \<in> set scc.
      set scc = scc_of [[1], [2, 1], [0], [2]] v))"
proof -
  have "graph_ok [[1], [2, 1], [0], [2]]" by (simp add: graph_ok_def)
  moreover have "tarjan_scc [[1], [2, 1], [0], [2]] = Some [[2, 1, 0], [3]]" by code_simp
  ultimately show ?thesis using tarjan_scc_correct [of "[[1], [2, 1], [0], [2]]"] by blast
qed

end
