(* ===== verification/Cspx_Semantics.thy ===== *)
theory Cspx_Semantics
  imports Cspx_Trace
begin

text \<open>
  The denotational models the refinement checker decides: what a transition system can do after a visible
  trace, its traces, stable failures and divergences, and the three refinement relations. These are
  specifications, stated for any transition function; \<^verbatim>\<open>check_refine.rs\<close> works with the sets
  \<open>after\<close>, represented as closures, and the lemmas say how one grows from the other and that the
  refinements can be decided by comparing the sets trace by trace.
\<close>

section \<open>Internal steps\<close>

definition tau_tr :: "'s trans_fun \<Rightarrow> 's trans_fun" where
  "tau_tr tr s = map_option (filter (\<lambda>(l, t). l = tau)) (tr s)"

definition tau_reach :: "'s trans_fun \<Rightarrow> 's set \<Rightarrow> 's set" where
  "tau_reach tr S = reach_from (tau_tr tr) S"

definition label_succs :: "'s trans_fun \<Rightarrow> 's set \<Rightarrow> string \<Rightarrow> 's set" where
  "label_succs tr S l = {t. \<exists>s \<in> S. tr_step tr s l t}"

definition after :: "'s trans_fun \<Rightarrow> 's \<Rightarrow> string list \<Rightarrow> 's set" where
  "after tr s0 vs = {s. \<exists>ls. lpath tr s0 ls s \<and> visible ls = vs}"

lemma visible_simps [simp]:
  "visible [] = []" "visible (l # ls) = (if l = tau then visible ls else l # visible ls)"
  "visible (ks @ ls) = visible ks @ visible ls"
  by (simp_all add: visible_def)

lemma tau_notin_visible [simp]: "tau \<notin> set (visible ls)"
  by (simp add: visible_def)

lemma succs_tau_tr: "succs (tau_tr tr) s = {t. tr_step tr s tau t}"
  by (force simp: succs_def tau_tr_def tr_step_def split: option.split)

lemma step_rel_tau_tr: "(s, t) \<in> step_rel (tau_tr tr) \<longleftrightarrow> tr_step tr s tau t"
  by (simp add: step_rel_succs succs_tau_tr)

lemma tau_reach_seed [intro]: "S \<subseteq> tau_reach tr S"
  by (auto simp: tau_reach_def)

lemma tau_reach_step: "s \<in> tau_reach tr S \<Longrightarrow> tr_step tr s tau t \<Longrightarrow> t \<in> tau_reach tr S"
  unfolding tau_reach_def by (rule reachable_succ) (simp_all add: succs_tau_tr)

lemma tau_reach_empty [simp]: "tau_reach tr {} = {}"
  by (simp add: tau_reach_def reach_from_def)

lemma tau_reach_eq_empty [simp]: "tau_reach tr S = {} \<longleftrightarrow> S = {}"
  using tau_reach_seed [of S tr] by fastforce

text \<open>Internal paths.\<close>

lemma tau_path_lpath:
  assumes "(s, t) \<in> (step_rel (tau_tr tr))\<^sup>*"
  shows "\<exists>ls. lpath tr s ls t \<and> visible ls = []"
  using assms
proof (induction rule: rtrancl_induct)
  case base
  show ?case by (intro exI [of _ "[]"]) (simp add: lpath.Nil)
next
  case (step t u)
  then obtain ls out where "lpath tr s ls t" "visible ls = []" "tr t = Some out" "(tau, u) \<in> set out"
    by (auto simp: step_rel_tau_tr tr_step_def)
  then show ?case by (intro exI [of _ "ls @ [tau]"]) (auto intro: lpath_snoc)
qed

lemma lpath_tau_path: "lpath tr s ls t \<Longrightarrow> visible ls = [] \<Longrightarrow> (s, t) \<in> (step_rel (tau_tr tr))\<^sup>*"
proof (induction rule: lpath.induct)
  case (Cons s out l t ls u)
  then have "(s, t) \<in> step_rel (tau_tr tr)" "(t, u) \<in> (step_rel (tau_tr tr))\<^sup>*"
    by (auto simp: step_rel_tau_tr tr_step_def split: if_splits)
  then show ?case by (rule converse_rtrancl_into_rtrancl)
qed simp

text \<open>What a system can do after a trace, step by step: the recursion the checker computes.\<close>

lemma after_Nil: "after tr s0 [] = tau_reach tr {s0}"
  using tau_path_lpath [of s0 _ tr] lpath_tau_path [of tr s0]
  by (fastforce simp: after_def tau_reach_def reach_from_def)

lemma visible_snoc_split:
  "visible ls = vs @ [l] \<Longrightarrow> \<exists>ks ms. ls = ks @ l # ms \<and> visible ks = vs \<and> visible ms = []"
proof (induction ls arbitrary: vs)
  case (Cons k ls)
  show ?case
  proof (cases "k = tau")
    case True
    with Cons obtain ks ms where "ls = ks @ l # ms" "visible ks = vs" "visible ms = []" by auto
    with True show ?thesis by (intro exI [of _ "k # ks"] exI [of _ ms]) simp
  next
    case k: False
    show ?thesis
    proof (cases vs)
      case Nil
      with Cons.prems k show ?thesis by (intro exI [of _ "[]"] exI [of _ ls]) simp
    next
      case (Cons v vs')
      with \<open>visible (k # ls) = vs @ [l]\<close> k have "visible ls = vs' @ [l]" "v = k" by auto
      with Cons.IH [of vs'] obtain ks ms where "ls = ks @ l # ms" "visible ks = vs'" "visible ms = []" by auto
      with Cons k \<open>v = k\<close> show ?thesis by (intro exI [of _ "k # ks"] exI [of _ ms]) simp
    qed
  qed
qed simp

lemma after_tau_closed: "s \<in> after tr s0 vs \<Longrightarrow> (s, t) \<in> (step_rel (tau_tr tr))\<^sup>* \<Longrightarrow> t \<in> after tr s0 vs"
  using tau_path_lpath [of s t tr] lpath_append [of tr s0 _ s _ t] by (fastforce simp: after_def)

lemma after_snoc:
  assumes "l \<noteq> tau"
  shows "after tr s0 (vs @ [l]) = tau_reach tr (label_succs tr (after tr s0 vs) l)"
proof (intro set_eqI iffI)
  fix s assume "s \<in> after tr s0 (vs @ [l])"
  then obtain ls where p: "lpath tr s0 ls s" and "visible ls = vs @ [l]" by (auto simp: after_def)
  from visible_snoc_split [OF this(2)] obtain ks ms where
    ls: "ls = ks @ l # ms" "visible ks = vs" "visible ms = []" by blast
  from p ls(1) obtain t where t: "lpath tr s0 ks t" "lpath tr t (l # ms) s" by (auto dest: lpath_split)
  from t(2) obtain out u where "tr t = Some out" "(l, u) \<in> set out" "lpath tr u ms s"
    by (rule lpath_ConsE)
  with t(1) ls(2,3) have "u \<in> label_succs tr (after tr s0 vs) l" "(u, s) \<in> (step_rel (tau_tr tr))\<^sup>*"
    by (auto simp: label_succs_def after_def tr_step_def intro: lpath_tau_path)
  then show "s \<in> tau_reach tr (label_succs tr (after tr s0 vs) l)"
    by (auto simp: tau_reach_def reach_from_def)
next
  fix s assume "s \<in> tau_reach tr (label_succs tr (after tr s0 vs) l)"
  then obtain t u where "t \<in> after tr s0 vs" "tr_step tr t l u" and us: "(u, s) \<in> (step_rel (tau_tr tr))\<^sup>*"
    by (auto simp: tau_reach_def reach_from_def label_succs_def)
  then obtain ls out where "lpath tr s0 ls t" "visible ls = vs" "tr t = Some out" "(l, u) \<in> set out"
    by (auto simp: after_def tr_step_def)
  then have "lpath tr s0 (ls @ [l]) u" by (blast intro: lpath_snoc)
  with \<open>visible ls = vs\<close> assms have "u \<in> after tr s0 (vs @ [l])" by (force simp: after_def)
  from after_tau_closed [OF this us] show "s \<in> after tr s0 (vs @ [l])" .
qed

lemma after_reachable: "after tr s0 vs \<subseteq> reachable tr s0"
  by (auto simp: after_def reachable_iff_lpath)

lemma after_visible: "s \<in> after tr s0 vs \<Longrightarrow> tau \<notin> set vs"
  by (auto simp: after_def)

lemma init_after [simp]: "s0 \<in> after tr s0 []"
  by (auto simp: after_Nil tau_reach_def)

lemma after_Nil_nonempty [simp]: "after tr s0 [] \<noteq> {}"
  using init_after [of s0 tr] by blast

lemma after_prefix:
  assumes "after tr s0 (vs @ ws) \<noteq> {}"
  shows "after tr s0 vs \<noteq> {}"
  using assms
proof (induction ws rule: rev_induct)
  case (snoc l ws)
  then obtain s where s: "s \<in> after tr s0 ((vs @ ws) @ [l])" by auto
  then have "l \<noteq> tau" using after_visible [OF s] by auto
  with s have "label_succs tr (after tr s0 (vs @ ws)) l \<noteq> {}"
    using after_snoc [OF \<open>l \<noteq> tau\<close>, of tr s0 "vs @ ws"] by auto
  then have "after tr s0 (vs @ ws) \<noteq> {}" by (auto simp: label_succs_def)
  with snoc.IH show ?case by blast
qed simp

section \<open>Traces, stable failures, divergences\<close>

definition stable :: "'s trans_fun \<Rightarrow> 's \<Rightarrow> bool" where
  "stable tr s \<longleftrightarrow> (\<forall>t. \<not> tr_step tr s tau t)"

definition offers :: "'s trans_fun \<Rightarrow> 's \<Rightarrow> string set" where
  "offers tr s = {l. l \<noteq> tau \<and> (\<exists>t. tr_step tr s l t)}"

definition diverges :: "'s trans_fun \<Rightarrow> 's \<Rightarrow> bool" where
  "diverges tr s \<longleftrightarrow> (\<exists>f. f 0 = s \<and> (\<forall>i::nat. tr_step tr (f i) tau (f (Suc i))))"

definition traces :: "'s trans_fun \<Rightarrow> 's \<Rightarrow> string list set" where
  "traces tr s0 = {vs. after tr s0 vs \<noteq> {}}"

definition failures :: "'s trans_fun \<Rightarrow> 's \<Rightarrow> (string list \<times> string set) set" where
  "failures tr s0 = {(vs, X). \<exists>s \<in> after tr s0 vs. stable tr s \<and> X \<inter> offers tr s = {}}"

definition diverges_after :: "'s trans_fun \<Rightarrow> 's \<Rightarrow> string list \<Rightarrow> bool" where
  "diverges_after tr s0 vs \<longleftrightarrow> (\<exists>s \<in> after tr s0 vs. diverges tr s)"

definition divergences :: "'s trans_fun \<Rightarrow> 's \<Rightarrow> string list set" where
  "divergences tr s0 = {vs @ ws | vs ws. diverges_after tr s0 vs \<and> tau \<notin> set ws}"

definition failures_strict :: "'s trans_fun \<Rightarrow> 's \<Rightarrow> (string list \<times> string set) set" where
  "failures_strict tr s0 = failures tr s0 \<union> {(vs, X). vs \<in> divergences tr s0}"

definition refines_T :: "'s trans_fun \<Rightarrow> 's \<Rightarrow> 't trans_fun \<Rightarrow> 't \<Rightarrow> bool" where
  "refines_T spec s0 impl t0 \<longleftrightarrow> traces impl t0 \<subseteq> traces spec s0"

definition refines_F :: "'s trans_fun \<Rightarrow> 's \<Rightarrow> 't trans_fun \<Rightarrow> 't \<Rightarrow> bool" where
  "refines_F spec s0 impl t0 \<longleftrightarrow>
     traces impl t0 \<subseteq> traces spec s0 \<and> failures impl t0 \<subseteq> failures spec s0"

definition refines_FD :: "'s trans_fun \<Rightarrow> 's \<Rightarrow> 't trans_fun \<Rightarrow> 't \<Rightarrow> bool" where
  "refines_FD spec s0 impl t0 \<longleftrightarrow>
     failures_strict impl t0 \<subseteq> failures_strict spec s0 \<and> divergences impl t0 \<subseteq> divergences spec s0"

text \<open>The comparison of stable states at one trace.\<close>

definition refusals_ok :: "'s trans_fun \<Rightarrow> 's set \<Rightarrow> 't trans_fun \<Rightarrow> 't set \<Rightarrow> bool" where
  "refusals_ok spec B impl A \<longleftrightarrow>
     (\<forall>s \<in> A. stable impl s \<longrightarrow> (\<exists>t \<in> B. stable spec t \<and> offers spec t \<subseteq> offers impl s))"

lemma failures_at:
  "refusals_ok spec (after spec s0 vs) impl (after impl t0 vs) \<longleftrightarrow>
     (\<forall>X. (vs, X) \<in> failures impl t0 \<longrightarrow> (vs, X) \<in> failures spec s0)"
proof
  assume r: "refusals_ok spec (after spec s0 vs) impl (after impl t0 vs)"
  show "\<forall>X. (vs, X) \<in> failures impl t0 \<longrightarrow> (vs, X) \<in> failures spec s0"
  proof (intro allI impI)
    fix X assume "(vs, X) \<in> failures impl t0"
    then obtain s where s: "s \<in> after impl t0 vs" "stable impl s" "X \<inter> offers impl s = {}"
      by (auto simp: failures_def)
    with r obtain t where "t \<in> after spec s0 vs" "stable spec t" "offers spec t \<subseteq> offers impl s"
      by (auto simp: refusals_ok_def)
    with s(3) show "(vs, X) \<in> failures spec s0" by (auto simp: failures_def)
  qed
next
  assume f: "\<forall>X. (vs, X) \<in> failures impl t0 \<longrightarrow> (vs, X) \<in> failures spec s0"
  show "refusals_ok spec (after spec s0 vs) impl (after impl t0 vs)"
    unfolding refusals_ok_def
  proof (intro ballI impI)
    fix s assume "s \<in> after impl t0 vs" "stable impl s"
    then have "(vs, - offers impl s) \<in> failures impl t0" by (auto simp: failures_def)
    with f have "(vs, - offers impl s) \<in> failures spec s0" by blast
    then show "\<exists>t \<in> after spec s0 vs. stable spec t \<and> offers spec t \<subseteq> offers impl s"
      by (auto simp: failures_def)
  qed
qed

section \<open>Divergence in finite systems\<close>

definition tau_cycle_in :: "'s trans_fun \<Rightarrow> 's set \<Rightarrow> bool" where
  "tau_cycle_in tr S \<longleftrightarrow> (\<exists>s \<in> S. (s, s) \<in> (step_rel (tau_tr tr))\<^sup>+)"

lemma tau_cycle_diverges:
  assumes "(s, s) \<in> (step_rel (tau_tr tr))\<^sup>+"
  shows "diverges tr s"
proof -
  let ?R = "step_rel (tau_tr tr)"
  have "\<exists>u. (t, u) \<in> ?R \<and> (u, s) \<in> ?R\<^sup>*" if "(t, s) \<in> ?R\<^sup>*" for t
  proof (cases "t = s")
    case True
    with assms show ?thesis by (metis tranclD)
  next
    case False
    with that show ?thesis by (metis converse_rtranclE)
  qed
  then obtain g where g: "\<And>t. (t, s) \<in> ?R\<^sup>* \<Longrightarrow> (t, g t) \<in> ?R \<and> (g t, s) \<in> ?R\<^sup>*" by metis
  have inv: "((g ^^ i) s, s) \<in> ?R\<^sup>*" for i
    by (induction i) (use g in auto)
  show ?thesis
    unfolding diverges_def
  proof (intro exI [of _ "\<lambda>i. (g ^^ i) s"] conjI allI)
    show "tr_step tr ((g ^^ i) s) tau ((g ^^ Suc i) s)" for i
      using g [OF inv [of i]] by (simp add: step_rel_tau_tr)
  qed simp
qed

text \<open>On a finite set closed under internal steps, divergence is a cycle, and without one some state is
  stable.\<close>

lemma diverges_tau_cycle:
  assumes fin: "finite S" and closed: "\<And>s t. s \<in> S \<Longrightarrow> tr_step tr s tau t \<Longrightarrow> t \<in> S"
    and s: "s \<in> S" and div: "diverges tr s"
  shows "tau_cycle_in tr S"
proof -
  let ?R = "step_rel (tau_tr tr)"
  from div obtain f where f: "f 0 = s" "\<And>i::nat. tr_step tr (f i) tau (f (Suc i))"
    by (auto simp: diverges_def)
  have f_in: "f i \<in> S" for i by (induction i) (use f s closed in auto)
  then have "\<not> inj f" using fin finite_subset [of "range f" S] finite_imageD [of f UNIV] by auto
  then obtain i j where "i < j" "f i = f j" by (metis injI linorder_neqE_nat)
  have path: "(f i, f (Suc (i + k))) \<in> ?R\<^sup>+" for k
  proof (induction k)
    case 0
    show ?case using f(2) [of i] by (auto simp: step_rel_tau_tr)
  next
    case (Suc k)
    moreover have "(f (Suc (i + k)), f (Suc (i + Suc k))) \<in> ?R"
      using f(2) [of "Suc (i + k)"] by (simp add: step_rel_tau_tr)
    ultimately show ?case by (rule trancl_into_trancl)
  qed
  from \<open>i < j\<close> have "j = Suc (i + (j - Suc i))" by simp
  with path [of "j - Suc i"] \<open>f i = f j\<close> have "(f i, f i) \<in> ?R\<^sup>+" by simp
  with f_in [of i] show ?thesis by (auto simp: tau_cycle_in_def)
qed

lemma no_stable_diverges:
  assumes "s \<in> S" and "\<And>s t. s \<in> S \<Longrightarrow> tr_step tr s tau t \<Longrightarrow> t \<in> S" and "\<And>s. s \<in> S \<Longrightarrow> \<not> stable tr s"
  shows "diverges tr s"
proof -
  have "\<exists>t. t \<in> S \<and> tr_step tr s tau t" if "s \<in> S" for s
    using assms(2,3) [OF that] by (auto simp: stable_def)
  then obtain g where g: "\<And>s. s \<in> S \<Longrightarrow> g s \<in> S \<and> tr_step tr s tau (g s)" by metis
  have "(g ^^ i) s \<in> S" for i by (induction i) (use g assms(1) in auto)
  then show ?thesis
    unfolding diverges_def by (intro exI [of _ "\<lambda>i. (g ^^ i) s"]) (use g in auto)
qed

lemma after_closed: "s \<in> after tr s0 vs \<Longrightarrow> tr_step tr s tau t \<Longrightarrow> t \<in> after tr s0 vs"
  by (rule after_tau_closed) (auto simp: step_rel_tau_tr)

lemma after_finite: "finite_lts tr s0 \<Longrightarrow> finite (after tr s0 vs)"
  using after_reachable [of tr s0 vs] by (auto simp: finite_lts_def intro: finite_subset)

lemma diverges_after_iff_cycle:
  assumes "finite_lts tr s0"
  shows "diverges_after tr s0 vs \<longleftrightarrow> tau_cycle_in tr (after tr s0 vs)"
proof
  assume "diverges_after tr s0 vs"
  then obtain s where s: "s \<in> after tr s0 vs" "diverges tr s" by (auto simp: diverges_after_def)
  show "tau_cycle_in tr (after tr s0 vs)"
    using after_finite [OF assms] after_closed s by (rule diverges_tau_cycle)
next
  assume "tau_cycle_in tr (after tr s0 vs)"
  then show "diverges_after tr s0 vs"
    by (auto simp: tau_cycle_in_def diverges_after_def intro: tau_cycle_diverges)
qed

lemma stable_or_diverges:
  assumes "after tr s0 vs \<noteq> {}"
  shows "diverges_after tr s0 vs \<or> (\<exists>s \<in> after tr s0 vs. stable tr s)"
proof (rule ccontr)
  assume n: "\<not> (diverges_after tr s0 vs \<or> (\<exists>s \<in> after tr s0 vs. stable tr s))"
  from assms obtain s where s: "s \<in> after tr s0 vs" by blast
  have "diverges tr s" using s after_closed n by (intro no_stable_diverges [OF s]) auto
  with s n show False by (auto simp: diverges_after_def)
qed

end
