(* ===== verification/Cspx_Closure.thy ===== *)
theory Cspx_Closure
  imports Cspx_Semantics
begin

text \<open>
  The closures of the refinement checker: sets of states closed under internal steps, represented by the
  list of the states in the order of their encodings together with the list of the encodings, the
  signature. The lemmas show that the closures the checker computes are exactly the sets \<open>after\<close> a trace,
  that signatures identify them, and that the depth-first search for internal cycles decides divergence.
\<close>

section \<open>Closures\<close>

record closure =
  cl_states :: "cspm_state list"
  cl_sig :: "u8 list list"

text \<open>Inserting states into the visited set and pushing the new ones to the queue; the set is the list of
  its elements in the order of insertion.\<close>

fun push_new :: "'s list \<Rightarrow> 's list \<Rightarrow> 's list \<Rightarrow> 's list \<times> 's list" where
  "push_new visited queue [] = (visited, queue)"
| "push_new visited queue (s # ss) =
     (if s \<in> set visited then push_new visited queue ss
      else push_new (visited @ [s]) (queue @ [s]) ss)"

partial_function (option) tau_closure_loop ::
  "'s transition_provider \<Rightarrow> 's list \<Rightarrow> 's list \<Rightarrow> 's list option" where
  "tau_closure_loop provider visited queue =
     (case queue of
        [] \<Rightarrow> Some visited
      | state # queue1 \<Rightarrow>
          (case transitions provider state of
             None \<Rightarrow> None
           | Some nexts \<Rightarrow>
               (case push_new visited queue1 (map snd (filter (\<lambda>(l, t). l = tau) nexts)) of
                  (visited', queue') \<Rightarrow> tau_closure_loop provider visited' queue')))"

declare tau_closure_loop.simps [code]

text \<open>The states are sorted by their encodings; as the encoding is injective, the order in which the set is
  iterated does not matter.\<close>

definition make_closure :: "cspm_state list \<Rightarrow> closure" where
  "make_closure visited =
     (let pairs = sort_key fst (map (\<lambda>state. (encode state, state)) visited)
      in \<lparr>cl_states = map snd pairs, cl_sig = map fst pairs\<rparr>)"

definition tau_closure :: "cspm_state transition_provider \<Rightarrow> cspm_state list \<Rightarrow> closure option" where
  "tau_closure provider seeds =
     (case push_new [] [] seeds of
        (visited, queue) \<Rightarrow> map_option make_closure (tau_closure_loop provider visited queue))"

definition enabled_visible_labels :: "'s transition_provider \<Rightarrow> 's list \<Rightarrow> string list option" where
  "enabled_visible_labels provider states =
     map_option (\<lambda>outs. bts_of_list (filter (\<lambda>l. l \<noteq> tau) (map fst (concat outs))))
       (map_opt (transitions provider) states)"

definition next_by_label ::
  "cspm_state transition_provider \<Rightarrow> cspm_state list \<Rightarrow> string \<Rightarrow> closure option" where
  "next_by_label provider from_closure label =
     (case map_opt (transitions provider) from_closure of
        None \<Rightarrow> None
      | Some outs \<Rightarrow>
          tau_closure provider (map snd (filter (\<lambda>(l, t). l = label) (concat outs))))"

definition is_stable :: "'s transition_provider \<Rightarrow> 's \<Rightarrow> bool option" where
  "is_stable provider state =
     map_option (list_all (\<lambda>(l, t). l \<noteq> tau)) (transitions provider state)"

definition offered_visible_labels :: "'s transition_provider \<Rightarrow> 's \<Rightarrow> string list option" where
  "offered_visible_labels provider state =
     map_option (\<lambda>out. bts_of_list (filter (\<lambda>l. l \<noteq> tau) (map fst out))) (transitions provider state)"

fun stable_offer_sets :: "'s transition_provider \<Rightarrow> 's list \<Rightarrow> string list list option" where
  "stable_offer_sets provider [] = Some []"
| "stable_offer_sets provider (state # states) =
     (case is_stable provider state of
        None \<Rightarrow> None
      | Some False \<Rightarrow> stable_offer_sets provider states
      | Some True \<Rightarrow>
          (case offered_visible_labels provider state of
             None \<Rightarrow> None
           | Some offer \<Rightarrow> map_option (Cons offer) (stable_offer_sets provider states)))"

section \<open>Internal cycles\<close>

datatype colour = White | Gray | Black

record dfs_frame =
  fr_node :: nat
  fr_neighbors :: "nat list"
  fr_cursor :: nat

definition index_of :: "'s list \<Rightarrow> 's \<Rightarrow> nat option" where
  "index_of states = map_of (rev (zip states [0..<length states]))"

definition tau_successor_indices ::
  "'s transition_provider \<Rightarrow> 's \<Rightarrow> ('s \<Rightarrow> nat option) \<Rightarrow> nat list option" where
  "tau_successor_indices provider state index =
     map_option (\<lambda>out. List.map_filter (\<lambda>(l, t). if l \<noteq> tau then None else index t) out)
       (transitions provider state)"

text \<open>The stack with its top first. The result is the colours once the stack is empty, or \<open>Inl True\<close> when
  the search returns at a gray node.\<close>

partial_function (option) dfs_loop ::
  "'s transition_provider \<Rightarrow> 's list \<Rightarrow> colour list \<Rightarrow> dfs_frame list \<Rightarrow> (bool + colour list) option" where
  "dfs_loop provider states color stack =
     (case stack of
        [] \<Rightarrow> Some (Inr color)
      | frame # stack1 \<Rightarrow>
          if length (fr_neighbors frame) \<le> fr_cursor frame
          then dfs_loop provider states (color[fr_node frame := Black]) stack1
          else
            (let nxt = fr_neighbors frame ! fr_cursor frame;
                 frame' = frame\<lparr>fr_cursor := fr_cursor frame + 1\<rparr>
             in case color ! nxt of
                  White \<Rightarrow>
                    (case tau_successor_indices provider (states ! nxt) (index_of states) of
                       None \<Rightarrow> None
                     | Some neighbors \<Rightarrow>
                         dfs_loop provider states (color[nxt := Gray])
                           (\<lparr>fr_node = nxt, fr_neighbors = neighbors, fr_cursor = 0\<rparr> # frame' # stack1))
                | Gray \<Rightarrow> Some (Inl True)
                | Black \<Rightarrow> dfs_loop provider states color (frame' # stack1)))"

declare dfs_loop.simps [code]

fun dfs_starts ::
  "'s transition_provider \<Rightarrow> 's list \<Rightarrow> nat list \<Rightarrow> colour list \<Rightarrow> bool option" where
  "dfs_starts provider states [] color = Some False"
| "dfs_starts provider states (start # starts) color =
     (if color ! start \<noteq> White then dfs_starts provider states starts color
      else
        (case tau_successor_indices provider (states ! start) (index_of states) of
           None \<Rightarrow> None
         | Some neighbors \<Rightarrow>
             (case dfs_loop provider states (color[start := Gray])
                     [\<lparr>fr_node = start, fr_neighbors = neighbors, fr_cursor = 0\<rparr>] of
                None \<Rightarrow> None
              | Some (Inl b) \<Rightarrow> Some b
              | Some (Inr color') \<Rightarrow> dfs_starts provider states starts color')))"

definition closure_has_tau_cycle :: "'s transition_provider \<Rightarrow> 's list \<Rightarrow> bool option" where
  "closure_has_tau_cycle provider closure_states =
     (if closure_states = [] then Some False
      else dfs_starts provider closure_states [0..<length closure_states]
             (replicate (length closure_states) White))"

section \<open>The closure of a set of states\<close>

text \<open>The closure record of a finite set of states.\<close>

definition closure_of :: "cspm_state set \<Rightarrow> closure" where
  "closure_of S = make_closure (sorted_list_of_set S)"

text \<open>What the checker needs of a transition system: the transition function returns on the finitely many
  reachable states, and the codec distinguishes them.\<close>

definition coded_lts :: "cspm_state transition_provider \<Rightarrow> bool" where
  "coded_lts provider \<longleftrightarrow>
     finite_lts (transitions provider) (initial_state provider) \<and>
     (\<forall>s \<in> reachable (transitions provider) (initial_state provider). state_ok s)"

lemma coded_ltsI:
  assumes "initial_state provider \<in> set states"
    and "\<And>s. s \<in> set states \<Longrightarrow> \<exists>out. transitions provider s = Some out \<and> snd ` set out \<subseteq> set states"
    and "list_all state_ok states"
  shows "coded_lts provider"
proof -
  let ?R = "reachable (transitions provider) (initial_state provider)"
  have sub: "?R \<subseteq> set states"
  proof (rule reachable_closed)
    show "succs (transitions provider) s \<subseteq> set states" if "s \<in> set states" for s
      using assms(2) [OF that] by (auto simp: succs_def)
  qed (use assms(1) in simp)
  then have "finite ?R" by (rule finite_subset) simp
  moreover have "transitions provider s \<noteq> None" if "s \<in> ?R" for s
    using assms(2) [of s] sub that by auto
  ultimately show ?thesis
    using sub assms(3) unfolding coded_lts_def finite_lts_def list_all_iff by blast
qed

lemma set_make_closure [simp]: "set (cl_states (make_closure xs)) = set xs"
  by (simp add: make_closure_def Let_def image_image)

lemma cl_sig_make_closure: "cl_sig (make_closure xs) = map encode (cl_states (make_closure xs))"
  by (auto simp: make_closure_def Let_def)

lemma set_closure_of [simp]: "finite S \<Longrightarrow> set (cl_states (closure_of S)) = S"
  by (simp add: closure_of_def)

lemma closure_of_empty [simp]: "finite S \<Longrightarrow> cl_states (closure_of S) = [] \<longleftrightarrow> S = {}"
  using set_closure_of [of S] by fastforce

lemma make_closure_eq:
  assumes "distinct xs" and "distinct ys" and "set xs = set ys" and "\<forall>s \<in> set xs. state_ok s"
  shows "make_closure xs = make_closure ys"
proof -
  let ?f = "\<lambda>state. (encode state, state)"
  have inj: "inj_on encode (set xs)"
    using assms(4) by (intro inj_on_subset [OF cspm_codec.enc_inj_on]) auto
  have "sort_key fst (map ?f xs) = sort_key fst (map ?f ys)"
  proof (rule sort_key_inj_key_eq)
    have "mset xs = mset ys" using assms(1-3) by (simp add: set_eq_iff_mset_eq_distinct)
    then show "mset (map ?f xs) = mset (sort_key fst (map ?f ys))" by simp
    show "inj_on fst (set (map ?f xs))" using inj by (auto simp: inj_on_def)
  qed simp
  then show ?thesis by (simp add: make_closure_def)
qed

lemma closure_of_sig:
  assumes "finite S" "finite T" and "\<forall>s \<in> S \<union> T. state_ok s"
  shows "cl_sig (closure_of S) = cl_sig (closure_of T) \<longleftrightarrow> S = T"
proof
  assume "cl_sig (closure_of S) = cl_sig (closure_of T)"
  then have "encode ` S = encode ` T"
    using assms(1,2) set_map [of encode "cl_states (closure_of S)"] set_map [of encode "cl_states (closure_of T)"]
    by (simp add: closure_of_def cl_sig_make_closure)
  moreover have "inj_on encode (S \<union> T)"
    using assms(3) by (intro inj_on_subset [OF cspm_codec.enc_inj_on]) auto
  ultimately show "S = T" by (metis Un_upper1 Un_upper2 inj_on_image_eq_iff)
qed simp

lemma push_new_fresh:
  "push_new visited queue ss =
     (visited @ fresh (set visited) ss, queue @ fresh (set visited) ss)"
  by (induction visited queue ss rule: push_new.induct) simp_all

lemma tau_closure_loop_correct:
  assumes fin: "finite (reach_from (tau_tr (transitions provider)) S)"
    and total: "\<forall>s \<in> reach_from (tau_tr (transitions provider)) S. transitions provider s \<noteq> None"
  shows "bfs_inv (tau_tr (transitions provider)) S (set visited) queue \<Longrightarrow> distinct visited \<Longrightarrow>
    \<exists>visited'. tau_closure_loop provider visited queue = Some visited' \<and> distinct visited' \<and>
      set visited' = tau_reach (transitions provider) S"
proof (induction "bfs_measure (tau_tr (transitions provider)) S (set visited) queue"
    arbitrary: visited queue rule: less_induct)
  case less
  let ?tr = "tau_tr (transitions provider)"
  show ?case
  proof (cases queue)
    case Nil
    with less.prems bfs_done [of ?tr S "set visited"] show ?thesis
      by (simp add: tau_closure_loop.simps tau_reach_def)
  next
    case (Cons s queue1)
    with less.prems have inv: "bfs_inv ?tr S (set visited) ([s] @ queue1)" by simp
    then have "s \<in> reach_from ?tr S" by (auto simp: bfs_inv_def)
    with total obtain nexts where out: "transitions provider s = Some nexts" by fastforce
    define new where "new = fresh (set visited) (map snd (filter (\<lambda>(l, t). l = tau) nexts))"
    have new: "distinct new" "set new = (\<Union>t \<in> set [s]. succs ?tr t) - set visited"
      by (auto simp: new_def distinct_fresh set_fresh succs_def tau_tr_def out)
    have V: "set (visited @ new) = set visited \<union> set new" by simp
    have "bfs_inv ?tr S (set (visited @ new)) (queue1 @ new)"
      unfolding V by (rule bfs_expand [OF inv new])
    moreover have "bfs_measure ?tr S (set (visited @ new)) (queue1 @ new)
        < bfs_measure ?tr S (set visited) queue"
      unfolding V Cons using bfs_expand_measure [OF inv new _ fin] by simp
    moreover have "distinct (visited @ new)" using less.prems(2) new by auto
    moreover have "tau_closure_loop provider visited queue =
        tau_closure_loop provider (visited @ new) (queue1 @ new)"
      using Cons out by (subst tau_closure_loop.simps) (simp add: push_new_fresh new_def)
    ultimately show ?thesis using less.hyps by simp
  qed
qed

lemma tau_reach_subset:
  assumes "S \<subseteq> reachable tr s0"
  shows "tau_reach tr S \<subseteq> reachable tr s0"
  unfolding tau_reach_def
proof (rule reachable_closed [OF assms])
  show "succs (tau_tr tr) s \<subseteq> reachable tr s0" if "s \<in> reachable tr s0" for s
    using that by (auto simp: succs_tau_tr tr_step_def intro: reachable_step)
qed

lemma tau_closure_correct:
  assumes coded: "coded_lts provider"
    and seeds: "set seeds \<subseteq> reachable (transitions provider) (initial_state provider)"
  shows "tau_closure provider seeds = Some (closure_of (tau_reach (transitions provider) (set seeds)))"
proof -
  let ?tr = "transitions provider" and ?q = "fresh {} seeds"
  let ?T = "tau_reach ?tr (set seeds)"
  have sub: "?T \<subseteq> reachable ?tr (initial_state provider)" using seeds by (rule tau_reach_subset)
  with coded have T: "finite ?T" "\<forall>s \<in> ?T. state_ok s" "\<forall>s \<in> ?T. ?tr s \<noteq> None"
    by (auto simp: coded_lts_def finite_lts_def intro: finite_subset)
  have "bfs_inv (tau_tr ?tr) (set seeds) (set ?q) ?q"
    using bfs_init [of ?q "tau_tr ?tr"] by (simp add: distinct_fresh set_fresh)
  then obtain visited where v: "tau_closure_loop provider ?q ?q = Some visited" "distinct visited" "set visited = ?T"
    using tau_closure_loop_correct [of provider "set seeds" ?q ?q] T by (auto simp: tau_reach_def distinct_fresh)
  have "make_closure visited = closure_of ?T"
    unfolding closure_of_def using v T by (intro make_closure_eq) simp_all
  with v(1) show ?thesis by (simp add: tau_closure_def push_new_fresh)
qed

section \<open>Labels, offers and successors\<close>

lemma outs_total:
  assumes "finite_lts (transitions provider) s0" and "set states \<subseteq> reachable (transitions provider) s0"
  shows "\<exists>outs. map_opt (transitions provider) states = Some outs"
  using assms by (intro map_opt_total) (auto simp: finite_lts_def)

lemma outs_set:
  assumes "map_opt (transitions provider) states = Some outs"
  shows "(l, t) \<in> set (concat outs) \<longleftrightarrow> (\<exists>s \<in> set states. tr_step (transitions provider) s l t)"
  using map_opt_set [OF assms] by (force simp: tr_step_def)

lemma enabled_visible_labels_correct:
  assumes "finite_lts (transitions provider) s0" and "set states \<subseteq> reachable (transitions provider) s0"
  shows "\<exists>labels. enabled_visible_labels provider states = Some labels \<and> bts_ok labels \<and>
    set labels = (\<Union>s \<in> set states. offers (transitions provider) s)"
proof -
  from outs_total [OF assms] obtain outs where o: "map_opt (transitions provider) states = Some outs" ..
  have "l \<in> fst ` set (concat outs) \<longleftrightarrow> (\<exists>s \<in> set states. \<exists>t. tr_step (transitions provider) s l t)" for l
    using outs_set [OF o, of l] by (force simp del: set_concat)
  with o show ?thesis
    by (auto simp: enabled_visible_labels_def offers_def simp del: set_concat)
qed

lemma next_by_label_correct:
  assumes coded: "coded_lts provider"
    and sub: "set states \<subseteq> reachable (transitions provider) (initial_state provider)"
  shows "next_by_label provider states l =
    Some (closure_of (tau_reach (transitions provider) (label_succs (transitions provider) (set states) l)))"
proof -
  let ?tr = "transitions provider"
  from coded sub obtain outs where o: "map_opt ?tr states = Some outs"
    using outs_total [of provider "initial_state provider" states] by (auto simp: coded_lts_def)
  let ?seeds = "map snd (filter (\<lambda>(k, t). k = l) (concat outs))"
  have seeds: "set ?seeds = label_succs ?tr (set states) l"
    using outs_set [OF o, of l] by (force simp: label_succs_def simp del: set_concat)
  also have "\<dots> \<subseteq> reachable ?tr (initial_state provider)"
    using sub by (auto simp: label_succs_def tr_step_def intro: reachable_step)
  finally show ?thesis
    using tau_closure_correct [OF coded, of ?seeds] o seeds by (simp add: next_by_label_def)
qed

lemma is_stable_correct:
  "transitions provider s \<noteq> None \<Longrightarrow> is_stable provider s = Some (stable (transitions provider) s)"
  by (fastforce simp: is_stable_def stable_def tr_step_def list_all_iff)

lemma offered_visible_labels_correct:
  assumes "transitions provider s \<noteq> None"
  shows "\<exists>labels. offered_visible_labels provider s = Some labels \<and> bts_ok labels \<and>
    set labels = offers (transitions provider) s"
  using assms by (force simp: offered_visible_labels_def offers_def tr_step_def)

lemma stable_offer_sets_correct:
  assumes "\<forall>s \<in> set states. transitions provider s \<noteq> None"
  shows "\<exists>sets. stable_offer_sets provider states = Some sets \<and>
    set ` set sets = offers (transitions provider) ` {s \<in> set states. stable (transitions provider) s}"
  using assms
proof (induction states)
  case (Cons s states)
  then obtain sets where IH: "stable_offer_sets provider states = Some sets"
    "set ` set sets = offers (transitions provider) ` {s \<in> set states. stable (transitions provider) s}"
    by auto
  show ?case
  proof (cases "stable (transitions provider) s")
    case True
    from offered_visible_labels_correct [of provider s] Cons.prems obtain labels where
      "offered_visible_labels provider s = Some labels" "set labels = offers (transitions provider) s" by auto
    moreover have "{t \<in> set (s # states). stable (transitions provider) t}
        = insert s {t \<in> set states. stable (transitions provider) t}" using True by auto
    ultimately show ?thesis
      using True IH Cons.prems by (simp add: is_stable_correct)
  next
    case False
    then have "{t \<in> set (s # states). stable (transitions provider) t}
        = {t \<in> set states. stable (transitions provider) t}" by auto
    with False IH Cons.prems show ?thesis by (simp add: is_stable_correct)
  qed
qed simp

section \<open>The search for internal cycles\<close>

text \<open>The search works on the indices of the states of the closure; \<open>idx_edge\<close> is its graph.\<close>

definition idx_edge :: "'s trans_fun \<Rightarrow> 's list \<Rightarrow> (nat \<times> nat) set" where
  "idx_edge tr states =
     {(i, j). i < length states \<and> j < length states \<and> tr_step tr (states ! i) tau (states ! j)}"

lemma index_of_iff:
  assumes "distinct states"
  shows "index_of states s = Some i \<longleftrightarrow> i < length states \<and> states ! i = s"
proof -
  have d: "distinct (map fst (rev (zip states [0..<length states])))"
    using assms by (simp flip: rev_map)
  have "index_of states s = Some i \<longleftrightarrow> (s, i) \<in> set (zip states [0..<length states])"
    unfolding index_of_def map_of_eq_Some_iff [OF d] by simp
  then show ?thesis by (auto simp: in_set_zip)
qed

text \<open>Lists of neighbours that enumerate the successors of a node.\<close>

definition neighbors_ok :: "'s trans_fun \<Rightarrow> 's list \<Rightarrow> nat \<Rightarrow> nat list \<Rightarrow> bool" where
  "neighbors_ok tr states i neighbors \<longleftrightarrow> set neighbors = {j. (i, j) \<in> idx_edge tr states}"

lemma tau_successor_indices_correct:
  assumes "distinct states" and "i < length states" and "transitions provider (states ! i) \<noteq> None"
  shows "\<exists>neighbors. tau_successor_indices provider (states ! i) (index_of states) = Some neighbors \<and>
    neighbors_ok (transitions provider) states i neighbors"
proof -
  from assms(3) obtain out where out: "transitions provider (states ! i) = Some out" by auto
  have "j \<in> set (List.map_filter g out) \<longleftrightarrow> (\<exists>x \<in> set out. g x = Some j)" for j and g :: "string \<times> 'a \<Rightarrow> nat option"
    by (force simp: List.map_filter_def)
  then have "j \<in> set (List.map_filter (\<lambda>(l, t). if l \<noteq> tau then None else index_of states t) out) \<longleftrightarrow>
      (\<exists>t. (tau, t) \<in> set out \<and> index_of states t = Some j)" for j
    by (fastforce split: if_splits)
  then have "j \<in> set (List.map_filter (\<lambda>(l, t). if l \<noteq> tau then None else index_of states t) out) \<longleftrightarrow>
      (i, j) \<in> idx_edge (transitions provider) states" for j
    using assms(2) out index_of_iff [OF assms(1)] by (auto simp: idx_edge_def tr_step_def)
  with out show ?thesis by (auto simp: tau_successor_indices_def neighbors_ok_def)
qed

text \<open>The stack is a path of the graph; what a frame has passed is black, except for the edge to the
  frame above it.\<close>

fun frames_ok :: "(nat \<times> nat) set \<Rightarrow> (nat \<Rightarrow> bool) \<Rightarrow> nat option \<Rightarrow> dfs_frame list \<Rightarrow> bool" where
  "frames_ok E black nxt [] \<longleftrightarrow> True"
| "frames_ok E black nxt (f # fs) \<longleftrightarrow>
     set (fr_neighbors f) = {j. (fr_node f, j) \<in> E} \<and>
     (\<forall>j \<in> set (take (fr_cursor f) (fr_neighbors f)). black j \<or> Some j = nxt) \<and>
     (\<forall>j. nxt = Some j \<longrightarrow> (fr_node f, j) \<in> E) \<and>
     frames_ok E black (Some (fr_node f)) fs"

definition black_ok :: "(nat \<times> nat) set \<Rightarrow> nat set \<Rightarrow> bool" where
  "black_ok E B \<longleftrightarrow> (\<forall>i \<in> B. \<forall>j. (i, j) \<in> E \<longrightarrow> j \<in> B) \<and> (\<forall>i \<in> B. (i, i) \<notin> E\<^sup>+)"

definition coloured :: "colour list \<Rightarrow> colour \<Rightarrow> nat set" where
  "coloured color c = {i. i < length color \<and> color ! i = c}"

definition dfs_inv :: "(nat \<times> nat) set \<Rightarrow> nat \<Rightarrow> colour list \<Rightarrow> dfs_frame list \<Rightarrow> bool" where
  "dfs_inv E n color stack \<longleftrightarrow>
     length color = n \<and> distinct (map fr_node stack) \<and>
     coloured color Gray = fr_node ` set stack \<and>
     black_ok E (coloured color Black) \<and>
     frames_ok E (\<lambda>j. j \<in> coloured color Black) None stack"

lemma frames_ok_mono:
  "frames_ok E black nxt fs \<Longrightarrow> (\<And>j. black j \<Longrightarrow> black' j) \<Longrightarrow> frames_ok E black' nxt fs"
  by (induction E black nxt fs rule: frames_ok.induct) auto

text \<open>Every frame leads to the one on top.\<close>

lemma frames_ok_path:
  "frames_ok E black (Some j) fs \<Longrightarrow> f \<in> set fs \<Longrightarrow> (fr_node f, j) \<in> E\<^sup>+"
proof (induction fs arbitrary: j)
  case (Cons g fs)
  then have edge: "(fr_node g, j) \<in> E" by simp
  show ?case
  proof (cases "f = g")
    case True
    with edge show ?thesis by auto
  next
    case False
    with Cons have "(fr_node f, fr_node g) \<in> E\<^sup>+" by simp
    with edge show ?thesis by (rule trancl_into_trancl [rotated])
  qed
qed simp

lemma coloured_update:
  "i < length color \<Longrightarrow> coloured (color[i := c]) d =
     (if c = d then insert i (coloured color d) else coloured color d - {i})"
  by (auto simp: coloured_def nth_list_update)

lemma black_ok_insert:
  assumes "black_ok E B" and "\<And>j. (i, j) \<in> E \<Longrightarrow> j \<in> B" and "i \<notin> B"
  shows "black_ok E (insert i B)"
proof -
  have closed: "j \<in> B" if "(k, j) \<in> E\<^sup>*" "k \<in> B" for k j
    using that assms(1) by (induction rule: rtrancl_induct) (auto simp: black_ok_def)
  have "(i, i) \<notin> E\<^sup>+"
  proof
    assume "(i, i) \<in> E\<^sup>+"
    then obtain j where "(i, j) \<in> E" "(j, i) \<in> E\<^sup>*" by (metis tranclD)
    with assms(2,3) closed show False by blast
  qed
  with assms show ?thesis by (auto simp: black_ok_def)
qed

definition dfs_rel :: "((colour list \<times> dfs_frame list) \<times> (colour list \<times> dfs_frame list)) set" where
  "dfs_rel = measures [\<lambda>(color, stack). card (coloured color White),
     \<lambda>(color, stack). \<Sum>f \<leftarrow> stack. Suc (length (fr_neighbors f) - fr_cursor f)]"

lemma wf_dfs_rel: "wf dfs_rel"
  by (simp add: dfs_rel_def)

lemma finite_coloured [simp]: "finite (coloured color c)"
  by (simp add: coloured_def)

lemma successor_list:
  assumes "distinct states" and "\<forall>s \<in> set states. transitions provider s \<noteq> None" and "i < length states"
  shows "\<exists>neighbors. tau_successor_indices provider (states ! i) (index_of states) = Some neighbors \<and>
    set neighbors = {j. (i, j) \<in> idx_edge (transitions provider) states}"
  using tau_successor_indices_correct [OF assms(1,3), of provider] assms(2,3)
  by (simp add: neighbors_ok_def)

text \<open>One round of the loop: it finds a cycle, or it goes on with the invariant and a smaller measure.\<close>

lemma dfs_round:
  assumes dist: "distinct states" and total: "\<forall>s \<in> set states. transitions provider s \<noteq> None"
    and inv: "dfs_inv (idx_edge (transitions provider) states) (length states) color (f # fs)"
  shows "(dfs_loop provider states color (f # fs) = Some (Inl True) \<and>
      (\<exists>i. (i, i) \<in> (idx_edge (transitions provider) states)\<^sup>+)) \<or>
    (\<exists>color' stack'. dfs_loop provider states color (f # fs) = dfs_loop provider states color' stack' \<and>
      dfs_inv (idx_edge (transitions provider) states) (length states) color' stack' \<and>
      ((color', stack'), (color, f # fs)) \<in> dfs_rel \<and>
      coloured color' White \<subseteq> coloured color White)"
proof -
  let ?E = "idx_edge (transitions provider) states" and ?B = "coloured color Black"
  from inv have len: "length color = length states" and
    gray: "coloured color Gray = insert (fr_node f) (fr_node ` set fs)" and
    bl: "black_ok ?E ?B" and nb: "set (fr_neighbors f) = {j. (fr_node f, j) \<in> ?E}" and
    passed: "\<forall>j \<in> set (take (fr_cursor f) (fr_neighbors f)). j \<in> ?B" and
    fs: "frames_ok ?E (\<lambda>j. j \<in> ?B) (Some (fr_node f)) fs" and
    fr: "fr_node f \<notin> fr_node ` set fs" "distinct (map fr_node fs)"
    by (auto simp: dfs_inv_def)
  from gray have fnode: "fr_node f < length color" "color ! fr_node f = Gray"
    by (auto simp: coloured_def)
  show ?thesis
  proof (cases "length (fr_neighbors f) \<le> fr_cursor f")
    case True
    let ?c = "color[fr_node f := Black]"
    have "black_ok ?E (insert (fr_node f) ?B)"
      using bl nb passed True fnode by (intro black_ok_insert) (auto simp: coloured_def)
    moreover have "frames_ok ?E (\<lambda>j. j \<in> insert (fr_node f) ?B) None fs"
      using fs by (cases fs) (auto elim!: frames_ok_mono)
    ultimately have "dfs_inv ?E (length states) ?c fs"
      using len gray fr fnode by (auto simp: dfs_inv_def coloured_update)
    moreover have "((?c, fs), (color, f # fs)) \<in> dfs_rel"
      using fnode by (simp add: dfs_rel_def coloured_update) (auto simp: coloured_def)
    moreover have "dfs_loop provider states color (f # fs) = dfs_loop provider states ?c fs"
      using True by (subst dfs_loop.simps) simp
    moreover have "coloured ?c White \<subseteq> coloured color White"
      using fnode by (auto simp: coloured_update)
    ultimately show ?thesis by blast
  next
    case False
    define j where "j = fr_neighbors f ! fr_cursor f"
    define f' where "f' = f\<lparr>fr_cursor := fr_cursor f + 1\<rparr>"
    from False have "j \<in> set (fr_neighbors f)" by (simp add: j_def)
    with nb have edge: "(fr_node f, j) \<in> ?E" by simp
    then have j: "j < length states" by (simp add: idx_edge_def)
    have f': "fr_node f' = fr_node f" "fr_neighbors f' = fr_neighbors f"
      "set (take (fr_cursor f') (fr_neighbors f')) = insert j (set (take (fr_cursor f) (fr_neighbors f)))"
      "Suc (length (fr_neighbors f) - fr_cursor f') = length (fr_neighbors f) - fr_cursor f"
      using False by (auto simp: f'_def j_def take_Suc_conv_app_nth)
    show ?thesis
    proof (cases "color ! j")
      case White
      from successor_list [OF dist total j] obtain neighbors where
        n: "tau_successor_indices provider (states ! j) (index_of states) = Some neighbors"
          "set neighbors = {k. (j, k) \<in> ?E}" by blast
      let ?g = "\<lparr>fr_node = j, fr_neighbors = neighbors, fr_cursor = 0\<rparr>" and ?c = "color[j := Gray]"
      have jw: "j \<notin> coloured color Gray" "j \<notin> ?B" "j < length color" "j \<in> coloured color White"
        using White j len by (auto simp: coloured_def)
      have "frames_ok ?E (\<lambda>k. k \<in> ?B) None (?g # f' # fs)"
        using n(2) nb passed fs edge f' by auto
      then have "dfs_inv ?E (length states) ?c (?g # f' # fs)"
        using jw bl gray fr len f' by (auto simp: dfs_inv_def coloured_update)
      moreover have "((?c, ?g # f' # fs), (color, f # fs)) \<in> dfs_rel"
        using jw card_Diff1_less [OF finite_coloured jw(4)] by (simp add: dfs_rel_def coloured_update)
      moreover have "dfs_loop provider states color (f # fs) = dfs_loop provider states ?c (?g # f' # fs)"
        using False White n(1) by (subst dfs_loop.simps) (simp add: j_def f'_def Let_def)
      moreover have "coloured ?c White \<subseteq> coloured color White"
        using jw by (auto simp: coloured_update)
      ultimately show ?thesis by blast
    next
      case Gray
      then have "j \<in> insert (fr_node f) (fr_node ` set fs)"
        unfolding gray [symmetric] using j len by (simp add: coloured_def)
      then have "(j, fr_node f) \<in> ?E\<^sup>*" using frames_ok_path [OF fs] by (auto intro: trancl_into_rtrancl)
      with edge have "(fr_node f, fr_node f) \<in> ?E\<^sup>+" by (rule rtrancl_into_trancl2)
      moreover have "dfs_loop provider states color (f # fs) = Some (Inl True)"
        using False Gray by (subst dfs_loop.simps) (simp add: j_def Let_def)
      ultimately show ?thesis by blast
    next
      case Black
      then have "j \<in> ?B" using j len by (simp add: coloured_def)
      with passed nb fs f' have "frames_ok ?E (\<lambda>k. k \<in> ?B) None (f' # fs)" by simp
      then have "dfs_inv ?E (length states) color (f' # fs)"
        using bl gray fr len f' by (simp add: dfs_inv_def)
      moreover have "((color, f' # fs), (color, f # fs)) \<in> dfs_rel"
        using f' False by (simp add: dfs_rel_def)
      moreover have "dfs_loop provider states color (f # fs) = dfs_loop provider states color (f' # fs)"
        using False Black by (subst dfs_loop.simps) (simp add: j_def f'_def Let_def)
      ultimately show ?thesis by blast
    qed
  qed
qed

lemma dfs_loop_correct:
  assumes "distinct states" and "\<forall>s \<in> set states. transitions provider s \<noteq> None"
  shows "dfs_inv (idx_edge (transitions provider) states) (length states) color stack \<Longrightarrow>
    \<exists>r. dfs_loop provider states color stack = Some r \<and>
      (case r of
         Inl b \<Rightarrow> b \<and> (\<exists>i. (i, i) \<in> (idx_edge (transitions provider) states)\<^sup>+)
       | Inr color' \<Rightarrow> dfs_inv (idx_edge (transitions provider) states) (length states) color' [] \<and>
           coloured color' White \<subseteq> coloured color White)"
proof (induction "(color, stack)" arbitrary: color stack rule: wf_induct_rule [OF wf_dfs_rel])
  case 1
  show ?case
  proof (cases stack)
    case Nil
    with 1(2) show ?thesis by (simp add: dfs_loop.simps)
  next
    case (Cons f fs)
    from dfs_round [OF assms 1(2) [unfolded Cons]] show ?thesis
    proof (elim disjE exE conjE)
      fix color' stack'
      assume eq: "dfs_loop provider states color (f # fs) = dfs_loop provider states color' stack'"
        and inv: "dfs_inv (idx_edge (transitions provider) states) (length states) color' stack'"
        and rel: "((color', stack'), color, f # fs) \<in> dfs_rel"
        and white: "coloured color' White \<subseteq> coloured color White"
      from 1(1) [OF rel [folded Cons] inv] show ?thesis
        unfolding Cons eq using white by (fastforce split: sum.splits)
    qed (use Cons in auto)
  qed
qed

lemma dfs_starts_correct:
  assumes "distinct states" and "\<forall>s \<in> set states. transitions provider s \<noteq> None"
  shows "dfs_inv (idx_edge (transitions provider) states) (length states) color [] \<Longrightarrow>
    coloured color White \<subseteq> set starts \<Longrightarrow> set starts \<subseteq> {..<length states} \<Longrightarrow>
    dfs_starts provider states starts color =
      Some (\<exists>i. (i, i) \<in> (idx_edge (transitions provider) states)\<^sup>+)"
proof (induction starts arbitrary: color)
  case Nil
  let ?E = "idx_edge (transitions provider) states"
  from Nil have black: "coloured color Black = {..<length states}"
    by (auto simp: dfs_inv_def coloured_def) (metis colour.exhaust)
  have "i \<in> {..<length states}" if "(i, i) \<in> ?E\<^sup>+" for i
    using tranclD [OF that] by (auto simp: idx_edge_def)
  moreover from Nil(1) have "black_ok ?E {..<length states}" unfolding dfs_inv_def black by blast
  ultimately have "\<not> (\<exists>i. (i, i) \<in> ?E\<^sup>+)" unfolding black_ok_def by blast
  then show ?case by simp
next
  case (Cons start starts)
  let ?E = "idx_edge (transitions provider) states"
  show ?case
  proof (cases "color ! start = White")
    case False
    with Cons show ?thesis by (auto simp: coloured_def)
  next
    case True
    let ?c = "color[start := Gray]"
    from Cons.prems have start: "start < length states" "length color = length states"
      by (auto simp: dfs_inv_def)
    from successor_list [OF assms start(1)] obtain neighbors where
      n: "tau_successor_indices provider (states ! start) (index_of states) = Some neighbors"
        "set neighbors = {k. (start, k) \<in> ?E}" by blast
    have "dfs_inv ?E (length states) ?c [\<lparr>fr_node = start, fr_neighbors = neighbors, fr_cursor = 0\<rparr>]"
      using Cons.prems(1) True start n(2) by (auto simp: dfs_inv_def coloured_update) (auto simp: coloured_def)
    from dfs_loop_correct [OF assms this] obtain r where
      r: "dfs_loop provider states ?c [\<lparr>fr_node = start, fr_neighbors = neighbors, fr_cursor = 0\<rparr>] = Some r"
      and post: "case r of Inl b \<Rightarrow> b \<and> (\<exists>i. (i, i) \<in> ?E\<^sup>+)
        | Inr color' \<Rightarrow> dfs_inv ?E (length states) color' [] \<and> coloured color' White \<subseteq> coloured ?c White"
      by blast
    have "coloured ?c White \<subseteq> set starts"
      using Cons.prems(2) start by (auto simp: coloured_update)
    with r post True n(1) Cons show ?thesis by (cases r) auto
  qed
qed

text \<open>An internal cycle through a state of a closed set of states is a cycle of indices.\<close>

lemma idx_path_states:
  assumes "(i, j) \<in> (idx_edge tr states)\<^sup>+"
  shows "i < length states" and "j < length states" and "(states ! i, states ! j) \<in> (step_rel (tau_tr tr))\<^sup>+"
proof -
  from assms have "i < length states \<and> j < length states \<and> (states ! i, states ! j) \<in> (step_rel (tau_tr tr))\<^sup>+"
  proof (induction rule: trancl_induct)
    case (base j)
    then show ?case by (auto simp: idx_edge_def step_rel_tau_tr)
  next
    case (step j k)
    then have "(states ! j, states ! k) \<in> step_rel (tau_tr tr)" "k < length states"
      by (simp_all add: idx_edge_def step_rel_tau_tr)
    with step.IH show ?case by (blast intro: trancl_into_trancl)
  qed
  then show "i < length states" "j < length states" "(states ! i, states ! j) \<in> (step_rel (tau_tr tr))\<^sup>+" by blast+
qed

lemma idx_cycle_iff:
  assumes dist: "distinct states"
    and closed: "\<And>s t. s \<in> set states \<Longrightarrow> tr_step tr s tau t \<Longrightarrow> t \<in> set states"
  shows "(\<exists>i. (i, i) \<in> (idx_edge tr states)\<^sup>+) \<longleftrightarrow> tau_cycle_in tr (set states)"
proof
  assume "\<exists>i. (i, i) \<in> (idx_edge tr states)\<^sup>+"
  then obtain i where "i < length states" "(states ! i, states ! i) \<in> (step_rel (tau_tr tr))\<^sup>+"
    using idx_path_states by blast
  then show "tau_cycle_in tr (set states)"
    unfolding tau_cycle_in_def by (intro bexI [of _ "states ! i"]) simp_all
next
  have up: "\<exists>j < length states. states ! j = t \<and> (i, j) \<in> (idx_edge tr states)\<^sup>+"
    if "(states ! i, t) \<in> (step_rel (tau_tr tr))\<^sup>+" "i < length states" for i t
    using that
  proof (induction rule: trancl_induct)
    case (base t)
    then have "t \<in> set states" using closed [of "states ! i" t] by (simp add: step_rel_tau_tr)
    then obtain j where "j < length states" "states ! j = t" by (auto simp: in_set_conv_nth)
    with base show ?case by (auto simp: idx_edge_def step_rel_tau_tr)
  next
    case (step t u)
    then obtain j where j: "j < length states" "states ! j = t" "(i, j) \<in> (idx_edge tr states)\<^sup>+" by blast
    with step have "u \<in> set states" using closed [of t u] by (auto simp: step_rel_tau_tr)
    then obtain k where k: "k < length states" "states ! k = u" by (auto simp: in_set_conv_nth)
    with j step have "(j, k) \<in> idx_edge tr states" by (simp add: idx_edge_def step_rel_tau_tr)
    with j k show ?case by (auto intro: trancl_into_trancl)
  qed
  assume "tau_cycle_in tr (set states)"
  then obtain i where i: "i < length states" "(states ! i, states ! i) \<in> (step_rel (tau_tr tr))\<^sup>+"
    by (auto simp: tau_cycle_in_def in_set_conv_nth)
  from up [OF i(2,1)] obtain j where "j < length states" "states ! j = states ! i"
    "(i, j) \<in> (idx_edge tr states)\<^sup>+" by blast
  with i dist show "\<exists>i. (i, i) \<in> (idx_edge tr states)\<^sup>+" by (auto simp: nth_eq_iff_index_eq)
qed

lemma closure_has_tau_cycle_correct:
  assumes "distinct states" and "\<forall>s \<in> set states. transitions provider s \<noteq> None"
    and "\<And>s t. s \<in> set states \<Longrightarrow> tr_step (transitions provider) s tau t \<Longrightarrow> t \<in> set states"
  shows "closure_has_tau_cycle provider states = Some (tau_cycle_in (transitions provider) (set states))"
proof (cases "states = []")
  case False
  let ?c = "replicate (length states) White"
  have "dfs_inv (idx_edge (transitions provider) states) (length states) ?c []"
    by (auto simp: dfs_inv_def black_ok_def coloured_def)
  then have "dfs_starts provider states [0..<length states] ?c =
      Some (\<exists>i. (i, i) \<in> (idx_edge (transitions provider) states)\<^sup>+)"
    by (rule dfs_starts_correct [OF assms(1,2)]) (auto simp: coloured_def)
  with False idx_cycle_iff [OF assms(1,3)] show ?thesis by (simp add: closure_has_tau_cycle_def)
qed (simp add: closure_has_tau_cycle_def tau_cycle_in_def)

end
