(* ===== verification/Cspx_Divergence.thy ===== *)
theory Cspx_Divergence
  imports Cspx_Tarjan Cspx_Deadlock Cspx_Closure
begin

text \<open>
  The divergence checker of \<^verbatim>\<open>check_divergence.rs\<close>: a breadth-first search records the internal transitions,
  and Tarjan's algorithm finds the first state, in the order of discovery, that lies on a cycle of them. The main
  result: on finite systems the checker returns, it fails exactly when a reachable state diverges, and the
  reported trace, before its mark \<open>tau\<close>, is the visible part of a path to a divergent state.
\<close>

section \<open>The checker\<close>

text \<open>The maps and vectors the search builds.\<close>

record 's div_search =
  ds_visited :: "'s visited"
  ds_order :: "'s list"
  ds_tau_edges :: "'s \<rightharpoonup> 's list"
  ds_queue :: "'s list"
  ds_states :: u64
  ds_transitions :: u64

definition add_tau_edge :: "'s \<Rightarrow> 's \<Rightarrow> ('s \<rightharpoonup> 's list) \<Rightarrow> ('s \<rightharpoonup> 's list)" where
  "add_tau_edge s t tau_edges =
     tau_edges(s \<mapsto> (case tau_edges s of None \<Rightarrow> [] | Some ts \<Rightarrow> ts) @ [t])"

fun visit_transitions :: "'s \<Rightarrow> (string \<times> 's) list \<Rightarrow> 's div_search \<Rightarrow> 's div_search" where
  "visit_transitions s [] d = d"
| "visit_transitions s ((l, t) # nexts) d =
     (let d1 = (if l = tau then d\<lparr>ds_tau_edges := add_tau_edge s t (ds_tau_edges d)\<rparr> else d)
      in visit_transitions s nexts
           (if ds_visited d1 t \<noteq> None then d1
            else d1\<lparr>ds_visited := (ds_visited d1)(t \<mapsto> Some (s, l)), ds_order := ds_order d1 @ [t],
                    ds_queue := ds_queue d1 @ [t], ds_states := ds_states d1 + 1\<rparr>))"

partial_function (option) divergence_loop :: "'s transition_provider \<Rightarrow> 's div_search \<Rightarrow> 's div_search option" where
  "divergence_loop provider d =
     (case ds_queue d of
        [] \<Rightarrow> Some d
      | s # queue \<Rightarrow>
          (case transitions provider s of
             None \<Rightarrow> None
           | Some nexts \<Rightarrow>
               divergence_loop provider (visit_transitions s nexts
                 (d\<lparr>ds_queue := queue, ds_transitions := ds_transitions d + of_nat (length nexts)\<rparr>))))"

declare divergence_loop.simps [code]

definition divergence_init :: "'s \<Rightarrow> 's div_search" where
  "divergence_init initial =
     \<lparr>ds_visited = [initial \<mapsto> None], ds_order = [initial], ds_tau_edges = Map.empty, ds_queue = [initial],
      ds_states = 1, ds_transitions = 0\<rparr>"

definition tau_adjacency :: "'s list \<Rightarrow> ('s \<rightharpoonup> 's list) \<Rightarrow> nat list list" where
  "tau_adjacency order tau_edges =
     map (\<lambda>s. case tau_edges s of None \<Rightarrow> [] | Some nexts \<Rightarrow> List.map_filter (index_of order) nexts) order"

definition divergence_counterexample :: "cmodule \<Rightarrow> counterexample_event list \<Rightarrow> counterexample" where
  "divergence_counterexample m events =
     explain \<lparr>cx_kind = Trace, cx_events = events @ [\<lparr>ev_label = tau\<rparr>], cx_is_minimized = False,
              cx_tags = [''divergence''], cx_source_spans = module_counterexample_spans m\<rparr>"

definition divergence_free_check ::
  "'s transition_provider \<Rightarrow> check_request \<Rightarrow> cmodule \<Rightarrow> check_result option" where
  "divergence_free_check provider request m =
     (case divergence_loop provider (divergence_init (initial_state provider)) of
        None \<Rightarrow> None
      | Some d \<Rightarrow>
          (let st = stats_of (ds_states d) (ds_transitions d)
           in case find_first_tau_cycle_node (tau_adjacency (ds_order d) (ds_tau_edges d)) of
                None \<Rightarrow> None
              | Some None \<Rightarrow> Some (check_pass request st)
              | Some (Some i) \<Rightarrow>
                  map_option (\<lambda>events. check_fail request (divergence_counterexample m events) st)
                    (trace_events (ds_visited d) (ds_order d ! i))))"

definition divergence_check :: "check_request \<Rightarrow> cmodule \<Rightarrow> check_result option" where
  "divergence_check request input =
     run_property_check DivergenceFree ''FD'' (\<lambda>provider m. divergence_free_check provider request m)
       request input"

section \<open>The search\<close>

text \<open>The search visits states as the one of the deadlock checker, in addition it records the order of discovery
  and the internal transitions.\<close>

lemma visit_transitions_discover:
  "visit_transitions s nexts d = d' \<Longrightarrow>
     discover s nexts (ds_visited d) (ds_queue d) (ds_states d) = (ds_visited d', ds_queue d', ds_states d')"
  by (induction s nexts d arbitrary: d' rule: visit_transitions.induct) (auto simp: Let_def split: if_splits)


lemma visit_transitions_order:
  "ds_order (visit_transitions s nexts d) = ds_order d @ fresh (dom (ds_visited d)) (map snd nexts)"
  by (induction s nexts d rule: visit_transitions.induct) (auto simp: Let_def domIff)

lemma visit_transitions_counts [simp]: "ds_transitions (visit_transitions s nexts d) = ds_transitions d"
  by (induction s nexts d rule: visit_transitions.induct) (auto simp: Let_def)

definition edge_list :: "('s \<rightharpoonup> 's list) \<Rightarrow> 's \<Rightarrow> 's list" where
  "edge_list tau_edges s = (case tau_edges s of None \<Rightarrow> [] | Some ts \<Rightarrow> ts)"

lemma edge_list_add: "edge_list (add_tau_edge s t m) x = edge_list m x @ (if x = s then [t] else [])"
  by (simp add: edge_list_def add_tau_edge_def)

lemma visit_transitions_edges:
  "edge_list (ds_tau_edges (visit_transitions s nexts d)) x =
     edge_list (ds_tau_edges d) x @ (if x = s then map snd (filter (\<lambda>(l, t). l = tau) nexts) else [])"
  by (induction s nexts d rule: visit_transitions.induct) (auto simp: Let_def edge_list_add)

definition divergence_inv :: "'s trans_fun \<Rightarrow> 's \<Rightarrow> 's div_search \<Rightarrow> bool" where
  "divergence_inv tr s0 d \<longleftrightarrow>
     bfs_inv tr {s0} (dom (ds_visited d)) (ds_queue d) \<and>
     pred_tree (tr_step tr) s0 (dom (ds_visited d)) (visited_pred (ds_visited d)) \<and>
     distinct (ds_order d) \<and> set (ds_order d) = dom (ds_visited d) \<and>
     (\<forall>s. set (edge_list (ds_tau_edges d) s) =
        (if s \<in> dom (ds_visited d) - set (ds_queue d) then {t. tr_step tr s tau t} else {})) \<and>
     ds_states d = of_nat (card (dom (ds_visited d))) \<and>
     ds_transitions d = of_nat (\<Sum>s \<in> dom (ds_visited d) - set (ds_queue d). out_degree tr s)"

lemma divergence_inv_init: "divergence_inv tr s0 (divergence_init s0)"
proof -
  have "visited_pred [s0 \<mapsto> None] = (\<lambda>_. None)" by (auto simp: visited_pred_def)
  then show ?thesis
    using bfs_init [of "[s0]" tr] pred_tree_init [of "tr_step tr" s0]
    by (simp add: divergence_inv_def divergence_init_def edge_list_def)
qed

lemma divergence_round:
  assumes inv: "divergence_inv tr s0 d" and queue: "ds_queue d = s # queue"
    and out: "tr s = Some nexts" and fin: "finite_lts tr s0"
    and d': "d' = visit_transitions s nexts
      (d\<lparr>ds_queue := queue, ds_transitions := ds_transitions d + of_nat (length nexts)\<rparr>)"
  shows "divergence_inv tr s0 d'"
    and "bfs_measure tr {s0} (dom (ds_visited d')) (ds_queue d') < bfs_measure tr {s0} (dom (ds_visited d)) (ds_queue d)"
proof -
  let ?d = "d\<lparr>ds_queue := queue, ds_transitions := ds_transitions d + of_nat (length nexts)\<rparr>"
  from inv queue have bfs: "bfs_inv tr {s0} (dom (ds_visited d)) (s # queue)"
    and tree: "pred_tree (tr_step tr) s0 (dom (ds_visited d)) (visited_pred (ds_visited d))"
    and order: "distinct (ds_order d)" "set (ds_order d) = dom (ds_visited d)"
    and edges: "\<And>x. set (edge_list (ds_tau_edges d) x) =
        (if x \<in> dom (ds_visited d) - set (s # queue) then {t. tr_step tr x tau t} else {})"
    and counts: "ds_states d = of_nat (card (dom (ds_visited d)))"
      "ds_transitions d = of_nat (\<Sum>s \<in> dom (ds_visited d) - set (s # queue). out_degree tr s)"
    by (simp_all add: divergence_inv_def)
  have "discover s nexts (ds_visited d) queue (of_nat (card (dom (ds_visited d)))) =
      (ds_visited d', ds_queue d', ds_states d')"
    using visit_transitions_discover [OF d' [symmetric]] counts(1) by simp
  note round = discover_round [OF bfs tree out fin this]
  have "ds_order d' = ds_order d @ fresh (dom (ds_visited d)) (map snd nexts)"
    by (simp add: d' visit_transitions_order)
  moreover have "dom (ds_visited d') = dom (ds_visited d) \<union> set (fresh (dom (ds_visited d)) (map snd nexts))"
    using discover_correct [OF _ tree, of s nexts "ds_queue ?d" "ds_states d"] visit_transitions_discover [OF d' [symmetric]] bfs out
    by (auto simp: bfs_inv_def tr_step_def)
  ultimately have "distinct (ds_order d')" "set (ds_order d') = dom (ds_visited d')"
    using order by (auto simp: distinct_fresh set_fresh)
  moreover have "set (edge_list (ds_tau_edges d') x) =
      (if x \<in> dom (ds_visited d') - set (ds_queue d') then {t. tr_step tr x tau t} else {})" for x
  proof (cases "x = s")
    case True
    have "set (edge_list (ds_tau_edges d') s) = {t. (tau, t) \<in> set nexts}"
      using edges [of s] by (force simp: d' visit_transitions_edges)
    also have "\<dots> = {t. tr_step tr s tau t}" using out by (auto simp: tr_step_def)
    finally show ?thesis using True unfolding round(3) by simp
  next
    case False
    then have "edge_list (ds_tau_edges d') x = edge_list (ds_tau_edges d) x" by (simp add: d' visit_transitions_edges)
    with False edges [of x] show ?thesis unfolding round(3) by simp
  qed
  moreover have "ds_transitions d' = of_nat (\<Sum>s \<in> dom (ds_visited d') - set (ds_queue d'). out_degree tr s)"
    unfolding round(5) by (simp add: d' counts(2))
  ultimately show "divergence_inv tr s0 d'" using round(1,2,4) unfolding divergence_inv_def by blast
  show "bfs_measure tr {s0} (dom (ds_visited d')) (ds_queue d') < bfs_measure tr {s0} (dom (ds_visited d)) (ds_queue d)"
    using round(6) queue by simp
qed

lemma divergence_loop_correct:
  assumes fin: "finite_lts (transitions provider) s0"
  shows "divergence_inv (transitions provider) s0 d \<Longrightarrow>
    \<exists>d'. divergence_loop provider d = Some d' \<and> divergence_inv (transitions provider) s0 d' \<and> ds_queue d' = []"
proof (induction "bfs_measure (transitions provider) {s0} (dom (ds_visited d)) (ds_queue d)"
    arbitrary: d rule: less_induct)
  case less
  show ?case
  proof (cases "ds_queue d")
    case Nil
    with less.prems show ?thesis by (simp add: divergence_loop.simps)
  next
    case (Cons s queue)
    with less.prems have "s \<in> reachable (transitions provider) s0" by (auto simp: divergence_inv_def bfs_inv_def)
    with fin obtain nexts where out: "transitions provider s = Some nexts" by (auto simp: finite_lts_def)
    note round = divergence_round [OF less.prems Cons out fin refl]
    from less.hyps [OF round(2,1)] Cons out show ?thesis by (subst divergence_loop.simps) simp
  qed
qed


section \<open>The graph of the internal transitions\<close>

lemma tau_adjacency_graph:
  assumes inv: "divergence_inv tr s0 d" and queue: "ds_queue d = []"
  shows "graph_ok (tau_adjacency (ds_order d) (ds_tau_edges d))"
    and "edges (tau_adjacency (ds_order d) (ds_tau_edges d)) = idx_edge tr (ds_order d)"
proof -
  let ?order = "ds_order d" and ?adj = "tau_adjacency (ds_order d) (ds_tau_edges d)"
  have dist: "distinct ?order" using inv by (simp add: divergence_inv_def)
  have adj: "?adj ! i = List.map_filter (index_of ?order) (edge_list (ds_tau_edges d) (?order ! i))"
    if "i < length ?order" for i
    using that by (auto simp: tau_adjacency_def edge_list_def List.map_filter_def split: option.split)
  have "j \<in> set (List.map_filter g ts) \<longleftrightarrow> (\<exists>t \<in> set ts. g t = Some j)" for j ts and g :: "'a \<Rightarrow> nat option"
    by (force simp: List.map_filter_def)
  then have "set (List.map_filter (index_of ?order) ts) = {j. j < length ?order \<and> ?order ! j \<in> set ts}" for ts
    by (auto simp: index_of_iff [OF dist])
  then have succ: "set (?adj ! i) = {j. j < length ?order \<and> tr_step tr (?order ! i) tau (?order ! j)}"
    if "i < length ?order" for i
    using that inv queue by (auto simp: adj divergence_inv_def)
  have len: "length ?adj = length ?order" by (simp add: tau_adjacency_def)
  show "graph_ok ?adj" unfolding graph_ok_def all_set_conv_all_nth len
    using succ len by (metis (mono_tags, lifting) mem_Collect_eq nth_mem)
  show "edges ?adj = idx_edge tr ?order" using succ by (auto simp: edges_def idx_edge_def len)
qed


section \<open>Properties\<close>

lemma diverges_iff_cycle_node:
  assumes fin: "finite_lts tr s0" and order: "distinct order" "set order = reachable tr s0"
  shows "(\<exists>s \<in> reachable tr s0. diverges tr s) \<longleftrightarrow> \<not> acyclic (idx_edge tr order)"
proof -
  have closed: "t \<in> set order" if "s \<in> set order" "tr_step tr s tau t" for s t
    using that order(2) by (auto simp: tr_step_def intro: reachable_step)
  have "(\<exists>s \<in> reachable tr s0. diverges tr s) \<longleftrightarrow> tau_cycle_in tr (set order)"
    using fin diverges_tau_cycle [of "set order" tr] tau_cycle_diverges [of _ tr] closed order(2)
    by (auto simp: tau_cycle_in_def finite_lts_def)
  also have "\<dots> \<longleftrightarrow> \<not> acyclic (idx_edge tr order)"
    using idx_cycle_iff [OF order(1) closed] by (auto simp: acyclic_def)
  finally show ?thesis .
qed

lemma divergence_verdict:
  assumes "explorable provider"
  shows "\<exists>r. divergence_free_check provider request m = Some r \<and>
    cr_stats r = Some (stats_of (of_nat (card (reached provider)))
      (of_nat (\<Sum>s \<in> reached provider. out_degree (transitions provider) s))) \<and>
    (if \<exists>s \<in> reached provider. diverges (transitions provider) s
     then cr_status r = Fail \<and>
       (\<exists>c ls s. cr_counterexample r = Some c \<and> lpath (transitions provider) (initial_state provider) ls s \<and>
          diverges (transitions provider) s \<and> cx_events c = events_of (visible ls @ [tau]))
     else cr_status r = Pass \<and> cr_counterexample r = None)"
proof -
  let ?tr = "transitions provider" and ?s0 = "initial_state provider"
  have fin: "finite_lts ?tr ?s0" using assms by (simp add: explorable_def)
  from divergence_loop_correct [OF fin divergence_inv_init] obtain d where
    run: "divergence_loop provider (divergence_init ?s0) = Some d" and
    inv: "divergence_inv ?tr ?s0 d" and queue: "ds_queue d = []" by blast
  let ?order = "ds_order d"
  from inv queue have dom: "dom (ds_visited d) = reached provider"
    using bfs_done [of ?tr "{?s0}" "dom (ds_visited d)"] by (simp add: divergence_inv_def reached_def)
  with inv queue have order: "distinct ?order" "set ?order = reachable ?tr ?s0"
    and st: "stats_of (ds_states d) (ds_transitions d) = stats_of (of_nat (card (reached provider)))
      (of_nat (\<Sum>s \<in> reached provider. out_degree ?tr s))"
    and tree: "pred_tree (tr_step ?tr) ?s0 (dom (ds_visited d)) (visited_pred (ds_visited d))"
    by (simp_all add: divergence_inv_def reached_def)
  note graph = tau_adjacency_graph [OF inv queue]
  from find_first_cycle [OF graph(1)] obtain r where
    r: "find_first_tau_cycle_node (tau_adjacency ?order (ds_tau_edges d)) = Some r" and
    cyc: "case r of None \<Rightarrow> acyclic (idx_edge ?tr ?order) | Some i \<Rightarrow> (i, i) \<in> (idx_edge ?tr ?order)\<^sup>+"
    unfolding graph(2) by (auto split: option.splits)
  have div: "(\<exists>s \<in> reached provider. diverges ?tr s) \<longleftrightarrow> r \<noteq> None"
    using diverges_iff_cycle_node [OF fin order] cyc by (auto simp: reached_def acyclic_def split: option.splits)
  show ?thesis
  proof (cases r)
    case None
    with run r div st show ?thesis by (simp add: divergence_free_check_def check_pass_def)
  next
    case (Some i)
    let ?u = "?order ! i"
    from cyc Some have cycle: "(i, i) \<in> (idx_edge ?tr ?order)\<^sup>+" by simp
    from tau_cycle_diverges [OF idx_path_states(3) [OF cycle]] have ds: "diverges ?tr ?u" .
    have "?u \<in> dom (ds_visited d)"
      using idx_path_states(1) [OF cycle] inv by (auto simp: divergence_inv_def)
    from trace_events_correct [OF tree this] obtain ls where
      ls: "trace_events (ds_visited d) ?u = Some (events_of (visible ls))" "lpath ?tr ?s0 ls ?u" by blast
    define c where "c = divergence_counterexample m (events_of (visible ls))"
    have ev: "cx_events c = events_of (visible ls @ [tau])"
      by (simp add: c_def divergence_counterexample_def explain_def events_of_def)
    define res where "res = check_fail request c (stats_of (ds_states d) (ds_transitions d))"
    have "divergence_free_check provider request m = Some res"
      using run r Some ls(1) by (simp add: divergence_free_check_def c_def res_def)
    moreover have f: "cr_status res = Fail" "cr_counterexample res = Some c"
      "cr_stats res = Some (stats_of (ds_states d) (ds_transitions d))" by (simp_all add: res_def check_fail_def)
    moreover have "\<exists>s \<in> reached provider. diverges ?tr s" using div Some by simp
    moreover have "\<exists>c ls s. cr_counterexample res = Some c \<and> lpath ?tr ?s0 ls s \<and> diverges ?tr s \<and>
        cx_events c = events_of (visible ls @ [tau])"
      using f(2) ls(2) ds ev by blast
    ultimately show ?thesis unfolding st by (intro exI [of _ res]) (simp only: if_True simp_thms)
  qed
qed

text \<open>C29: on a finite transition system the divergence checker returns. It passes exactly when no reachable state
  diverges, with the statistics of the whole system; otherwise it fails with the visible part of a path from the
  initial state to a divergent state, followed by the mark \<open>tau\<close>.\<close>

theorem divergence_check_correct:
  assumes "explorable provider"
  shows "\<exists>r. divergence_free_check provider request m = Some r \<and>
    cr_stats r = Some (stats_of (of_nat (card (reached provider)))
      (of_nat (\<Sum>s \<in> reached provider. out_degree (transitions provider) s))) \<and>
    (if \<exists>s \<in> reached provider. diverges (transitions provider) s
     then cr_status r = Fail \<and>
       (\<exists>c ls s. cr_counterexample r = Some c \<and> lpath (transitions provider) (initial_state provider) ls s \<and>
          diverges (transitions provider) s \<and> cx_events c = events_of (visible ls @ [tau]))
     else cr_status r = Pass \<and> cr_counterexample r = None)"
  by (rule divergence_verdict [OF assms])

theorem divergence_check_correct_witness:
  "\<exists>r. divergence_free_check demo_lts
        \<lparr>rq_command = CheckCmd, rq_model = None, rq_target = None\<rparr> demo_module = Some r"
  using divergence_check_correct [OF demo_lts_explorable] by blast

end
