(* ===== verification/Cspx_Determinism.thy ===== *)
theory Cspx_Determinism
  imports Cspx_Deadlock Cspx_Closure Cspx_Tarjan
begin

text \<open>
  The determinism checker of \<^verbatim>\<open>check_determinism.rs\<close>: a breadth-first search numbers the reachable states, the
  closures under internal steps are computed as sorted lists of numbers, and a state fails the check when two
  steps with the same visible label lead, from its closure, to different closures. The results characterise the
  verdict, say what it guarantees of the traces of the system, and show that it does not imply determinism in the
  sense of the failures model: a choice between refusing and offering an event passes.
\<close>

section \<open>Numbering the states\<close>

record 's index_search =
  is_index :: "'s \<rightharpoonup> nat"
  is_states :: "'s list"
  is_prev :: "(nat \<times> string) option list"
  is_transitions_from :: "(string \<times> nat) list list"
  is_tau_from :: "nat list list"
  is_queue :: "nat list"
  is_states_count :: u64
  is_transitions_count :: u64

definition index_init :: "'s \<Rightarrow> 's index_search" where
  "index_init initial =
     \<lparr>is_index = [initial \<mapsto> 0], is_states = [initial], is_prev = [None], is_transitions_from = [[]],
      is_tau_from = [[]], is_queue = [0], is_states_count = 1, is_transitions_count = 0\<rparr>"

definition index_state :: "nat \<Rightarrow> string \<Rightarrow> 's \<Rightarrow> 's index_search \<Rightarrow> nat \<times> 's index_search" where
  "index_state idx l t d =
     (case is_index d t of
        Some existing \<Rightarrow> (existing, d)
      | None \<Rightarrow>
          (let new_idx = length (is_states d)
           in (new_idx,
               d\<lparr>is_index := (is_index d)(t \<mapsto> new_idx), is_states := is_states d @ [t],
                 is_prev := is_prev d @ [Some (idx, l)], is_transitions_from := is_transitions_from d @ [[]],
                 is_tau_from := is_tau_from d @ [[]], is_queue := is_queue d @ [new_idx],
                 is_states_count := is_states_count d + 1\<rparr>)))"

definition push_at :: "nat \<Rightarrow> 'a \<Rightarrow> 'a list list \<Rightarrow> 'a list list" where
  "push_at idx x xss = xss[idx := xss ! idx @ [x]]"

fun index_transitions :: "nat \<Rightarrow> (string \<times> 's) list \<Rightarrow> 's index_search \<Rightarrow> 's index_search" where
  "index_transitions idx [] d = d"
| "index_transitions idx ((l, t) # nexts) d =
     (case index_state idx l t d of
        (next_idx, d1) \<Rightarrow>
          index_transitions idx nexts
            (d1\<lparr>is_transitions_from := push_at idx (l, next_idx) (is_transitions_from d1),
                is_tau_from := (if l = tau then push_at idx next_idx (is_tau_from d1) else is_tau_from d1)\<rparr>))"

partial_function (option) index_loop :: "'s transition_provider \<Rightarrow> 's index_search \<Rightarrow> 's index_search option" where
  "index_loop provider d =
     (case is_queue d of
        [] \<Rightarrow> Some d
      | idx # queue \<Rightarrow>
          (case nth_opt (is_states d) idx of
             None \<Rightarrow> None
           | Some s \<Rightarrow>
               (case transitions provider s of
                  None \<Rightarrow> None
                | Some nexts \<Rightarrow>
                    index_loop provider (index_transitions idx nexts
                      (d\<lparr>is_queue := queue,
                         is_transitions_count := is_transitions_count d + of_nat (length nexts)\<rparr>)))))"

declare index_loop.simps [code]

section \<open>Closures\<close>

fun push_unseen :: "nat list \<Rightarrow> bool list \<Rightarrow> nat list \<Rightarrow> (bool list \<times> nat list) option" where
  "push_unseen [] seen queue = Some (seen, queue)"
| "push_unseen (v # vs) seen queue =
     (case nth_opt seen v of
        None \<Rightarrow> None
      | Some True \<Rightarrow> push_unseen vs seen queue
      | Some False \<Rightarrow> push_unseen vs (seen[v := True]) (queue @ [v]))"

partial_function (option) index_closure_loop ::
  "nat list list \<Rightarrow> bool list \<Rightarrow> nat list \<Rightarrow> nat list \<Rightarrow> nat list option" where
  "index_closure_loop tau_from seen queue closure =
     (case queue of
        [] \<Rightarrow> Some closure
      | u # queue1 \<Rightarrow>
          (case nth_opt tau_from u of
             None \<Rightarrow> None
           | Some vs \<Rightarrow>
               (case push_unseen vs seen queue1 of
                  None \<Rightarrow> None
                | Some (seen', queue') \<Rightarrow> index_closure_loop tau_from seen' queue' (closure @ [u]))))"

declare index_closure_loop.simps [code]

definition compute_tau_closures :: "nat list list \<Rightarrow> nat list list option" where
  "compute_tau_closures tau_from =
     map_opt (\<lambda>start. map_option sort
         (index_closure_loop tau_from ((replicate (length tau_from) False)[start := True]) [start] []))
       [0..<length tau_from]"

section \<open>The verdict\<close>

text \<open>The entries \<open>(label, tau_closures[next])\<close> of the transitions with a visible label out of a closure.\<close>

definition closure_targets ::
  "(string \<times> nat) list list \<Rightarrow> nat list list \<Rightarrow> nat list \<Rightarrow> (string \<times> nat list) list option" where
  "closure_targets transitions_from tau_closures closure =
     map_option concat
       (map_opt (\<lambda>u. case nth_opt transitions_from u of
            None \<Rightarrow> None
          | Some out \<Rightarrow>
              map_opt (\<lambda>(l, nxt). map_option (Pair l) (nth_opt tau_closures nxt)) (filter (\<lambda>(l, nxt). l \<noteq> tau) out))
         closure)"

definition add_target ::
  "string \<times> nat list \<Rightarrow> (string \<times> nat list list) list \<Rightarrow> (string \<times> nat list list) list" where
  "add_target e by_label =
     btm_insert (fst e)
       (bts_insert (snd e) (case map_of by_label (fst e) of None \<Rightarrow> [] | Some targets \<Rightarrow> targets)) by_label"

definition conflict_label :: "(string \<times> nat list) list \<Rightarrow> string option" where
  "conflict_label entries =
     map_option fst (List.find (\<lambda>(l, targets). length targets > 1) (fold add_target entries []))"

text \<open>The first state with a conflict, and its first label.\<close>

fun find_conflict ::
  "(string \<times> nat) list list \<Rightarrow> nat list list \<Rightarrow> (nat \<times> nat list) list \<Rightarrow> (nat \<times> string) option option" where
  "find_conflict transitions_from tau_closures [] = Some None"
| "find_conflict transitions_from tau_closures ((state_idx, closure) # rest) =
     (case closure_targets transitions_from tau_closures closure of
        None \<Rightarrow> None
      | Some entries \<Rightarrow>
          (case conflict_label entries of
             Some l \<Rightarrow> Some (Some (state_idx, l))
           | None \<Rightarrow> find_conflict transitions_from tau_closures rest))"

text \<open>The links of a trace stay in the vector (\<open>pred_tree\<close> below).\<close>

definition prev_link :: "(nat \<times> string) option list \<Rightarrow> nat \<Rightarrow> (nat \<times> string) option" where
  "prev_link prev i = (if i < length prev then prev ! i else None)"

definition trace_visible_events :: "(nat \<times> string) option list \<Rightarrow> nat \<Rightarrow> counterexample_event list option" where
  "trace_visible_events prev current =
     map_option (\<lambda>labels. events_of (visible (rev labels))) (back_labels (prev_link prev) current)"

definition determinism_counterexample :: "cmodule \<Rightarrow> counterexample_event list \<Rightarrow> string \<Rightarrow> counterexample" where
  "determinism_counterexample m events l =
     explain \<lparr>cx_kind = Trace, cx_events = events @ [\<lparr>ev_label = l\<rparr>], cx_is_minimized = False,
              cx_tags = [''nondeterminism'', ''label:'' @ l], cx_source_spans = module_counterexample_spans m\<rparr>"

definition determinism_check ::
  "'s transition_provider \<Rightarrow> check_request \<Rightarrow> cmodule \<Rightarrow> check_result option" where
  "determinism_check provider request m =
     (case index_loop provider (index_init (initial_state provider)) of
        None \<Rightarrow> None
      | Some d \<Rightarrow>
          (let st = stats_of (is_states_count d) (is_transitions_count d)
           in case compute_tau_closures (is_tau_from d) of
                None \<Rightarrow> None
              | Some tau_closures \<Rightarrow>
                  (case find_conflict (is_transitions_from d) tau_closures
                          (zip [0..<length tau_closures] tau_closures) of
                     None \<Rightarrow> None
                   | Some None \<Rightarrow> Some (check_pass request st)
                   | Some (Some (state_idx, l)) \<Rightarrow>
                       map_option (\<lambda>events. check_fail request (determinism_counterexample m events l) st)
                         (trace_visible_events (is_prev d) state_idx))))"

definition deterministic_check :: "check_request \<Rightarrow> cmodule \<Rightarrow> check_result option" where
  "deterministic_check request input =
     run_property_check Deterministic ''FD'' (\<lambda>provider m. determinism_check provider request m)
       request input"


section \<open>The search\<close>

text \<open>The transitions of a state read back from their numbers.\<close>

definition resolved :: "'s index_search \<Rightarrow> nat \<Rightarrow> (string \<times> 's) list" where
  "resolved d i = map (\<lambda>(l, j). (l, is_states d ! j)) (is_transitions_from d ! i)"

definition index_step :: "'s trans_fun \<Rightarrow> 's list \<Rightarrow> nat \<Rightarrow> string \<Rightarrow> nat \<Rightarrow> bool" where
  "index_step tr states i l j \<longleftrightarrow>
     i < length states \<and> j < length states \<and> tr_step tr (states ! i) l (states ! j)"

definition tables_ok :: "'s trans_fun \<Rightarrow> 's index_search \<Rightarrow> bool" where
  "tables_ok tr d \<longleftrightarrow>
     distinct (is_states d) \<and>
     (\<forall>s i. is_index d s = Some i \<longleftrightarrow> i < length (is_states d) \<and> is_states d ! i = s) \<and>
     length (is_prev d) = length (is_states d) \<and> length (is_transitions_from d) = length (is_states d) \<and>
     length (is_tau_from d) = length (is_states d) \<and>
     pred_tree (index_step tr (is_states d)) 0 {..<length (is_states d)} (prev_link (is_prev d)) \<and>
     (\<forall>i < length (is_states d). \<forall>(l, j) \<in> set (is_transitions_from d ! i). j < length (is_states d)) \<and>
     (\<forall>i < length (is_states d).
        is_tau_from d ! i = map snd (filter (\<lambda>(l, j). l = tau) (is_transitions_from d ! i)))"

lemma pred_tree_mono:
  assumes "pred_tree step root V pred" and "\<And>p l s. step p l s \<Longrightarrow> step' p l s"
  shows "pred_tree step' root V pred"
  using assms unfolding pred_tree_def by blast

lemma index_step_append: "index_step tr states i l j \<Longrightarrow> index_step tr (states @ new) i l j"
  by (simp add: index_step_def nth_append)

lemma prev_link_snoc: "prev_link (prev @ [x]) = (prev_link prev)(length prev := x)"
  by (auto simp: prev_link_def nth_append fun_eq_iff)

lemma tables_index_None:
  assumes "tables_ok tr d"
  shows "is_index d s = None \<longleftrightarrow> s \<notin> set (is_states d)"
proof -
  have "is_index d s = None \<longleftrightarrow> (\<forall>i. is_index d s \<noteq> Some i)" by simp
  also have "\<dots> \<longleftrightarrow> s \<notin> set (is_states d)" using assms by (auto simp: tables_ok_def in_set_conv_nth)
  finally show ?thesis .
qed

lemma tables_target:
  "tables_ok tr d \<Longrightarrow> i < length (is_states d) \<Longrightarrow> (l, j) \<in> set (is_transitions_from d ! i) \<Longrightarrow> j < length (is_states d)"
  unfolding tables_ok_def by fast

lemma index_state_new:
  assumes ok: "tables_ok tr d" and idx: "idx < length (is_states d)" and t: "t \<notin> set (is_states d)"
    and step: "tr_step tr (is_states d ! idx) l t"
  shows "\<exists>d'. index_state idx l t d = (length (is_states d), d') \<and> tables_ok tr d' \<and>
    is_states d' = is_states d @ [t] \<and> is_queue d' = is_queue d @ [length (is_states d)] \<and>
    is_states_count d' = is_states_count d + 1 \<and> is_transitions_count d' = is_transitions_count d \<and>
    (\<forall>i < length (is_states d). resolved d' i = resolved d i) \<and> resolved d' (length (is_states d)) = []"
proof -
  let ?n = "length (is_states d)"
  let ?d = "d\<lparr>is_index := (is_index d)(t \<mapsto> ?n), is_states := is_states d @ [t],
                 is_prev := is_prev d @ [Some (idx, l)], is_transitions_from := is_transitions_from d @ [[]],
                 is_tau_from := is_tau_from d @ [[]], is_queue := is_queue d @ [?n],
                 is_states_count := is_states_count d + 1\<rparr>"
  have i: "index_state idx l t d = (?n, ?d)"
    using iffD2 [OF tables_index_None [OF ok] t] by (simp add: index_state_def Let_def)
  from ok have len: "length (is_prev d) = ?n" "length (is_transitions_from d) = ?n" "length (is_tau_from d) = ?n"
    by (simp_all add: tables_ok_def)
  have "pred_tree (index_step tr (is_states d @ [t])) 0 {..<?n} (prev_link (is_prev d))"
    by (rule pred_tree_mono [where step = "index_step tr (is_states d)"])
      (use ok in \<open>auto simp: tables_ok_def intro: index_step_append\<close>)
  moreover have "index_step tr (is_states d @ [t]) idx l ?n"
    using idx step by (simp add: index_step_def nth_append)
  moreover have "{..<Suc ?n} = insert ?n {..<?n}" by auto
  ultimately have tree: "pred_tree (index_step tr (is_states ?d)) 0 {..<length (is_states ?d)} (prev_link (is_prev ?d))"
    using idx by (simp add: prev_link_snoc len(1) pred_tree_insert)
  have "is_index ?d s = Some i \<longleftrightarrow> i < length (is_states ?d) \<and> is_states ?d ! i = s" for s i
  proof (cases "s = t")
    case True
    have "is_states d ! i \<noteq> t" if "i < ?n" for i using that t by auto
    with True show ?thesis by (auto simp: nth_append less_Suc_eq)
  next
    case False
    with ok show ?thesis by (auto simp: tables_ok_def nth_append less_Suc_eq)
  qed
  moreover have "\<forall>i < ?n. \<forall>(l, j) \<in> set (is_transitions_from d ! i). j < Suc ?n"
    using ok by (fastforce simp: tables_ok_def)
  ultimately have "tables_ok tr ?d"
    using ok tree t len by (auto simp: tables_ok_def nth_append less_Suc_eq)
  moreover have "resolved ?d i = resolved d i" if "i < ?n" for i
    unfolding resolved_def using that tables_target [OF ok that] len by (auto simp: nth_append)
  moreover have "resolved ?d ?n = []" using len by (simp add: resolved_def nth_append)
  ultimately show ?thesis using i by simp
qed


text \<open>Pushing a transition.\<close>

lemma push_at_nth: "i < length xss \<Longrightarrow> push_at idx x xss ! i = xss ! i @ (if i = idx then [x] else [])"
  by (simp add: push_at_def nth_list_update)

lemma length_push_at [simp]: "length (push_at idx x xss) = length xss"
  by (simp add: push_at_def)

lemma tables_push:
  assumes ok: "tables_ok tr d" and j: "j < length (is_states d)"
    and d': "d' = d\<lparr>is_transitions_from := push_at idx (l, j) (is_transitions_from d),
      is_tau_from := (if l = tau then push_at idx j (is_tau_from d) else is_tau_from d)\<rparr>"
  shows "tables_ok tr d'"
    and "\<forall>i < length (is_states d). resolved d' i = resolved d i @ (if i = idx then [(l, is_states d ! j)] else [])"
proof -
  have len: "length (is_transitions_from d) = length (is_states d)" "length (is_tau_from d) = length (is_states d)"
    using ok by (simp_all add: tables_ok_def)
  have "k < length (is_states d)" if "i < length (is_states d)" "(l', k) \<in> set (is_transitions_from d' ! i)" for i l' k
    using that tables_target [OF ok that(1)] j len by (cases "i = idx") (auto simp: d' push_at_nth)
  moreover have "is_tau_from d' ! i = map snd (filter (\<lambda>(l, j). l = tau) (is_transitions_from d' ! i))"
    if "i < length (is_states d)" for i
    using that ok len by (auto simp: d' tables_ok_def push_at_nth)
  ultimately show "tables_ok tr d'" using ok unfolding tables_ok_def by (simp add: d') blast
  show "\<forall>i < length (is_states d). resolved d' i = resolved d i @ (if i = idx then [(l, is_states d ! j)] else [])"
    using len by (auto simp: resolved_def d' push_at_nth)
qed

lemma index_transitions_correct:
  "index_transitions idx nexts d = d' \<Longrightarrow> tables_ok tr d \<Longrightarrow> idx < length (is_states d) \<Longrightarrow>
   (\<forall>(l, t) \<in> set nexts. tr_step tr (is_states d ! idx) l t) \<Longrightarrow>
     tables_ok tr d' \<and>
     is_states d' = is_states d @ fresh (set (is_states d)) (map snd nexts) \<and>
     is_queue d' = is_queue d @ [length (is_states d)..<length (is_states d')] \<and>
     is_states_count d' = is_states_count d + of_nat (length (is_states d') - length (is_states d)) \<and>
     is_transitions_count d' = is_transitions_count d \<and>
     (\<forall>i < length (is_states d'). resolved d' i =
        (if i < length (is_states d) then resolved d i else []) @ (if i = idx then nexts else []))"
proof (induction idx nexts d arbitrary: d' rule: index_transitions.induct)
  case (2 idx l t nexts d)
  let ?n = "length (is_states d)"
  obtain j d1 where s: "index_state idx l t d = (j, d1)" by (cases "index_state idx l t d")
  define d2 where "d2 = d1\<lparr>is_transitions_from := push_at idx (l, j) (is_transitions_from d1),
      is_tau_from := (if l = tau then push_at idx j (is_tau_from d1) else is_tau_from d1)\<rparr>"
  from 2(2) s have run: "index_transitions idx nexts d2 = d'" by (simp add: d2_def)
  have ok: "tables_ok tr d" and idx: "idx < ?n" by (fact 2)+
  have d1: "tables_ok tr d1 \<and> j < length (is_states d1) \<and> is_states d1 ! j = t \<and>
      is_states d1 = is_states d @ fresh (set (is_states d)) [t] \<and>
      is_queue d1 = is_queue d @ [?n..<length (is_states d1)] \<and>
      is_states_count d1 = is_states_count d + of_nat (length (is_states d1) - ?n) \<and>
      is_transitions_count d1 = is_transitions_count d \<and>
      (\<forall>i < length (is_states d1). resolved d1 i = (if i < ?n then resolved d i else []))"
  proof (cases "is_index d t")
    case None
    then have "t \<notin> set (is_states d)" by (simp add: tables_index_None [OF ok])
    moreover have "tr_step tr (is_states d ! idx) l t" using 2(5) by simp
    ultimately show ?thesis
      using index_state_new [OF ok idx, of t l] s by (auto simp: less_Suc_eq)
  next
    case (Some i)
    with ok have "i < ?n" "is_states d ! i = t" by (auto simp: tables_ok_def)
    moreover from this have "t \<in> set (is_states d)" by auto
    ultimately show ?thesis using ok s Some by (auto simp: index_state_def)
  qed
  then have D: "tables_ok tr d1" "j < length (is_states d1)" "is_states d1 ! j = t"
      "is_states d1 = is_states d @ fresh (set (is_states d)) [t]" by blast+
  have sub: "?n \<le> length (is_states d1)" by (simp add: D(4))
  have d2: "tables_ok tr d2" "is_states d2 = is_states d1" "is_queue d2 = is_queue d1"
    "is_states_count d2 = is_states_count d1" "is_transitions_count d2 = is_transitions_count d1"
    "\<forall>i < length (is_states d1). resolved d2 i = resolved d1 i @ (if i = idx then [(l, t)] else [])"
    using tables_push [OF D(1,2) d2_def] D(3) by (simp_all add: d2_def)
  have idx2: "idx < length (is_states d2)" using idx sub d2(2) by simp
  have "is_states d2 ! idx = is_states d ! idx" using idx D(4) d2(2) by (simp add: nth_append)
  with 2(5) have "\<forall>(l, t) \<in> set nexts. tr_step tr (is_states d2 ! idx) l t" by simp
  from 2(1) [OF s [symmetric] run [unfolded d2_def] d2(1) [unfolded d2_def] idx2 [unfolded d2_def] this [unfolded d2_def]]
  have IH: "tables_ok tr d'" "is_states d' = is_states d2 @ fresh (set (is_states d2)) (map snd nexts)"
      "is_queue d' = is_queue d2 @ [length (is_states d2)..<length (is_states d')]"
      "is_states_count d' = is_states_count d2 + of_nat (length (is_states d') - length (is_states d2))"
      "is_transitions_count d' = is_transitions_count d2"
      "\<forall>i < length (is_states d'). resolved d' i =
        (if i < length (is_states d2) then resolved d2 i else []) @ (if i = idx then nexts else [])"
    unfolding d2_def by blast+
  have st: "is_states d' = is_states d @ fresh (set (is_states d)) (map snd ((l, t) # nexts))"
    using IH(2) D(4) d2(2) by (cases "t \<in> set (is_states d)") auto
  have le: "length (is_states d2) \<le> length (is_states d')" using IH(2) by simp
  have "is_queue d' = is_queue d @ [?n..<length (is_states d')]"
    using IH(3) d1 d2(2,3) le upt_add_eq_append [OF sub, of "length (is_states d') - length (is_states d1)"] by simp
  moreover have "is_states_count d' = is_states_count d + of_nat (length (is_states d') - ?n)"
  proof -
    have "length (is_states d') - ?n =
        (length (is_states d1) - ?n) + (length (is_states d') - length (is_states d1))"
      using sub le d2(2) by simp
    with IH(4) d1 d2(2,4) show ?thesis by (simp only: of_nat_add add.assoc)
  qed
  moreover have "resolved d' i = (if i < ?n then resolved d i else []) @ (if i = idx then (l, t) # nexts else [])"
    if "i < length (is_states d')" for i
    using that IH(6) d1 d2(2,6) idx sub by (auto simp: not_less)
  ultimately show ?case using IH(1,5) st d1 d2(5) by simp
qed auto


text \<open>The loop; the queue holds the numbers of the states not yet expanded.\<close>

definition index_inv :: "'s trans_fun \<Rightarrow> 's \<Rightarrow> 's index_search \<Rightarrow> bool" where
  "index_inv tr s0 d \<longleftrightarrow>
     tables_ok tr d \<and> is_states d \<noteq> [] \<and> is_states d ! 0 = s0 \<and>
     (\<forall>i \<in> set (is_queue d). i < length (is_states d)) \<and>
     bfs_inv tr {s0} (set (is_states d)) (map ((!) (is_states d)) (is_queue d)) \<and>
     (\<forall>i < length (is_states d).
        if i \<in> set (is_queue d) then resolved d i = [] else tr (is_states d ! i) = Some (resolved d i)) \<and>
     is_states_count d = of_nat (length (is_states d)) \<and>
     is_transitions_count d = of_nat (\<Sum>s \<in> set (is_states d) - (!) (is_states d) ` set (is_queue d). out_degree tr s)"

lemma index_inv_init: "index_inv tr s0 (index_init s0)"
proof -
  have "prev_link [None] = (\<lambda>_. None)" by (simp add: prev_link_def fun_eq_iff)
  moreover have "{..<Suc 0} = {0}" by auto
  ultimately have "pred_tree (index_step tr [s0]) 0 {..<Suc 0} (prev_link [None])"
    by (simp only: pred_tree_init)
  moreover have "[s0 \<mapsto> 0] s = Some i \<longleftrightarrow> i < Suc 0 \<and> [s0] ! i = s" for s i by auto
  ultimately have "tables_ok tr (index_init s0)"
    by (simp add: tables_ok_def index_init_def del: fun_upd_apply)
  moreover have "bfs_inv tr {s0} {s0} [s0]" using bfs_init [of "[s0]" tr] by simp
  ultimately show ?thesis by (simp add: index_inv_def) (simp add: index_init_def resolved_def)
qed

lemma index_round:
  assumes inv: "index_inv tr s0 d" and queue: "is_queue d = idx # queue"
    and out: "tr (is_states d ! idx) = Some nexts" and fin: "finite_lts tr s0"
    and d': "d' = index_transitions idx nexts
      (d\<lparr>is_queue := queue, is_transitions_count := is_transitions_count d + of_nat (length nexts)\<rparr>)"
  shows "index_inv tr s0 d'"
    and "bfs_measure tr {s0} (set (is_states d')) (map ((!) (is_states d')) (is_queue d'))
       < bfs_measure tr {s0} (set (is_states d)) (map ((!) (is_states d)) (is_queue d))"
proof -
  let ?st = "is_states d" and ?new = "fresh (set (is_states d)) (map snd nexts)"
  define d1 where
    "d1 = d\<lparr>is_queue := queue, is_transitions_count := is_transitions_count d + of_nat (length nexts)\<rparr>"
  have ok: "tables_ok tr d1" and idx: "idx < length (is_states d1)"
    using inv queue by (auto simp: d1_def index_inv_def tables_ok_def)
  have "\<forall>(l, t) \<in> set nexts. tr_step tr (is_states d1 ! idx) l t" using out by (auto simp: tr_step_def d1_def)
  from index_transitions_correct [OF d' [folded d1_def, symmetric] ok idx this]
  have r: "tables_ok tr d'" "is_states d' = ?st @ ?new"
      "is_queue d' = queue @ [length ?st..<length (is_states d')]"
      "is_states_count d' = is_states_count d + of_nat (length (is_states d') - length ?st)"
      "is_transitions_count d' = is_transitions_count d + of_nat (length nexts)"
      "\<And>i. i < length (is_states d') \<Longrightarrow>
        resolved d' i = (if i < length ?st then resolved d i else []) @ (if i = idx then nexts else [])"
    by (auto simp: d1_def resolved_def)
  have dist: "distinct (is_states d')" using r(1) by (simp add: tables_ok_def)
  have q: "\<forall>i \<in> set queue. i < length ?st" "idx < length ?st" using inv queue by (auto simp: index_inv_def)
  have old: "map ((!) (is_states d')) queue = map ((!) ?st) queue"
    using q(1) r(2) by (auto simp: nth_append)
  have "map ((!) (is_states d')) [length ?st..<length (is_states d')] = ?new"
    unfolding r(2) by (rule nth_equalityI) (auto simp: nth_append)
  then have work: "map ((!) (is_states d')) (is_queue d') = map ((!) ?st) queue @ ?new"
    unfolding r(3) map_append old by simp
  let ?s = "?st ! idx"
  have bfs: "bfs_inv tr {s0} (set ?st) ([?s] @ map ((!) ?st) queue)"
    using inv queue by (simp add: index_inv_def)
  have new: "distinct ?new" "set ?new = (\<Union>s \<in> set [?s]. succs tr s) - set ?st"
    by (auto simp: distinct_fresh set_fresh succs_def out)
  have disjoint: "set ?new \<inter> set ?st = {}" by (auto simp: set_fresh)
  have "bfs_inv tr {s0} (set (is_states d')) (map ((!) (is_states d')) (is_queue d'))"
    unfolding work using bfs_expand [OF bfs new] r(2) by simp
  moreover have "is_transitions_count d' =
      of_nat (\<Sum>s \<in> set (is_states d') - (!) (is_states d') ` set (is_queue d'). out_degree tr s)"
  proof -
    have "(\<Sum>s \<in> set (is_states d') - set (map ((!) (is_states d')) (is_queue d')). out_degree tr s) =
        (\<Sum>s \<in> set ?st - set ([?s] @ map ((!) ?st) queue). out_degree tr s) + length nexts"
      unfolding work using bfs_expand_sum [OF bfs disjoint] r(2) by (simp add: out_degree_def out)
    moreover have "is_transitions_count d =
        of_nat (\<Sum>s \<in> set ?st - set ([?s] @ map ((!) ?st) queue). out_degree tr s)"
      using inv queue by (simp add: index_inv_def)
    ultimately show ?thesis unfolding r(5) by (simp only: of_nat_add set_map)
  qed
  moreover have "if i \<in> set (is_queue d') then resolved d' i = [] else tr (is_states d' ! i) = Some (resolved d' i)"
    if i: "i < length (is_states d')" for i
  proof (cases "i < length ?st")
    case True
    have dq: "idx \<notin> set queue" using bfs by (auto simp: bfs_inv_def)
    have "i \<in> set (is_queue d') \<longleftrightarrow> i \<in> set queue" using True r(3) by auto
    moreover have "is_states d' ! i = ?st ! i" using True r(2) by (simp add: nth_append)
    moreover have "if i \<in> set (is_queue d) then resolved d i = [] else tr (?st ! i) = Some (resolved d i)"
      using inv True by (simp add: index_inv_def)
    ultimately show ?thesis using r(6) [OF i] True dq out queue by (cases "i = idx") auto
  next
    case False
    with i have "i \<in> set (is_queue d')" using r(3) by auto
    with r(6) [OF i] False q(2) show ?thesis by auto
  qed
  moreover have "is_states_count d' = of_nat (length (is_states d'))"
    unfolding r(4) using inv r(2) by (simp add: index_inv_def)
  moreover have "\<forall>i \<in> set (is_queue d'). i < length (is_states d')" using q(1) r(2,3) by auto
  moreover have "is_states d' \<noteq> []" "is_states d' ! 0 = s0"
    using inv r(2) by (auto simp: index_inv_def nth_append)
  ultimately show "index_inv tr s0 d'" using r(1) unfolding index_inv_def by blast
  show "bfs_measure tr {s0} (set (is_states d')) (map ((!) (is_states d')) (is_queue d'))
       < bfs_measure tr {s0} (set ?st) (map ((!) ?st) (is_queue d))"
    unfolding work using bfs_expand_measure [OF bfs new] fin r(2) queue by (simp add: finite_lts_def)
qed

lemma index_loop_correct:
  assumes fin: "finite_lts (transitions provider) s0"
  shows "index_inv (transitions provider) s0 d \<Longrightarrow>
    \<exists>d'. index_loop provider d = Some d' \<and> index_inv (transitions provider) s0 d' \<and> is_queue d' = []"
proof (induction "bfs_measure (transitions provider) {s0} (set (is_states d)) (map ((!) (is_states d)) (is_queue d))"
    arbitrary: d rule: less_induct)
  case less
  show ?case
  proof (cases "is_queue d")
    case Nil
    with less.prems show ?thesis by (simp add: index_loop.simps)
  next
    case (Cons idx queue)
    with less.prems have idx: "idx < length (is_states d)" by (simp add: index_inv_def)
    then have "is_states d ! idx \<in> reachable (transitions provider) s0"
      using less.prems by (auto simp: index_inv_def bfs_inv_def)
    with fin obtain nexts where out: "transitions provider (is_states d ! idx) = Some nexts"
      by (auto simp: finite_lts_def)
    note round = index_round [OF less.prems Cons out fin refl]
    from less.hyps [OF round(2,1)] Cons out idx show ?thesis
      by (subst index_loop.simps) (simp add: nth_opt_def)
  qed
qed


section \<open>The closures\<close>

definition tau_graph :: "nat list list \<Rightarrow> nat trans_fun" where
  "tau_graph tau_from u = map_option (map (\<lambda>v. (tau, v))) (nth_opt tau_from u)"

definition marked :: "bool list \<Rightarrow> nat set" where
  "marked seen = {v. v < length seen \<and> seen ! v}"

lemma marked_update: "v < length seen \<Longrightarrow> marked (seen[v := True]) = insert v (marked seen)"
  by (auto simp: marked_def nth_list_update)

lemma push_unseen_correct:
  "\<forall>v \<in> set vs. v < length seen \<Longrightarrow>
    \<exists>seen'. push_unseen vs seen queue = Some (seen', queue @ fresh (marked seen) vs) \<and>
      length seen' = length seen \<and> marked seen' = marked seen \<union> set (fresh (marked seen) vs)"
proof (induction vs seen queue rule: push_unseen.induct)
  case (2 v vs seen queue)
  then have v: "v < length seen" by simp
  show ?case
  proof (cases "seen ! v")
    case True
    with v have "nth_opt seen v = Some True" "v \<in> marked seen" by (simp_all add: nth_opt_def marked_def)
    with 2 show ?thesis by simp
  next
    case False
    with v have s: "nth_opt seen v = Some False" "v \<notin> marked seen" by (simp_all add: nth_opt_def marked_def)
    have "\<exists>seen'. push_unseen vs (seen[v := True]) (queue @ [v]) =
          Some (seen', (queue @ [v]) @ fresh (marked (seen[v := True])) vs) \<and>
        length seen' = length (seen[v := True]) \<and>
        marked seen' = marked (seen[v := True]) \<union> set (fresh (marked (seen[v := True])) vs)"
      by (rule 2(2) [OF s(1)]) (use 2(3) in simp_all)
    then obtain seen' where
      "push_unseen vs (seen[v := True]) (queue @ [v]) = Some (seen', (queue @ [v]) @ fresh (insert v (marked seen)) vs)"
      "length seen' = length seen" "marked seen' = insert v (marked seen) \<union> set (fresh (insert v (marked seen)) vs)"
      unfolding marked_update [OF v] by auto
    with s show ?thesis by auto
  qed
qed simp

lemma index_closure_loop_correct:
  assumes ok: "graph_ok tau_from" and start: "start < length tau_from"
  shows "bfs_inv (tau_graph tau_from) {start} (marked seen) queue \<Longrightarrow> length seen = length tau_from \<Longrightarrow>
    distinct closure \<Longrightarrow> set closure = marked seen - set queue \<Longrightarrow>
    \<exists>cl. index_closure_loop tau_from seen queue closure = Some cl \<and> distinct cl \<and>
      set cl = reach_from (tau_graph tau_from) {start}"
proof (induction "bfs_measure (tau_graph tau_from) {start} (marked seen) queue" arbitrary: seen queue closure rule: less_induct)
  case less
  let ?G = "tau_graph tau_from"
  show ?case
  proof (cases queue)
    case Nil
    with less.prems bfs_done [of ?G "{start}" "marked seen"] show ?thesis by (simp add: index_closure_loop.simps)
  next
    case (Cons u queue1)
    have u: "u \<in> marked seen" using less.prems(1) Cons by (auto simp: bfs_inv_def)
    then have un: "u < length tau_from" using less.prems(2) by (simp add: marked_def)
    let ?vs = "tau_from ! u" and ?new = "fresh (marked seen) (tau_from ! u)"
    have vs: "\<forall>v \<in> set ?vs. v < length seen"
      using ok nth_mem [OF un] unfolding graph_ok_def less.prems(2) by blast
    from push_unseen_correct [OF this, of queue1] obtain seen' where
      p: "push_unseen ?vs seen queue1 = Some (seen', queue1 @ ?new)" "length seen' = length seen"
        "marked seen' = marked seen \<union> set ?new" by blast
    have bfs: "bfs_inv ?G {start} (marked seen) ([u] @ queue1)" using less.prems(1) Cons by simp
    have succs: "succs ?G u = set ?vs" using un by (force simp: succs_def tau_graph_def nth_opt_def)
    have new: "distinct ?new" "set ?new = (\<Union>s \<in> set [u]. succs ?G s) - marked seen"
      by (simp_all add: distinct_fresh set_fresh succs)
    have "reach_from ?G {start} \<subseteq> {..<length tau_from}"
    proof (rule reachable_closed)
      fix v assume "v \<in> {..<length tau_from}"
      then have "v < length tau_from" by simp
      with ok nth_mem [OF this] have "\<forall>w \<in> set (tau_from ! v). w < length tau_from" unfolding graph_ok_def by blast
      then show "succs ?G v \<subseteq> {..<length tau_from}"
        by (auto simp: succs_def tau_graph_def nth_opt_def split: option.splits if_splits)
    qed (use start in simp)
    then have fin: "finite (reach_from ?G {start})" by (rule finite_subset) simp
    have "bfs_inv ?G {start} (marked seen') (queue1 @ ?new)"
      unfolding p(3) by (rule bfs_expand [OF bfs new])
    moreover have "bfs_measure ?G {start} (marked seen') (queue1 @ ?new) < bfs_measure ?G {start} (marked seen) queue"
      unfolding p(3) Cons using bfs_expand_measure [OF bfs new _ fin] by simp
    moreover have "distinct (closure @ [u])" using less.prems(3,4) Cons by simp
    moreover have "set (closure @ [u]) = marked seen' - set (queue1 @ ?new)"
      using less.prems(1,4) Cons u new(2) unfolding p(3) by (auto simp: bfs_inv_def)
    ultimately have "\<exists>cl. index_closure_loop tau_from seen' (queue1 @ ?new) (closure @ [u]) = Some cl \<and>
        distinct cl \<and> set cl = reach_from ?G {start}"
      using less.prems(2) p(2) by (intro less.hyps) simp_all
    then show ?thesis
      using Cons un p(1) by (subst index_closure_loop.simps) (simp add: nth_opt_def)
  qed
qed

lemma compute_tau_closures_correct:
  assumes ok: "graph_ok tau_from"
  shows "compute_tau_closures tau_from =
    Some (map (\<lambda>i. sorted_list_of_set (reach_from (tau_graph tau_from) {i})) [0..<length tau_from])"
proof -
  let ?n = "length tau_from"
  have "map_option sort (index_closure_loop tau_from ((replicate ?n False)[i := True]) [i] []) =
      Some (sorted_list_of_set (reach_from (tau_graph tau_from) {i}))" if i: "i < ?n" for i
  proof -
    have m: "marked ((replicate ?n False)[i := True]) = {i}" using i by (auto simp: marked_def nth_list_update)
    have "bfs_inv (tau_graph tau_from) {i} {i} [i]" using bfs_init [of "[i]" "tau_graph tau_from"] by simp
    then obtain cl where "index_closure_loop tau_from ((replicate ?n False)[i := True]) [i] [] = Some cl"
        "distinct cl" "set cl = reach_from (tau_graph tau_from) {i}"
      using index_closure_loop_correct [OF ok i, of "(replicate ?n False)[i := True]" "[i]" "[]"] by (auto simp: m)
    moreover from this(2) have "sort cl = sorted_list_of_set (set cl)"
      by (simp add: sorted_list_of_set_sort_remdups distinct_remdups_id)
    ultimately show ?thesis by simp
  qed
  then show ?thesis unfolding compute_tau_closures_def
    by (intro map_opt_SomeI) (auto simp: list_all2_conv_all_nth)
qed


section \<open>The verdict\<close>

definition targets_of :: "(string \<times> nat list list) list \<Rightarrow> string \<Rightarrow> nat list list" where
  "targets_of by_label l = (case map_of by_label l of None \<Rightarrow> [] | Some targets \<Rightarrow> targets)"

lemma targets_of_add:
  "targets_of (add_target e m) l = (if l = fst e then bts_insert (snd e) (targets_of m l) else targets_of m l)"
  by (simp add: targets_of_def add_target_def)

lemma btm_ok_add: "btm_ok m \<Longrightarrow> btm_ok (add_target e m)"
  by (simp add: add_target_def)

lemma fold_btm_ok: "btm_ok m \<Longrightarrow> btm_ok (fold add_target entries m)"
  by (induction entries arbitrary: m) (simp_all add: btm_ok_add)

lemma fold_targets_ok: "bts_ok (targets_of m l) \<Longrightarrow> bts_ok (targets_of (fold add_target entries m) l)"
proof (induction entries arbitrary: m)
  case (Cons e entries)
  have "bts_ok (targets_of (add_target e m) l)" using Cons.prems by (auto simp: targets_of_add)
  from Cons.IH [OF this] show ?case by simp
qed simp

lemma fold_targets: "set (targets_of (fold add_target entries m) l) = set (targets_of m l) \<union> {x. (l, x) \<in> set entries}"
  by (induction entries arbitrary: m) (auto simp: targets_of_add)

lemma bts_length: "bts_ok s \<Longrightarrow> length s > 1 \<longleftrightarrow> (\<exists>x \<in> set s. \<exists>y \<in> set s. x \<noteq> y)"
  by (cases s; cases "tl s") auto

text \<open>A label is in conflict when it occurs with two closures.\<close>

definition clash :: "(string \<times> nat list) list \<Rightarrow> string \<Rightarrow> bool" where
  "clash entries l \<longleftrightarrow> (\<exists>x y. (l, x) \<in> set entries \<and> (l, y) \<in> set entries \<and> x \<noteq> y)"

lemma find_SomeD: "List.find P xs = Some x \<Longrightarrow> x \<in> set xs \<and> P x"
  by (induction xs) (auto split: if_splits)

lemma conflict_label_correct:
  "case conflict_label entries of None \<Rightarrow> \<forall>l. \<not> clash entries l | Some l \<Rightarrow> clash entries l"
proof -
  let ?m = "fold add_target entries []"
  have ok: "btm_ok ?m" by (rule fold_btm_ok) simp
  have all: "bts_ok (targets_of ?m l)" "set (targets_of ?m l) = {x. (l, x) \<in> set entries}" for l
    using fold_targets_ok [of "[]" l entries] fold_targets [of entries "[]" l] by (simp_all add: targets_of_def)
  have key: "targets_of ?m l = ts" if "(l, ts) \<in> set ?m" for l ts
    using map_of_is_SomeI [OF btm_ok_distinct [OF ok] that] by (simp add: targets_of_def)
  have clash: "length ts > 1 \<longleftrightarrow> clash entries l" if "(l, ts) \<in> set ?m" for l ts
    using bts_length [OF all(1) [of l]] unfolding key [OF that] all(2) [of l, unfolded key [OF that]]
    by (auto simp: clash_def)
  have ex: "\<exists>ts. (l, ts) \<in> set ?m" if "clash entries l" for l
  proof -
    from that have "set (targets_of ?m l) \<noteq> {}" by (auto simp: all(2) clash_def)
    then have "map_of ?m l \<noteq> None" by (cases "map_of ?m l") (simp_all add: targets_of_def)
    then show ?thesis by (auto dest: map_of_SomeD)
  qed
  show ?thesis
  proof (cases "List.find (\<lambda>(l, ts). length ts > 1) ?m")
    case None
    then have short: "\<not> length ts > 1" if "(l, ts) \<in> set ?m" for l ts
      using that unfolding find_None_iff by (auto simp: case_prod_beta)
    have "\<not> clash entries l" for l
    proof
      assume c: "clash entries l"
      from ex [OF this] obtain ts where "(l, ts) \<in> set ?m" by blast
      with clash short c show False by blast
    qed
    with None show ?thesis by (simp add: conflict_label_def)
  next
    case (Some e)
    from find_SomeD [OF this] have "e \<in> set ?m" "length (snd e) > 1" by (simp_all add: case_prod_beta)
    with clash [of "fst e" "snd e"] Some show ?thesis by (simp add: conflict_label_def)
  qed
qed

lemma find_conflict_correct:
  assumes "\<And>i cl. (i, cl) \<in> set ics \<Longrightarrow>
    \<exists>entries. closure_targets tf tc cl = Some entries \<and> (\<forall>l. clash entries l \<longleftrightarrow> P i l)"
  shows "\<exists>r. find_conflict tf tc ics = Some r \<and>
    (case r of None \<Rightarrow> \<forall>(i, cl) \<in> set ics. \<forall>l. \<not> P i l | Some (i, l) \<Rightarrow> i \<in> fst ` set ics \<and> P i l)"
  using assms
proof (induction ics)
  case (Cons ic ics)
  obtain i cl where ic: "ic = (i, cl)" by (cases ic)
  from Cons.prems [of i cl] ic obtain entries where
    e: "closure_targets tf tc cl = Some entries" "\<forall>l. clash entries l \<longleftrightarrow> P i l" by auto
  show ?case
  proof (cases "conflict_label entries")
    case None
    with conflict_label_correct [of entries] e(2) have no: "\<forall>l. \<not> P i l" by simp
    from Cons obtain r where "find_conflict tf tc ics = Some r"
      "case r of None \<Rightarrow> \<forall>(i, cl) \<in> set ics. \<forall>l. \<not> P i l | Some (i, l) \<Rightarrow> i \<in> fst ` set ics \<and> P i l" by auto
    with no e(1) None ic show ?thesis by (auto split: option.splits)
  next
    case (Some l)
    with conflict_label_correct [of entries] e(2) have "P i l" by simp
    with Some e(1) ic show ?thesis by simp
  qed
qed simp

section \<open>Closures of states\<close>

lemma step_rel_tau_graph: "step_rel (tau_graph tau_from) = edges tau_from"
  by (force simp: step_rel_def tau_graph_def edges_def nth_opt_def split: if_splits)

lemma idx_reach_states:
  assumes closed: "\<And>s t. s \<in> set states \<Longrightarrow> tr_step tr s tau t \<Longrightarrow> t \<in> set states" and i: "i < length states"
  shows "tau_reach tr {states ! i} = (!) states ` ((idx_edge tr states)\<^sup>* `` {i})"
proof (intro set_eqI iffI)
  fix t assume "t \<in> tau_reach tr {states ! i}"
  then have "(states ! i, t) \<in> (step_rel (tau_tr tr))\<^sup>*" by (simp add: tau_reach_def reach_from_def)
  then have "\<exists>j. j < length states \<and> states ! j = t \<and> (i, j) \<in> (idx_edge tr states)\<^sup>*"
  proof (induction rule: rtrancl_induct)
    case (step t u)
    then obtain j where j: "j < length states" "states ! j = t" "(i, j) \<in> (idx_edge tr states)\<^sup>*" by blast
    from step.hyps(2) j have "u \<in> set states" "tr_step tr (states ! j) tau u"
      using closed [of t u] by (auto simp: step_rel_tau_tr)
    then obtain k where "k < length states" "states ! k = u" by (auto simp: in_set_conv_nth)
    with j \<open>tr_step tr (states ! j) tau u\<close> show ?case
      by (intro exI [of _ k]) (auto simp: idx_edge_def intro: rtrancl_into_rtrancl)
  qed (use i in auto)
  then show "t \<in> (!) states ` ((idx_edge tr states)\<^sup>* `` {i})" by auto
next
  fix t assume "t \<in> (!) states ` ((idx_edge tr states)\<^sup>* `` {i})"
  then obtain j where j: "t = states ! j" "(i, j) \<in> (idx_edge tr states)\<^sup>*" by auto
  from j(2) have "(states ! i, states ! j) \<in> (step_rel (tau_tr tr))\<^sup>*"
    by (induction rule: rtrancl_induct) (auto simp: idx_edge_def step_rel_tau_tr intro: rtrancl_into_rtrancl)
  with j(1) show "t \<in> tau_reach tr {states ! i}" by (simp add: tau_reach_def reach_from_def)
qed

text \<open>When the search has ended.\<close>

lemma index_final:
  assumes inv: "index_inv tr s0 d" and queue: "is_queue d = []"
  shows "set (is_states d) = reachable tr s0" and "graph_ok (is_tau_from d)"
    and "edges (is_tau_from d) = idx_edge tr (is_states d)"
    and "i < length (is_states d) \<Longrightarrow> tr (is_states d ! i) = Some (resolved d i)"
    and "length (is_tau_from d) = length (is_states d)" and "length (is_transitions_from d) = length (is_states d)"
proof -
  have ok: "tables_ok tr d" using inv by (simp add: index_inv_def)
  then show len: "length (is_tau_from d) = length (is_states d)" "length (is_transitions_from d) = length (is_states d)"
    by (simp_all add: tables_ok_def)
  show "set (is_states d) = reachable tr s0"
    using inv queue bfs_done [of tr "{s0}" "set (is_states d)"] by (simp add: index_inv_def)
  show out: "tr (is_states d ! i) = Some (resolved d i)" if "i < length (is_states d)" for i
    using inv queue that by (simp add: index_inv_def)
  have tau: "set (is_tau_from d ! i) = {j. (tau, j) \<in> set (is_transitions_from d ! i)}" if "i < length (is_states d)" for i
  proof -
    have "is_tau_from d ! i = map snd (filter (\<lambda>(l, j). l = tau) (is_transitions_from d ! i))"
      using ok that unfolding tables_ok_def by blast
    then show ?thesis by force
  qed
  show "graph_ok (is_tau_from d)"
    unfolding graph_ok_def all_set_conv_all_nth using tau tables_target [OF ok] len(1)
    by (metis (mono_tags, lifting) mem_Collect_eq nth_mem)
  have dist: "distinct (is_states d)" using ok by (simp add: tables_ok_def)
  have "(tau, j) \<in> set (is_transitions_from d ! i) \<longleftrightarrow>
      j < length (is_states d) \<and> tr_step tr (is_states d ! i) tau (is_states d ! j)" if i: "i < length (is_states d)" for i j
  proof
    assume e: "(tau, j) \<in> set (is_transitions_from d ! i)"
    then have "(tau, is_states d ! j) \<in> set (resolved d i)" by (force simp: resolved_def)
    with out [OF i] tables_target [OF ok i e]
    show "j < length (is_states d) \<and> tr_step tr (is_states d ! i) tau (is_states d ! j)" by (simp add: tr_step_def)
  next
    assume j: "j < length (is_states d) \<and> tr_step tr (is_states d ! i) tau (is_states d ! j)"
    with out [OF i] obtain k where k: "(tau, k) \<in> set (is_transitions_from d ! i)" "is_states d ! k = is_states d ! j"
      by (auto simp: tr_step_def resolved_def)
    with tables_target [OF ok i k(1)] j dist show "(tau, j) \<in> set (is_transitions_from d ! i)"
      by (simp add: nth_eq_iff_index_eq)
  qed
  then show "edges (is_tau_from d) = idx_edge tr (is_states d)"
    using tau by (auto simp: edges_def idx_edge_def len(1))
qed


text \<open>What the checker looks for: two steps with one visible label that lead, from the closure of a state, to
  different closures.\<close>

definition conflict :: "'s trans_fun \<Rightarrow> 's \<Rightarrow> string \<Rightarrow> bool" where
  "conflict tr s l \<longleftrightarrow> l \<noteq> tau \<and>
     (\<exists>t t'. t \<in> label_succs tr (tau_reach tr {s}) l \<and> t' \<in> label_succs tr (tau_reach tr {s}) l \<and>
        tau_reach tr {t} \<noteq> tau_reach tr {t'})"

lemma index_targets:
  assumes inv: "index_inv tr s0 d" and queue: "is_queue d = []" and i: "i < length (is_states d)"
    and tc: "tc = map (\<lambda>i. sorted_list_of_set (reach_from (tau_graph (is_tau_from d)) {i})) [0..<length (is_tau_from d)]"
  shows "\<exists>entries. closure_targets (is_transitions_from d) tc (tc ! i) = Some entries \<and>
    (\<forall>l. clash entries l \<longleftrightarrow> conflict tr (is_states d ! i) l)"
proof -
  note fin = index_final [OF inv queue]
  let ?st = "is_states d" and ?tf = "is_transitions_from d"
  let ?T = "\<lambda>i. (idx_edge tr ?st)\<^sup>* `` {i}"
  have ok: "tables_ok tr d" using inv by (simp add: index_inv_def)
  then have dist: "distinct ?st" by (simp add: tables_ok_def)
  have closed: "t \<in> set ?st" if "s \<in> set ?st" "tr_step tr s tau t" for s t
    using that fin(1) by (auto simp: tr_step_def intro: reachable_step)
  have T: "?T j \<subseteq> {..<length ?st}" if "j < length ?st" for j
  proof
    fix k assume "k \<in> ?T j"
    then have "(j, k) \<in> (idx_edge tr ?st)\<^sup>*" by simp
    then show "k \<in> {..<length ?st}" by (induction rule: rtrancl_induct) (use that in \<open>auto simp: idx_edge_def\<close>)
  qed
  then have finT: "finite (?T j)" if "j < length ?st" for j using that finite_subset by blast
  have C: "tc ! j = sorted_list_of_set (?T j)" if "j < length ?st" for j
    using that fin(3,5) by (simp add: tc reach_from_def step_rel_tau_graph)
  have len: "length tc = length ?st" using fin(5) by (simp add: tc)
  have Ceq: "tc ! j = tc ! k \<longleftrightarrow> tau_reach tr {?st ! j} = tau_reach tr {?st ! k}"
    if jk: "j < length ?st" "k < length ?st" for j k
  proof -
    have "tc ! j = tc ! k \<longleftrightarrow> ?T j = ?T k"
      using C jk finT by (metis sorted_list_of_set.set_sorted_key_list_of_set)
    also have "\<dots> \<longleftrightarrow> (!) ?st ` ?T j = (!) ?st ` ?T k"
      using inj_on_image_eq_iff [OF inj_on_nth [OF dist], of "{..<length ?st}"] T jk by auto
    also have "\<dots> \<longleftrightarrow> tau_reach tr {?st ! j} = tau_reach tr {?st ! k}"
      using idx_reach_states [where states = ?st, OF closed] jk by simp
    finally show ?thesis .
  qed
  define f where "f u = (case nth_opt ?tf u of None \<Rightarrow> None
          | Some out \<Rightarrow>
              map_opt (\<lambda>(l, nxt). map_option (Pair l) (nth_opt tc nxt)) (filter (\<lambda>(l, nxt). l \<noteq> tau) out))" for u
  have fu: "\<exists>es. f u = Some es \<and> set es = {(l, tc ! j) | l j. (l, j) \<in> set (?tf ! u) \<and> l \<noteq> tau}"
    if u: "u < length ?st" for u
  proof -
    have tgt: "nth_opt tc j = Some (tc ! j)" if "(l, j) \<in> set (?tf ! u)" for l j
      using tables_target [OF ok u that] len by (simp add: nth_opt_def)
    have "\<exists>es. map_opt (\<lambda>(l, nxt). map_option (Pair l) (nth_opt tc nxt)) (filter (\<lambda>(l, nxt). l \<noteq> tau) (?tf ! u)) = Some es"
      by (rule map_opt_total) (use tgt in auto)
    then obtain es where es: "map_opt (\<lambda>(l, nxt). map_option (Pair l) (nth_opt tc nxt))
        (filter (\<lambda>(l, nxt). l \<noteq> tau) (?tf ! u)) = Some es" by blast
    have "set es = {(l, tc ! j) | l j. (l, j) \<in> set (?tf ! u) \<and> l \<noteq> tau}"
      unfolding map_opt_set [OF es] using tgt by force
    with es u fin(6) show ?thesis by (simp add: f_def nth_opt_def)
  qed
  have set_C: "set (tc ! i) = ?T i" using C [OF i] finT [OF i] by simp
  have "\<exists>y. f u = Some y" if "u \<in> set (tc ! i)" for u
    using fu [of u] that T [OF i] unfolding set_C by blast
  with map_opt_total [of "tc ! i" f] obtain ess where ess: "map_opt f (tc ! i) = Some ess" by blast
  define entries where "entries = concat ess"
  have run: "closure_targets ?tf tc (tc ! i) = Some entries"
    using ess by (simp add: closure_targets_def entries_def f_def [abs_def])
  have "set entries = (\<Union>u \<in> ?T i. {e. \<exists>es. f u = Some es \<and> e \<in> set es})"
    unfolding entries_def set_concat map_opt_set [OF ess] set_C by auto
  also have "\<dots> = (\<Union>u \<in> ?T i. {(l, tc ! j) | l j. (l, j) \<in> set (?tf ! u) \<and> l \<noteq> tau})"
  proof (rule SUP_cong [OF refl])
    fix u assume "u \<in> ?T i"
    with T [OF i] have "u < length ?st" by auto
    from fu [OF this] show "{e. \<exists>es. f u = Some es \<and> e \<in> set es} =
        {(l, tc ! j) | l j. (l, j) \<in> set (?tf ! u) \<and> l \<noteq> tau}" by auto
  qed
  finally have e: "set entries = (\<Union>u \<in> ?T i. {(l, tc ! j) | l j. (l, j) \<in> set (?tf ! u) \<and> l \<noteq> tau})" .
  have entries: "(l, x) \<in> set entries \<longleftrightarrow>
      l \<noteq> tau \<and> (\<exists>j. x = tc ! j \<and> (\<exists>u \<in> ?T i. (l, j) \<in> set (?tf ! u)))" for l x
    unfolding e by blast
  have succs: "t \<in> label_succs tr (tau_reach tr {?st ! i}) l \<longleftrightarrow>
      (\<exists>j. t = ?st ! j \<and> (\<exists>u \<in> ?T i. (l, j) \<in> set (?tf ! u)))" for t l
  proof -
    have "t \<in> label_succs tr (tau_reach tr {?st ! i}) l \<longleftrightarrow> (\<exists>u \<in> ?T i. (l, t) \<in> set (resolved d u))"
    proof -
      have "tr_step tr (?st ! u) l t \<longleftrightarrow> (l, t) \<in> set (resolved d u)" if "u \<in> ?T i" for u
        using fin(4) [of u] T [OF i] that by (auto simp: tr_step_def)
      moreover have "tau_reach tr {?st ! i} = (!) ?st ` ?T i" by (rule idx_reach_states [OF closed i])
      ultimately show ?thesis by (auto simp: label_succs_def)
    qed
    also have "\<dots> \<longleftrightarrow> (\<exists>j. t = ?st ! j \<and> (\<exists>u \<in> ?T i. (l, j) \<in> set (?tf ! u)))" by (force simp: resolved_def)
    finally show ?thesis .
  qed
  have tgt: "j < length ?st" if "u \<in> ?T i" "(l, j) \<in> set (?tf ! u)" for u l j
    using T [OF i] that tables_target [OF ok _ that(2)] by auto
  have "clash entries l \<longleftrightarrow> conflict tr (?st ! i) l" for l
  proof
    assume "clash entries l"
    then obtain j k u v where c: "l \<noteq> tau" "tc ! j \<noteq> tc ! k" "u \<in> ?T i" "(l, j) \<in> set (?tf ! u)" "v \<in> ?T i"
      "(l, k) \<in> set (?tf ! v)" unfolding clash_def entries by blast
    have "?st ! j \<in> label_succs tr (tau_reach tr {?st ! i}) l" "?st ! k \<in> label_succs tr (tau_reach tr {?st ! i}) l"
      unfolding succs using c(3-6) by blast+
    moreover have "tau_reach tr {?st ! j} \<noteq> tau_reach tr {?st ! k}"
      using Ceq [OF tgt [OF c(3,4)] tgt [OF c(5,6)]] c(2) by simp
    ultimately show "conflict tr (?st ! i) l" using c(1) unfolding conflict_def by blast
  next
    assume "conflict tr (?st ! i) l"
    then obtain t t' where t: "l \<noteq> tau" "t \<in> label_succs tr (tau_reach tr {?st ! i}) l"
      "t' \<in> label_succs tr (tau_reach tr {?st ! i}) l" "tau_reach tr {t} \<noteq> tau_reach tr {t'}"
      unfolding conflict_def by blast
    from t(2) obtain j u where j: "t = ?st ! j" "u \<in> ?T i" "(l, j) \<in> set (?tf ! u)" unfolding succs by blast
    from t(3) obtain k v where k: "t' = ?st ! k" "v \<in> ?T i" "(l, k) \<in> set (?tf ! v)" unfolding succs by blast
    have "tc ! j \<noteq> tc ! k" using Ceq [OF tgt [OF j(2,3)] tgt [OF k(2,3)]] t(4) j(1) k(1) by simp
    moreover have "(l, tc ! j) \<in> set entries" "(l, tc ! k) \<in> set entries"
      unfolding entries using t(1) j(2,3) k(2,3) by blast+
    ultimately show "clash entries l" unfolding clash_def by blast
  qed
  with run show ?thesis by blast
qed


text \<open>The trace of a state.\<close>

lemma index_trace:
  assumes inv: "index_inv tr s0 d" and i: "i < length (is_states d)"
  shows "\<exists>ls. trace_visible_events (is_prev d) i = Some (events_of (visible ls)) \<and> lpath tr s0 ls (is_states d ! i)"
proof -
  have tree: "pred_tree (index_step tr (is_states d)) 0 {..<length (is_states d)} (prev_link (is_prev d))"
    using inv by (simp add: index_inv_def tables_ok_def)
  from pred_tree_walk [OF tree] i obtain ls where
    ls: "back_labels (prev_link (is_prev d)) i = Some (rev ls)" "walk (index_step tr (is_states d)) 0 ls i" by auto
  from ls(2) have "walk (tr_step tr) (is_states d ! 0) ls (is_states d ! i)"
    by (induction rule: walk.induct) (auto simp: index_step_def intro: walk.intros)
  moreover have "is_states d ! 0 = s0" using inv by (simp add: index_inv_def)
  ultimately show ?thesis using ls(1) by (auto simp: trace_visible_events_def dest: walk_lpath)
qed

lemma determinism_verdict:
  assumes "explorable provider"
  shows "\<exists>r. determinism_check provider request m = Some r \<and>
    cr_stats r = Some (stats_of (of_nat (card (reached provider)))
      (of_nat (\<Sum>s \<in> reached provider. out_degree (transitions provider) s))) \<and>
    (if \<exists>s \<in> reached provider. \<exists>l. conflict (transitions provider) s l
     then cr_status r = Fail \<and>
       (\<exists>c ls s l. cr_counterexample r = Some c \<and> lpath (transitions provider) (initial_state provider) ls s \<and>
          conflict (transitions provider) s l \<and> cx_events c = events_of (visible ls @ [l]))
     else cr_status r = Pass \<and> cr_counterexample r = None)"
proof -
  let ?tr = "transitions provider" and ?init = "initial_state provider"
  have fin: "finite_lts ?tr ?init" using assms by (simp add: explorable_def)
  from index_loop_correct [OF fin index_inv_init] obtain d where
    run: "index_loop provider (index_init ?init) = Some d" and
    inv: "index_inv ?tr ?init d" and queue: "is_queue d = []" by blast
  note final = index_final [OF inv queue]
  define tc where
    "tc = map (\<lambda>i. sorted_list_of_set (reach_from (tau_graph (is_tau_from d)) {i})) [0..<length (is_tau_from d)]"
  have closures: "compute_tau_closures (is_tau_from d) = Some tc"
    unfolding tc_def by (rule compute_tau_closures_correct [OF final(2)])
  have len: "length tc = length (is_states d)" using final(5) by (simp add: tc_def)
  have "distinct (is_states d)" using inv by (simp add: index_inv_def tables_ok_def)
  then have "card (reached provider) = length (is_states d)"
    using final(1) by (simp add: reached_def flip: distinct_card)
  then have st: "stats_of (is_states_count d) (is_transitions_count d) = stats_of (of_nat (card (reached provider)))
      (of_nat (\<Sum>s \<in> reached provider. out_degree ?tr s))"
    using inv queue final(1) by (simp add: index_inv_def reached_def)
  have targets: "\<exists>entries. closure_targets (is_transitions_from d) tc cl = Some entries \<and>
      (\<forall>l. clash entries l \<longleftrightarrow> conflict ?tr (is_states d ! i) l)"
    if "(i, cl) \<in> set (zip [0..<length tc] tc)" for i cl
    using index_targets [OF inv queue _ tc_def, of i] that len by (auto simp: in_set_zip)
  from find_conflict_correct [where P = "\<lambda>i. conflict ?tr (is_states d ! i)", OF targets] obtain r where
    r: "find_conflict (is_transitions_from d) tc (zip [0..<length tc] tc) = Some r" and
    verdict: "case r of None \<Rightarrow> \<forall>(i, cl) \<in> set (zip [0..<length tc] tc). \<forall>l. \<not> conflict ?tr (is_states d ! i) l
      | Some (i, l) \<Rightarrow> i \<in> fst ` set (zip [0..<length tc] tc) \<and> conflict ?tr (is_states d ! i) l" by blast
  show ?thesis
  proof (cases r)
    case None
    have "\<not> conflict ?tr s l" if "s \<in> reached provider" for s l
    proof -
      have "s \<in> set (is_states d)" using that final(1) by (simp add: reached_def)
      then obtain i where i: "i < length tc" "s = is_states d ! i" unfolding len in_set_conv_nth by blast
      then have "(i, tc ! i) \<in> set (zip [0..<length tc] tc)" unfolding in_set_zip by (intro exI [of _ i]) simp
      with verdict None i(2) show ?thesis by auto
    qed
    with run closures r None st show ?thesis by (simp add: determinism_check_def check_pass_def)
  next
    case (Some il)
    obtain i l where il: "il = (i, l)" by (cases il)
    with verdict Some have i: "i < length (is_states d)" and c: "conflict ?tr (is_states d ! i) l"
      using len by (auto simp: in_set_zip)
    from index_trace [OF inv i] obtain ls where
      ls: "trace_visible_events (is_prev d) i = Some (events_of (visible ls))" "lpath ?tr ?init ls (is_states d ! i)"
      by blast
    define cx where "cx = determinism_counterexample m (events_of (visible ls)) l"
    have ev: "cx_events cx = events_of (visible ls @ [l])"
      by (simp add: cx_def determinism_counterexample_def explain_def events_of_def)
    define res where "res = check_fail request cx (stats_of (is_states_count d) (is_transitions_count d))"
    have "determinism_check provider request m = Some res"
      using run closures r Some il ls(1) by (simp add: determinism_check_def cx_def res_def)
    moreover have f: "cr_status res = Fail" "cr_counterexample res = Some cx"
      "cr_stats res = Some (stats_of (is_states_count d) (is_transitions_count d))"
      by (simp_all add: res_def check_fail_def)
    moreover have "is_states d ! i \<in> reached provider" using final(1) i nth_mem by (auto simp: reached_def)
    with c have "\<exists>s \<in> reached provider. \<exists>l. conflict ?tr s l" by blast
    moreover have "\<exists>c ls s l. cr_counterexample res = Some c \<and> lpath ?tr ?init ls s \<and> conflict ?tr s l \<and>
        cx_events c = events_of (visible ls @ [l])"
      using f(2) ls(2) c ev by blast
    ultimately show ?thesis unfolding st by (intro exI [of _ res]) (simp only: if_True simp_thms)
  qed
qed

section \<open>What the verdict means for traces\<close>

lemma tau_reach_union: "tau_reach tr S = (\<Union>s \<in> S. tau_reach tr {s})"
  by (auto simp: tau_reach_def reach_from_def)

lemma no_conflict_after:
  assumes no: "\<And>s l. s \<in> reachable tr s0 \<Longrightarrow> \<not> conflict tr s l" and "vs \<in> traces tr s0"
  shows "\<exists>s \<in> reachable tr s0. after tr s0 vs = tau_reach tr {s}"
  using assms(2)
proof (induction vs rule: rev_induct)
  case Nil
  show ?case by (rule bexI [of _ s0]) (simp_all add: after_Nil)
next
  case (snoc l vs)
  have ne: "after tr s0 (vs @ [l]) \<noteq> {}" using snoc.prems by (simp add: traces_def)
  then have "l \<noteq> tau" using after_visible [of _ tr s0 "vs @ [l]"] by auto
  have "vs \<in> traces tr s0" using after_prefix [OF ne] by (simp add: traces_def)
  with snoc.IH obtain s where s: "s \<in> reachable tr s0" "after tr s0 vs = tau_reach tr {s}" by blast
  let ?L = "label_succs tr (tau_reach tr {s}) l"
  have a: "after tr s0 (vs @ [l]) = (\<Union>t \<in> ?L. tau_reach tr {t})"
    using after_snoc [OF \<open>l \<noteq> tau\<close>, of tr s0 vs] s(2) tau_reach_union [of tr ?L] by simp
  with ne obtain t where t: "t \<in> ?L" by auto
  have "\<forall>t' \<in> ?L. tau_reach tr {t'} = tau_reach tr {t}"
    using no [OF s(1), of l] t \<open>l \<noteq> tau\<close> unfolding conflict_def by blast
  then have "(\<Union>t' \<in> ?L. tau_reach tr {t'}) = (\<Union>t' \<in> ?L. tau_reach tr {t})" by (intro SUP_cong) auto
  with a t have eq: "after tr s0 (vs @ [l]) = tau_reach tr {t}" by auto
  moreover have "t \<in> reachable tr s0"
    using eq after_reachable [of tr s0 "vs @ [l]"] tau_reach_seed [of "{t}" tr] by auto
  ultimately show ?case by blast
qed

lemma stable_tau_reach: "stable tr s \<Longrightarrow> tau_reach tr {s} = {s}"
proof -
  assume "stable tr s"
  then have "reach_from (tau_tr tr) {s} \<subseteq> {s}"
    by (intro reachable_closed) (auto simp: succs_tau_tr stable_def)
  then show ?thesis by (auto simp: tau_reach_def)
qed


section \<open>Properties\<close>

text \<open>C30: on a finite transition system the determinism checker returns. It fails exactly when in a reachable state
  some visible label leads to two different closures, with the visible part of a path to such a state followed by
  the label.\<close>

theorem determinism_check_correct:
  assumes "explorable provider"
  shows "\<exists>r. determinism_check provider request m = Some r \<and>
    cr_stats r = Some (stats_of (of_nat (card (reached provider)))
      (of_nat (\<Sum>s \<in> reached provider. out_degree (transitions provider) s))) \<and>
    (if \<exists>s \<in> reached provider. \<exists>l. conflict (transitions provider) s l
     then cr_status r = Fail \<and>
       (\<exists>c ls s l. cr_counterexample r = Some c \<and> lpath (transitions provider) (initial_state provider) ls s \<and>
          conflict (transitions provider) s l \<and> cx_events c = events_of (visible ls @ [l]))
     else cr_status r = Pass \<and> cr_counterexample r = None)"
  by (rule determinism_verdict [OF assms])

theorem determinism_check_correct_witness:
  "\<exists>r. determinism_check demo_lts
        \<lparr>rq_command = CheckCmd, rq_model = None, rq_target = None\<rparr> demo_module = Some r"
  using determinism_check_correct [OF demo_lts_explorable] by blast

text \<open>C31: when the check passes, the states a trace can lead to are the closure of a single state; if moreover no
  reachable state has internal steps, no event can be both accepted and refused after a trace.\<close>

theorem determinism_pass_sound:
  assumes "explorable provider" and "determinism_check provider request m = Some r" and "cr_status r = Pass"
  shows "(\<forall>vs \<in> traces (transitions provider) (initial_state provider). \<exists>s \<in> reached provider.
      after (transitions provider) (initial_state provider) vs = tau_reach (transitions provider) {s}) \<and>
    ((\<forall>s \<in> reached provider. stable (transitions provider) s) \<longrightarrow>
      (\<forall>vs l. vs @ [l] \<in> traces (transitions provider) (initial_state provider) \<longrightarrow>
         (vs, {l}) \<notin> failures (transitions provider) (initial_state provider)))"
proof (intro conjI impI allI)
  let ?tr = "transitions provider" and ?init = "initial_state provider"
  have no: "\<not> conflict ?tr s l" if "s \<in> reachable ?tr ?init" for s l
    using determinism_verdict [OF assms(1), of request m] assms(2,3) that
    by (auto simp: reached_def split: if_splits)
  then show "\<forall>vs \<in> traces ?tr ?init. \<exists>s \<in> reached provider. after ?tr ?init vs = tau_reach ?tr {s}"
    unfolding reached_def using no_conflict_after [OF no] by blast
  fix vs l
  assume st: "\<forall>s \<in> reached provider. stable ?tr s" and "vs @ [l] \<in> traces ?tr ?init"
  then have ne: "after ?tr ?init (vs @ [l]) \<noteq> {}" by (simp add: traces_def)
  then have "l \<noteq> tau" "vs \<in> traces ?tr ?init"
    using after_visible [of _ ?tr ?init "vs @ [l]"] after_prefix [OF ne] by (auto simp: traces_def)
  from no_conflict_after [OF no this(2)] obtain s where
    s: "s \<in> reachable ?tr ?init" "after ?tr ?init vs = tau_reach ?tr {s}" by blast
  from st s(1) have "stable ?tr s" by (simp add: reached_def)
  from s(2) stable_tau_reach [OF this] have "after ?tr ?init vs = {s}" by simp
  moreover have "l \<in> offers ?tr s"
    using ne after_snoc [OF \<open>l \<noteq> tau\<close>, of ?tr ?init vs] calculation \<open>l \<noteq> tau\<close>
    by (auto simp: label_succs_def offers_def)
  ultimately show "(vs, {l}) \<notin> failures ?tr ?init" by (auto simp: failures_def)
qed

theorem determinism_pass_sound_witness:
  "\<exists>s \<in> reached demo_lts.
     after (transitions demo_lts) (initial_state demo_lts) [] = tau_reach (transitions demo_lts) {s}"
proof -
  have "case determinism_check demo_lts \<lparr>rq_command = CheckCmd, rq_model = None, rq_target = None\<rparr> demo_module of
      None \<Rightarrow> False | Some r \<Rightarrow> cr_status r = Pass" by code_simp
  then obtain r where "determinism_check demo_lts \<lparr>rq_command = CheckCmd, rq_model = None, rq_target = None\<rparr>
      demo_module = Some r" "cr_status r = Pass" by (auto split: option.splits)
  from determinism_pass_sound [OF demo_lts_explorable this] show ?thesis by (simp add: traces_def)
qed

text \<open>\<open>channel a   STOP |~| a -> STOP\<close>\<close>

definition choice_module :: cmodule where
  "choice_module =
     \<lparr>channels = [\<lparr>chan_names = [at ''a''], chan_domain = None\<rparr>], declarations = [], assertions = [],
      entry = Some (at (Choice Internal (at Stop)
        (at (Prefix (at \<lparr>ev_channel = at ''a'', ev_seg = None\<rparr>) (at Stop)))))\<rparr>"

definition choice_provider :: cspm_provider where
  "choice_provider =
     \<lparr>cp_program = \<lparr>pr_channels = [(''a'', ChUnit)], pr_exprs = [NStop, NPrefix (PUnit ''a'') 0, NChoiceInternal 0 1],
        pr_resolved = [0, 1, 2]\<rparr>,
      cp_initial = SExpr 2 []\<rparr>"

lemma choice_transitions:
  "initial_state (provider_of choice_provider) = SExpr 2 []"
  "transitions (provider_of choice_provider) (SExpr 2 []) = Some [(tau, SExpr 0 []), (tau, SExpr 1 [])]"
  "transitions (provider_of choice_provider) (SExpr 1 []) = Some [(''a'', SExpr 0 [])]"
  "transitions (provider_of choice_provider) (SExpr 0 []) = Some []"
  by code_simp+

text \<open>The check does not decide determinism in the sense of the failures model: the process that chooses
  internally between stopping and offering \<open>a\<close> passes, although it can both do and refuse \<open>a\<close> at the start.\<close>

theorem nondeterministic_choice_passes:
  "from_module choice_module = Some (Inr choice_provider) \<and>
   (\<exists>r. deterministic_check \<lparr>rq_command = CheckCmd, rq_model = None, rq_target = None\<rparr> choice_module = Some r \<and>
      cr_status r = Pass) \<and>
   [''a''] \<in> traces (transitions (provider_of choice_provider)) (initial_state (provider_of choice_provider)) \<and>
   ([], {''a''}) \<in> failures (transitions (provider_of choice_provider)) (initial_state (provider_of choice_provider))"
proof (intro conjI)
  let ?p = "provider_of choice_provider"
  show "from_module choice_module = Some (Inr choice_provider)" by code_simp
  have "case deterministic_check \<lparr>rq_command = CheckCmd, rq_model = None, rq_target = None\<rparr> choice_module of
      None \<Rightarrow> False | Some r \<Rightarrow> cr_status r = Pass" by code_simp
  then show "\<exists>r. deterministic_check \<lparr>rq_command = CheckCmd, rq_model = None, rq_target = None\<rparr> choice_module = Some r \<and>
      cr_status r = Pass" by (auto split: option.splits)
  have stop: "lpath (transitions ?p) (SExpr 2 []) [tau] (SExpr 0 [])"
    by (rule lpath.Cons [where tr = "transitions ?p", OF choice_transitions(2) _ lpath.Nil]) simp
  have "lpath (transitions ?p) (SExpr 1 []) [''a''] (SExpr 0 [])"
    by (rule lpath.Cons [where tr = "transitions ?p", OF choice_transitions(3) _ lpath.Nil]) simp
  then have "lpath (transitions ?p) (SExpr 2 []) [tau, ''a''] (SExpr 0 [])"
    by (rule lpath.Cons [where tr = "transitions ?p", OF choice_transitions(2), rotated]) simp
  then show "[''a''] \<in> traces (transitions ?p) (initial_state ?p)"
    unfolding traces_def after_def choice_transitions(1) by (force simp: tau_def)
  have "SExpr 0 [] \<in> after (transitions ?p) (SExpr 2 []) []"
    unfolding after_def using stop by force
  moreover have "stable (transitions ?p) (SExpr 0 [])" "offers (transitions ?p) (SExpr 0 []) = {}"
    by (simp_all add: stable_def offers_def tr_step_def choice_transitions)
  ultimately show "([], {''a''}) \<in> failures (transitions ?p) (initial_state ?p)"
    unfolding failures_def choice_transitions(1) by auto
qed

end
