(* ===== verification/Cspx_Refine_Bfs.thy ===== *)
theory Cspx_Refine_Bfs
  imports Cspx_Closure Cspx_Explore
begin

text \<open>
  The breadth-first product search of \<^verbatim>\<open>check_refine.rs\<close> with its cache of closures. A node is a pair of
  closures, identified by their signatures; the search is parameterised by the check made at each node. The
  locale \<open>node_checker\<close> is the interface between the two: what a node check promises, and, proved
  once for the three refinement models, what the search then returns.
\<close>

section \<open>Data\<close>

record node_key =
  impl_sig :: "u8 list list"
  spec_sig :: "u8 list list"

datatype provider_side = SpecSide | ImplSide

record refinement_failure =
  rf_trace :: "string list"
  rf_tags :: "string list"

record refinement_outcome =
  ro_refines :: bool
  ro_failure :: "refinement_failure option"
  ro_stats :: stats
  ro_diagnostic_tags :: "string list"

datatype node_action = Continue | Prune | FailNode refinement_failure

section \<open>The cache of successor closures\<close>

definition or_default :: "('k \<rightharpoonup> ('a \<rightharpoonup> 'b)) \<Rightarrow> 'k \<Rightarrow> ('a \<rightharpoonup> 'b)" where
  "or_default m k = (case m k of None \<Rightarrow> Map.empty | Some v \<Rightarrow> v)"

record next_closure_cache =
  nc_entries :: "provider_side \<rightharpoonup> (u8 list list \<rightharpoonup> (string \<rightharpoonup> closure))"
  nc_hits :: u64
  nc_misses :: u64

definition empty_next_cache :: next_closure_cache where
  "empty_next_cache = \<lparr>nc_entries = Map.empty, nc_hits = 0, nc_misses = 0\<rparr>"

definition nc_lookup :: "next_closure_cache \<Rightarrow> provider_side \<Rightarrow> u8 list list \<Rightarrow> string \<Rightarrow> closure option" where
  "nc_lookup cache side sig label =
     (case nc_entries cache side of
        None \<Rightarrow> None
      | Some by_sig \<Rightarrow> (case by_sig sig of None \<Rightarrow> None | Some by_label \<Rightarrow> by_label label))"

definition nc_insert ::
  "provider_side \<Rightarrow> u8 list list \<Rightarrow> string \<Rightarrow> closure \<Rightarrow> next_closure_cache \<Rightarrow> next_closure_cache" where
  "nc_insert side sig label c cache =
     (let by_sig = or_default (nc_entries cache) side
      in cache\<lparr>nc_entries :=
           (nc_entries cache)(side \<mapsto> by_sig(sig \<mapsto> (or_default by_sig sig)(label \<mapsto> c)))\<rparr>)"

definition cached_next_by_label ::
  "next_closure_cache \<Rightarrow> provider_side \<Rightarrow> cspm_state transition_provider \<Rightarrow> closure \<Rightarrow> string
     \<Rightarrow> (closure \<times> next_closure_cache) option" where
  "cached_next_by_label cache side provider from_closure label =
     (case nc_lookup cache side (cl_sig from_closure) label of
        Some cached \<Rightarrow> Some (cached, cache\<lparr>nc_hits := sat_add (nc_hits cache) 1\<rparr>)
      | None \<Rightarrow>
          (let cache1 = cache\<lparr>nc_misses := sat_add (nc_misses cache) 1\<rparr>
           in map_option (\<lambda>computed. (computed, nc_insert side (cl_sig from_closure) label computed cache1))
                (next_by_label provider (cl_states from_closure) label)))"

definition step_closure ::
  "next_closure_cache option \<Rightarrow> provider_side \<Rightarrow> cspm_state transition_provider \<Rightarrow> closure \<Rightarrow> string
     \<Rightarrow> (closure \<times> next_closure_cache option) option" where
  "step_closure cache side provider from_closure label =
     (case cache of
        Some c \<Rightarrow> map_option (apsnd Some) (cached_next_by_label c side provider from_closure label)
      | None \<Rightarrow> map_option (\<lambda>next. (next, None)) (next_by_label provider (cl_states from_closure) label))"

section \<open>The search\<close>

type_synonym predecessor = "node_key \<rightharpoonup> (node_key \<times> string)"

text \<open>A node check with the state \<open>'x\<close> of its closure: counters and caches.\<close>

type_synonym 'x node_check =
  "'x \<Rightarrow> node_key \<Rightarrow> cspm_state list \<Rightarrow> cspm_state list \<Rightarrow> predecessor \<Rightarrow> ('x \<times> node_action) option"

definition reconstruct_trace :: "predecessor \<Rightarrow> node_key \<Rightarrow> string list option" where
  "reconstruct_trace pred to_node = map_option rev (back_labels pred to_node)"

record search =
  se_visited :: "node_key set"
  se_pred :: predecessor
  se_queue :: "(node_key \<times> closure \<times> closure) list"
  se_states :: u64
  se_trans :: u64
  se_cache :: "next_closure_cache option"

definition search_stats :: "search \<Rightarrow> stats" where
  "search_stats st = \<lparr>st_states = Some (se_states st), st_transitions = Some (se_trans st)\<rparr>"

definition outcome_fail :: "search \<Rightarrow> refinement_failure \<Rightarrow> refinement_outcome" where
  "outcome_fail st f =
     \<lparr>ro_refines = False, ro_failure = Some f, ro_stats = search_stats st, ro_diagnostic_tags = []\<rparr>"

definition outcome_pass :: "search \<Rightarrow> refinement_outcome" where
  "outcome_pass st =
     \<lparr>ro_refines = True, ro_failure = None, ro_stats = search_stats st, ro_diagnostic_tags = []\<rparr>"

definition add_node :: "node_key \<Rightarrow> string \<Rightarrow> closure \<Rightarrow> closure \<Rightarrow> search \<Rightarrow> search" where
  "add_node key label impl_next spec_next st =
     (let next_key = \<lparr>impl_sig = cl_sig impl_next, spec_sig = cl_sig spec_next\<rparr>
      in if next_key \<in> se_visited st then st
         else st\<lparr>se_visited := insert next_key (se_visited st),
                 se_pred := (se_pred st)(next_key \<mapsto> (key, label)),
                 se_queue := se_queue st @ [(next_key, impl_next, spec_next)],
                 se_states := se_states st + 1\<rparr>)"

text \<open>The loop over the labels enabled at a node: \<open>Inl\<close> when it returns from the search.\<close>

fun expand_labels ::
  "cspm_state transition_provider \<Rightarrow> cspm_state transition_provider \<Rightarrow> node_key \<Rightarrow> closure \<Rightarrow> closure
     \<Rightarrow> string list \<Rightarrow> search \<Rightarrow> (search \<times> refinement_failure + search) option" where
  "expand_labels spec impl key impl_closure spec_closure [] st = Some (Inr st)"
| "expand_labels spec impl key impl_closure spec_closure (label # labels) st =
     (case step_closure (se_cache st) ImplSide impl impl_closure label of
        None \<Rightarrow> None
      | Some (impl_next, cache1) \<Rightarrow>
          (case step_closure cache1 SpecSide spec spec_closure label of
             None \<Rightarrow> None
           | Some (spec_next, cache2) \<Rightarrow>
               (let st1 = st\<lparr>se_trans := se_trans st + 1, se_cache := cache2\<rparr>
                in if cl_states spec_next = []
                   then map_option (\<lambda>trace. Inl (st1, \<lparr>rf_trace = trace @ [label],
                                                        rf_tags = [''trace_mismatch'']\<rparr>))
                          (reconstruct_trace (se_pred st1) key)
                   else expand_labels spec impl key impl_closure spec_closure labels
                          (add_node key label impl_next spec_next st1))))"

partial_function (option) bfs_loop ::
  "cspm_state transition_provider \<Rightarrow> cspm_state transition_provider \<Rightarrow> 'x node_check \<Rightarrow> 'x \<Rightarrow> search
     \<Rightarrow> (refinement_outcome \<times> 'x \<times> next_closure_cache option) option" where
  "bfs_loop spec impl node_check x st =
     (case se_queue st of
        [] \<Rightarrow> Some (outcome_pass st, x, se_cache st)
      | (key, impl_closure, spec_closure) # queue1 \<Rightarrow>
          (let st1 = st\<lparr>se_queue := queue1\<rparr> in
           case node_check x key (cl_states impl_closure) (cl_states spec_closure) (se_pred st1) of
             None \<Rightarrow> None
           | Some (x', action) \<Rightarrow>
               (case action of
                  Prune \<Rightarrow> bfs_loop spec impl node_check x' st1
                | FailNode f \<Rightarrow> Some (outcome_fail st1 f, x', se_cache st1)
                | Continue \<Rightarrow>
                    (case enabled_visible_labels impl (cl_states impl_closure) of
                       None \<Rightarrow> None
                     | Some labels \<Rightarrow>
                         (case expand_labels spec impl key impl_closure spec_closure labels st1 of
                            None \<Rightarrow> None
                          | Some (Inl (st2, f)) \<Rightarrow> Some (outcome_fail st2 f, x', se_cache st2)
                          | Some (Inr st2) \<Rightarrow> bfs_loop spec impl node_check x' st2)))))"

declare bfs_loop.simps [code]

definition bfs_refinement ::
  "cspm_state transition_provider \<Rightarrow> cspm_state transition_provider \<Rightarrow> 'x node_check \<Rightarrow> 'x
     \<Rightarrow> next_closure_cache option \<Rightarrow> (refinement_outcome \<times> 'x \<times> next_closure_cache option) option" where
  "bfs_refinement spec impl node_check x cache =
     (case (tau_closure impl [initial_state impl], tau_closure spec [initial_state spec]) of
        (Some impl0, Some spec0) \<Rightarrow>
          (let initial_key = \<lparr>impl_sig = cl_sig impl0, spec_sig = cl_sig spec0\<rparr>
           in bfs_loop spec impl node_check x
                \<lparr>se_visited = {initial_key}, se_pred = Map.empty, se_queue = [(initial_key, impl0, spec0)],
                 se_states = 1, se_trans = 0, se_cache = cache\<rparr>)
      | _ \<Rightarrow> None)"

section \<open>Nodes and traces\<close>

abbreviation after_of :: "'s transition_provider \<Rightarrow> string list \<Rightarrow> 's set" where
  "after_of provider \<equiv> after (transitions provider) (initial_state provider)"

abbreviation traces_of :: "'s transition_provider \<Rightarrow> string list set" where
  "traces_of provider \<equiv> traces (transitions provider) (initial_state provider)"

abbreviation reach_of :: "'s transition_provider \<Rightarrow> 's set" where
  "reach_of provider \<equiv> reachable (transitions provider) (initial_state provider)"

definition key_of :: "cspm_state set \<Rightarrow> cspm_state set \<Rightarrow> node_key" where
  "key_of A B = \<lparr>impl_sig = cl_sig (closure_of A), spec_sig = cl_sig (closure_of B)\<rparr>"

definition node_of ::
  "cspm_state transition_provider \<Rightarrow> cspm_state transition_provider \<Rightarrow> string list \<Rightarrow> node_key" where
  "node_of spec impl vs = key_of (after_of impl vs) (after_of spec vs)"

definition closed_in :: "'s transition_provider \<Rightarrow> 's set \<Rightarrow> bool" where
  "closed_in provider S \<longleftrightarrow> S \<subseteq> reach_of provider \<and>
     (\<forall>s \<in> S. \<forall>t. tr_step (transitions provider) s tau t \<longrightarrow> t \<in> S)"

lemma closed_in_after [simp]: "closed_in provider (after_of provider vs)"
  using after_reachable [of "transitions provider" "initial_state provider" vs]
  by (auto simp: closed_in_def intro: after_closed)

lemma coded_subset:
  assumes "coded_lts provider" and "S \<subseteq> reach_of provider"
  shows "finite S" and "\<forall>s \<in> S. state_ok s" and "\<forall>s \<in> S. transitions provider s \<noteq> None"
  using assms by (auto simp: coded_lts_def finite_lts_def intro: finite_subset)

lemma closed_in_finite: "coded_lts provider \<Longrightarrow> closed_in provider S \<Longrightarrow> finite S"
  by (simp add: closed_in_def coded_subset)

lemma sig_eq:
  assumes "coded_lts provider" and "S \<subseteq> reach_of provider" and "T \<subseteq> reach_of provider"
  shows "cl_sig (closure_of S) = cl_sig (closure_of T) \<longleftrightarrow> S = T"
  using coded_subset [OF assms(1,2)] coded_subset [OF assms(1,3)] by (intro closure_of_sig) auto

lemma key_eq:
  assumes "coded_lts spec" and "coded_lts impl"
    and "A \<subseteq> reach_of impl" "A' \<subseteq> reach_of impl" "B \<subseteq> reach_of spec" "B' \<subseteq> reach_of spec"
  shows "key_of A B = key_of A' B' \<longleftrightarrow> A = A' \<and> B = B'"
  using sig_eq [OF assms(2-4)] sig_eq [OF assms(1,5,6)] by (simp add: key_of_def)

lemma node_eq:
  assumes "coded_lts spec" and "coded_lts impl"
  shows "node_of spec impl vs = node_of spec impl ws \<longleftrightarrow>
    after_of impl vs = after_of impl ws \<and> after_of spec vs = after_of spec ws"
  unfolding node_of_def by (rule key_eq [OF assms]) (rule after_reachable)+

lemma tau_notin_traces: "vs \<in> traces tr s0 \<Longrightarrow> tau \<notin> set vs"
  by (auto simp: traces_def dest: after_visible)

lemma after_snoc_cong:
  "after tr s0 vs = after tr s0 ws \<Longrightarrow> l \<noteq> tau \<Longrightarrow> after tr s0 (vs @ [l]) = after tr s0 (ws @ [l])"
  by (simp add: after_snoc)

lemma traces_snoc_iff:
  "vs @ [l] \<in> traces tr s0 \<longleftrightarrow> l \<in> (\<Union>s \<in> after tr s0 vs. offers tr s)"
proof (cases "l = tau")
  case True
  then show ?thesis by (auto simp: offers_def dest: tau_notin_traces)
next
  case False
  then show ?thesis by (auto simp: traces_def after_snoc label_succs_def offers_def)
qed

section \<open>The cache is transparent\<close>

definition side_provider ::
  "cspm_state transition_provider \<Rightarrow> cspm_state transition_provider \<Rightarrow> provider_side
     \<Rightarrow> cspm_state transition_provider" where
  "side_provider spec impl side = (case side of SpecSide \<Rightarrow> spec | ImplSide \<Rightarrow> impl)"

lemma side_provider_simps [simp]:
  "side_provider spec impl SpecSide = spec" "side_provider spec impl ImplSide = impl"
  by (simp_all add: side_provider_def)

definition next_closure :: "cspm_state transition_provider \<Rightarrow> cspm_state set \<Rightarrow> string \<Rightarrow> closure" where
  "next_closure provider S l =
     closure_of (tau_reach (transitions provider) (label_succs (transitions provider) S l))"

definition next_cache_ok ::
  "cspm_state transition_provider \<Rightarrow> cspm_state transition_provider \<Rightarrow> next_closure_cache \<Rightarrow> bool" where
  "next_cache_ok spec impl cache \<longleftrightarrow>
     (\<forall>side S l c. S \<subseteq> reach_of (side_provider spec impl side) \<longrightarrow>
        nc_lookup cache side (cl_sig (closure_of S)) l = Some c \<longrightarrow>
        c = next_closure (side_provider spec impl side) S l)"

lemma nc_lookup_simps [simp]:
  "nc_lookup empty_next_cache side sig l = None"
  "nc_lookup (cache\<lparr>nc_hits := h\<rparr>) side sig l = nc_lookup cache side sig l"
  "nc_lookup (cache\<lparr>nc_misses := h\<rparr>) side sig l = nc_lookup cache side sig l"
  by (simp_all add: nc_lookup_def empty_next_cache_def)

lemma nc_lookup_insert:
  "nc_lookup (nc_insert side sig l c cache) side' sig' l' =
     (if side' = side \<and> sig' = sig \<and> l' = l then Some c else nc_lookup cache side' sig' l')"
  by (auto simp: nc_lookup_def nc_insert_def or_default_def Let_def split: option.split)

lemma next_cache_ok_empty [simp]: "next_cache_ok spec impl empty_next_cache"
  by (simp add: next_cache_ok_def)

lemma next_by_label_closure:
  assumes "coded_lts provider" and "S \<subseteq> reach_of provider"
  shows "next_by_label provider (cl_states (closure_of S)) l = Some (next_closure provider S l)"
  using next_by_label_correct [OF assms(1), of "cl_states (closure_of S)" l] coded_subset [OF assms] assms(2)
  by (simp add: next_closure_def)

lemma step_closure_correct:
  assumes coded: "coded_lts spec" "coded_lts impl" and S: "S \<subseteq> reach_of (side_provider spec impl side)"
    and ok: "pred_option (next_cache_ok spec impl) cache"
  shows "\<exists>cache'. step_closure cache side (side_provider spec impl side) (closure_of S) l =
      Some (next_closure (side_provider spec impl side) S l, cache') \<and>
    pred_option (next_cache_ok spec impl) cache'"
proof -
  let ?p = "side_provider spec impl side"
  have p: "coded_lts ?p" using coded by (cases side) simp_all
  note nbl = next_by_label_closure [OF p S, of l]
  show ?thesis
  proof (cases cache)
    case None
    with nbl show ?thesis by (simp add: step_closure_def)
  next
    case (Some c)
    with ok have c: "next_cache_ok spec impl c" by simp
    show ?thesis
    proof (cases "nc_lookup c side (cl_sig (closure_of S)) l")
      case None
      let ?c = "nc_insert side (cl_sig (closure_of S)) l (next_closure ?p S l)
        (c\<lparr>nc_misses := sat_add (nc_misses c) 1\<rparr>)"
      have "next_cache_ok spec impl ?c"
        using c sig_eq [OF p _ S] unfolding next_cache_ok_def by (auto simp: nc_lookup_insert)
      with Some None nbl show ?thesis by (simp add: step_closure_def cached_next_by_label_def)
    next
      case (Some d)
      with c S have "d = next_closure ?p S l" by (simp add: next_cache_ok_def)
      with Some \<open>cache = Some c\<close> c show ?thesis
        by (simp add: step_closure_def cached_next_by_label_def next_cache_ok_def)
    qed
  qed
qed

section \<open>What the search decides\<close>

text \<open>The nodes the search expands: the traces of the implementation all of whose proper prefixes lead to nodes
  where the check says to go on.\<close>

type_synonym judge = "cspm_state set \<Rightarrow> cspm_state set \<Rightarrow> bool"

inductive live ::
  "judge \<Rightarrow> cspm_state transition_provider \<Rightarrow> cspm_state transition_provider \<Rightarrow> string list \<Rightarrow> bool"
  for goes_on spec impl where
  Start: "live goes_on spec impl []"
| Step: "live goes_on spec impl vs \<Longrightarrow> goes_on (after_of impl vs) (after_of spec vs) \<Longrightarrow>
     vs @ [l] \<in> traces_of impl \<Longrightarrow> vs @ [l] \<in> traces_of spec \<Longrightarrow> live goes_on spec impl (vs @ [l])"

definition accepted ::
  "judge \<Rightarrow> judge \<Rightarrow> cspm_state transition_provider \<Rightarrow> cspm_state transition_provider \<Rightarrow> bool" where
  "accepted goes_on pruned spec impl \<longleftrightarrow>
     (\<forall>vs. live goes_on spec impl vs \<longrightarrow>
        (if goes_on (after_of impl vs) (after_of spec vs)
         then \<forall>l. vs @ [l] \<in> traces_of impl \<longrightarrow> vs @ [l] \<in> traces_of spec
         else pruned (after_of impl vs) (after_of spec vs)))"

definition refuted ::
  "judge \<Rightarrow> (cspm_state set \<Rightarrow> cspm_state set \<Rightarrow> string list \<Rightarrow> refinement_failure \<Rightarrow> bool)
     \<Rightarrow> cspm_state transition_provider \<Rightarrow> cspm_state transition_provider \<Rightarrow> refinement_failure \<Rightarrow> bool" where
  "refuted goes_on fails spec impl f \<longleftrightarrow>
     (\<exists>vs. live goes_on spec impl vs \<and>
        (fails (after_of impl vs) (after_of spec vs) vs f \<or>
         goes_on (after_of impl vs) (after_of spec vs) \<and>
           (\<exists>l. vs @ [l] \<in> traces_of impl - traces_of spec \<and>
                f = \<lparr>rf_trace = vs @ [l], rf_tags = [''trace_mismatch'']\<rparr>)))"

lemma live_trace: "live goes_on spec impl vs \<Longrightarrow> vs \<in> traces_of impl \<inter> traces_of spec"
  by (induction rule: live.induct) (auto simp: traces_def)

text \<open>The steps of the product, between nodes.\<close>

definition node_step ::
  "judge \<Rightarrow> cspm_state transition_provider \<Rightarrow> cspm_state transition_provider
     \<Rightarrow> node_key \<Rightarrow> string \<Rightarrow> node_key \<Rightarrow> bool" where
  "node_step goes_on spec impl k l k' \<longleftrightarrow>
     (\<exists>vs. k = node_of spec impl vs \<and> live goes_on spec impl vs \<and> live goes_on spec impl (vs @ [l]) \<and>
        goes_on (after_of impl vs) (after_of spec vs) \<and> k' = node_of spec impl (vs @ [l]))"

lemma live_snocI:
  assumes "live goes_on spec impl vs" and "live goes_on spec impl ws"
    and "after_of impl vs = after_of impl ws" and "after_of spec vs = after_of spec ws"
    and "goes_on (after_of impl ws) (after_of spec ws)" and "live goes_on spec impl (ws @ [l])"
  shows "live goes_on spec impl (vs @ [l])"
proof (rule live.Step)
  have "ws @ [l] \<in> traces_of impl \<inter> traces_of spec" by (rule live_trace) fact
  then show "vs @ [l] \<in> traces_of impl" "vs @ [l] \<in> traces_of spec"
    using assms(3,4) by (simp_all add: traces_snoc_iff)
qed (use assms in simp_all)

lemma walk_node:
  assumes coded: "coded_lts spec" "coded_lts impl"
  shows "walk (node_step goes_on spec impl) (node_of spec impl []) ls k \<Longrightarrow>
    k = node_of spec impl ls \<and> live goes_on spec impl ls"
proof (induction "node_of spec impl []" ls k rule: walk.induct)
  case Nil
  show ?case by (simp add: live.Start)
next
  case (Snoc ls t l u)
  then obtain vs where vs: "t = node_of spec impl vs" "live goes_on spec impl vs"
    "live goes_on spec impl (vs @ [l])" "goes_on (after_of impl vs) (after_of spec vs)"
    "u = node_of spec impl (vs @ [l])" by (auto simp: node_step_def)
  with Snoc have eq: "after_of impl ls = after_of impl vs" "after_of spec ls = after_of spec vs"
    using node_eq [OF coded, of ls vs] by auto
  have "l \<noteq> tau" using live_trace [OF vs(3)] by (auto dest: tau_notin_traces)
  with eq have "node_of spec impl (ls @ [l]) = u"
    unfolding vs(5) node_eq [OF coded] by (intro conjI after_snoc_cong)
  moreover have "live goes_on spec impl (ls @ [l])"
    using Snoc vs eq by (intro live_snocI [of _ _ _ ls vs]) auto
  ultimately show ?case by simp
qed

section \<open>The interface of node checks\<close>

text \<open>A node check is told the closures of the node and where the search came from; it decides by the sets of
  states alone whether to go on, and when it fails it reports a failure at the trace that leads to the node.
  \<open>good\<close> is the invariant of its own state.\<close>

locale node_checker =
  fixes spec :: "cspm_state transition_provider" and impl :: "cspm_state transition_provider"
    and check :: "'x node_check" and good :: "'x \<Rightarrow> bool"
    and goes_on :: judge and pruned :: judge
    and fails :: "cspm_state set \<Rightarrow> cspm_state set \<Rightarrow> string list \<Rightarrow> refinement_failure \<Rightarrow> bool"
  assumes check_node:
    "coded_lts spec \<Longrightarrow> coded_lts impl \<Longrightarrow> good x \<Longrightarrow> closed_in impl A \<Longrightarrow> closed_in spec B \<Longrightarrow>
     reconstruct_trace pred (key_of A B) = Some vs \<Longrightarrow>
     \<exists>x' action.
       check x (key_of A B) (cl_states (closure_of A)) (cl_states (closure_of B)) pred = Some (x', action) \<and>
       good x' \<and> (action = Continue \<longleftrightarrow> goes_on A B) \<and> (action = Prune \<longrightarrow> pruned A B) \<and>
       (\<forall>f. action = FailNode f \<longrightarrow> fails A B vs f)"

definition queued_ok ::
  "judge \<Rightarrow> cspm_state transition_provider \<Rightarrow> cspm_state transition_provider
     \<Rightarrow> node_key \<times> closure \<times> closure \<Rightarrow> bool" where
  "queued_ok goes_on spec impl q \<longleftrightarrow>
     (\<exists>vs. live goes_on spec impl vs \<and>
        q = (node_of spec impl vs, closure_of (after_of impl vs), closure_of (after_of spec vs)))"

text \<open>A node that has been dealt with: pruned, or all its successors are visited.\<close>

definition settled ::
  "judge \<Rightarrow> judge \<Rightarrow> cspm_state transition_provider \<Rightarrow> cspm_state transition_provider \<Rightarrow> node_key set
     \<Rightarrow> node_key \<Rightarrow> bool" where
  "settled goes_on pruned spec impl V k \<longleftrightarrow>
     (\<forall>vs. k = node_of spec impl vs \<longrightarrow>
        (if goes_on (after_of impl vs) (after_of spec vs)
         then \<forall>l. vs @ [l] \<in> traces_of impl \<longrightarrow> vs @ [l] \<in> traces_of spec \<and> node_of spec impl (vs @ [l]) \<in> V
         else pruned (after_of impl vs) (after_of spec vs)))"

definition search_inv ::
  "judge \<Rightarrow> judge \<Rightarrow> cspm_state transition_provider \<Rightarrow> cspm_state transition_provider \<Rightarrow> node_key set
     \<Rightarrow> search \<Rightarrow> bool" where
  "search_inv goes_on pruned spec impl open st \<longleftrightarrow>
     pred_option (next_cache_ok spec impl) (se_cache st) \<and>
     pred_tree (node_step goes_on spec impl) (node_of spec impl []) (se_visited st) (se_pred st) \<and>
     list_all (queued_ok goes_on spec impl) (se_queue st) \<and>
     set (map fst (se_queue st)) \<subseteq> se_visited st \<and>
     (\<forall>k \<in> se_visited st - set (map fst (se_queue st)) - open.
        settled goes_on pruned spec impl (se_visited st) k)"

definition all_keys :: "cspm_state transition_provider \<Rightarrow> cspm_state transition_provider \<Rightarrow> node_key set" where
  "all_keys spec impl = case_prod key_of ` (Pow (reach_of impl) \<times> Pow (reach_of spec))"

definition search_measure ::
  "cspm_state transition_provider \<Rightarrow> cspm_state transition_provider \<Rightarrow> search \<Rightarrow> nat" where
  "search_measure spec impl st = card (all_keys spec impl - se_visited st) + length (se_queue st)"

lemma finite_all_keys: "coded_lts spec \<Longrightarrow> coded_lts impl \<Longrightarrow> finite (all_keys spec impl)"
  by (simp add: all_keys_def coded_lts_def finite_lts_def)

lemma node_of_in_keys: "node_of spec impl vs \<in> all_keys spec impl"
  unfolding all_keys_def node_of_def
  by (rule image_eqI [of _ _ "(after_of impl vs, after_of spec vs)"]) (simp_all add: after_reachable)

lemma settled_mono:
  "settled goes_on pruned spec impl V k \<Longrightarrow> V \<subseteq> W \<Longrightarrow> settled goes_on pruned spec impl W k"
  by (auto simp: settled_def split: if_splits)

lemma next_closure_after:
  "l \<noteq> tau \<Longrightarrow> next_closure provider (after_of provider vs) l = closure_of (after_of provider (vs @ [l]))"
  by (simp add: next_closure_def after_snoc)

text \<open>Adding the successor of an expanded node.\<close>

lemma add_node_correct:
  assumes coded: "coded_lts spec" "coded_lts impl"
    and inv: "search_inv goes_on pruned spec impl open st"
    and k: "node_of spec impl vs \<in> se_visited st" and live: "live goes_on spec impl vs"
    and go: "goes_on (after_of impl vs) (after_of spec vs)" and lvl: "live goes_on spec impl (vs @ [l])"
    and st': "st' = add_node (node_of spec impl vs) l (closure_of (after_of impl (vs @ [l])))
                (closure_of (after_of spec (vs @ [l]))) st"
  shows "search_inv goes_on pruned spec impl open st'"
    and "se_visited st' = insert (node_of spec impl (vs @ [l])) (se_visited st)"
    and "search_measure spec impl st' \<le> search_measure spec impl st"
proof -
  let ?k = "node_of spec impl (vs @ [l])"
  have key: "\<lparr>impl_sig = cl_sig (closure_of (after_of impl (vs @ [l]))),
      spec_sig = cl_sig (closure_of (after_of spec (vs @ [l])))\<rparr> = ?k"
    by (simp add: node_of_def key_of_def)
  have "search_inv goes_on pruned spec impl open st' \<and> se_visited st' = insert ?k (se_visited st) \<and>
      search_measure spec impl st' \<le> search_measure spec impl st"
  proof (cases "?k \<in> se_visited st")
    case True
    then show ?thesis using inv st' key by (auto simp: add_node_def Let_def)
  next
    case False
    define n where "n = (?k, closure_of (after_of impl (vs @ [l])), closure_of (after_of spec (vs @ [l])))"
    have st'': "st' = st\<lparr>se_visited := insert ?k (se_visited st),
        se_pred := (se_pred st)(?k \<mapsto> (node_of spec impl vs, l)),
        se_queue := se_queue st @ [n], se_states := se_states st + 1\<rparr>"
      using False st' key by (simp add: add_node_def Let_def n_def)
    have step: "node_step goes_on spec impl (node_of spec impl vs) l ?k"
      using live go lvl by (auto simp: node_step_def)
    have "pred_tree (node_step goes_on spec impl) (node_of spec impl []) (insert ?k (se_visited st))
        ((se_pred st)(?k \<mapsto> (node_of spec impl vs, l)))"
      by (rule pred_tree_insert) (use inv k False step in \<open>simp_all add: search_inv_def\<close>)
    moreover have "queued_ok goes_on spec impl n" "fst n = ?k" using lvl by (auto simp: queued_ok_def n_def)
    ultimately have "search_inv goes_on pruned spec impl open st'"
      using inv settled_mono [of goes_on pruned spec impl "se_visited st" _ "insert ?k (se_visited st)"]
      unfolding st'' search_inv_def by auto
    moreover have "card (all_keys spec impl - insert ?k (se_visited st)) < card (all_keys spec impl - se_visited st)"
      using node_of_in_keys [of spec impl "vs @ [l]"] False finite_all_keys [OF coded]
      by (intro psubset_card_mono) auto
    ultimately show ?thesis by (simp add: st'' search_measure_def)
  qed
  then show "search_inv goes_on pruned spec impl open st'"
    and "se_visited st' = insert ?k (se_visited st)"
    and "search_measure spec impl st' \<le> search_measure spec impl st" by blast+
qed

text \<open>The loop over the labels of a node: it returns a trace mismatch, or visits the successors under all of
  them.\<close>

lemma expand_labels_correct:
  assumes coded: "coded_lts spec" "coded_lts impl"
    and live: "live goes_on spec impl vs" and go: "goes_on (after_of impl vs) (after_of spec vs)"
  shows "search_inv goes_on pruned spec impl open st \<Longrightarrow> node_of spec impl vs \<in> se_visited st \<Longrightarrow>
    \<forall>l \<in> set labels. vs @ [l] \<in> traces_of impl \<Longrightarrow>
    \<exists>r. expand_labels spec impl (node_of spec impl vs) (closure_of (after_of impl vs))
          (closure_of (after_of spec vs)) labels st = Some r \<and>
      (case r of
         Inl (st', f) \<Rightarrow> refuted goes_on fails spec impl f
       | Inr st' \<Rightarrow> search_inv goes_on pruned spec impl open st' \<and> se_visited st \<subseteq> se_visited st' \<and>
           search_measure spec impl st' \<le> search_measure spec impl st \<and>
           (\<forall>l \<in> set labels. vs @ [l] \<in> traces_of spec \<and> node_of spec impl (vs @ [l]) \<in> se_visited st'))"
proof (induction labels arbitrary: st)
  case Nil
  then show ?case by simp
next
  case (Cons l labels)
  let ?k = "node_of spec impl vs" and ?A = "after_of impl vs" and ?B = "after_of spec vs"
  from Cons.prems have l: "vs @ [l] \<in> traces_of impl" by simp
  then have "l \<noteq> tau" by (auto dest: tau_notin_traces)
  note cl = next_closure_after [OF this]
  have cache: "pred_option (next_cache_ok spec impl) (se_cache st)"
    using Cons.prems by (simp add: search_inv_def)
  have sub: "?A \<subseteq> reach_of (side_provider spec impl ImplSide)" "?B \<subseteq> reach_of (side_provider spec impl SpecSide)"
    by (simp_all add: after_reachable)
  from step_closure_correct [OF coded sub(1) cache, of l] obtain cache1 where
    c1: "step_closure (se_cache st) ImplSide impl (closure_of ?A) l =
      Some (closure_of (after_of impl (vs @ [l])), cache1)" "pred_option (next_cache_ok spec impl) cache1"
    by (auto simp: cl)
  from step_closure_correct [OF coded sub(2) c1(2), of l] obtain cache2 where
    c2: "step_closure cache1 SpecSide spec (closure_of ?B) l =
      Some (closure_of (after_of spec (vs @ [l])), cache2)" "pred_option (next_cache_ok spec impl) cache2"
    by (auto simp: cl)
  define st1 where "st1 = st\<lparr>se_trans := se_trans st + 1, se_cache := cache2\<rparr>"
  have st1: "search_inv goes_on pruned spec impl open st1" "se_visited st1 = se_visited st"
    "search_measure spec impl st1 = search_measure spec impl st" "se_pred st1 = se_pred st"
    using Cons.prems(1) c2(2) by (simp_all add: st1_def search_inv_def search_measure_def)
  have empty: "cl_states (closure_of (after_of spec (vs @ [l]))) = [] \<longleftrightarrow> vs @ [l] \<notin> traces_of spec"
    using coded_subset(1) [OF coded(1) after_reachable] by (simp add: traces_def)
  show ?case
  proof (cases "vs @ [l] \<in> traces_of spec")
    case False
    from st1(1) have tree: "pred_tree (node_step goes_on spec impl) (node_of spec impl []) (se_visited st1) (se_pred st1)"
      by (simp add: search_inv_def)
    from pred_tree_walk [OF tree] Cons.prems(2) st1(2) obtain ls where
      ls: "back_labels (se_pred st1) ?k = Some (rev ls)" "walk (node_step goes_on spec impl) (node_of spec impl []) ls ?k"
      by auto
    from walk_node [OF coded ls(2)] have w: "?k = node_of spec impl ls" "live goes_on spec impl ls" by simp_all
    then have eq: "after_of impl ls = ?A" "after_of spec ls = ?B" using node_eq [OF coded] by auto
    have "refuted goes_on fails spec impl \<lparr>rf_trace = ls @ [l], rf_tags = [''trace_mismatch'']\<rparr>"
      unfolding refuted_def
      using w(2) go l False eq by (intro exI [of _ ls]) (simp add: traces_snoc_iff)
    then show ?thesis
      using c1(1) c2(1) False empty ls(1) by (simp add: Let_def st1_def reconstruct_trace_def)
  next
    case True
    have lvl: "live goes_on spec impl (vs @ [l])" using live go l True by (rule live.Step)
    define st2 where "st2 = add_node ?k l (closure_of (after_of impl (vs @ [l])))
        (closure_of (after_of spec (vs @ [l]))) st1"
    have k: "?k \<in> se_visited st1" using Cons.prems(2) st1(2) by simp
    note add = add_node_correct [OF coded st1(1) k live go lvl st2_def]
    have "expand_labels spec impl ?k (closure_of ?A) (closure_of ?B) (l # labels) st =
        expand_labels spec impl ?k (closure_of ?A) (closure_of ?B) labels st2"
      using c1(1) c2(1) True empty by (simp add: Let_def st1_def st2_def)
    moreover have "?k \<in> se_visited st2" using k add(2) by simp
    moreover have "\<forall>l \<in> set labels. vs @ [l] \<in> traces_of impl" using Cons.prems(3) by simp
    ultimately obtain r where r: "expand_labels spec impl ?k (closure_of ?A) (closure_of ?B) (l # labels) st = Some r"
      and post: "case r of
         Inl (st', f) \<Rightarrow> refuted goes_on fails spec impl f
       | Inr st' \<Rightarrow> search_inv goes_on pruned spec impl open st' \<and> se_visited st2 \<subseteq> se_visited st' \<and>
           search_measure spec impl st' \<le> search_measure spec impl st2 \<and>
           (\<forall>l \<in> set labels. vs @ [l] \<in> traces_of spec \<and> node_of spec impl (vs @ [l]) \<in> se_visited st')"
      using Cons.IH [OF add(1)] by auto
    show ?thesis
    proof (intro exI conjI)
      show "expand_labels spec impl ?k (closure_of ?A) (closure_of ?B) (l # labels) st = Some r" by (fact r)
      show "case r of
         Inl (st', f) \<Rightarrow> refuted goes_on fails spec impl f
       | Inr st' \<Rightarrow> search_inv goes_on pruned spec impl open st' \<and> se_visited st \<subseteq> se_visited st' \<and>
           search_measure spec impl st' \<le> search_measure spec impl st \<and>
           (\<forall>l \<in> set (l # labels). vs @ [l] \<in> traces_of spec \<and> node_of spec impl (vs @ [l]) \<in> se_visited st')"
        using post add(2,3) st1(2,3) True by (cases r) auto
    qed
  qed
qed

text \<open>When the search is over, every live trace has led to a visited node.\<close>

lemma search_done:
  assumes inv: "search_inv goes_on pruned spec impl {} st" and "se_queue st = []"
  shows "accepted goes_on pruned spec impl"
proof -
  have set: "settled goes_on pruned spec impl (se_visited st) k" if "k \<in> se_visited st" for k
    using assms that by (simp add: search_inv_def)
  have vis: "node_of spec impl vs \<in> se_visited st" if "live goes_on spec impl vs" for vs
    using that
  proof (induction rule: live.induct)
    case Start
    then show ?case using inv by (simp add: search_inv_def pred_tree_def)
  next
    case (Step vs l)
    with set [OF Step.IH] show ?case by (simp add: settled_def)
  qed
  show ?thesis
    unfolding accepted_def using set [OF vis] by (auto simp: settled_def split: if_splits)
qed

text \<open>Closing a node whose labels have all been expanded.\<close>

lemma search_close:
  assumes coded: "coded_lts spec" "coded_lts impl"
    and inv: "search_inv goes_on pruned spec impl {node_of spec impl vs} st"
    and settled: "if goes_on (after_of impl vs) (after_of spec vs)
       then \<forall>l. vs @ [l] \<in> traces_of impl \<longrightarrow> vs @ [l] \<in> traces_of spec \<and> node_of spec impl (vs @ [l]) \<in> se_visited st
       else pruned (after_of impl vs) (after_of spec vs)"
  shows "search_inv goes_on pruned spec impl {} st"
proof -
  have "settled goes_on pruned spec impl (se_visited st) (node_of spec impl vs)"
    unfolding settled_def
  proof (intro allI impI)
    fix ws assume "node_of spec impl vs = node_of spec impl ws"
    then have eq: "after_of impl vs = after_of impl ws" "after_of spec vs = after_of spec ws"
      using node_eq [OF coded] by auto
    have "node_of spec impl (vs @ [l]) = node_of spec impl (ws @ [l])" if "vs @ [l] \<in> traces_of impl" for l
    proof -
      have "l \<noteq> tau" using tau_notin_traces [OF that] by auto
      with eq show ?thesis unfolding node_eq [OF coded] by (intro conjI after_snoc_cong)
    qed
    moreover have t: "ws @ [l] \<in> traces_of impl \<longleftrightarrow> vs @ [l] \<in> traces_of impl"
      "ws @ [l] \<in> traces_of spec \<longleftrightarrow> vs @ [l] \<in> traces_of spec" for l
      using eq by (simp_all add: traces_snoc_iff)
    ultimately show "if goes_on (after_of impl ws) (after_of spec ws)
       then \<forall>l. ws @ [l] \<in> traces_of impl \<longrightarrow> ws @ [l] \<in> traces_of spec \<and> node_of spec impl (ws @ [l]) \<in> se_visited st
       else pruned (after_of impl ws) (after_of spec ws)"
      using settled unfolding eq [symmetric] t by (auto split: if_splits)
  qed
  with inv show ?thesis unfolding search_inv_def by blast
qed

text \<open>The label whose links lead to a visited node.\<close>

lemma search_trace:
  assumes coded: "coded_lts spec" "coded_lts impl"
    and inv: "search_inv goes_on pruned spec impl open st" and k: "k \<in> se_visited st"
  shows "\<exists>vs. reconstruct_trace (se_pred st) k = Some vs \<and> live goes_on spec impl vs \<and> k = node_of spec impl vs"
proof -
  from inv have "pred_tree (node_step goes_on spec impl) (node_of spec impl []) (se_visited st) (se_pred st)"
    by (simp add: search_inv_def)
  from pred_tree_walk [OF this k] obtain ls where "back_labels (se_pred st) k = Some (rev ls)"
    "walk (node_step goes_on spec impl) (node_of spec impl []) ls k" by blast
  with walk_node [OF coded, of goes_on ls k] show ?thesis by (auto simp: reconstruct_trace_def)
qed

definition outcome_ok ::
  "judge \<Rightarrow> judge \<Rightarrow> (cspm_state set \<Rightarrow> cspm_state set \<Rightarrow> string list \<Rightarrow> refinement_failure \<Rightarrow> bool)
     \<Rightarrow> cspm_state transition_provider \<Rightarrow> cspm_state transition_provider \<Rightarrow> refinement_outcome \<Rightarrow> bool" where
  "outcome_ok goes_on pruned fails spec impl out \<longleftrightarrow>
     ro_diagnostic_tags out = [] \<and>
     (if ro_refines out then ro_failure out = None \<and> accepted goes_on pruned spec impl
      else \<exists>f. ro_failure out = Some f \<and> refuted goes_on fails spec impl f)"

lemma outcome_ok_simps [simp]:
  "outcome_ok goes_on pruned fails spec impl (outcome_pass st) \<longleftrightarrow> accepted goes_on pruned spec impl"
  "outcome_ok goes_on pruned fails spec impl (outcome_fail st f) \<longleftrightarrow> refuted goes_on fails spec impl f"
  by (simp_all add: outcome_ok_def outcome_pass_def outcome_fail_def)

context node_checker
begin

lemma bfs_loop_correct:
  assumes coded: "coded_lts spec" "coded_lts impl"
  shows "search_inv goes_on pruned spec impl {} st \<Longrightarrow> good x \<Longrightarrow>
    \<exists>out x' cache. bfs_loop spec impl check x st = Some (out, x', cache) \<and>
      outcome_ok goes_on pruned fails spec impl out"
proof (induction "search_measure spec impl st" arbitrary: st x rule: less_induct)
  case less
  note inv = less.prems(1)
  show ?case
  proof (cases "se_queue st")
    case Nil
    with search_done [OF inv] show ?thesis by (simp add: bfs_loop.simps)
  next
    case (Cons q queue1)
    define st1 where "st1 = st\<lparr>se_queue := queue1\<rparr>"
    from inv Cons have "queued_ok goes_on spec impl q" by (simp add: search_inv_def)
    then obtain ws where ws: "live goes_on spec impl ws"
      "q = (node_of spec impl ws, closure_of (after_of impl ws), closure_of (after_of spec ws))"
      by (auto simp: queued_ok_def)
    from inv Cons ws have k: "node_of spec impl ws \<in> se_visited st1"
      and inv1: "search_inv goes_on pruned spec impl {node_of spec impl ws} st1"
      and m: "search_measure spec impl st = Suc (search_measure spec impl st1)"
      by (auto simp: search_inv_def st1_def search_measure_def)
    from search_trace [OF coded inv1 k] obtain vs where
      vs: "reconstruct_trace (se_pred st1) (node_of spec impl ws) = Some vs" "live goes_on spec impl vs"
        "node_of spec impl ws = node_of spec impl vs" by blast
    let ?A = "after_of impl vs" and ?B = "after_of spec vs"
    from vs(3) have q: "q = (key_of ?A ?B, closure_of ?A, closure_of ?B)"
      using node_eq [OF coded] ws(2) by (auto simp: node_of_def)
    from vs have "reconstruct_trace (se_pred st1) (key_of ?A ?B) = Some vs" by (simp add: node_of_def)
    from check_node [OF coded less.prems(2) closed_in_after closed_in_after this] obtain x' action where
      ch: "check x (key_of ?A ?B) (cl_states (closure_of ?A)) (cl_states (closure_of ?B)) (se_pred st1)
          = Some (x', action)" "good x'" "action = Continue \<longleftrightarrow> goes_on ?A ?B"
        "action = Prune \<Longrightarrow> pruned ?A ?B" "\<And>f. action = FailNode f \<Longrightarrow> fails ?A ?B vs f"
      by blast
    note loop = bfs_loop.simps [of spec impl check x st]
    note inv1 = inv1 [unfolded vs(3)] and k = k [unfolded vs(3)]
    show ?thesis
    proof (cases action)
      case (FailNode f)
      with ch(1,5) vs(2) Cons q have "refuted goes_on fails spec impl f" by (auto simp: refuted_def)
      with FailNode ch(1) Cons q show ?thesis by (simp add: loop Let_def st1_def)
    next
      case Prune
      with ch have "search_inv goes_on pruned spec impl {} st1"
        by (intro search_close [OF coded inv1]) auto
      with less.hyps [of st1 x'] m ch(2) obtain out x2 cache where
        "bfs_loop spec impl check x' st1 = Some (out, x2, cache)" "outcome_ok goes_on pruned fails spec impl out"
        by auto
      with Prune ch(1) Cons q show ?thesis by (simp add: loop Let_def st1_def)
    next
      case Continue
      with ch(3) have go: "goes_on ?A ?B" by simp
      have fin: "finite_lts (transitions impl) (initial_state impl)" using coded(2) by (simp add: coded_lts_def)
      have A: "set (cl_states (closure_of ?A)) = ?A"
        using coded_subset(1) [OF coded(2) after_reachable] by simp
      have "set (cl_states (closure_of ?A)) \<subseteq> reach_of impl" unfolding A by (rule after_reachable)
      from enabled_visible_labels_correct [OF fin this] obtain labels where
        labels1: "enabled_visible_labels impl (cl_states (closure_of ?A)) = Some labels"
          "set labels = (\<Union>s \<in> ?A. offers (transitions impl) s)"
        unfolding A by blast
      then have labels: "enabled_visible_labels impl (cl_states (closure_of ?A)) = Some labels"
          "set labels = {l. vs @ [l] \<in> traces_of impl}"
        by (auto simp: traces_snoc_iff)
      then have "\<forall>l \<in> set labels. vs @ [l] \<in> traces_of impl" by simp
      from expand_labels_correct [OF coded vs(2) go inv1 k this] obtain r where
        r: "expand_labels spec impl (node_of spec impl vs) (closure_of ?A) (closure_of ?B) labels st1 = Some r" and
        post: "case r of Inl (st', f) \<Rightarrow> refuted goes_on fails spec impl f
          | Inr st' \<Rightarrow> search_inv goes_on pruned spec impl {node_of spec impl vs} st' \<and>
              se_visited st1 \<subseteq> se_visited st' \<and> search_measure spec impl st' \<le> search_measure spec impl st1 \<and>
              (\<forall>l \<in> set labels. vs @ [l] \<in> traces_of spec \<and> node_of spec impl (vs @ [l]) \<in> se_visited st')"
        by blast
      show ?thesis
      proof (cases r)
        case (Inl sf)
        obtain st2 f where "sf = (st2, f)" by (cases sf)
        with Inl post r Continue ch(1) Cons q labels(1) show ?thesis
          by (simp add: loop Let_def st1_def node_of_def)
      next
        case (Inr st2)
        with post labels(2) go have "search_inv goes_on pruned spec impl {} st2"
          by (intro search_close [OF coded, of _ _ vs]) auto
        moreover have "search_measure spec impl st2 < search_measure spec impl st" using Inr post m by simp
        ultimately obtain out x2 cache where
          "bfs_loop spec impl check x' st2 = Some (out, x2, cache)" "outcome_ok goes_on pruned fails spec impl out"
          using less.hyps [of st2 x'] ch(2) by auto
        with Inr r Continue ch(1) Cons q labels(1) show ?thesis
          by (simp add: loop Let_def st1_def node_of_def)
      qed
    qed
  qed
qed

lemma bfs_refinement_correct:
  assumes coded: "coded_lts spec" "coded_lts impl" and "good x"
    and cache: "pred_option (next_cache_ok spec impl) cache"
  shows "\<exists>out x' cache'. bfs_refinement spec impl check x cache = Some (out, x', cache') \<and>
    outcome_ok goes_on pruned fails spec impl out"
proof -
  have init: "tau_closure p [initial_state p] = Some (closure_of (after_of p []))" if "coded_lts p" for p
    using tau_closure_correct [OF that, of "[initial_state p]"] by (simp add: after_Nil)
  define st where "st = \<lparr>se_visited = {node_of spec impl []}, se_pred = Map.empty,
      se_queue = [(node_of spec impl [], closure_of (after_of impl []), closure_of (after_of spec []))],
      se_states = 1, se_trans = 0, se_cache = cache\<rparr>"
  have "queued_ok goes_on spec impl
      (node_of spec impl [], closure_of (after_of impl []), closure_of (after_of spec []))"
    unfolding queued_ok_def by (intro exI [of _ "[]"]) (simp add: live.Start)
  then have "search_inv goes_on pruned spec impl {} st"
    using cache pred_tree_init [of "node_step goes_on spec impl" "node_of spec impl []"]
    by (simp add: search_inv_def st_def)
  moreover have "bfs_refinement spec impl check x cache = bfs_loop spec impl check x st"
    using init [OF coded(1)] init [OF coded(2)]
    by (simp add: bfs_refinement_def st_def node_of_def key_of_def Let_def)
  ultimately show ?thesis using bfs_loop_correct [OF coded] \<open>good x\<close> by simp
qed

end

end
