(* ===== verification/Cspx_Refine.thy ===== *)
theory Cspx_Refine
  imports Cspx_Refine_Bfs
begin

text \<open>
  The three refinement models of \<^verbatim>\<open>check_refine.rs\<close>: the node checks, with the cache of divergence results and
  the counters of the failures-divergences model, and the searches they give. Each check is an interpretation of the
  interface \<open>node_checker\<close>; the results say that on finite systems the searches return and decide trace,
  stable-failures and failures-divergences refinement, and that what they report is a genuine counterexample.
\<close>

section \<open>Refusals\<close>

text \<open>The first label, in order, that some stable state of the specification offers and the implementation does
  not.\<close>

fun first_missing :: "string list list \<Rightarrow> string list \<Rightarrow> string option" where
  "first_missing [] impl_offer = None"
| "first_missing (spec_offer # spec_offers) impl_offer =
     (case filter (\<lambda>l. l \<notin> set impl_offer) spec_offer of
        [] \<Rightarrow> first_missing spec_offers impl_offer
      | label # _ \<Rightarrow> Some label)"

definition refusal_mismatch_tags :: "string list list \<Rightarrow> string list \<Rightarrow> string list" where
  "refusal_mismatch_tags spec_stable_offers impl_offer =
     ''refusal_mismatch'' #
     (case first_missing spec_stable_offers impl_offer of
        None \<Rightarrow> [] | Some label \<Rightarrow> [''refuse:'' @ label])"

text \<open>The loop over the states of the implementation: the offer of the first stable state that no stable state of
  the specification allows.\<close>

fun first_refusal ::
  "'s transition_provider \<Rightarrow> string list list \<Rightarrow> 's list \<Rightarrow> string list option option" where
  "first_refusal impl spec_offers [] = Some None"
| "first_refusal impl spec_offers (impl_state # states) =
     (case is_stable impl impl_state of
        None \<Rightarrow> None
      | Some False \<Rightarrow> first_refusal impl spec_offers states
      | Some True \<Rightarrow>
          (case offered_visible_labels impl impl_state of
             None \<Rightarrow> None
           | Some impl_offer \<Rightarrow>
               if list_ex (\<lambda>spec_offer. list_all (\<lambda>l. l \<in> set impl_offer) spec_offer) spec_offers
               then first_refusal impl spec_offers states
               else Some (Some impl_offer)))"

definition refusal_check ::
  "cspm_state transition_provider \<Rightarrow> cspm_state transition_provider \<Rightarrow> node_key \<Rightarrow> cspm_state list
     \<Rightarrow> cspm_state list \<Rightarrow> predecessor \<Rightarrow> node_action option" where
  "refusal_check spec impl key impl_states spec_states pred =
     (case stable_offer_sets spec spec_states of
        None \<Rightarrow> None
      | Some spec_stable_offers \<Rightarrow>
          (case first_refusal impl spec_stable_offers impl_states of
             None \<Rightarrow> None
           | Some None \<Rightarrow> Some Continue
           | Some (Some impl_offer) \<Rightarrow>
               map_option (\<lambda>trace. FailNode \<lparr>rf_trace = trace,
                                              rf_tags = refusal_mismatch_tags spec_stable_offers impl_offer\<rparr>)
                 (reconstruct_trace pred key)))"

section \<open>The cache of divergence results\<close>

record divergence_cache =
  dc_entries :: "provider_side \<rightharpoonup> (u8 list list \<rightharpoonup> bool)"
  dc_hits :: u64
  dc_misses :: u64

definition empty_divergence_cache :: divergence_cache where
  "empty_divergence_cache = \<lparr>dc_entries = Map.empty, dc_hits = 0, dc_misses = 0\<rparr>"

definition dc_lookup :: "divergence_cache \<Rightarrow> provider_side \<Rightarrow> u8 list list \<Rightarrow> bool option" where
  "dc_lookup cache side sig =
     (case dc_entries cache side of None \<Rightarrow> None | Some by_sig \<Rightarrow> by_sig sig)"

definition dc_insert :: "provider_side \<Rightarrow> u8 list list \<Rightarrow> bool \<Rightarrow> divergence_cache \<Rightarrow> divergence_cache" where
  "dc_insert side sig b cache =
     cache\<lparr>dc_entries := (dc_entries cache)(side \<mapsto> (or_default (dc_entries cache) side)(sig \<mapsto> b))\<rparr>"

definition has_tau_cycle ::
  "divergence_cache \<Rightarrow> provider_side \<Rightarrow> u8 list list \<Rightarrow> cspm_state transition_provider \<Rightarrow> cspm_state list
     \<Rightarrow> (bool \<times> divergence_cache) option" where
  "has_tau_cycle cache side closure_sig provider closure_states =
     (case dc_lookup cache side closure_sig of
        Some cached \<Rightarrow> Some (cached, cache\<lparr>dc_hits := sat_add (dc_hits cache) 1\<rparr>)
      | None \<Rightarrow>
          (let cache1 = cache\<lparr>dc_misses := sat_add (dc_misses cache) 1\<rparr>
           in map_option (\<lambda>computed. (computed, dc_insert side closure_sig computed cache1))
                (closure_has_tau_cycle provider closure_states)))"

section \<open>The node checks and the searches\<close>

definition trace_node_check :: "unit node_check" where
  "trace_node_check x key impl_states spec_states pred = Some (x, Continue)"

definition failures_node_check ::
  "cspm_state transition_provider \<Rightarrow> cspm_state transition_provider \<Rightarrow> unit node_check" where
  "failures_node_check spec impl x key impl_states spec_states pred =
     map_option (Pair x) (refusal_check spec impl key impl_states spec_states pred)"

text \<open>What the closure of the failures-divergences check captures.\<close>

record fd_state =
  fd_cache :: divergence_cache
  fd_checks :: u64
  fd_prunes :: u64
  fd_impl_max :: u64
  fd_spec_max :: u64

definition fd_start :: fd_state where
  "fd_start = \<lparr>fd_cache = empty_divergence_cache, fd_checks = 0, fd_prunes = 0, fd_impl_max = 0, fd_spec_max = 0\<rparr>"

definition fd_node_check ::
  "cspm_state transition_provider \<Rightarrow> cspm_state transition_provider \<Rightarrow> fd_state node_check" where
  "fd_node_check spec impl x key impl_states spec_states pred =
     (let x1 = x\<lparr>fd_impl_max := max (fd_impl_max x) (of_nat (length impl_states)),
                 fd_spec_max := max (fd_spec_max x) (of_nat (length spec_states)),
                 fd_checks := sat_add (fd_checks x) 2\<rparr>
      in case has_tau_cycle (fd_cache x1) SpecSide (spec_sig key) spec spec_states of
           None \<Rightarrow> None
         | Some (spec_diverges, cache1) \<Rightarrow>
             (case has_tau_cycle cache1 ImplSide (impl_sig key) impl impl_states of
                None \<Rightarrow> None
              | Some (impl_diverges, cache2) \<Rightarrow>
                  (let x2 = x1\<lparr>fd_cache := cache2\<rparr>
                   in if impl_diverges \<and> \<not> spec_diverges
                      then map_option (\<lambda>trace. (x2, FailNode
                               \<lparr>rf_trace = trace @ [tau],
                                rf_tags = [''divergence_mismatch'', ''divergence'']\<rparr>))
                             (reconstruct_trace pred key)
                      else if spec_diverges
                      then Some (x2\<lparr>fd_prunes := sat_add (fd_prunes x2) 1\<rparr>, Prune)
                      else map_option (Pair x2)
                             (refusal_check spec impl key impl_states spec_states pred))))"

definition trace_includes ::
  "cspm_state transition_provider \<Rightarrow> cspm_state transition_provider \<Rightarrow> refinement_outcome option" where
  "trace_includes spec impl = map_option fst (bfs_refinement spec impl trace_node_check () None)"

definition failures_includes ::
  "cspm_state transition_provider \<Rightarrow> cspm_state transition_provider \<Rightarrow> refinement_outcome option" where
  "failures_includes spec impl =
     map_option fst (bfs_refinement spec impl (failures_node_check spec impl) () None)"

definition unwrap_or_default :: "u64 option \<Rightarrow> u64" where
  "unwrap_or_default x = (case x of None \<Rightarrow> 0 | Some w \<Rightarrow> w)"

definition fd_tags :: "stats \<Rightarrow> fd_state \<Rightarrow> next_closure_cache \<Rightarrow> string list" where
  "fd_tags st x cache =
     [''fd_nodes:'' @ show_u64 (unwrap_or_default (st_states st)),
      ''fd_edges:'' @ show_u64 (unwrap_or_default (st_transitions st)),
      ''fd_divergence_checks:'' @ show_u64 (fd_checks x),
      ''fd_pruned_nodes:'' @ show_u64 (fd_prunes x),
      ''fd_impl_closure_max:'' @ show_u64 (fd_impl_max x),
      ''fd_spec_closure_max:'' @ show_u64 (fd_spec_max x),
      ''fd_closure_cache_hits:'' @ show_u64 (nc_hits cache),
      ''fd_closure_cache_misses:'' @ show_u64 (nc_misses cache),
      ''fd_divergence_cache_hits:'' @ show_u64 (dc_hits (fd_cache x)),
      ''fd_divergence_cache_misses:'' @ show_u64 (dc_misses (fd_cache x))]"

definition failures_divergences_includes ::
  "cspm_state transition_provider \<Rightarrow> cspm_state transition_provider \<Rightarrow> refinement_outcome option" where
  "failures_divergences_includes spec impl =
     (case bfs_refinement spec impl (fd_node_check spec impl) fd_start (Some empty_next_cache) of
        None \<Rightarrow> None
      | Some (outcome, x, cache) \<Rightarrow>
          Some (outcome\<lparr>ro_diagnostic_tags :=
            fd_tags (ro_stats outcome) x (case cache of None \<Rightarrow> empty_next_cache | Some c \<Rightarrow> c)\<rparr>))"

section \<open>The checks keep their contract\<close>

text \<open>What a refusal mismatch is: a stable state of the implementation that no stable state of the
  specification allows; the tags name an event it refuses, if one is found.\<close>

definition refusal_tags :: "string list \<Rightarrow> bool" where
  "refusal_tags tags \<longleftrightarrow>
     tags = [''refusal_mismatch''] \<or> (\<exists>l. tags = [''refusal_mismatch'', ''refuse:'' @ l])"

definition refusal_failure ::
  "cspm_state transition_provider \<Rightarrow> cspm_state transition_provider \<Rightarrow> cspm_state set \<Rightarrow> cspm_state set
     \<Rightarrow> string list \<Rightarrow> refinement_failure \<Rightarrow> bool" where
  "refusal_failure spec impl A B vs f \<longleftrightarrow>
     rf_trace f = vs \<and> refusal_tags (rf_tags f) \<and>
     (\<exists>s \<in> A. stable (transitions impl) s \<and>
        (\<forall>t \<in> B. stable (transitions spec) t \<longrightarrow> \<not> offers (transitions spec) t \<subseteq> offers (transitions impl) s) \<and>
        (\<forall>l. ''refuse:'' @ l \<in> set (rf_tags f) \<longrightarrow> l \<notin> offers (transitions impl) s \<and>
           (\<exists>t \<in> B. stable (transitions spec) t \<and> l \<in> offers (transitions spec) t)))"

lemma refusal_failure_not_ok:
  "refusal_failure spec impl A B vs f \<Longrightarrow> \<not> refusals_ok (transitions spec) B (transitions impl) A"
  by (auto simp: refusal_failure_def refusals_ok_def)

lemma first_missing_Some:
  "first_missing spec_offers impl_offer = Some l \<Longrightarrow> l \<notin> set impl_offer \<and> (\<exists>w \<in> set spec_offers. l \<in> set w)"
proof (induction spec_offers impl_offer rule: first_missing.induct)
  case (2 spec_offer spec_offers impl_offer)
  show ?case
  proof (cases "filter (\<lambda>l. l \<notin> set impl_offer) spec_offer")
    case Nil
    with 2 show ?thesis by auto
  next
    case (Cons k ks)
    then have "k \<in> set spec_offer \<and> k \<notin> set impl_offer"
      by (auto dest!: filter_eq_ConsD)
    with Cons 2(2) show ?thesis by (auto simp del: filter_eq_Cons_iff)
  qed
qed simp

lemma first_refusal_correct:
  assumes "\<forall>s \<in> set states. transitions impl s \<noteq> None"
  shows "\<exists>r. first_refusal impl spec_offers states = Some r \<and>
    (case r of
       None \<Rightarrow> \<forall>s \<in> set states. stable (transitions impl) s \<longrightarrow>
         (\<exists>w \<in> set spec_offers. set w \<subseteq> offers (transitions impl) s)
     | Some impl_offer \<Rightarrow> \<exists>s \<in> set states. stable (transitions impl) s \<and>
         set impl_offer = offers (transitions impl) s \<and>
         (\<forall>w \<in> set spec_offers. \<not> set w \<subseteq> offers (transitions impl) s))"
  using assms
proof (induction states)
  case (Cons s states)
  then obtain r where r: "first_refusal impl spec_offers states = Some r" and post:
    "case r of
       None \<Rightarrow> \<forall>s \<in> set states. stable (transitions impl) s \<longrightarrow>
         (\<exists>w \<in> set spec_offers. set w \<subseteq> offers (transitions impl) s)
     | Some impl_offer \<Rightarrow> \<exists>s \<in> set states. stable (transitions impl) s \<and>
         set impl_offer = offers (transitions impl) s \<and>
         (\<forall>w \<in> set spec_offers. \<not> set w \<subseteq> offers (transitions impl) s)" by auto
  from Cons.prems have s: "transitions impl s \<noteq> None" by simp
  from offered_visible_labels_correct [OF s] obtain labels where
    o: "offered_visible_labels impl s = Some labels" "set labels = offers (transitions impl) s" by blast
  have ex: "list_ex (\<lambda>spec_offer. list_all (\<lambda>l. l \<in> set labels) spec_offer) spec_offers \<longleftrightarrow>
      (\<exists>w \<in> set spec_offers. set w \<subseteq> offers (transitions impl) s)"
    using o(2) by (auto simp: list_ex_iff list_all_iff)
  show ?case
  proof (cases "stable (transitions impl) s \<and> \<not> (\<exists>w \<in> set spec_offers. set w \<subseteq> offers (transitions impl) s)")
    case True
    then have "first_refusal impl spec_offers (s # states) = Some (Some labels)"
      using o(1) ex by (simp add: is_stable_correct [OF s])
    with True o(2) show ?thesis by auto
  next
    case False
    then have "first_refusal impl spec_offers (s # states) = Some r"
      using o(1) ex r by (simp add: is_stable_correct [OF s] split: bool.split)
    with post False show ?thesis by (cases r) auto
  qed
qed simp

lemma refusal_check_correct:
  assumes coded: "coded_lts spec" "coded_lts impl" and A: "closed_in impl A" and B: "closed_in spec B"
    and trace: "reconstruct_trace pred key = Some vs"
  shows "\<exists>action. refusal_check spec impl key (cl_states (closure_of A)) (cl_states (closure_of B)) pred = Some action \<and>
    (action = Continue \<longleftrightarrow> refusals_ok (transitions spec) B (transitions impl) A) \<and> action \<noteq> Prune \<and>
    (\<forall>f. action = FailNode f \<longrightarrow> refusal_failure spec impl A B vs f)"
proof -
  let ?ts = "transitions spec" and ?ti = "transitions impl"
  from A B have sub: "A \<subseteq> reach_of impl" "B \<subseteq> reach_of spec" by (simp_all add: closed_in_def)
  note fA = coded_subset [OF coded(2) sub(1)] and fB = coded_subset [OF coded(1) sub(2)]
  have "\<forall>s \<in> set (cl_states (closure_of B)). ?ts s \<noteq> None" using fB by simp
  from stable_offer_sets_correct [OF this] obtain sets where
    sets: "stable_offer_sets spec (cl_states (closure_of B)) = Some sets"
      "set ` set sets = offers ?ts ` {t \<in> B. stable ?ts t}"
    using fB(1) by auto
  have ex: "(\<exists>w \<in> set sets. set w \<subseteq> X) \<longleftrightarrow> (\<exists>t \<in> B. stable ?ts t \<and> offers ?ts t \<subseteq> X)" for X
  proof -
    have "(\<exists>w \<in> set sets. set w \<subseteq> X) \<longleftrightarrow> (\<exists>Y \<in> set ` set sets. Y \<subseteq> X)" by blast
    then show ?thesis unfolding sets(2) by blast
  qed
  have A': "set (cl_states (closure_of A)) = A" using fA(1) by simp
  have "\<forall>s \<in> set (cl_states (closure_of A)). ?ti s \<noteq> None" using fA by simp
  from first_refusal_correct [OF this, of sets] obtain r where
    r: "first_refusal impl sets (cl_states (closure_of A)) = Some r" and post:
      "case r of
         None \<Rightarrow> \<forall>s \<in> A. stable ?ti s \<longrightarrow> (\<exists>w \<in> set sets. set w \<subseteq> offers ?ti s)
       | Some impl_offer \<Rightarrow> \<exists>s \<in> A. stable ?ti s \<and> set impl_offer = offers ?ti s \<and>
           (\<forall>w \<in> set sets. \<not> set w \<subseteq> offers ?ti s)"
    unfolding A' by blast
  show ?thesis
  proof (cases r)
    case None
    with post have "refusals_ok ?ts B ?ti A" by (simp add: refusals_ok_def ex)
    with None sets(1) r show ?thesis by (simp add: refusal_check_def)
  next
    case (Some impl_offer)
    with post obtain s where s: "s \<in> A" "stable ?ti s" "set impl_offer = offers ?ti s"
      "\<forall>w \<in> set sets. \<not> set w \<subseteq> offers ?ti s" by auto
    define f where "f = \<lparr>rf_trace = vs, rf_tags = refusal_mismatch_tags sets impl_offer\<rparr>"
    have "l \<notin> offers ?ti s \<and> (\<exists>t \<in> B. stable ?ts t \<and> l \<in> offers ?ts t)" if "''refuse:'' @ l \<in> set (rf_tags f)" for l
    proof -
      from that have "first_missing sets impl_offer = Some l"
        by (auto simp: f_def refusal_mismatch_tags_def split: option.splits)
      with first_missing_Some s(3) obtain w where o: "l \<notin> offers ?ti s" "w \<in> set sets" "l \<in> set w" by blast
      then have "set w \<in> offers ?ts ` {t \<in> B. stable ?ts t}" unfolding sets(2) [symmetric] by blast
      with o show ?thesis by auto
    qed
    with s ex [of "offers ?ti s"] have "refusal_failure spec impl A B vs f"
      by (auto simp: refusal_failure_def refusal_tags_def f_def refusal_mismatch_tags_def split: option.split)
    moreover have "refusal_check spec impl key (cl_states (closure_of A)) (cl_states (closure_of B)) pred
        = Some (FailNode f)"
      using Some sets(1) r trace by (simp add: refusal_check_def f_def)
    ultimately show ?thesis using refusal_failure_not_ok by blast
  qed
qed

interpretation trace_check: node_checker spec impl trace_node_check "\<lambda>_. True" "\<lambda>_ _. True" "\<lambda>_ _. False"
  "\<lambda>_ _ _ _. False" for spec impl
  by unfold_locales (simp add: trace_node_check_def)

interpretation failures_check: node_checker spec impl "failures_node_check spec impl" "\<lambda>_. True"
  "\<lambda>A B. refusals_ok (transitions spec) B (transitions impl) A" "\<lambda>_ _. False" "refusal_failure spec impl"
  for spec impl
proof (unfold_locales, goal_cases)
  case (1 x A B pred vs)
  from refusal_check_correct [OF 1(1,2,4,5,6)] show ?case
    by (auto simp: failures_node_check_def)
qed

text \<open>The divergence cache.\<close>

definition divergence_cache_ok ::
  "cspm_state transition_provider \<Rightarrow> cspm_state transition_provider \<Rightarrow> divergence_cache \<Rightarrow> bool" where
  "divergence_cache_ok spec impl cache \<longleftrightarrow>
     (\<forall>side S b. closed_in (side_provider spec impl side) S \<longrightarrow>
        dc_lookup cache side (cl_sig (closure_of S)) = Some b \<longrightarrow>
        b = tau_cycle_in (transitions (side_provider spec impl side)) S)"

lemma dc_lookup_simps [simp]:
  "dc_lookup empty_divergence_cache side sig = None"
  "dc_lookup (cache\<lparr>dc_hits := h\<rparr>) side sig = dc_lookup cache side sig"
  "dc_lookup (cache\<lparr>dc_misses := h\<rparr>) side sig = dc_lookup cache side sig"
  by (simp_all add: dc_lookup_def empty_divergence_cache_def)

lemma dc_lookup_insert:
  "dc_lookup (dc_insert side sig b cache) side' sig' =
     (if side' = side \<and> sig' = sig then Some b else dc_lookup cache side' sig')"
  by (auto simp: dc_lookup_def dc_insert_def or_default_def split: option.split)

lemma distinct_closure_of: "distinct (cl_states (closure_of S))"
  by (auto simp: closure_of_def make_closure_def Let_def distinct_map inj_on_def)

lemma has_tau_cycle_correct:
  assumes coded: "coded_lts spec" "coded_lts impl" and S: "closed_in (side_provider spec impl side) S"
    and ok: "divergence_cache_ok spec impl cache"
  shows "\<exists>cache'. has_tau_cycle cache side (cl_sig (closure_of S)) (side_provider spec impl side)
      (cl_states (closure_of S)) = Some (tau_cycle_in (transitions (side_provider spec impl side)) S, cache') \<and>
    divergence_cache_ok spec impl cache'"
proof -
  let ?p = "side_provider spec impl side"
  have p: "coded_lts ?p" using coded by (cases side) simp_all
  have sub: "S \<subseteq> reach_of ?p" using S by (simp add: closed_in_def)
  note f = coded_subset [OF p sub]
  show ?thesis
  proof (cases "dc_lookup cache side (cl_sig (closure_of S))")
    case None
    let ?b = "tau_cycle_in (transitions ?p) S"
    let ?c = "dc_insert side (cl_sig (closure_of S)) ?b (cache\<lparr>dc_misses := sat_add (dc_misses cache) 1\<rparr>)"
    have "closure_has_tau_cycle ?p (cl_states (closure_of S)) = Some ?b"
      using closure_has_tau_cycle_correct [OF distinct_closure_of, of S ?p] f S by (simp add: closed_in_def)
    moreover have "divergence_cache_ok spec impl ?c"
      using ok sig_eq [OF p _ sub] by (auto simp: divergence_cache_ok_def dc_lookup_insert closed_in_def)
    ultimately show ?thesis using None by (simp add: has_tau_cycle_def)
  next
    case (Some b)
    with ok S have "b = tau_cycle_in (transitions ?p) S" by (simp add: divergence_cache_ok_def)
    with Some ok show ?thesis by (simp add: has_tau_cycle_def divergence_cache_ok_def)
  qed
qed

definition fd_goes_on :: "cspm_state transition_provider \<Rightarrow> cspm_state transition_provider \<Rightarrow> judge" where
  "fd_goes_on spec impl A B \<longleftrightarrow> \<not> tau_cycle_in (transitions spec) B \<and> \<not> tau_cycle_in (transitions impl) A \<and>
     refusals_ok (transitions spec) B (transitions impl) A"

definition fd_failure ::
  "cspm_state transition_provider \<Rightarrow> cspm_state transition_provider \<Rightarrow> cspm_state set \<Rightarrow> cspm_state set
     \<Rightarrow> string list \<Rightarrow> refinement_failure \<Rightarrow> bool" where
  "fd_failure spec impl A B vs f \<longleftrightarrow>
     \<not> tau_cycle_in (transitions spec) B \<and>
     (tau_cycle_in (transitions impl) A \<and>
        f = \<lparr>rf_trace = vs @ [tau], rf_tags = [''divergence_mismatch'', ''divergence'']\<rparr> \<or>
      refusal_failure spec impl A B vs f)"

interpretation fd_check: node_checker spec impl "fd_node_check spec impl"
  "\<lambda>x. divergence_cache_ok spec impl (fd_cache x)" "fd_goes_on spec impl"
  "\<lambda>A B. tau_cycle_in (transitions spec) B" "fd_failure spec impl" for spec impl
proof (unfold_locales, goal_cases)
  case (1 x A B pred vs)
  note coded = 1(1,2)
  let ?cs = "tau_cycle_in (transitions spec) B" and ?ci = "tau_cycle_in (transitions impl) A"
  have sigs: "spec_sig (key_of A B) = cl_sig (closure_of B)" "impl_sig (key_of A B) = cl_sig (closure_of A)"
    by (simp_all add: key_of_def)
  from has_tau_cycle_correct [OF coded, of SpecSide B "fd_cache x"] 1 obtain cache1 where
    c1: "has_tau_cycle (fd_cache x) SpecSide (cl_sig (closure_of B)) spec (cl_states (closure_of B))
        = Some (?cs, cache1)" "divergence_cache_ok spec impl cache1" by auto
  from has_tau_cycle_correct [OF coded, of ImplSide A cache1] 1 c1(2) obtain cache2 where
    c2: "has_tau_cycle cache1 ImplSide (cl_sig (closure_of A)) impl (cl_states (closure_of A))
        = Some (?ci, cache2)" "divergence_cache_ok spec impl cache2" by auto
  from refusal_check_correct [OF coded 1(4,5,6)] obtain action where
    r: "refusal_check spec impl (key_of A B) (cl_states (closure_of A)) (cl_states (closure_of B)) pred = Some action"
      "action = Continue \<longleftrightarrow> refusals_ok (transitions spec) B (transitions impl) A" "action \<noteq> Prune"
      "\<And>f. action = FailNode f \<Longrightarrow> refusal_failure spec impl A B vs f" by blast
  consider "?cs" | "\<not> ?cs" "?ci" | "\<not> ?cs" "\<not> ?ci" by blast
  then show ?case
    by cases (use c1 c2 r 1(6) sigs in
      \<open>simp_all add: fd_node_check_def Let_def fd_goes_on_def fd_failure_def\<close>)
qed

section \<open>From nodes to refinement\<close>

lemma live_before:
  "live goes_on spec impl vs \<Longrightarrow> u @ l # ws = vs \<Longrightarrow> goes_on (after_of impl u) (after_of spec u)"
proof (induction arbitrary: ws rule: live.induct)
  case (Step vs k)
  show ?case
  proof (cases ws rule: rev_cases)
    case Nil
    with Step show ?thesis by simp
  next
    case (snoc ws' k')
    with Step.prems have "u @ l # ws' = vs" by simp
    then show ?thesis by (rule Step.IH)
  qed
qed simp

lemma traces_prefix: "u @ ws \<in> traces tr s0 \<Longrightarrow> u \<in> traces tr s0"
  using after_prefix by (simp add: traces_def)

lemma divergences_iff:
  "vs \<in> divergences tr s0 \<longleftrightarrow> (\<exists>u ws. vs = u @ ws \<and> diverges_after tr s0 u \<and> tau \<notin> set ws)"
  by (auto simp: divergences_def)

lemma divergences_base: "diverges_after tr s0 vs \<Longrightarrow> vs \<in> divergences tr s0"
  unfolding divergences_iff by (intro exI [of _ vs] exI [of _ "[]"]) simp

lemma diverges_after_trace: "diverges_after tr s0 u \<Longrightarrow> u \<in> traces tr s0"
  by (auto simp: diverges_after_def traces_def)

text \<open>In an accepted search every trace of the implementation is followed to its end, or to a prefix where the
  check prunes.\<close>

lemma accepted_cases:
  assumes acc: "accepted goes_on pruned spec impl" and "vs \<in> traces_of impl"
  shows "live goes_on spec impl vs \<or>
    (\<exists>u ws. vs = u @ ws \<and> live goes_on spec impl u \<and> pruned (after_of impl u) (after_of spec u))"
  using assms(2)
proof (induction vs rule: rev_induct)
  case Nil
  show ?case by (simp add: live.Start)
next
  case (snoc l vs)
  from snoc.IH [OF traces_prefix [OF snoc.prems]] show ?case
  proof
    assume vs: "live goes_on spec impl vs"
    show ?thesis
    proof (cases "goes_on (after_of impl vs) (after_of spec vs)")
      case True
      with acc vs snoc.prems have "vs @ [l] \<in> traces_of spec" by (auto simp: accepted_def)
      with vs True snoc.prems show ?thesis by (blast intro: live.Step)
    next
      case False
      with acc vs show ?thesis by (auto simp: accepted_def)
    qed
  next
    assume "\<exists>u ws. vs = u @ ws \<and> live goes_on spec impl u \<and> pruned (after_of impl u) (after_of spec u)"
    then obtain u ws where "vs = u @ ws" "live goes_on spec impl u" "pruned (after_of impl u) (after_of spec u)"
      by blast
    then show ?thesis by (intro disjI2 exI [of _ u] exI [of _ "ws @ [l]"]) simp
  qed
qed

lemma accepted_T:
  assumes "accepted (\<lambda>_ _. True) (\<lambda>_ _. False) spec impl"
  shows "refines_T (transitions spec) (initial_state spec) (transitions impl) (initial_state impl)"
  using accepted_cases [OF assms] live_trace [of "\<lambda>_ _. True" spec impl] by (auto simp: refines_T_def)

lemma accepted_F:
  assumes "accepted (\<lambda>A B. refusals_ok (transitions spec) B (transitions impl) A) (\<lambda>_ _. False) spec impl"
  shows "refines_F (transitions spec) (initial_state spec) (transitions impl) (initial_state impl)"
proof -
  let ?G = "\<lambda>A B. refusals_ok (transitions spec) B (transitions impl) A"
  have live: "live ?G spec impl vs" if "vs \<in> traces_of impl" for vs
    using accepted_cases [OF assms that] by simp
  have "?G (after_of impl vs) (after_of spec vs)" if "vs \<in> traces_of impl" for vs
    using assms live [OF that] unfolding accepted_def by (auto split: if_splits)
  moreover have "vs \<in> traces_of impl" if "(vs, X) \<in> failures (transitions impl) (initial_state impl)" for vs X
    using that by (auto simp: failures_def traces_def)
  ultimately have "failures (transitions impl) (initial_state impl) \<subseteq> failures (transitions spec) (initial_state spec)"
    unfolding failures_at by auto
  with live live_trace [of ?G spec impl] show ?thesis by (auto simp: refines_F_def)
qed

lemma accepted_FD:
  assumes coded: "coded_lts spec" "coded_lts impl"
    and acc: "accepted (fd_goes_on spec impl) (\<lambda>A B. tau_cycle_in (transitions spec) B) spec impl"
  shows "refines_FD (transitions spec) (initial_state spec) (transitions impl) (initial_state impl)"
proof -
  let ?ts = "transitions spec" and ?s = "initial_state spec" and ?ti = "transitions impl" and ?i = "initial_state impl"
  have fin: "finite_lts ?ts ?s" "finite_lts ?ti ?i" using coded by (simp_all add: coded_lts_def)
  note div = diverges_after_iff_cycle [OF fin(1)] diverges_after_iff_cycle [OF fin(2)]
  have cases: "fd_goes_on spec impl (after_of impl vs) (after_of spec vs) \<or> vs \<in> divergences ?ts ?s"
    if vs: "vs \<in> traces_of impl" for vs
  proof -
    have "tau \<notin> set vs" using vs by (rule tau_notin_traces)
    from accepted_cases [OF acc vs] show ?thesis
    proof
      assume "live (fd_goes_on spec impl) spec impl vs"
      with acc have "fd_goes_on spec impl (after_of impl vs) (after_of spec vs) \<or>
          tau_cycle_in ?ts (after_of spec vs)" by (auto simp: accepted_def split: if_splits)
      then show ?thesis using divergences_base [of ?ts ?s vs] by (auto simp: div)
    next
      assume "\<exists>u ws. vs = u @ ws \<and> live (fd_goes_on spec impl) spec impl u \<and> tau_cycle_in ?ts (after_of spec u)"
      with \<open>tau \<notin> set vs\<close> show ?thesis by (auto simp: divergences_iff div)
    qed
  qed
  have "divergences ?ti ?i \<subseteq> divergences ?ts ?s"
  proof
    fix vs assume "vs \<in> divergences ?ti ?i"
    then obtain u ws where u: "vs = u @ ws" "diverges_after ?ti ?i u" "tau \<notin> set ws" by (auto simp: divergences_iff)
    then have "\<not> fd_goes_on spec impl (after_of impl u) (after_of spec u)" by (simp add: fd_goes_on_def div)
    with cases [OF diverges_after_trace [OF u(2)]] have "u \<in> divergences ?ts ?s" by blast
    with u(1,3) show "vs \<in> divergences ?ts ?s" by (fastforce simp: divergences_iff)
  qed
  moreover have "failures ?ti ?i \<subseteq> failures_strict ?ts ?s"
  proof (clarify)
    fix vs X assume f: "(vs, X) \<in> failures ?ti ?i"
    then have "vs \<in> traces_of impl" by (auto simp: failures_def traces_def)
    from cases [OF this] show "(vs, X) \<in> failures_strict ?ts ?s"
    proof
      assume "fd_goes_on spec impl (after_of impl vs) (after_of spec vs)"
      then have "refusals_ok ?ts (after_of spec vs) ?ti (after_of impl vs)" by (simp add: fd_goes_on_def)
      with f show ?thesis unfolding failures_at by (simp add: failures_strict_def)
    qed (simp add: failures_strict_def)
  qed
  ultimately show ?thesis by (auto simp: refines_FD_def failures_strict_def)
qed

text \<open>What a failure of the search shows.\<close>

definition shows_T ::
  "cspm_state transition_provider \<Rightarrow> cspm_state transition_provider \<Rightarrow> refinement_failure \<Rightarrow> bool" where
  "shows_T spec impl f \<longleftrightarrow> rf_tags f = [''trace_mismatch''] \<and> rf_trace f \<in> traces_of impl - traces_of spec"

definition shows_F ::
  "cspm_state transition_provider \<Rightarrow> cspm_state transition_provider \<Rightarrow> refinement_failure \<Rightarrow> bool" where
  "shows_F spec impl f \<longleftrightarrow> refusal_tags (rf_tags f) \<and>
     (\<exists>X. (rf_trace f, X) \<in> failures (transitions impl) (initial_state impl)
            - failures (transitions spec) (initial_state spec))"

text \<open>In the failures-divergences model the trace must not be a divergence of the specification either, and
  the mark \<open>tau\<close> at the end of a trace stands for a divergence.\<close>

definition shows_FD ::
  "cspm_state transition_provider \<Rightarrow> cspm_state transition_provider \<Rightarrow> refinement_failure \<Rightarrow> bool" where
  "shows_FD spec impl f \<longleftrightarrow>
     (\<exists>vs. vs \<notin> divergences (transitions spec) (initial_state spec) \<and>
        (rf_trace f = vs \<and> (shows_T spec impl f \<or> shows_F spec impl f) \<or>
         f = \<lparr>rf_trace = vs @ [tau], rf_tags = [''divergence_mismatch'', ''divergence'']\<rparr> \<and>
           diverges_after (transitions impl) (initial_state impl) vs))"

lemma refusal_failure_shows:
  assumes "refusal_failure spec impl (after_of impl vs) (after_of spec vs) vs f"
  shows "shows_F spec impl f"
proof -
  have "\<not> refusals_ok (transitions spec) (after_of spec vs) (transitions impl) (after_of impl vs)"
    using assms by (rule refusal_failure_not_ok)
  moreover have "rf_trace f = vs" "refusal_tags (rf_tags f)"
    using assms by (simp_all add: refusal_failure_def)
  ultimately show ?thesis unfolding failures_at shows_F_def by auto
qed

lemma refuted_T:
  assumes "refuted (\<lambda>_ _. True) (\<lambda>_ _ _ _. False) spec impl f"
  shows "shows_T spec impl f"
  using assms by (auto simp: refuted_def shows_T_def)

lemma refuted_F:
  assumes "refuted goes_on (refusal_failure spec impl) spec impl f"
  shows "shows_T spec impl f \<or> shows_F spec impl f"
  using assms refusal_failure_shows by (fastforce simp: refuted_def shows_T_def)

lemma refuted_FD:
  assumes coded: "coded_lts spec" "coded_lts impl"
    and "refuted (fd_goes_on spec impl) (fd_failure spec impl) spec impl f"
  shows "shows_FD spec impl f"
proof -
  let ?ts = "transitions spec" and ?s = "initial_state spec"
  have fin: "finite_lts ?ts ?s" "finite_lts (transitions impl) (initial_state impl)"
    using coded by (simp_all add: coded_lts_def)
  note div = diverges_after_iff_cycle [OF fin(1)] diverges_after_iff_cycle [OF fin(2)]
  from assms(3) obtain vs where live: "live (fd_goes_on spec impl) spec impl vs" and
    fails: "fd_failure spec impl (after_of impl vs) (after_of spec vs) vs f \<or>
        fd_goes_on spec impl (after_of impl vs) (after_of spec vs) \<and>
           (\<exists>l. vs @ [l] \<in> traces_of impl - traces_of spec \<and>
                f = \<lparr>rf_trace = vs @ [l], rf_tags = [''trace_mismatch'']\<rparr>)"
    by (auto simp: refuted_def)
  have before: "\<not> diverges_after ?ts ?s u" if "vs = u @ l # ws" for u l ws
    using live_before [OF live that [symmetric]] by (simp add: fd_goes_on_def div)
  from fails have "\<not> diverges_after ?ts ?s vs" by (auto simp: fd_failure_def fd_goes_on_def div)
  with before have nd: "vs \<notin> divergences ?ts ?s"
    unfolding divergences_iff by (metis append_Nil2 list.exhaust)
  from fails show ?thesis
  proof
    assume ff: "fd_failure spec impl (after_of impl vs) (after_of spec vs) vs f"
    show ?thesis
    proof (cases "refusal_failure spec impl (after_of impl vs) (after_of spec vs) vs f")
      case True
      then have "rf_trace f = vs" by (simp add: refusal_failure_def)
      with nd refusal_failure_shows [OF True] show ?thesis by (auto simp: shows_FD_def)
    next
      case False
      with ff have "diverges_after (transitions impl) (initial_state impl) vs"
        and f: "f = \<lparr>rf_trace = vs @ [tau], rf_tags = [''divergence_mismatch'', ''divergence'']\<rparr>"
        by (auto simp: fd_failure_def div)
      with nd f show ?thesis unfolding shows_FD_def by blast
    qed
  next
    assume "fd_goes_on spec impl (after_of impl vs) (after_of spec vs) \<and>
      (\<exists>l. vs @ [l] \<in> traces_of impl - traces_of spec \<and> f = \<lparr>rf_trace = vs @ [l], rf_tags = [''trace_mismatch'']\<rparr>)"
    then obtain l where l: "vs @ [l] \<in> traces_of impl - traces_of spec"
      "f = \<lparr>rf_trace = vs @ [l], rf_tags = [''trace_mismatch'']\<rparr>" by blast
    have "vs @ [l] \<notin> divergences ?ts ?s"
    proof
      assume "vs @ [l] \<in> divergences ?ts ?s"
      then obtain u ws where u: "vs @ [l] = u @ ws" "diverges_after ?ts ?s u" "tau \<notin> set ws"
        by (auto simp: divergences_iff)
      show False
      proof (cases ws rule: rev_cases)
        case Nil
        with u l(1) show False using diverges_after_trace by fastforce
      next
        case (snoc ws' k)
        with u have "vs = u @ ws'" "tau \<notin> set ws'" by auto
        with nd u(2) show False by (auto simp: divergences_iff)
      qed
    qed
    with l show ?thesis by (auto simp: shows_FD_def shows_T_def)
  qed
qed

lemma shows_T_not: "shows_T spec impl f \<Longrightarrow>
    \<not> refines_T (transitions spec) (initial_state spec) (transitions impl) (initial_state impl)"
  by (auto simp: shows_T_def refines_T_def)

lemma shows_F_not: "shows_T spec impl f \<or> shows_F spec impl f \<Longrightarrow>
    \<not> refines_F (transitions spec) (initial_state spec) (transitions impl) (initial_state impl)"
  by (auto simp: shows_T_def shows_F_def refines_F_def)

text \<open>A trace the specification lacks is a failure or a divergence it lacks, as the implementation must become stable or
  diverge after it.\<close>

lemma shows_FD_not: "shows_FD spec impl f \<Longrightarrow>
    \<not> refines_FD (transitions spec) (initial_state spec) (transitions impl) (initial_state impl)"
proof
  let ?ts = "transitions spec" and ?s = "initial_state spec" and ?ti = "transitions impl" and ?i = "initial_state impl"
  assume f: "shows_FD spec impl f" and r: "refines_FD ?ts ?s ?ti ?i"
  from f obtain vs where nd: "vs \<notin> divergences ?ts ?s" and
    "rf_trace f = vs \<and> (shows_T spec impl f \<or> shows_F spec impl f) \<or> vs \<in> divergences ?ti ?i"
    by (auto simp: shows_FD_def intro: divergences_base)
  with r consider "shows_T spec impl f" "rf_trace f = vs" | "shows_F spec impl f" "rf_trace f = vs"
    by (auto simp: refines_FD_def)
  then show False
  proof cases
    case 1
    then have vs: "after_of impl vs \<noteq> {}" "after_of spec vs = {}" by (auto simp: shows_T_def traces_def)
    from stable_or_diverges [OF vs(1)] show False
    proof
      assume "diverges_after ?ti ?i vs"
      then have "vs \<in> divergences ?ti ?i" by (rule divergences_base)
      with r nd show False by (auto simp: refines_FD_def)
    next
      assume "\<exists>s \<in> after_of impl vs. stable ?ti s"
      then have "(vs, {}) \<in> failures ?ti ?i" by (auto simp: failures_def)
      with r nd have "(vs, {}) \<in> failures ?ts ?s" by (auto simp: refines_FD_def failures_strict_def)
      with vs(2) show False by (auto simp: failures_def)
    qed
  next
    case 2
    with r nd show False by (auto simp: shows_F_def refines_FD_def failures_strict_def)
  qed
qed

text \<open>The three searches.\<close>

lemma outcome_decides:
  assumes "outcome_ok goes_on pruned fails spec impl out"
    and "accepted goes_on pruned spec impl \<Longrightarrow> R"
    and "\<And>f. refuted goes_on fails spec impl f \<Longrightarrow> shows_it f" and "\<And>f. shows_it f \<Longrightarrow> \<not> R"
  shows "(ro_refines out \<longleftrightarrow> R) \<and>
    (if ro_refines out then ro_failure out = None else \<exists>f. ro_failure out = Some f \<and> shows_it f)"
  using assms unfolding outcome_ok_def by (cases "ro_refines out") auto

lemma trace_search:
  assumes "coded_lts spec" and "coded_lts impl"
  shows "\<exists>out. trace_includes spec impl = Some out \<and> ro_diagnostic_tags out = [] \<and>
    (ro_refines out \<longleftrightarrow> refines_T (transitions spec) (initial_state spec) (transitions impl) (initial_state impl)) \<and>
    (if ro_refines out then ro_failure out = None
     else \<exists>f. ro_failure out = Some f \<and> shows_T spec impl f)"
proof -
  have "pred_option (next_cache_ok spec impl) None" by simp
  from trace_check.bfs_refinement_correct [OF assms TrueI this, of "()"] obtain out x cache where
    out: "bfs_refinement spec impl trace_node_check () None = Some (out, x, cache)"
      "outcome_ok (\<lambda>_ _. True) (\<lambda>_ _. False) (\<lambda>_ _ _ _. False) spec impl out" by blast
  have "trace_includes spec impl = Some out" by (simp add: trace_includes_def out(1))
  moreover have "ro_diagnostic_tags out = []" using out(2) by (simp add: outcome_ok_def)
  ultimately show ?thesis
    by (intro exI [of _ out] conjI outcome_decides [OF out(2)])
      (assumption | rule accepted_T refuted_T shows_T_not, assumption)+
qed

lemma failures_search:
  assumes "coded_lts spec" and "coded_lts impl"
  shows "\<exists>out. failures_includes spec impl = Some out \<and> ro_diagnostic_tags out = [] \<and>
    (ro_refines out \<longleftrightarrow> refines_F (transitions spec) (initial_state spec) (transitions impl) (initial_state impl)) \<and>
    (if ro_refines out then ro_failure out = None
     else \<exists>f. ro_failure out = Some f \<and> (shows_T spec impl f \<or> shows_F spec impl f))"
proof -
  have "pred_option (next_cache_ok spec impl) None" by simp
  from failures_check.bfs_refinement_correct [OF assms TrueI this, of "()"] obtain out x cache where
    out: "bfs_refinement spec impl (failures_node_check spec impl) () None = Some (out, x, cache)"
      "outcome_ok (\<lambda>A B. refusals_ok (transitions spec) B (transitions impl) A) (\<lambda>_ _. False)
        (refusal_failure spec impl) spec impl out" by blast
  have "failures_includes spec impl = Some out" by (simp add: failures_includes_def out(1))
  moreover have "ro_diagnostic_tags out = []" using out(2) by (simp add: outcome_ok_def)
  ultimately show ?thesis
    by (intro exI [of _ out] conjI outcome_decides [OF out(2)])
      (assumption | rule accepted_F refuted_F shows_F_not, assumption)+
qed

lemma failures_divergences_search:
  assumes "coded_lts spec" and "coded_lts impl"
  shows "\<exists>out. failures_divergences_includes spec impl = Some out \<and>
    (\<exists>st x cache. ro_diagnostic_tags out = fd_tags st x cache) \<and>
    (ro_refines out \<longleftrightarrow> refines_FD (transitions spec) (initial_state spec) (transitions impl) (initial_state impl)) \<and>
    (if ro_refines out then ro_failure out = None
     else \<exists>f. ro_failure out = Some f \<and> shows_FD spec impl f)"
proof -
  have "divergence_cache_ok spec impl (fd_cache fd_start)"
    by (simp add: divergence_cache_ok_def fd_start_def)
  from fd_check.bfs_refinement_correct [OF assms this, of "Some empty_next_cache"] obtain out x cache where
    out: "bfs_refinement spec impl (fd_node_check spec impl) fd_start (Some empty_next_cache) = Some (out, x, cache)"
      "outcome_ok (fd_goes_on spec impl) (\<lambda>A B. tau_cycle_in (transitions spec) B) (fd_failure spec impl)
        spec impl out" by auto
  define out' where "out' = out\<lparr>ro_diagnostic_tags :=
      fd_tags (ro_stats out) x (case cache of None \<Rightarrow> empty_next_cache | Some c \<Rightarrow> c)\<rparr>"
  have same: "ro_refines out' = ro_refines out" "ro_failure out' = ro_failure out" by (simp_all add: out'_def)
  have "failures_divergences_includes spec impl = Some out'"
    by (simp add: failures_divergences_includes_def out(1) out'_def)
  moreover have "\<exists>st x cache. ro_diagnostic_tags out' = fd_tags st x cache" by (auto simp: out'_def)
  ultimately show ?thesis
    unfolding same [symmetric]
    by (intro exI [of _ out'] conjI outcome_decides [OF out(2), folded same])
      (assumption | rule accepted_FD [OF assms] refuted_FD [OF assms] shows_FD_not, assumption)+
qed

section \<open>Properties\<close>

lemma demo_lts_coded: "coded_lts demo_lts"
proof (rule coded_ltsI [OF demo_lts_initial])
  show "\<exists>out. transitions demo_lts s = Some out \<and> snd ` set out \<subseteq> set demo_states" if "s \<in> set demo_states" for s
    using demo_lts_closed that by (fastforce simp: list_all_iff split: option.splits)
  show "list_all state_ok demo_states"
    by (simp add: demo_states_def name_ok_def char_between_def)
qed

text \<open>C13: on finite systems the trace check returns and decides trace inclusion; when it does not hold, the
  reported trace is one of the implementation that the specification does not have.\<close>

theorem trace_includes_correct:
  assumes "coded_lts spec" and "coded_lts impl"
  shows "\<exists>out. trace_includes spec impl = Some out \<and>
    (ro_refines out \<longleftrightarrow> refines_T (transitions spec) (initial_state spec) (transitions impl) (initial_state impl)) \<and>
    (if ro_refines out then ro_failure out = None
     else \<exists>f. ro_failure out = Some f \<and> shows_T spec impl f)"
  using trace_search [OF assms] by blast

theorem trace_includes_correct_witness:
  "\<exists>out. trace_includes demo_lts demo_lts = Some out \<and> ro_refines out"
  using trace_includes_correct [OF demo_lts_coded demo_lts_coded] by (auto simp: refines_T_def)

text \<open>C14: on finite systems the failures check returns and decides stable-failures refinement; when it does
  not hold, what it reports is a trace or a stable failure of the implementation that the specification does not
  have.\<close>

theorem failures_includes_correct:
  assumes "coded_lts spec" and "coded_lts impl"
  shows "\<exists>out. failures_includes spec impl = Some out \<and>
    (ro_refines out \<longleftrightarrow> refines_F (transitions spec) (initial_state spec) (transitions impl) (initial_state impl)) \<and>
    (if ro_refines out then ro_failure out = None
     else \<exists>f. ro_failure out = Some f \<and> (shows_T spec impl f \<or> shows_F spec impl f))"
  using failures_search [OF assms] by blast

theorem failures_includes_correct_witness:
  "\<exists>out. failures_includes demo_lts demo_lts = Some out \<and> ro_refines out"
  using failures_includes_correct [OF demo_lts_coded demo_lts_coded] by (auto simp: refines_F_def)

text \<open>C15: on finite systems the failures-divergences check, with its caches and its pruning, returns and
  decides failures-divergences refinement; when it does not hold, what it reports is a trace, a stable
  failure or a divergence of the implementation after which the specification does not diverge and which it
  does not have.\<close>

theorem failures_divergences_includes_correct:
  assumes "coded_lts spec" and "coded_lts impl"
  shows "\<exists>out. failures_divergences_includes spec impl = Some out \<and>
    (ro_refines out \<longleftrightarrow> refines_FD (transitions spec) (initial_state spec) (transitions impl) (initial_state impl)) \<and>
    (if ro_refines out then ro_failure out = None
     else \<exists>f. ro_failure out = Some f \<and> shows_FD spec impl f)"
  using failures_divergences_search [OF assms] by blast

theorem failures_divergences_includes_correct_witness:
  "\<exists>out. failures_divergences_includes demo_lts demo_lts = Some out \<and> ro_refines out"
  using failures_divergences_includes_correct [OF demo_lts_coded demo_lts_coded]
  by (auto simp: refines_FD_def)

end
