(* ===== verification/Cspx_Refine_Check.thy ===== *)
theory Cspx_Refine_Check
  imports Cspx_Refine Cspx_Minimize
begin

text \<open>
  The refinement checker: compilation of the two modules, the search for the requested model, and the
  minimisation of the counterexample, whose oracle replays a candidate trace on both systems. The results say
  what a replay computes, that the checker decides refinement between compiled modules, and that minimised
  counterexamples of the trace and failures models are genuine. In the failures-divergences model they need
  not be: the oracle takes the mark of a divergence for an event, so that a trace that ends with it is
  accepted although the specification has no internal step there.
\<close>

section \<open>Replaying a trace\<close>

record replay_outcome =
  rp_impl_closure :: closure
  rp_spec_closure :: closure
  rp_trace_mismatch :: bool

fun replay_steps ::
  "cspm_state transition_provider \<Rightarrow> cspm_state transition_provider \<Rightarrow> string list
     \<Rightarrow> replay_outcome \<Rightarrow> replay_outcome option option" where
  "replay_steps spec impl [] r = Some (Some r)"
| "replay_steps spec impl (label # labels) r =
     (case next_by_label impl (cl_states (rp_impl_closure r)) label of
        None \<Rightarrow> None
      | Some impl_next \<Rightarrow>
          if cl_states impl_next = [] then Some None
          else if \<not> rp_trace_mismatch r
          then (case next_by_label spec (cl_states (rp_spec_closure r)) label of
                  None \<Rightarrow> None
                | Some spec_next \<Rightarrow>
                    replay_steps spec impl labels
                      \<lparr>rp_impl_closure = impl_next, rp_spec_closure = spec_next,
                       rp_trace_mismatch = (cl_states spec_next = [])\<rparr>)
          else replay_steps spec impl labels (r\<lparr>rp_impl_closure := impl_next\<rparr>))"

definition replay_trace ::
  "cspm_state transition_provider \<Rightarrow> cspm_state transition_provider \<Rightarrow> string list
     \<Rightarrow> replay_outcome option option" where
  "replay_trace spec impl trace =
     (case (tau_closure impl [initial_state impl], tau_closure spec [initial_state spec]) of
        (Some impl_closure, Some spec_closure) \<Rightarrow>
          replay_steps spec impl trace
            \<lparr>rp_impl_closure = impl_closure, rp_spec_closure = spec_closure, rp_trace_mismatch = False\<rparr>
      | _ \<Rightarrow> None)"

definition has_refusal_mismatch ::
  "cspm_state transition_provider \<Rightarrow> cspm_state transition_provider \<Rightarrow> replay_outcome \<Rightarrow> bool option" where
  "has_refusal_mismatch spec impl replay =
     (case stable_offer_sets spec (cl_states (rp_spec_closure replay)) of
        None \<Rightarrow> None
      | Some spec_stable_offers \<Rightarrow>
          map_option (\<lambda>r. r \<noteq> None)
            (first_refusal impl spec_stable_offers (cl_states (rp_impl_closure replay))))"

definition counterexample_still_fails ::
  "refinement_model \<Rightarrow> cspm_state transition_provider \<Rightarrow> cspm_state transition_provider
     \<Rightarrow> counterexample \<Rightarrow> string list \<Rightarrow> bool option" where
  "counterexample_still_fails model spec impl c required_tags =
     (if cx_kind c \<noteq> Trace then Some False
      else
        (let trace = map ev_label (cx_events c)
         in if ''divergence_mismatch'' \<in> set required_tags \<and> tau \<notin> set trace then Some False
            else
              (case replay_trace spec impl trace of
                 None \<Rightarrow> None
               | Some None \<Rightarrow> Some False
               | Some (Some replay) \<Rightarrow>
                   if rp_trace_mismatch replay then Some True
                   else
                     (case model of
                        ModelT \<Rightarrow> Some False
                      | ModelF \<Rightarrow> has_refusal_mismatch spec impl replay
                      | ModelFD \<Rightarrow>
                          (case closure_has_tau_cycle spec (cl_states (rp_spec_closure replay)) of
                             None \<Rightarrow> None
                           | Some spec_diverges \<Rightarrow>
                               (case closure_has_tau_cycle impl (cl_states (rp_impl_closure replay)) of
                                  None \<Rightarrow> None
                                | Some impl_diverges \<Rightarrow>
                                    if impl_diverges \<and> \<not> spec_diverges then Some True
                                    else if spec_diverges then Some False
                                    else has_refusal_mismatch spec impl replay))))))"

section \<open>The checker\<close>

record refinement_input =
  ri_spec :: cmodule
  ri_impl :: cmodule

definition invalid_input_result :: "check_request \<Rightarrow> string \<Rightarrow> check_result" where
  "invalid_input_result request message =
     \<lparr>cr_name = ''refine'', cr_model = map_option refinement_model_str (rq_model request),
      cr_target = rq_target request, cr_status = ErrorStatus,
      cr_reason = Some \<lparr>reason_kind = InvalidInputReason, reason_message = Some message\<rparr>,
      cr_counterexample = None, cr_stats = Some no_stats\<rparr>"

definition model_includes ::
  "refinement_model \<Rightarrow> cspm_state transition_provider \<Rightarrow> cspm_state transition_provider
     \<Rightarrow> refinement_outcome option" where
  "model_includes model spec impl =
     (case model of
        ModelT \<Rightarrow> trace_includes spec impl
      | ModelF \<Rightarrow> failures_includes spec impl
      | ModelFD \<Rightarrow> failures_divergences_includes spec impl)"

definition refine_pass :: "check_request \<Rightarrow> refinement_model \<Rightarrow> refinement_outcome \<Rightarrow> check_result" where
  "refine_pass request model out =
     \<lparr>cr_name = ''refine'', cr_model = Some (refinement_model_str model), cr_target = rq_target request,
      cr_status = Pass, cr_reason = None, cr_counterexample = None, cr_stats = Some (ro_stats out)\<rparr>"

definition refine_fail ::
  "check_request \<Rightarrow> refinement_model \<Rightarrow> refinement_outcome \<Rightarrow> counterexample \<Rightarrow> check_result" where
  "refine_fail request model out c =
     \<lparr>cr_name = ''refine'', cr_model = Some (refinement_model_str model), cr_target = rq_target request,
      cr_status = Fail, cr_reason = None, cr_counterexample = Some c, cr_stats = Some (ro_stats out)\<rparr>"

definition refinement_counterexample ::
  "refinement_model \<Rightarrow> refinement_input \<Rightarrow> refinement_outcome \<Rightarrow> counterexample" where
  "refinement_counterexample model input out =
     (let failure = (case ro_failure out of Some f \<Rightarrow> f | None \<Rightarrow> \<lparr>rf_trace = [], rf_tags = []\<rparr>)
      in \<lparr>cx_kind = Trace, cx_events = events_of (rf_trace failure), cx_is_minimized = False,
          cx_tags = [''refinement'', ''model:'' @ refinement_model_str model]
            @ ro_diagnostic_tags out @ rf_tags failure,
          cx_source_spans = refinement_counterexample_spans (ri_spec input) (ri_impl input)\<rparr>)"

text \<open>What is done with the outcome of the search.\<close>

definition report ::
  "check_request \<Rightarrow> refinement_input \<Rightarrow> refinement_model \<Rightarrow> cspm_state transition_provider
     \<Rightarrow> cspm_state transition_provider \<Rightarrow> refinement_outcome \<Rightarrow> check_result option" where
  "report request input model spec impl out =
     (if ro_refines out then Some (refine_pass request model out)
      else
        (let c = refinement_counterexample model input out;
             required_tags = cx_tags c
         in map_option (\<lambda>m. refine_fail request model out (explain m))
              (minimize_with_oracle c
                (\<lambda>candidate. counterexample_still_fails model spec impl candidate required_tags))))"

definition refinement_check :: "check_request \<Rightarrow> refinement_input \<Rightarrow> check_result option" where
  "refinement_check request input =
     (let model = (case rq_model request of None \<Rightarrow> ModelT | Some m \<Rightarrow> m)
      in case from_module (ri_spec input) of
           None \<Rightarrow> None
         | Some (Inl err) \<Rightarrow>
             Some (invalid_input_result request (display_error (lts_span err) (lts_message err)))
         | Some (Inr spec_provider) \<Rightarrow>
             (case from_module (ri_impl input) of
                None \<Rightarrow> None
              | Some (Inl err) \<Rightarrow>
                  Some (invalid_input_result request (display_error (lts_span err) (lts_message err)))
              | Some (Inr impl_provider) \<Rightarrow>
                  (case model_includes model (provider_of spec_provider) (provider_of impl_provider) of
                     None \<Rightarrow> None
                   | Some out \<Rightarrow>
                       report request input model (provider_of spec_provider) (provider_of impl_provider) out)))"

section \<open>What a replay computes\<close>

text \<open>The states after a sequence of labels, where \<open>tau\<close> is a label like any other.\<close>

definition weak_step :: "'s trans_fun \<Rightarrow> string \<Rightarrow> 's set \<Rightarrow> 's set" where
  "weak_step tr l S = tau_reach tr (label_succs tr S l)"

definition weak_steps :: "'s transition_provider \<Rightarrow> string list \<Rightarrow> 's set" where
  "weak_steps provider ls = fold (weak_step (transitions provider)) ls (after_of provider [])"

lemma weak_step_empty [simp]: "weak_step tr l {} = {}"
  by (simp add: weak_step_def label_succs_def)

lemma weak_steps_empty: "fold (weak_step tr) ls {} = {}"
  by (induction ls) simp_all

lemma weak_step_reach:
  assumes "S \<subseteq> reach_of provider"
  shows "weak_step (transitions provider) l S \<subseteq> reach_of provider"
  unfolding weak_step_def
  by (rule tau_reach_subset) (use assms in \<open>auto simp: label_succs_def tr_step_def intro: reachable_step\<close>)

lemma weak_steps_closed:
  "closed_in provider S \<Longrightarrow> closed_in provider (fold (weak_step (transitions provider)) ls S)"
proof (induction ls arbitrary: S)
  case (Cons l ls)
  have "closed_in provider (weak_step (transitions provider) l S)"
    unfolding closed_in_def
  proof
    show "weak_step (transitions provider) l S \<subseteq> reach_of provider"
      using Cons.prems by (intro weak_step_reach) (simp add: closed_in_def)
  qed (auto simp: weak_step_def intro: tau_reach_step)
  with Cons.IH show ?case by simp
qed simp

lemma weak_steps_after:
  "tau \<notin> set vs \<Longrightarrow> weak_steps provider vs = after_of provider vs"
proof (induction vs rule: rev_induct)
  case (snoc l vs)
  then have "weak_steps provider (vs @ [l]) = weak_step (transitions provider) l (after_of provider vs)"
    by (simp add: weak_steps_def)
  moreover have "l \<noteq> tau" using snoc.prems by auto
  ultimately show ?case using after_snoc [of l "transitions provider"] by (simp add: weak_step_def)
qed (simp add: weak_steps_def)

lemma next_by_label_weak:
  assumes "coded_lts provider" and "closed_in provider S"
  shows "next_by_label provider (cl_states (closure_of S)) l = Some (closure_of (weak_step (transitions provider) l S))"
  using next_by_label_closure [OF assms(1), of S l] assms(2)
  by (simp add: closed_in_def next_closure_def weak_step_def)

lemma replay_steps_correct:
  assumes coded: "coded_lts spec" "coded_lts impl"
  shows "closed_in impl A \<Longrightarrow> closed_in spec B \<Longrightarrow> A \<noteq> {} \<Longrightarrow>
    replay_steps spec impl ls
      \<lparr>rp_impl_closure = closure_of A, rp_spec_closure = closure_of B, rp_trace_mismatch = (B = {})\<rparr> =
    Some (let A' = fold (weak_step (transitions impl)) ls A; B' = fold (weak_step (transitions spec)) ls B
          in if A' = {} then None
             else Some \<lparr>rp_impl_closure = closure_of A', rp_spec_closure = closure_of B',
                        rp_trace_mismatch = (B' = {})\<rparr>)"
proof (induction ls arbitrary: A B)
  case (Cons l ls)
  let ?A = "weak_step (transitions impl) l A" and ?B = "weak_step (transitions spec) l B"
  note nA = next_by_label_weak [OF coded(2) Cons.prems(1), of l]
    and nB = next_by_label_weak [OF coded(1) Cons.prems(2), of l]
  have cl: "closed_in impl ?A" "closed_in spec ?B"
    using weak_steps_closed [OF Cons.prems(1), of "[l]"] weak_steps_closed [OF Cons.prems(2), of "[l]"] by simp_all
  then have fin: "finite ?A" "finite ?B" using closed_in_finite coded by blast+
  show ?case
  proof (cases "?A = {}")
    case True
    with nA fin show ?thesis by (simp add: weak_steps_empty)
  next
    case False
    note IH = Cons.IH [OF cl False]
    show ?thesis
    proof (cases "B = {}")
      case True
      with IH nA nB False fin show ?thesis by simp
    next
      case B: False
      with IH nA nB False fin show ?thesis by simp
    qed
  qed
qed simp

lemma tau_closure_init:
  "coded_lts p \<Longrightarrow> tau_closure p [initial_state p] = Some (closure_of (after_of p []))"
  using tau_closure_correct [of p "[initial_state p]"] by (simp add: after_Nil)

lemma replay_trace_correct:
  assumes coded: "coded_lts spec" "coded_lts impl"
  shows "replay_trace spec impl ls =
    Some (if weak_steps impl ls = {} then None
          else Some \<lparr>rp_impl_closure = closure_of (weak_steps impl ls),
                     rp_spec_closure = closure_of (weak_steps spec ls),
                     rp_trace_mismatch = (weak_steps spec ls = {})\<rparr>)"
  using replay_steps_correct [OF coded, of "after_of impl []" "after_of spec []" ls] coded
  by (simp add: replay_trace_def tau_closure_init weak_steps_def Let_def)

lemma has_refusal_mismatch_correct:
  assumes coded: "coded_lts spec" "coded_lts impl" and "closed_in impl A" and "closed_in spec B"
  shows "has_refusal_mismatch spec impl
      \<lparr>rp_impl_closure = closure_of A, rp_spec_closure = closure_of B, rp_trace_mismatch = b\<rparr> =
    Some (\<not> refusals_ok (transitions spec) B (transitions impl) A)"
proof -
  have "reconstruct_trace Map.empty (key_of A B) = Some []"
    by (simp add: reconstruct_trace_def back_labels.simps)
  from refusal_check_correct [OF assms this] obtain action where
    a: "refusal_check spec impl (key_of A B) (cl_states (closure_of A)) (cl_states (closure_of B)) Map.empty = Some action"
      "action = Continue \<longleftrightarrow> refusals_ok (transitions spec) B (transitions impl) A" by blast
  from a show ?thesis
    by (auto simp: refusal_check_def has_refusal_mismatch_def split: option.splits)
qed

text \<open>The oracle, in terms of the two systems.\<close>

definition candidate_fails ::
  "refinement_model \<Rightarrow> cspm_state transition_provider \<Rightarrow> cspm_state transition_provider \<Rightarrow> string list \<Rightarrow> bool" where
  "candidate_fails model spec impl ls \<longleftrightarrow>
     (let A = weak_steps impl ls; B = weak_steps spec ls;
          refusal = (\<not> refusals_ok (transitions spec) B (transitions impl) A)
      in A \<noteq> {} \<and>
         (B = {} \<or>
          (case model of
             ModelT \<Rightarrow> False
           | ModelF \<Rightarrow> refusal
           | ModelFD \<Rightarrow> \<not> tau_cycle_in (transitions spec) B \<and> (tau_cycle_in (transitions impl) A \<or> refusal))))"

lemma still_fails_correct:
  assumes coded: "coded_lts spec" "coded_lts impl"
  shows "counterexample_still_fails model spec impl c required =
    Some ((''divergence_mismatch'' \<in> set required \<longrightarrow> tau \<in> ev_label ` set (cx_events c)) \<and>
      candidate_fails model spec impl (map ev_label (cx_events c)))"
proof -
  let ?ls = "map ev_label (cx_events c)"
  have cl: "closed_in impl (weak_steps impl ?ls)" "closed_in spec (weak_steps spec ?ls)"
    unfolding weak_steps_def by (rule weak_steps_closed, simp)+
  have cyc: "closure_has_tau_cycle p (cl_states (closure_of S)) = Some (tau_cycle_in (transitions p) S)"
    if "coded_lts p" "closed_in p S" for p S
    using closure_has_tau_cycle_correct [OF distinct_closure_of, of S p]
      coded_subset [of p S] that by (simp add: closed_in_def)
  have "cx_kind c = Trace" by (cases "cx_kind c") simp
  then show ?thesis
    using has_refusal_mismatch_correct [OF coded cl] cyc [OF coded(1) cl(2)] cyc [OF coded(2) cl(1)]
    by (cases model) (simp_all add: counterexample_still_fails_def replay_trace_correct [OF coded]
        candidate_fails_def Let_def)
qed

section \<open>The counterexample of a failed search\<close>

definition refines ::
  "refinement_model \<Rightarrow> cspm_state transition_provider \<Rightarrow> cspm_state transition_provider \<Rightarrow> bool" where
  "refines model spec impl =
     (case model of ModelT \<Rightarrow> refines_T | ModelF \<Rightarrow> refines_F | ModelFD \<Rightarrow> refines_FD)
       (transitions spec) (initial_state spec) (transitions impl) (initial_state impl)"

definition failure_shown ::
  "refinement_model \<Rightarrow> cspm_state transition_provider \<Rightarrow> cspm_state transition_provider
     \<Rightarrow> refinement_failure \<Rightarrow> bool" where
  "failure_shown model spec impl f =
     (case model of
        ModelT \<Rightarrow> shows_T spec impl f
      | ModelF \<Rightarrow> shows_T spec impl f \<or> shows_F spec impl f
      | ModelFD \<Rightarrow> shows_FD spec impl f)"

text \<open>The results of the three searches, for the model that was asked for. The diagnostic tags of the
  failures-divergences search do not name a failure.\<close>

lemma fd_tags_plain: "''divergence_mismatch'' \<notin> set (fd_tags st x cache)"
  by (simp add: fd_tags_def)

lemma model_includes_correct:
  assumes coded: "coded_lts spec" "coded_lts impl"
  shows "\<exists>out. model_includes model spec impl = Some out \<and> (ro_refines out \<longleftrightarrow> refines model spec impl) \<and>
    (if ro_refines out then ro_failure out = None
     else \<exists>f. ro_failure out = Some f \<and> failure_shown model spec impl f) \<and>
    ''divergence_mismatch'' \<notin> set (ro_diagnostic_tags out)"
proof (cases model)
  case ModelT
  with trace_search [OF coded] show ?thesis
    by (auto simp: model_includes_def refines_def failure_shown_def)
next
  case ModelF
  with failures_search [OF coded] show ?thesis
    by (auto simp: model_includes_def refines_def failure_shown_def)
next
  case ModelFD
  with failures_divergences_search [OF coded] fd_tags_plain show ?thesis
    by (auto simp: model_includes_def refines_def failure_shown_def)
qed

lemma shows_T_fails:
  assumes "shows_T spec impl f"
  shows "candidate_fails model spec impl (rf_trace f)"
proof -
  have "tau \<notin> set (rf_trace f)" using assms by (auto simp: shows_T_def dest: tau_notin_traces)
  with assms show ?thesis by (simp add: shows_T_def candidate_fails_def weak_steps_after traces_def)
qed

lemma shows_F_fails:
  assumes "shows_F spec impl f" and "model = ModelF \<or>
    model = ModelFD \<and> \<not> tau_cycle_in (transitions spec) (after_of spec (rf_trace f))"
  shows "candidate_fails model spec impl (rf_trace f)"
proof -
  from assms(1) obtain X where X: "(rf_trace f, X) \<in> failures (transitions impl) (initial_state impl)"
    "(rf_trace f, X) \<notin> failures (transitions spec) (initial_state spec)" by (auto simp: shows_F_def)
  then have ne: "after_of impl (rf_trace f) \<noteq> {}" by (auto simp: failures_def)
  then have "tau \<notin> set (rf_trace f)" using after_visible by fastforce
  moreover have "\<not> refusals_ok (transitions spec) (after_of spec (rf_trace f)) (transitions impl) (after_of impl (rf_trace f))"
    using X unfolding failures_at by blast
  ultimately show ?thesis using assms(2) ne by (auto simp: candidate_fails_def weak_steps_after Let_def)
qed

lemma divergence_fails:
  assumes coded: "coded_lts spec" "coded_lts impl"
    and div: "diverges_after (transitions impl) (initial_state impl) vs"
    and nd: "\<not> tau_cycle_in (transitions spec) (after_of spec vs)"
  shows "candidate_fails ModelFD spec impl (vs @ [tau])"
proof -
  let ?ti = "transitions impl" and ?ts = "transitions spec"
  have "finite_lts ?ti (initial_state impl)" using coded(2) by (simp add: coded_lts_def)
  from div diverges_after_iff_cycle [OF this] obtain s where
    s: "s \<in> after_of impl vs" "(s, s) \<in> (step_rel (tau_tr ?ti))\<^sup>+" by (auto simp: tau_cycle_in_def)
  have "tau \<notin> set vs" using s(1) by (rule after_visible)
  then have w: "weak_steps p (vs @ [tau]) = weak_step (transitions p) tau (after_of p vs)"
    for p :: "cspm_state transition_provider"
    using weak_steps_after [of vs p] by (simp add: weak_steps_def)
  from s(2) obtain t where t: "(s, t) \<in> step_rel (tau_tr ?ti)" "(t, s) \<in> (step_rel (tau_tr ?ti))\<^sup>*"
    by (metis tranclD)
  then have "s \<in> weak_steps impl (vs @ [tau])"
    using s(1) by (auto simp: w weak_step_def tau_reach_def reach_from_def label_succs_def step_rel_tau_tr)
  with s(2) have A: "tau_cycle_in ?ti (weak_steps impl (vs @ [tau]))" "weak_steps impl (vs @ [tau]) \<noteq> {}"
    by (auto simp: tau_cycle_in_def)
  have "weak_steps spec (vs @ [tau]) \<subseteq> after_of spec vs"
    unfolding w weak_step_def tau_reach_def
  proof (rule reachable_closed)
    show "label_succs ?ts (after_of spec vs) tau \<subseteq> after_of spec vs"
      using after_closed by (auto simp: label_succs_def)
    show "succs (tau_tr ?ts) s \<subseteq> after_of spec vs" if "s \<in> after_of spec vs" for s
      using after_closed [OF that] by (auto simp: succs_tau_tr)
  qed
  with nd have "\<not> tau_cycle_in ?ts (weak_steps spec (vs @ [tau]))" by (auto simp: tau_cycle_in_def)
  with A show ?thesis by (simp add: candidate_fails_def Let_def)
qed

text \<open>The oracle accepts what the search reports.\<close>

lemma shown_fails:
  assumes coded: "coded_lts spec" "coded_lts impl" and f: "failure_shown model spec impl f"
  shows "candidate_fails model spec impl (rf_trace f) \<and>
    (''divergence_mismatch'' \<in> set (rf_tags f) \<longrightarrow> tau \<in> set (rf_trace f))"
proof -
  have tags: "''divergence_mismatch'' \<notin> set (rf_tags f)" if "shows_T spec impl f \<or> shows_F spec impl f"
    using that by (auto simp: shows_T_def shows_F_def refusal_tags_def)
  show ?thesis
  proof (cases model)
    case ModelT
    with f tags shows_T_fails show ?thesis by (simp add: failure_shown_def)
  next
    case ModelF
    with f tags shows_T_fails shows_F_fails show ?thesis by (auto simp: failure_shown_def)
  next
    case ModelFD
    have "finite_lts (transitions spec) (initial_state spec)" using coded(1) by (simp add: coded_lts_def)
    note div = diverges_after_iff_cycle [OF this]
    from f ModelFD obtain vs where nd: "vs \<notin> divergences (transitions spec) (initial_state spec)" and
      vs: "rf_trace f = vs \<and> (shows_T spec impl f \<or> shows_F spec impl f) \<or>
         rf_trace f = vs @ [tau] \<and> diverges_after (transitions impl) (initial_state impl) vs"
      by (auto simp: failure_shown_def shows_FD_def)
    from nd have "\<not> tau_cycle_in (transitions spec) (after_of spec vs)"
      using divergences_base [of "transitions spec" "initial_state spec" vs] by (auto simp: div)
    with vs ModelFD tags shows_T_fails [of spec impl f] shows_F_fails [of spec impl f ModelFD]
      divergence_fails [OF coded, of vs] show ?thesis by auto
  qed
qed

text \<open>What the checker returns on two compiled modules.\<close>

lemma report_correct:
  assumes coded: "coded_lts spec" "coded_lts impl"
    and out: "ro_refines out \<longleftrightarrow> refines model spec impl"
      "if ro_refines out then ro_failure out = None
       else \<exists>f. ro_failure out = Some f \<and> failure_shown model spec impl f"
      "''divergence_mismatch'' \<notin> set (ro_diagnostic_tags out)"
  shows "\<exists>r. report request input model spec impl out = Some r \<and>
    cr_status r = (if refines model spec impl then Pass else Fail) \<and>
    (\<not> refines model spec impl \<longrightarrow>
       (\<exists>c. cr_counterexample r = Some c \<and> cx_is_minimized c \<and>
          candidate_fails model spec impl (map ev_label (cx_events c)) \<and>
          (\<exists>f. ro_failure out = Some f \<and> subseq (map ev_label (cx_events c)) (rf_trace f)) \<and>
          (model \<noteq> ModelFD \<longrightarrow> (\<forall>idx < length (cx_events c).
             \<not> candidate_fails model spec impl (map ev_label (cx_events (remove_event idx c)))))))"
proof (cases "ro_refines out")
  case True
  with out(1) show ?thesis by (simp add: report_def refine_pass_def)
next
  case False
  with out(2) obtain f where f: "ro_failure out = Some f" "failure_shown model spec impl f" by auto
  define c where "c = refinement_counterexample model input out"
  define required where "required = cx_tags c"
  let ?fails = "\<lambda>c. counterexample_still_fails model spec impl c required"
  have c: "map ev_label (cx_events c) = rf_trace f" "set required =
      {''refinement'', ''model:'' @ refinement_model_str model} \<union> set (ro_diagnostic_tags out) \<union> set (rf_tags f)"
    by (auto simp: c_def required_def refinement_counterexample_def f(1) Let_def events_of_def o_def)
  have dm: "''divergence_mismatch'' \<in> set required \<longleftrightarrow> ''divergence_mismatch'' \<in> set (rf_tags f)"
    using out(3) unfolding c(2) by (cases model) auto
  have "set (rf_trace f) = ev_label ` set (cx_events c)" by (simp flip: c(1))
  with shown_fails [OF coded f(2)] have start: "?fails c = Some True"
    unfolding still_fails_correct [OF coded] c(1) dm by simp
  have total: "\<forall>c. ?fails c \<noteq> None" by (simp add: still_fails_correct [OF coded])
  from minimize_accepted [where preserves_failure = ?fails, OF total start] obtain m where
    m: "minimize_with_oracle c ?fails = Some (m\<lparr>cx_is_minimized := True\<rparr>)" "?fails m = Some True"
      "subseq (cx_events m) (cx_events c)"
      "\<forall>idx < length (cx_events m). ?fails (remove_event idx m) = Some False" by blast
  let ?c = "explain (m\<lparr>cx_is_minimized := True\<rparr>)"
  have ev: "cx_events ?c = cx_events m" "cx_is_minimized ?c"
    "cx_events (remove_event idx ?c) = cx_events (remove_event idx m)" for idx
    by (simp_all add: explain_def remove_event_def)
  have "report request input model spec impl out = Some (refine_fail request model out ?c)"
    using m(1) False by (simp add: report_def c_def [symmetric] required_def Let_def)
  moreover have "candidate_fails model spec impl (map ev_label (cx_events ?c))"
    using m(2) unfolding ev by (simp add: still_fails_correct [OF coded])
  moreover have "subseq (map ev_label (cx_events ?c)) (rf_trace f)"
    using subseq_map [OF m(3), of ev_label] unfolding ev c(1) .
  moreover have "\<not> candidate_fails model spec impl (map ev_label (cx_events (remove_event idx ?c)))"
    if "model \<noteq> ModelFD" "idx < length (cx_events ?c)" for idx
  proof -
    have "''divergence_mismatch'' \<notin> set (rf_tags f)"
      using f(2) that(1) by (cases model) (auto simp: failure_shown_def shows_T_def shows_F_def refusal_tags_def)
    with m(4) that(2) dm show ?thesis unfolding ev by (auto simp: still_fails_correct [OF coded])
  qed
  ultimately show ?thesis using out(1) False f(1) ev(2) by (auto simp: refine_fail_def)
qed

lemma refinement_check_modules:
  assumes "from_module (ri_spec input) = Some (Inr sp)" and "from_module (ri_impl input) = Some (Inr ip)"
    and coded: "coded_lts (provider_of sp)" "coded_lts (provider_of ip)"
    and model: "model = (case rq_model request of None \<Rightarrow> ModelT | Some m \<Rightarrow> m)"
  shows "\<exists>r. refinement_check request input = Some r \<and>
    cr_status r = (if refines model (provider_of sp) (provider_of ip) then Pass else Fail) \<and>
    (\<not> refines model (provider_of sp) (provider_of ip) \<longrightarrow>
       (\<exists>c f. cr_counterexample r = Some c \<and> cx_is_minimized c \<and>
          candidate_fails model (provider_of sp) (provider_of ip) (map ev_label (cx_events c)) \<and>
          failure_shown model (provider_of sp) (provider_of ip) f \<and>
          subseq (map ev_label (cx_events c)) (rf_trace f) \<and>
          (model \<noteq> ModelFD \<longrightarrow> (\<forall>idx < length (cx_events c).
             \<not> candidate_fails model (provider_of sp) (provider_of ip)
                 (map ev_label (cx_events (remove_event idx c)))))))"
proof -
  from model_includes_correct [OF coded, of model] obtain out where
    o1: "model_includes model (provider_of sp) (provider_of ip) = Some out" and
    o2: "ro_refines out \<longleftrightarrow> refines model (provider_of sp) (provider_of ip)"
      "if ro_refines out then ro_failure out = None
       else \<exists>f. ro_failure out = Some f \<and> failure_shown model (provider_of sp) (provider_of ip) f"
      "''divergence_mismatch'' \<notin> set (ro_diagnostic_tags out)" by blast
  have "refinement_check request input = report request input model (provider_of sp) (provider_of ip) out"
    using assms(1,2) o1 unfolding refinement_check_def model by simp
  with report_correct [OF coded o2, of request input] o2(1,2) show ?thesis by (auto split: if_splits)
qed

text \<open>In the trace and failures models the oracle accepts exactly the traces that witness the failure of the
  refinement.\<close>

definition genuine ::
  "refinement_model \<Rightarrow> cspm_state transition_provider \<Rightarrow> cspm_state transition_provider \<Rightarrow> string list \<Rightarrow> bool" where
  "genuine model spec impl ls \<longleftrightarrow>
     ls \<in> traces_of impl - traces_of spec \<or>
     model = ModelF \<and> (\<exists>X. (ls, X) \<in> failures (transitions impl) (initial_state impl)
                              - failures (transitions spec) (initial_state spec))"

lemma candidate_fails_genuine:
  assumes "tau \<notin> set ls" and "model \<noteq> ModelFD"
  shows "candidate_fails model spec impl ls \<longleftrightarrow> genuine model spec impl ls"
proof -
  have "(\<exists>X. (ls, X) \<in> failures (transitions impl) (initial_state impl) - failures (transitions spec) (initial_state spec))
      \<longleftrightarrow> \<not> refusals_ok (transitions spec) (after_of spec ls) (transitions impl) (after_of impl ls)"
    unfolding failures_at by blast
  moreover have "after_of impl ls \<noteq> {}" if "\<not> refusals_ok (transitions spec) B (transitions impl) (after_of impl ls)" for B
    using that by (auto simp: refusals_ok_def)
  ultimately show ?thesis
    using assms by (cases model) (auto simp: candidate_fails_def genuine_def weak_steps_after traces_def Let_def)
qed

lemma failure_shown_visible:
  assumes "failure_shown model spec impl f" and "model \<noteq> ModelFD"
  shows "tau \<notin> set (rf_trace f)"
proof -
  have "shows_T spec impl f \<or> shows_F spec impl f"
    using assms by (cases model) (auto simp: failure_shown_def)
  then have "rf_trace f \<in> traces_of impl"
    by (auto simp: shows_T_def shows_F_def failures_def traces_def)
  then show ?thesis by (rule tau_notin_traces)
qed

section \<open>Properties\<close>

text \<open>Two small modules: \<open>STOP\<close> and \<open>b -> STOP\<close>.\<close>

definition stop_module :: cmodule where
  "stop_module = \<lparr>channels = [], declarations = [], assertions = [], entry = Some (at Stop)\<rparr>"

definition stop_provider :: cspm_provider where
  "stop_provider = \<lparr>cp_program = \<lparr>pr_channels = [], pr_exprs = [NStop], pr_resolved = [0]\<rparr>,
     cp_initial = SExpr 0 []\<rparr>"

definition b_module :: cmodule where
  "b_module = \<lparr>channels = [\<lparr>chan_names = [at ''b''], chan_domain = None\<rparr>], declarations = [], assertions = [],
     entry = Some (at (Prefix (at \<lparr>ev_channel = at ''b'', ev_seg = None\<rparr>) (at Stop)))\<rparr>"

definition b_provider :: cspm_provider where
  "b_provider = \<lparr>cp_program = \<lparr>pr_channels = [(''b'', ChUnit)], pr_exprs = [NStop, NPrefix (PUnit ''b'') 0],
       pr_resolved = [0, 1]\<rparr>,
     cp_initial = SExpr 1 []\<rparr>"

lemma stop_from_module: "from_module stop_module = Some (Inr stop_provider)"
  by code_simp

lemma b_from_module: "from_module b_module = Some (Inr b_provider)"
  by code_simp

lemma stop_transitions: "transitions (provider_of stop_provider) (SExpr 0 []) = Some []"
  by code_simp

lemma b_transitions:
  "transitions (provider_of b_provider) (SExpr 1 []) = Some [(''b'', SExpr 0 [])]"
  "transitions (provider_of b_provider) (SExpr 0 []) = Some []"
  by code_simp+

lemma stop_coded: "coded_lts (provider_of stop_provider)"
proof (rule coded_ltsI)
  show "initial_state (provider_of stop_provider) \<in> set [SExpr 0 []]" by code_simp
qed (auto simp: stop_transitions)

lemma b_coded: "coded_lts (provider_of b_provider)"
proof (rule coded_ltsI)
  show "initial_state (provider_of b_provider) \<in> set [SExpr 1 [], SExpr 0 []]" by code_simp
qed (auto simp: b_transitions)

lemma b_not_stop: "\<not> refines ModelT (provider_of stop_provider) (provider_of b_provider)"
proof -
  let ?b = "provider_of b_provider" and ?s = "provider_of stop_provider"
  have "initial_state ?b = SExpr 1 []" "initial_state ?s = SExpr 0 []" by code_simp+
  moreover have "lpath (transitions ?b) (SExpr 1 []) [''b''] (SExpr 0 [])"
    by (rule lpath.Cons [of _ _ "[(''b'', SExpr 0 [])]" _ "SExpr 0 []"])
      (rule b_transitions lpath.Nil | simp)+
  then have "SExpr 0 [] \<in> after (transitions ?b) (SExpr 1 []) [''b'']"
    by (auto simp: after_def tau_def intro!: exI [of _ "[''b'']"])
  moreover have "ls = []" if "lpath (transitions ?s) (SExpr 0 []) ls t" for ls t
    using that by (cases rule: lpath.cases) (auto simp: stop_transitions)
  then have "after (transitions ?s) (SExpr 0 []) [''b''] = {}"
    by (fastforce simp: after_def)
  ultimately show ?thesis by (auto simp: refines_def refines_T_def traces_def)
qed

text \<open>C16: on two modules that compile to finite systems the refinement checker returns Pass or Fail, and
  Pass exactly when the implementation refines the specification in the requested model (the trace model when
  none is requested).\<close>

theorem refinement_check_correct:
  assumes "from_module (ri_spec input) = Some (Inr sp)" and "from_module (ri_impl input) = Some (Inr ip)"
    and "coded_lts (provider_of sp)" and "coded_lts (provider_of ip)"
  shows "\<exists>r. refinement_check request input = Some r \<and>
    cr_status r =
      (if refines (case rq_model request of None \<Rightarrow> ModelT | Some m \<Rightarrow> m) (provider_of sp) (provider_of ip)
       then Pass else Fail)"
  using refinement_check_modules [OF assms refl] by blast

theorem refinement_check_correct_witness:
  "\<exists>r. refinement_check \<lparr>rq_command = RefineCmd, rq_model = Some ModelFD, rq_target = None\<rparr>
      \<lparr>ri_spec = demo_module, ri_impl = demo_module\<rparr> = Some r \<and> cr_status r = Pass"
  using refinement_check_correct
    [of "\<lparr>ri_spec = demo_module, ri_impl = demo_module\<rparr>" demo_provider demo_provider
      "\<lparr>rq_command = RefineCmd, rq_model = Some ModelFD, rq_target = None\<rparr>"]
    demo_lts_coded demo_from_module
  by (simp add: refines_def refines_FD_def demo_lts_def)

text \<open>C17: when the refinement does not hold in the trace or the failures model, the minimised counterexample is
  genuine: its events are a trace, or the trace of a stable failure, of the implementation that the specification
  does not have, and no single event of it can be dropped.\<close>

theorem refinement_counterexample_genuine:
  assumes "from_module (ri_spec input) = Some (Inr sp)" and "from_module (ri_impl input) = Some (Inr ip)"
    and "coded_lts (provider_of sp)" and "coded_lts (provider_of ip)"
    and "rq_model request = Some model" and "model \<noteq> ModelFD"
    and "\<not> refines model (provider_of sp) (provider_of ip)"
  shows "\<exists>r c. refinement_check request input = Some r \<and> cr_counterexample r = Some c \<and> cx_is_minimized c \<and>
    genuine model (provider_of sp) (provider_of ip) (map ev_label (cx_events c)) \<and>
    (\<forall>idx < length (cx_events c).
       \<not> genuine model (provider_of sp) (provider_of ip) (map ev_label (cx_events (remove_event idx c))))"
proof -
  have "model = (case rq_model request of None \<Rightarrow> ModelT | Some m \<Rightarrow> m)" using assms(5) by simp
  from refinement_check_modules [OF assms(1-4) this] assms(6,7) obtain r c f where
    r: "refinement_check request input = Some r" "cr_counterexample r = Some c" "cx_is_minimized c" and
    c: "candidate_fails model (provider_of sp) (provider_of ip) (map ev_label (cx_events c))"
      "subseq (map ev_label (cx_events c)) (rf_trace f)"
      "\<forall>idx < length (cx_events c). \<not> candidate_fails model (provider_of sp) (provider_of ip)
         (map ev_label (cx_events (remove_event idx c)))" and
    f: "failure_shown model (provider_of sp) (provider_of ip) f" by blast
  have vis: "tau \<notin> set (map ev_label (cx_events c))"
    using failure_shown_visible [OF f assms(6)] subseq_set [OF c(2)] by blast
  moreover have "tau \<notin> set (map ev_label (cx_events (remove_event idx c)))" for idx
    using vis subseq_set [OF subseq_remove_event [of idx c]] by auto
  ultimately show ?thesis
    using r c(1,3) candidate_fails_genuine [OF _ assms(6)] by blast
qed

theorem refinement_counterexample_genuine_witness:
  "\<exists>r c. refinement_check \<lparr>rq_command = RefineCmd, rq_model = Some ModelT, rq_target = None\<rparr>
       \<lparr>ri_spec = stop_module, ri_impl = b_module\<rparr> = Some r \<and> cr_counterexample r = Some c \<and>
     genuine ModelT (provider_of stop_provider) (provider_of b_provider) (map ev_label (cx_events c))"
  using refinement_counterexample_genuine
    [of "\<lparr>ri_spec = stop_module, ri_impl = b_module\<rparr>" stop_provider b_provider
      "\<lparr>rq_command = RefineCmd, rq_model = Some ModelT, rq_target = None\<rparr>" ModelT]
    stop_from_module b_from_module stop_coded b_coded b_not_stop
  by auto

text \<open>\<open>a -> STOP\<close> and \<open>(a -> D) |~| (a -> D)\<close> with \<open>D = (b -> D) \ {b}\<close>, which diverges after \<open>a\<close>.\<close>

definition a_module :: cmodule where
  "a_module = \<lparr>channels = [\<lparr>chan_names = [at ''a''], chan_domain = None\<rparr>], declarations = [], assertions = [],
     entry = Some (at (Prefix (at \<lparr>ev_channel = at ''a'', ev_seg = None\<rparr>) (at Stop)))\<rparr>"

definition diverging_module :: cmodule where
  "diverging_module =
     (let a_then_d = at (Prefix (at \<lparr>ev_channel = at ''a'', ev_seg = None\<rparr>) (at (Ref (at ''D''))))
      in \<lparr>channels = [\<lparr>chan_names = [at ''a'', at ''b''], chan_domain = None\<rparr>],
          declarations = [\<lparr>decl_name = at ''D'',
            decl_expr = at (Hide (at (Prefix (at \<lparr>ev_channel = at ''b'', ev_seg = None\<rparr>) (at (Ref (at ''D'')))))
              \<lparr>set_channels = [at ''b'']\<rparr>)\<rparr>],
          assertions = [], entry = Some (at (Choice Internal a_then_d a_then_d))\<rparr>)"

definition diverging_provider :: cspm_provider where
  "diverging_provider =
     \<lparr>cp_program = \<lparr>pr_channels = [(''a'', ChUnit), (''b'', ChUnit)],
        pr_exprs = [NRef 0, NPrefix (PUnit ''a'') 0, NChoiceInternal 1 1, NPrefix (PUnit ''b'') 0, NHide 3 [''b'']],
        pr_resolved = [4, 1, 2, 3, 4]\<rparr>,
      cp_initial = SExpr 2 []\<rparr>"

lemma diverging_from_module: "from_module diverging_module = Some (Inr diverging_provider)"
  by code_simp

lemma diverging_transitions:
  "initial_state (provider_of diverging_provider) = SExpr 2 []"
  "transitions (provider_of diverging_provider) (SExpr 2 []) = Some [(tau, SExpr 1 []), (tau, SExpr 1 [])]"
  "transitions (provider_of diverging_provider) (SExpr 1 []) = Some [(''a'', SHide [''b''] (SExpr 3 []))]"
  by code_simp+

lemma diverging_starts_well:
  "\<not> diverges_after (transitions (provider_of diverging_provider)) (initial_state (provider_of diverging_provider)) []"
proof
  let ?p = "provider_of diverging_provider"
  assume "diverges_after (transitions ?p) (initial_state ?p) []"
  then obtain s f where s: "s \<in> after_of ?p []" and f: "f 0 = s" "\<And>i::nat. tr_step (transitions ?p) (f i) tau (f (Suc i))"
    by (auto simp: diverges_after_def diverges_def)
  have no: "\<not> tr_step (transitions ?p) (SExpr 1 []) tau t" for t
    by (simp add: tr_step_def diverging_transitions tau_def)
  have "tau_reach (transitions ?p) {SExpr 2 []} \<subseteq> {SExpr 2 [], SExpr 1 []}"
    unfolding tau_reach_def
  proof (rule reachable_closed)
    show "succs (tau_tr (transitions ?p)) t \<subseteq> {SExpr 2 [], SExpr 1 []}" if "t \<in> {SExpr 2 [], SExpr 1 []}" for t
      using that no by (auto simp: succs_tau_tr tr_step_def diverging_transitions)
  qed simp
  with s have "f 0 = SExpr 2 [] \<or> f 0 = SExpr 1 []"
    unfolding after_Nil diverging_transitions(1) f(1) by blast
  then have "f (Suc 0) = SExpr 1 []"
    using f(2) [of 0] no by (auto simp: tr_step_def diverging_transitions)
  with f(2) [of "Suc 0"] no show False by simp
qed

text \<open>A divergence counterexample can lose its trace. The process diverges after \<open>a\<close> only, but minimisation
  drops the \<open>a\<close>: replayed as an event, the mark \<open>tau\<close> is a step the specification cannot take, and the reported
  counterexample says that the process diverges at once.\<close>

theorem divergence_counterexample_spurious:
  "from_module diverging_module = Some (Inr diverging_provider) \<and>
   \<not> diverges_after (transitions (provider_of diverging_provider))
       (initial_state (provider_of diverging_provider)) [] \<and>
   (\<exists>r c. refinement_check \<lparr>rq_command = RefineCmd, rq_model = Some ModelFD, rq_target = None\<rparr>
       \<lparr>ri_spec = a_module, ri_impl = diverging_module\<rparr> = Some r \<and>
     cr_status r = Fail \<and> cr_counterexample r = Some c \<and>
     map ev_label (cx_events c) = [tau] \<and> ''divergence_mismatch'' \<in> set (cx_tags c) \<and> cx_is_minimized c)"
proof -
  have "case refinement_check \<lparr>rq_command = RefineCmd, rq_model = Some ModelFD, rq_target = None\<rparr>
       \<lparr>ri_spec = a_module, ri_impl = diverging_module\<rparr> of
     None \<Rightarrow> False
   | Some r \<Rightarrow> cr_status r = Fail \<and>
       (case cr_counterexample r of None \<Rightarrow> False
        | Some c \<Rightarrow> map ev_label (cx_events c) = [tau] \<and>
            list_ex (\<lambda>t. t = ''divergence_mismatch'') (cx_tags c) \<and> cx_is_minimized c)"
    by code_simp
  with diverging_from_module diverging_starts_well show ?thesis
    by (auto simp: list_ex_iff split: option.splits)
qed

end
