(* ===== verification/Cspx_Cli.thy ===== *)
theory Cspx_Cli
  imports Cspx_Simple Cspx_Frontend Cspx_Deadlock Cspx_Divergence Cspx_Determinism Cspx_Refine_Check
begin

text \<open>
  The command line tool, \<^verbatim>\<open>crates/cspx-cli/src/main.rs\<close>: from the parsed arguments and the files to the checks, the
  overall status and the exit code. The results: the exit code is that of the worst status; for a program whose
  asserted processes are finite, \<^verbatim>\<open>check --all-assertions\<close> exits with 0 exactly when every assertion holds, and
  \<^verbatim>\<open>refine\<close> exactly when the refinement does. Not modelled: the parsing of arguments (\<^verbatim>\<open>clap\<close>), the serialisation
  to JSON, the clock and the rates derived from it. The file system and SHA-256 are parameters.
\<close>

section \<open>Arguments\<close>

datatype output_format = Json | Text

record check_args =
  ca_assert :: "string option"
  ca_all_assertions :: bool
  ca_file :: string

datatype refinement_model_arg = ArgT | ArgF | ArgFD

fun refinement_model_arg_str :: "refinement_model_arg \<Rightarrow> string" where
  "refinement_model_arg_str ArgT = ''T''"
| "refinement_model_arg_str ArgF = ''F''"
| "refinement_model_arg_str ArgFD = ''FD''"

record refine_args =
  ra_model :: refinement_model_arg
  ra_spec :: string
  ra_impl :: string

datatype command = TypecheckCommand string | CheckCommand check_args | RefineCommand refine_args

record cli =
  cli_command :: command
  cli_format :: output_format
  cli_output :: "string option"
  cli_summary_json :: "string option"
  cli_timeout_ms :: "u64 option"
  cli_memory_mb :: "u64 option"
  cli_parallel :: nat
  cli_deterministic :: bool
  cli_seed :: "u64 option"
  cli_explore_profile :: bool

record input_info =
  ii_path :: string
  ii_sha256 :: string

record invocation =
  iv_command :: string
  iv_args :: "string list"
  iv_format :: string
  iv_timeout_ms :: "u64 option"
  iv_memory_mb :: "u64 option"
  iv_parallel :: nat
  iv_deterministic :: bool
  iv_seed :: u64

section \<open>Files\<close>

text \<open>What the process finds: \<open>read_bytes\<close> is the content of a file or the text of the error; \<open>sha256_hex\<close> the digest;
  the thread pools are those of the explorers.\<close>

record cli_env =
  read_bytes :: "string \<Rightarrow> string + string"
  sha256_hex :: "string \<Rightarrow> string"
  state_pool :: "(simple_state, simple_state) rayon"
  chunk_pool :: "(simple_state list, simple_state) rayon"

text \<open>\<^verbatim>\<open>fs::read_to_string\<close>.\<close>

definition read_to_string :: "cli_env \<Rightarrow> string \<Rightarrow> string + string" where
  "read_to_string env p =
     and_then (read_bytes env p)
       (\<lambda>data. if utf8_valid data then Inr data else Inl ''stream did not contain valid UTF-8'')"

definition compute_sha256 :: "cli_env \<Rightarrow> string \<Rightarrow> string + string" where
  "compute_sha256 env p =
     (case read_bytes env p of Inl e \<Rightarrow> Inl (p @ '': '' @ e) | Inr data \<Rightarrow> Inr (sha256_hex env data))"

fun build_inputs_loop :: "cli_env \<Rightarrow> string list \<Rightarrow> input_info list \<Rightarrow> string list \<Rightarrow> input_info list \<times> string list" where
  "build_inputs_loop env [] inputs errors = (inputs, errors)"
| "build_inputs_loop env (p # ps) inputs errors =
     (case compute_sha256 env p of
        Inr h \<Rightarrow> build_inputs_loop env ps (inputs @ [\<lparr>ii_path = p, ii_sha256 = h\<rparr>]) errors
      | Inl e \<Rightarrow> build_inputs_loop env ps (inputs @ [\<lparr>ii_path = p, ii_sha256 = ''UNKNOWN''\<rparr>]) (errors @ [e]))"

definition build_inputs :: "cli_env \<Rightarrow> string list \<Rightarrow> input_info list \<times> string option" where
  "build_inputs env ps =
     (case build_inputs_loop env ps [] [] of
        (inputs, errors) \<Rightarrow> (inputs, if errors = [] then None else Some (join [newline] errors)))"

section \<open>Status and exit code\<close>

fun status_rank :: "status \<Rightarrow> nat" where
  "status_rank Pass = 0"
| "status_rank Unsupported = 1"
| "status_rank Fail = 2"
| "status_rank Timeout = 3"
| "status_rank OutOfMemory = 4"
| "status_rank ErrorStatus = 5"

fun exit_code_for_status :: "status \<Rightarrow> int" where
  "exit_code_for_status Pass = 0"
| "exit_code_for_status Fail = 1"
| "exit_code_for_status ErrorStatus = 2"
| "exit_code_for_status Unsupported = 3"
| "exit_code_for_status Timeout = 4"
| "exit_code_for_status OutOfMemory = 5"

definition aggregate_status :: "check_result list \<Rightarrow> status" where
  "aggregate_status checks =
     foldl (\<lambda>worst check. if status_rank (cr_status check) > status_rank worst then cr_status check else worst) Pass checks"

fun aggregate_stats_loop :: "(stats \<Rightarrow> u64 option) \<Rightarrow> check_result list \<Rightarrow> u64 \<Rightarrow> u64 option" where
  "aggregate_stats_loop select [] acc = Some acc"
| "aggregate_stats_loop select (check # checks) acc =
     (case cr_stats check of
        None \<Rightarrow> None
      | Some st \<Rightarrow>
          (case select st of
             None \<Rightarrow> None
           | Some v \<Rightarrow> aggregate_stats_loop select checks (sat_add acc v)))"

definition aggregate_stats :: "check_result list \<Rightarrow> (stats \<Rightarrow> u64 option) \<Rightarrow> u64 option" where
  "aggregate_stats checks select = aggregate_stats_loop select checks 0"

section \<open>Results that need no checker\<close>

definition error_check :: "string \<Rightarrow> string option \<Rightarrow> string option \<Rightarrow> reason_kind \<Rightarrow> string \<Rightarrow> check_result" where
  "error_check name model target kind message =
     \<lparr>cr_name = name, cr_model = model, cr_target = target, cr_status = ErrorStatus,
      cr_reason = Some \<lparr>reason_kind = kind, reason_message = Some message\<rparr>, cr_counterexample = None,
      cr_stats = Some no_stats\<rparr>"

text \<open>The result for an error of the frontend; the code repeats this block for each command.\<close>

definition frontend_failure :: "string \<Rightarrow> string option \<Rightarrow> string option \<Rightarrow> frontend_error \<Rightarrow> check_result" where
  "frontend_failure name model target err =
     (case (case fe_kind err of
              UnsupportedSyntax \<Rightarrow> (Unsupported, UnsupportedSyntaxReason)
            | InvalidInput \<Rightarrow> (ErrorStatus, InvalidInputReason)) of
        (st, kind) \<Rightarrow>
          \<lparr>cr_name = name, cr_model = model, cr_target = target, cr_status = st,
           cr_reason = Some \<lparr>reason_kind = kind, reason_message = Some (display_error (fe_span err) (fe_message err))\<rparr>,
           cr_counterexample = None, cr_stats = Some no_stats\<rparr>)"

definition build_stub_check_result ::
  "string \<Rightarrow> string option \<Rightarrow> string option \<Rightarrow> string option \<Rightarrow> string \<Rightarrow> check_result" where
  "build_stub_check_result name model target io_error not_implemented_message =
     (case io_error of
        Some message \<Rightarrow> error_check name model target InvalidInputReason message
      | None \<Rightarrow>
          \<lparr>cr_name = name, cr_model = model, cr_target = target, cr_status = Unsupported,
           cr_reason = Some \<lparr>reason_kind = NotImplemented, reason_message = Some not_implemented_message\<rparr>,
           cr_counterexample = None, cr_stats = Some no_stats\<rparr>)"

section \<open>typecheck\<close>

text \<open>An error of the explorer gives no statistics.\<close>

definition stats_or_none :: "io_error + stats \<times> profile \<Rightarrow> stats \<times> profile" where
  "stats_or_none r = (case r of Inr x \<Rightarrow> x | Inl e \<Rightarrow> (no_stats, None))"

definition build_stats ::
  "cli_env \<Rightarrow> cmodule \<Rightarrow> nat \<Rightarrow> bool \<Rightarrow> u64 \<Rightarrow> bool \<Rightarrow> (stats \<times> profile) option" where
  "build_stats env m threads det sd prof =
     (case simple_from_module m of
        Inl e \<Rightarrow> Some (no_stats, None)
      | Inr provider \<Rightarrow>
          (let options = \<lparr>workers = threads, deterministic = True, seed = sd\<rparr>;
               plain = map_option (\<lambda>(r, st). stats_or_none (map_sum (\<lambda>e. e) (\<lambda>s. (s, None)) r));
               profiled = map_option (\<lambda>(r, st). stats_or_none r)
           in if det
              then (if prof
                    then profiled (explore_parallel_profiled_with_options (state_pool env) (chunk_pool env) in_memory_store
                           provider {} options)
                    else plain (explore_parallel_with_options (state_pool env) (chunk_pool env) in_memory_store
                           provider {} options))
              else if threads > 1
              then (if prof
                    then profiled (explore_parallel_profiled (state_pool env) in_memory_store provider {} threads)
                    else plain (explore_parallel (state_pool env) in_memory_store provider {} threads))
              else (if prof
                    then map_option (\<lambda>(r, st, q). stats_or_none r)
                           (explore_profiled in_memory_store vec_work_queue provider {} [])
                    else map_option (\<lambda>(r, st, q). stats_or_none (map_sum (\<lambda>e. e) (\<lambda>s. (s, None)) r))
                           (explore in_memory_store vec_work_queue provider {} []))))"

definition run_typecheck ::
  "cli_env \<Rightarrow> string \<Rightarrow> string option \<Rightarrow> nat \<Rightarrow> bool \<Rightarrow> u64 \<Rightarrow> bool \<Rightarrow> (check_result \<times> profile) option" where
  "run_typecheck env p io_error threads det sd prof =
     (case io_error of
        Some message \<Rightarrow> Some (error_check ''typecheck'' None None InvalidInputReason message, None)
      | None \<Rightarrow>
          (case read_to_string env p of
             Inl e \<Rightarrow> Some (error_check ''typecheck'' None None InvalidInputReason (p @ '': '' @ e), None)
           | Inr src \<Rightarrow>
               (case parse_and_typecheck_module src p of
                  None \<Rightarrow> None
                | Some (Inl err) \<Rightarrow> Some (frontend_failure ''typecheck'' None None err, None)
                | Some (Inr m) \<Rightarrow>
                    map_option (\<lambda>(st, profile).
                        (\<lparr>cr_name = ''typecheck'', cr_model = None, cr_target = None, cr_status = Pass,
                          cr_reason = None, cr_counterexample = None, cr_stats = Some st\<rparr>, profile))
                      (build_stats env m threads det sd prof))))"

section \<open>check\<close>

definition parse_module_for_check ::
  "cli_env \<Rightarrow> string \<Rightarrow> string option \<Rightarrow> string \<Rightarrow> (check_result + cmodule) option" where
  "parse_module_for_check env p io_error assertion =
     (case io_error of
        Some message \<Rightarrow> Some (Inl (error_check ''check'' None (Some assertion) InvalidInputReason message))
      | None \<Rightarrow>
          (case read_to_string env p of
             Inl e \<Rightarrow> Some (Inl (error_check ''check'' None (Some assertion) InvalidInputReason (p @ '': '' @ e)))
           | Inr src \<Rightarrow>
               (case parse_and_typecheck_module src p of
                  None \<Rightarrow> None
                | Some (Inl err) \<Rightarrow> Some (Inl (frontend_failure ''check'' None (Some assertion) err))
                | Some (Inr m) \<Rightarrow> Some (Inr m))))"

definition supported :: "string list" where
  "supported = [''deadlock free'', ''divergence free'', ''deterministic'']"

definition run_check_by_assertion :: "cli_env \<Rightarrow> string \<Rightarrow> string option \<Rightarrow> string \<Rightarrow> check_result option" where
  "run_check_by_assertion env p io_error assertion =
     (if assertion \<notin> set supported
      then Some (error_check ''check'' None (Some assertion) InvalidInputReason
             (''unknown assertion: '' @ assertion @ '' (supported: '' @ join '', '' supported @ '')''))
      else
        (case parse_module_for_check env p io_error assertion of
           None \<Rightarrow> None
         | Some (Inl check) \<Rightarrow> Some check
         | Some (Inr m) \<Rightarrow>
             (let request = \<lparr>rq_command = CheckCmd, rq_model = None, rq_target = Some assertion\<rparr>
              in if assertion = ''deadlock free'' then deadlock_check request m
                 else if assertion = ''divergence free'' then divergence_check request m
                 else if assertion = ''deterministic'' then deterministic_check request m
                 else Some (build_stub_check_result ''check'' None (Some assertion) None
                        ''assertion not implemented yet''))))"

text \<open>The expression of the first declaration of a name.\<close>

definition find_process :: "cmodule \<Rightarrow> string \<Rightarrow> process_expr spanned option" where
  "find_process m name = map_option decl_expr (find (\<lambda>d. node (decl_name d) = name) (declarations m))"

text \<open>The three \<^verbatim>\<open>run_..._property_assertion\<close> functions differ in the checker only.\<close>

definition run_property_assertion ::
  "(check_request \<Rightarrow> cmodule \<Rightarrow> check_result option) \<Rightarrow> cmodule \<Rightarrow> string \<Rightarrow> string \<Rightarrow> check_result option" where
  "run_property_assertion checker m target_proc target_desc =
     (case find_process m target_proc of
        None \<Rightarrow>
          Some (error_check ''check'' None (Some target_desc) InvalidInputReason (''undefined process: '' @ target_proc))
      | Some e \<Rightarrow>
          checker \<lparr>rq_command = CheckCmd, rq_model = None, rq_target = Some target_desc\<rparr> (m\<lparr>entry := Some e\<rparr>))"

definition run_deadlock_property_assertion :: "cmodule \<Rightarrow> string \<Rightarrow> string \<Rightarrow> check_result option" where
  "run_deadlock_property_assertion = run_property_assertion deadlock_check"

definition run_divergence_property_assertion :: "cmodule \<Rightarrow> string \<Rightarrow> string \<Rightarrow> check_result option" where
  "run_divergence_property_assertion = run_property_assertion divergence_check"

definition run_determinism_property_assertion :: "cmodule \<Rightarrow> string \<Rightarrow> string \<Rightarrow> check_result option" where
  "run_determinism_property_assertion = run_property_assertion deterministic_check"

fun refinement_op_str :: "refinement_op \<Rightarrow> string" where
  "refinement_op_str OpT = ''T''"
| "refinement_op_str OpF = ''F''"
| "refinement_op_str OpFD = ''FD''"

fun model_of_op :: "refinement_op \<Rightarrow> refinement_model" where
  "model_of_op OpT = ModelT"
| "model_of_op OpF = ModelF"
| "model_of_op OpFD = ModelFD"

definition run_refinement_assertion ::
  "cmodule \<Rightarrow> string \<Rightarrow> refinement_op \<Rightarrow> string \<Rightarrow> string \<Rightarrow> check_result option" where
  "run_refinement_assertion m spec_proc model impl_proc target_desc =
     (let undefined_process = (\<lambda>p. Some (error_check ''refine'' (Some (refinement_op_str model)) (Some target_desc)
            InvalidInputReason (''undefined process: '' @ p)))
      in case find_process m spec_proc of
           None \<Rightarrow> undefined_process spec_proc
         | Some spec_expr \<Rightarrow>
             (case find_process m impl_proc of
                None \<Rightarrow> undefined_process impl_proc
              | Some impl_expr \<Rightarrow>
                  refinement_check
                    \<lparr>rq_command = RefineCmd, rq_model = Some (model_of_op model), rq_target = Some target_desc\<rparr>
                    \<lparr>ri_spec = m\<lparr>entry := Some spec_expr\<rparr>, ri_impl = m\<lparr>entry := Some impl_expr\<rparr>\<rparr>))"

fun run_assertion :: "cmodule \<Rightarrow> assertion_decl \<Rightarrow> check_result option" where
  "run_assertion m (PropertyAssert target kind model) =
     (let check_target = node target @ '' :['' @ property_kind_str kind @ '' ['' @ property_model_str model @ '']]''
      in case kind of
           DeadlockFree \<Rightarrow> run_deadlock_property_assertion m (node target) check_target
         | DivergenceFree \<Rightarrow> run_divergence_property_assertion m (node target) check_target
         | Deterministic \<Rightarrow> run_determinism_property_assertion m (node target) check_target)"
| "run_assertion m (RefinementAssert spec model impl) =
     run_refinement_assertion m (node spec) model (node impl)
       (node spec @ '' ['' @ refinement_op_str model @ ''= '' @ node impl)"

fun run_assertions :: "cmodule \<Rightarrow> assertion_decl list \<Rightarrow> check_result list option" where
  "run_assertions m [] = Some []"
| "run_assertions m (a # as) =
     (case run_assertion m a of
        None \<Rightarrow> None
      | Some r \<Rightarrow> map_option (\<lambda>rs. r # rs) (run_assertions m as))"

definition run_all_assertions :: "cli_env \<Rightarrow> string \<Rightarrow> string option \<Rightarrow> check_result list option" where
  "run_all_assertions env p io_error =
     (case parse_module_for_check env p io_error ''all-assertions'' of
        None \<Rightarrow> None
      | Some (Inl check) \<Rightarrow> Some [check]
      | Some (Inr m) \<Rightarrow>
          if assertions m = []
          then Some [error_check ''check'' None (Some ''all-assertions'') InvalidInputReason ''no assertions found'']
          else run_assertions m (assertions m))"

section \<open>refine\<close>

fun model_of_arg :: "refinement_model_arg \<Rightarrow> refinement_model" where
  "model_of_arg ArgT = ModelT"
| "model_of_arg ArgF = ModelF"
| "model_of_arg ArgFD = ModelFD"

definition run_refine_check :: "cli_env \<Rightarrow> refine_args \<Rightarrow> string option \<Rightarrow> check_result option" where
  "run_refine_check env args io_error =
     (let model = Some (refinement_model_arg_str (ra_model args));
          target = Some (ra_spec args @ '' '' @ ra_impl args);
          failed = (\<lambda>message. Some (error_check ''refine'' model target InvalidInputReason message));
          unreadable = (\<lambda>p e. failed (p @ '': '' @ e))
      in case io_error of
           Some message \<Rightarrow> failed message
         | None \<Rightarrow>
             (case read_to_string env (ra_spec args) of
                Inl e \<Rightarrow> unreadable (ra_spec args) e
              | Inr spec_source \<Rightarrow>
             (case read_to_string env (ra_impl args) of
                Inl e \<Rightarrow> unreadable (ra_impl args) e
              | Inr impl_source \<Rightarrow>
             (case parse_and_typecheck_module spec_source (ra_spec args) of
                None \<Rightarrow> None
              | Some (Inl err) \<Rightarrow> Some (frontend_failure ''refine'' model target err)
              | Some (Inr spec_ir) \<Rightarrow>
             (case parse_and_typecheck_module impl_source (ra_impl args) of
                None \<Rightarrow> None
              | Some (Inl err) \<Rightarrow> Some (frontend_failure ''refine'' model target err)
              | Some (Inr impl_ir) \<Rightarrow>
                  refinement_check
                    \<lparr>rq_command = RefineCmd, rq_model = Some (model_of_arg (ra_model args)), rq_target = target\<rparr>
                    \<lparr>ri_spec = spec_ir, ri_impl = impl_ir\<rparr>)))))"

section \<open>The command\<close>

record execute_output =
  ex_status :: status
  ex_exit_code :: int
  ex_checks :: "check_result list"
  ex_inputs :: "input_info list"
  ex_invocation :: invocation
  ex_profile :: profile

fun run_command ::
  "cli_env \<Rightarrow> cli \<Rightarrow> u64 \<Rightarrow> command
     \<Rightarrow> (string \<times> string list \<times> input_info list \<times> check_result list \<times> profile) option" where
  "run_command env c sd (TypecheckCommand p) =
     (case build_inputs env [p] of
        (inputs, io_error) \<Rightarrow>
          map_option (\<lambda>(check, prof). (''typecheck'', [p], inputs, [check], prof))
            (run_typecheck env p io_error (cli_parallel c) (cli_deterministic c) sd (cli_explore_profile c)))"
| "run_command env c sd (CheckCommand args) =
     (case build_inputs env [ca_file args] of
        (inputs, io_error) \<Rightarrow>
          map_option (\<lambda>checks. (''check'', [ca_file args], inputs, checks, None))
            (case ca_assert args of
               Some assertion \<Rightarrow> map_option (\<lambda>r. [r]) (run_check_by_assertion env (ca_file args) io_error assertion)
             | None \<Rightarrow>
                 if ca_all_assertions args then run_all_assertions env (ca_file args) io_error
                 else Some [build_stub_check_result ''check'' None None io_error ''checker not implemented yet'']))"
| "run_command env c sd (RefineCommand args) =
     (case build_inputs env [ra_spec args, ra_impl args] of
        (inputs, io_error) \<Rightarrow>
          map_option (\<lambda>r. (''refine'', [ra_spec args, ra_impl args], inputs, [r], None))
            (run_refine_check env args io_error))"

definition execute :: "cli_env \<Rightarrow> cli \<Rightarrow> (string + execute_output) option" where
  "execute env c =
     (if cli_parallel c = 0 then Some (Inl ''--parallel must be >= 1'')
      else if cli_deterministic c \<and> cli_seed c = None then Some (Inl ''--deterministic requires --seed <n>'')
      else
        (let sd = (case cli_seed c of None \<Rightarrow> 0 | Some s \<Rightarrow> s)
         in map_option (\<lambda>(name, args, inputs, checks, prof).
              (let st = aggregate_status checks
               in Inr \<lparr>ex_status = st, ex_exit_code = exit_code_for_status st, ex_checks = checks, ex_inputs = inputs,
                    ex_invocation = \<lparr>iv_command = name, iv_args = args,
                      iv_format = (case cli_format c of Json \<Rightarrow> ''json'' | Text \<Rightarrow> ''text''),
                      iv_timeout_ms = cli_timeout_ms c, iv_memory_mb = cli_memory_mb c, iv_parallel = cli_parallel c,
                      iv_deterministic = cli_deterministic c, iv_seed = sd\<rparr>,
                    ex_profile = prof\<rparr>))
            (run_command env c sd (cli_command c))))"

section \<open>The worst status\<close>

lemma status_rank_inj: "status_rank a = status_rank b \<longleftrightarrow> a = b"
  by (cases a; cases b) simp_all

lemma exit_code_inj: "exit_code_for_status a = exit_code_for_status b \<longleftrightarrow> a = b"
  by (cases a; cases b) simp_all

lemma exit_code_zero [simp]: "exit_code_for_status a = 0 \<longleftrightarrow> a = Pass"
  using exit_code_inj [of a Pass] by simp

text \<open>The fold keeps a status of the list of the largest rank.\<close>

definition worse :: "status \<Rightarrow> check_result \<Rightarrow> status" where
  "worse worst check = (if status_rank (cr_status check) > status_rank worst then cr_status check else worst)"

lemma aggregate_status_fold: "aggregate_status checks = foldl worse Pass checks"
  unfolding aggregate_status_def worse_def [abs_def] ..

lemma worse_rank: "status_rank w \<le> status_rank (worse w c)" "status_rank (cr_status c) \<le> status_rank (worse w c)"
  by (simp_all add: worse_def)

lemma worse_in: "foldl worse w checks \<in> insert w (cr_status ` set checks)"
proof (induction checks arbitrary: w)
  case (Cons c checks)
  have "worse w c \<in> {w, cr_status c}" by (simp add: worse_def)
  with Cons.IH [of "worse w c"] show ?case by auto
qed simp

lemma worse_from: "status_rank w \<le> status_rank (foldl worse w checks)"
  by (induction checks arbitrary: w) (use worse_rank(1) order_trans in \<open>fastforce+\<close>)

lemma worse_all: "r \<in> set checks \<Longrightarrow> status_rank (cr_status r) \<le> status_rank (foldl worse w checks)"
proof (induction checks arbitrary: w)
  case (Cons c checks)
  show ?case
  proof (cases "r = c")
    case True
    with worse_rank(2) [of c w] worse_from [of "worse w c" checks] show ?thesis by simp
  qed (use Cons in simp)
qed simp

lemma aggregate_from:
  "aggregate_status checks \<in> insert Pass (cr_status ` set checks) \<and>
    (\<forall>x \<in> cr_status ` set checks. status_rank x \<le> status_rank (aggregate_status checks))"
  using worse_in [of Pass checks] worse_all unfolding aggregate_status_fold by blast

lemma aggregate_status_worst:
  assumes "checks \<noteq> []"
  shows "aggregate_status checks \<in> cr_status ` set checks"
    and "r \<in> set checks \<Longrightarrow> status_rank (cr_status r) \<le> status_rank (aggregate_status checks)"
proof -
  note a = aggregate_from [of checks]
  from a show "r \<in> set checks \<Longrightarrow> status_rank (cr_status r) \<le> status_rank (aggregate_status checks)" by blast
  obtain c where c: "c \<in> set checks" using assms by (cases checks) auto
  show "aggregate_status checks \<in> cr_status ` set checks"
  proof (cases "aggregate_status checks = Pass")
    case True
    with a c have "status_rank (cr_status c) \<le> status_rank Pass" by force
    then have "cr_status c = Pass" by (cases "cr_status c") simp_all
    with c True show ?thesis by force
  qed (use a in blast)
qed

lemma aggregate_Pass: "aggregate_status checks = Pass \<longleftrightarrow> (\<forall>r \<in> set checks. cr_status r = Pass)"
proof
  assume pass: "aggregate_status checks = Pass"
  show "\<forall>r \<in> set checks. cr_status r = Pass"
  proof
    fix r assume "r \<in> set checks"
    with aggregate_from [of checks] pass
    have "status_rank (cr_status r) \<le> 0" by force
    then show "cr_status r = Pass" by (cases "cr_status r") simp_all
  qed
next
  assume "\<forall>r \<in> set checks. cr_status r = Pass"
  with aggregate_from [of checks] show "aggregate_status checks = Pass" by auto
qed

lemma aggregate_Fail:
  assumes "\<forall>r \<in> set checks. cr_status r \<in> {Pass, Fail}" and "\<exists>r \<in> set checks. cr_status r = Fail"
  shows "aggregate_status checks = Fail"
proof -
  have "aggregate_status checks \<in> {Pass, Fail}"
    using aggregate_from [of checks] assms(1) by auto
  with aggregate_Pass [of checks] assms(2) show ?thesis by auto
qed

lemma aggregate_verdicts:
  assumes "map cr_status rs = map (\<lambda>x. if P x then Pass else Fail) xs"
  shows "exit_code_for_status (aggregate_status rs) = (if \<forall>x \<in> set xs. P x then 0 else 1)"
proof -
  have img: "cr_status ` set rs = (\<lambda>x. if P x then Pass else Fail) ` set xs"
    using arg_cong [OF assms, of set] by simp
  then have sub: "\<forall>r \<in> set rs. cr_status r \<in> {Pass, Fail}" by force
  have all: "(\<forall>r \<in> set rs. cr_status r = Pass) \<longleftrightarrow> (\<forall>x \<in> set xs. P x)"
  proof -
    have "(\<forall>r \<in> set rs. cr_status r = Pass) \<longleftrightarrow> (\<forall>y \<in> cr_status ` set rs. y = Pass)" by blast
    also have "\<dots> \<longleftrightarrow> (\<forall>x \<in> set xs. P x)" unfolding img by (auto split: if_splits)
    finally show ?thesis .
  qed
  show ?thesis
  proof (cases "\<forall>x \<in> set xs. P x")
    case True
    with all aggregate_Pass [of rs] show ?thesis by simp
  next
    case False
    with all sub have "\<exists>r \<in> set rs. cr_status r = Fail" by blast
    with aggregate_Fail [OF sub] False show ?thesis by simp
  qed
qed

section \<open>What an assertion means\<close>

text \<open>The transition system of a process of the program, when it compiles.\<close>

definition process_lts :: "cmodule \<Rightarrow> string \<Rightarrow> cspm_state transition_provider option" where
  "process_lts m name =
     (case find_process m name of
        None \<Rightarrow> None
      | Some e \<Rightarrow> (case from_module (m\<lparr>entry := Some e\<rparr>) of Some (Inr cp) \<Rightarrow> Some (provider_of cp) | _ \<Rightarrow> None))"

definition checkable :: "cspm_state transition_provider \<Rightarrow> bool" where
  "checkable provider \<longleftrightarrow> explorable provider \<and> coded_lts provider"

fun property_holds :: "property_kind \<Rightarrow> cspm_state transition_provider \<Rightarrow> bool" where
  "property_holds DeadlockFree p \<longleftrightarrow> (\<forall>s \<in> reached p. transitions p s \<noteq> Some [])"
| "property_holds DivergenceFree p \<longleftrightarrow> (\<forall>s \<in> reached p. \<not> diverges (transitions p) s)"
| "property_holds Deterministic p \<longleftrightarrow> (\<forall>s \<in> reached p. \<forall>l. \<not> conflict (transitions p) s l)"

fun assertion_holds :: "cmodule \<Rightarrow> assertion_decl \<Rightarrow> bool" where
  "assertion_holds m (PropertyAssert t k md) \<longleftrightarrow> (\<exists>p. process_lts m (node t) = Some p \<and> property_holds k p)"
| "assertion_holds m (RefinementAssert s op i) \<longleftrightarrow>
     (\<exists>p q. process_lts m (node s) = Some p \<and> process_lts m (node i) = Some q \<and> refines (model_of_op op) p q)"

fun assertion_processes :: "assertion_decl \<Rightarrow> string list" where
  "assertion_processes (PropertyAssert t k md) = [node t]"
| "assertion_processes (RefinementAssert s op i) = [node s, node i]"

definition assertion_finite :: "cmodule \<Rightarrow> assertion_decl \<Rightarrow> bool" where
  "assertion_finite m a \<longleftrightarrow> (\<forall>n \<in> set (assertion_processes a). \<exists>p. process_lts m n = Some p \<and> checkable p)"

text \<open>The three property checkers on a module with an entry.\<close>

fun property_checker :: "property_kind \<Rightarrow> check_request \<Rightarrow> cmodule \<Rightarrow> check_result option" where
  "property_checker DeadlockFree = deadlock_check"
| "property_checker DivergenceFree = divergence_check"
| "property_checker Deterministic = deterministic_check"

lemma property_checker_verdict:
  assumes cp: "from_module (m\<lparr>entry := Some e\<rparr>) = Some (Inr cp)" and ex: "explorable (provider_of cp)"
  shows "\<exists>r. property_checker k request (m\<lparr>entry := Some e\<rparr>) = Some r \<and>
    cr_status r = (if property_holds k (provider_of cp) then Pass else Fail)"
proof -
  have sel: "module_for_property_check (m\<lparr>entry := Some e\<rparr>) k' = m\<lparr>entry := Some e\<rparr>" for k'
    by (simp add: module_for_property_check_def)
  let ?m = "m\<lparr>entry := Some e\<rparr>"
  show ?thesis
  proof (cases k)
    case DeadlockFree
    with deadlock_verdict [OF ex, of request ?m] cp show ?thesis
      by (auto simp: deadlock_check_def run_property_check_def sel Let_def split: if_splits)
  next
    case DivergenceFree
    with divergence_verdict [OF ex, of request ?m] cp show ?thesis
      by (auto simp: divergence_check_def run_property_check_def sel Let_def split: if_splits)
  next
    case Deterministic
    with determinism_verdict [OF ex, of request ?m] cp show ?thesis
      by (auto simp: deterministic_check_def run_property_check_def sel Let_def split: if_splits)
  qed
qed

lemma process_ltsD:
  "process_lts m n = Some p \<Longrightarrow>
    \<exists>e cp. find_process m n = Some e \<and> from_module (m\<lparr>entry := Some e\<rparr>) = Some (Inr cp) \<and> p = provider_of cp"
  by (auto simp: process_lts_def split: option.splits sum.splits)

lemma run_assertion_property:
  "run_assertion m (PropertyAssert t k md) = run_property_assertion (property_checker k) m (node t)
     (node t @ '' :['' @ property_kind_str k @ '' ['' @ property_model_str md @ '']]'')"
  by (cases k) (simp_all add: Let_def run_deadlock_property_assertion_def run_divergence_property_assertion_def
      run_determinism_property_assertion_def)

lemma run_assertion_verdict:
  assumes "assertion_finite m a"
  shows "\<exists>r. run_assertion m a = Some r \<and> cr_status r = (if assertion_holds m a then Pass else Fail)"
proof (cases a)
  case (PropertyAssert t k md)
  with assms obtain p where p: "process_lts m (node t) = Some p" "checkable p" by (auto simp: assertion_finite_def)
  from process_ltsD [OF p(1)] obtain e cp where e: "find_process m (node t) = Some e"
    "from_module (m\<lparr>entry := Some e\<rparr>) = Some (Inr cp)" "p = provider_of cp" by blast
  from property_checker_verdict [OF e(2), of k] p(2) e(3) show ?thesis
    unfolding PropertyAssert run_assertion_property
    by (simp add: run_property_assertion_def e(1) checkable_def p(1))
next
  case (RefinementAssert s op i)
  with assms obtain p q where p: "process_lts m (node s) = Some p" "checkable p"
    and q: "process_lts m (node i) = Some q" "checkable q" by (auto simp: assertion_finite_def)
  from process_ltsD [OF p(1)] obtain e cp where e: "find_process m (node s) = Some e"
    "from_module (m\<lparr>entry := Some e\<rparr>) = Some (Inr cp)" "p = provider_of cp" by blast
  from process_ltsD [OF q(1)] obtain f cq where f: "find_process m (node i) = Some f"
    "from_module (m\<lparr>entry := Some f\<rparr>) = Some (Inr cq)" "q = provider_of cq" by blast
  have "coded_lts (provider_of cp)" "coded_lts (provider_of cq)" using p q e f by (simp_all add: checkable_def)
  from refinement_check_modules [of "\<lparr>ri_spec = m\<lparr>entry := Some e\<rparr>, ri_impl = m\<lparr>entry := Some f\<rparr>\<rparr>", simplified,
      OF e(2) f(2) this refl] show ?thesis
    unfolding RefinementAssert using p(1) q(1) e f
    by (force simp: run_refinement_assertion_def)
qed

lemma run_assertions_verdict:
  "\<forall>a \<in> set as. assertion_finite m a \<Longrightarrow>
    \<exists>rs. run_assertions m as = Some rs \<and> map cr_status rs = map (\<lambda>a. if assertion_holds m a then Pass else Fail) as"
proof (induction as)
  case (Cons a as)
  from run_assertion_verdict [of m a] Cons show ?case by fastforce
qed simp

section \<open>The commands\<close>

text \<open>The options of a run that starts: enough threads, and a seed when it is to be deterministic.\<close>

definition options_ok :: "cli \<Rightarrow> bool" where
  "options_ok c \<longleftrightarrow> cli_parallel c \<noteq> 0 \<and> (cli_deterministic c \<longrightarrow> cli_seed c \<noteq> None)"

lemma execute_command:
  assumes "options_ok c"
    and "run_command env c (case cli_seed c of None \<Rightarrow> 0 | Some s \<Rightarrow> s) (cli_command c) = Some (name, args, inputs, checks, prof)"
  shows "\<exists>out. execute env c = Some (Inr out) \<and> ex_checks out = checks \<and> ex_status out = aggregate_status checks \<and>
    ex_exit_code out = exit_code_for_status (aggregate_status checks) \<and> ex_inputs out = inputs \<and> ex_profile out = prof"
  using assms by (auto simp: execute_def options_ok_def Let_def)

definition readable :: "cli_env \<Rightarrow> string \<Rightarrow> string \<Rightarrow> bool" where
  "readable env p src \<longleftrightarrow> read_bytes env p = Inr src \<and> utf8_valid src"

lemma readable_inputs: "readable env p src \<Longrightarrow> build_inputs env [p] = ([\<lparr>ii_path = p, ii_sha256 = sha256_hex env src\<rparr>], None)"
  by (simp add: readable_def build_inputs_def compute_sha256_def)

lemma readable_inputs2:
  "readable env p src \<Longrightarrow> readable env q src' \<Longrightarrow> snd (build_inputs env [p, q]) = None"
  by (simp add: readable_def build_inputs_def compute_sha256_def)

lemma readable_text: "readable env p src \<Longrightarrow> read_to_string env p = Inr src"
  by (simp add: readable_def read_to_string_def)

lemma all_assertions_run:
  assumes c: "options_ok c" "cli_command c = CheckCommand \<lparr>ca_assert = None, ca_all_assertions = True, ca_file = p\<rparr>"
    and rd: "readable env p src" "parse_and_typecheck_module src p = Some (Inr m)"
    and as: "assertions m \<noteq> []" "\<forall>a \<in> set (assertions m). assertion_finite m a"
  shows "\<exists>out. execute env c = Some (Inr out) \<and>
    map cr_status (ex_checks out) = map (\<lambda>a. if assertion_holds m a then Pass else Fail) (assertions m) \<and>
    ex_exit_code out = (if \<forall>a \<in> set (assertions m). assertion_holds m a then 0 else 1)"
proof -
  from run_assertions_verdict [OF as(2)] obtain rs where rs: "run_assertions m (assertions m) = Some rs"
    "map cr_status rs = map (\<lambda>a. if assertion_holds m a then Pass else Fail) (assertions m)" by blast
  have "run_command env c (case cli_seed c of None \<Rightarrow> 0 | Some s \<Rightarrow> s) (cli_command c) =
      Some (''check'', [p], [\<lparr>ii_path = p, ii_sha256 = sha256_hex env src\<rparr>], rs, None)"
    using rs(1) as(1) rd(2)
    by (simp add: c(2) readable_inputs [OF rd(1)] run_all_assertions_def parse_module_for_check_def
        readable_text [OF rd(1)])
  from execute_command [OF c(1) this] aggregate_verdicts [OF rs(2)] rs(2) show ?thesis by auto
qed

lemma refine_run:
  assumes c: "options_ok c" "cli_command c = RefineCommand \<lparr>ra_model = md, ra_spec = p, ra_impl = q\<rparr>"
    and spec: "readable env p src" "parse_and_typecheck_module src p = Some (Inr m)" "from_module m = Some (Inr sp)"
    and impl: "readable env q src'" "parse_and_typecheck_module src' q = Some (Inr m')" "from_module m' = Some (Inr ip)"
    and coded: "coded_lts (provider_of sp)" "coded_lts (provider_of ip)"
  shows "\<exists>out. execute env c = Some (Inr out) \<and>
    ex_exit_code out = (if refines (model_of_arg md) (provider_of sp) (provider_of ip) then 0 else 1)"
proof -
  let ?req = "\<lparr>rq_command = RefineCmd, rq_model = Some (model_of_arg md), rq_target = Some (p @ '' '' @ q)\<rparr>"
  from refinement_check_modules [of "\<lparr>ri_spec = m, ri_impl = m'\<rparr>", simplified, OF spec(3) impl(3) coded refl, of ?req]
  obtain r where r: "refinement_check ?req \<lparr>ri_spec = m, ri_impl = m'\<rparr> = Some r"
    "cr_status r = (if refines (model_of_arg md) (provider_of sp) (provider_of ip) then Pass else Fail)" by auto
  obtain inputs where inputs: "build_inputs env [p, q] = (inputs, None)"
    using readable_inputs2 [OF spec(1) impl(1)] by (metis prod.collapse)
  have "run_command env c (case cli_seed c of None \<Rightarrow> 0 | Some s \<Rightarrow> s) (cli_command c) =
      Some (''refine'', [p, q], inputs, [r], None)"
    using r(1) by (simp add: c(2) inputs run_refine_check_def Let_def readable_text [OF spec(1)] readable_text [OF impl(1)]
        spec(2) impl(2))
  from execute_command [OF c(1) this] r(2) show ?thesis by (auto simp: aggregate_status_def)
qed

text \<open>Some check is made by every command that starts.\<close>

lemma run_assertions_length: "run_assertions m as = Some rs \<Longrightarrow> length rs = length as"
  by (induction as arbitrary: rs) (auto split: option.splits)

lemma run_command_checks:
  "run_command env c sd cmd = Some (name, args, inputs, checks, prof) \<Longrightarrow> checks \<noteq> []"
  by (cases cmd)
    (auto simp: run_all_assertions_def split: prod.splits option.splits sum.splits if_splits dest!: run_assertions_length)

lemma execute_checks:
  assumes "execute env c = Some (Inr out)"
  shows "options_ok c \<and> ex_checks out \<noteq> [] \<and> ex_status out = aggregate_status (ex_checks out) \<and>
    ex_exit_code out = exit_code_for_status (ex_status out)"
  using assms run_command_checks by (fastforce simp: execute_def options_ok_def Let_def split: if_splits)

section \<open>A run\<close>

text \<open>The program of the witnesses: a process that stops, with one assertion that fails and one that holds.\<close>

declare parse_items.simps [code] skip_until_line_end.simps [code]

definition stop_source :: string where
  "stop_source = ''P = STOP'' @ [newline] @ ''assert P :[deadlock free [F]]'' @ [newline] @
     ''assert P :[divergence free [FD]]'' @ [newline]"

definition stop_path :: string where
  "stop_path = ''stop.cspm''"

definition stop_span :: "u32 \<Rightarrow> u32 \<Rightarrow> u32 \<Rightarrow> source_span" where
  "stop_span l c d = \<lparr>path = stop_path, start_line = l, start_col = c, end_line = l, end_col = d\<rparr>"

definition stop_program :: cmodule where
  "stop_program =
     \<lparr>channels = [],
      declarations = [\<lparr>decl_name = Spanned ''P'' (stop_span 1 1 1), decl_expr = Spanned Stop (stop_span 1 5 8)\<rparr>],
      assertions = [PropertyAssert (Spanned ''P'' (stop_span 2 8 8)) DeadlockFree PropF,
        PropertyAssert (Spanned ''P'' (stop_span 3 8 8)) DivergenceFree PropFD],
      entry = None\<rparr>"

definition stop_env :: cli_env where
  "stop_env = \<lparr>read_bytes = (\<lambda>p. if p = stop_path then Inr stop_source else Inl ''not found''),
     sha256_hex = (\<lambda>_. ''0''), state_pool = \<lparr>pool_build = \<lambda>n. None, par_map = map_opt\<rparr>,
     chunk_pool = \<lparr>pool_build = \<lambda>n. None, par_map = map_opt\<rparr>\<rparr>"

definition stop_cli :: "command \<Rightarrow> cli" where
  "stop_cli cmd = \<lparr>cli_command = cmd, cli_format = Json, cli_output = None, cli_summary_json = None,
     cli_timeout_ms = None, cli_memory_mb = None, cli_parallel = 1, cli_deterministic = False, cli_seed = None,
     cli_explore_profile = False\<rparr>"

lemma stop_options: "options_ok (stop_cli cmd)"
  by (simp add: options_ok_def stop_cli_def)

lemma stop_readable: "readable stop_env stop_path stop_source"
proof -
  have "utf8_valid stop_source" by code_simp
  then show ?thesis by (simp add: readable_def stop_env_def)
qed

lemma stop_parses: "parse_and_typecheck_module stop_source stop_path = Some (Inr stop_program)"
  by code_simp

lemma stop_program_entry: "from_module (stop_program\<lparr>entry := Some (Spanned Stop (stop_span 1 5 8))\<rparr>) = Some (Inr stop_provider)"
  by code_simp

lemma stop_program_module: "from_module stop_program = Some (Inr stop_provider)"
  by code_simp

lemma stop_lts: "process_lts stop_program ''P'' = Some (provider_of stop_provider)"
proof -
  have "find_process stop_program ''P'' = Some (Spanned Stop (stop_span 1 5 8))" by code_simp
  then show ?thesis by (simp add: process_lts_def stop_program_entry)
qed

lemma stop_assertions: "assertions stop_program = [PropertyAssert (Spanned ''P'' (stop_span 2 8 8)) DeadlockFree PropF,
    PropertyAssert (Spanned ''P'' (stop_span 3 8 8)) DivergenceFree PropFD]"
  by (simp add: stop_program_def)

lemma stop_initial: "initial_state (provider_of stop_provider) = SExpr 0 []"
  by code_simp

lemma stop_reached: "reached (provider_of stop_provider) = {SExpr 0 []}"
proof -
  have "reachable (transitions (provider_of stop_provider)) (SExpr 0 []) \<subseteq> {SExpr 0 []}"
    by (rule reachable_closed) (auto simp: succs_def stop_transitions)
  then show ?thesis by (auto simp: reached_def stop_initial)
qed

lemma stop_checkable: "checkable (provider_of stop_provider)"
proof -
  have "explorable (provider_of stop_provider)"
    by (rule explorableI [of "{SExpr 0 []}"]) (auto simp: stop_initial stop_transitions)
  then show ?thesis by (simp add: checkable_def stop_coded)
qed

section \<open>Properties\<close>

text \<open>C35: a run that starts makes at least one check; its status is the status of a check, and no check has a
  worse one; the exit code is 0 exactly when every check passed.\<close>

theorem exit_code_worst:
  assumes "execute env c = Some (Inr out)"
  shows "ex_status out \<in> cr_status ` set (ex_checks out) \<and>
    (\<forall>r \<in> set (ex_checks out). status_rank (cr_status r) \<le> status_rank (ex_status out)) \<and>
    ex_exit_code out = exit_code_for_status (ex_status out) \<and>
    (ex_exit_code out = 0 \<longleftrightarrow> (\<forall>r \<in> set (ex_checks out). cr_status r = Pass))"
  using execute_checks [OF assms] aggregate_status_worst [of "ex_checks out"] aggregate_Pass [of "ex_checks out"] by simp

theorem exit_code_worst_witness:
  "\<exists>out. execute stop_env (stop_cli (RefineCommand \<lparr>ra_model = ArgT, ra_spec = stop_path, ra_impl = ''none''\<rparr>)) = Some (Inr out) \<and>
    ex_exit_code out = 2 \<and> ex_status out \<in> cr_status ` set (ex_checks out)"
proof -
  obtain out where out: "execute stop_env (stop_cli (RefineCommand \<lparr>ra_model = ArgT, ra_spec = stop_path, ra_impl = ''none''\<rparr>)) =
      Some (Inr out)" "ex_exit_code out = 2"
    by (simp add: execute_def stop_cli_def stop_env_def build_inputs_def compute_sha256_def run_refine_check_def
        error_check_def aggregate_status_def stop_path_def)
  with exit_code_worst [OF out(1)] show ?thesis by blast
qed

text \<open>C36: on a readable program that the frontend accepts, with at least one assertion and finite asserted
  processes, \<^verbatim>\<open>check --all-assertions\<close> returns, reports each assertion as holding or failing as it does, and exits with
  0 when all hold and with 1 otherwise.\<close>

theorem check_all_assertions_correct:
  assumes "options_ok c" and "cli_command c = CheckCommand \<lparr>ca_assert = None, ca_all_assertions = True, ca_file = p\<rparr>"
    and "readable env p src" and "parse_and_typecheck_module src p = Some (Inr m)"
    and "assertions m \<noteq> []" and "\<forall>a \<in> set (assertions m). assertion_finite m a"
  shows "\<exists>out. execute env c = Some (Inr out) \<and>
    map cr_status (ex_checks out) = map (\<lambda>a. if assertion_holds m a then Pass else Fail) (assertions m) \<and>
    ex_exit_code out = (if \<forall>a \<in> set (assertions m). assertion_holds m a then 0 else 1)"
  by (rule all_assertions_run [OF assms])

theorem check_all_assertions_correct_witness:
  "\<exists>out. execute stop_env (stop_cli (CheckCommand \<lparr>ca_assert = None, ca_all_assertions = True, ca_file = stop_path\<rparr>)) =
      Some (Inr out) \<and> map cr_status (ex_checks out) = [Fail, Pass] \<and> ex_exit_code out = 1"
proof -
  have fin: "assertion_finite stop_program a" if "a \<in> set (assertions stop_program)" for a
    using that stop_checkable by (auto simp: assertion_finite_def stop_assertions stop_lts)
  have ne: "assertions stop_program \<noteq> []" by (simp add: stop_assertions)
  have "\<not> diverges (transitions (provider_of stop_provider)) (SExpr 0 [])"
  proof
    assume "diverges (transitions (provider_of stop_provider)) (SExpr 0 [])"
    then obtain f where "f 0 = SExpr 0 []" "tr_step (transitions (provider_of stop_provider)) (f 0) tau (f (Suc 0))"
      unfolding diverges_def by blast
    then show False by (simp add: tr_step_def stop_transitions)
  qed
  then have holds: "map (\<lambda>a. if assertion_holds stop_program a then Pass else Fail) (assertions stop_program) = [Fail, Pass]"
    "\<not> (\<forall>a \<in> set (assertions stop_program). assertion_holds stop_program a)"
    by (simp_all add: stop_assertions stop_lts stop_reached stop_transitions)
  obtain out where "execute stop_env (stop_cli (CheckCommand \<lparr>ca_assert = None, ca_all_assertions = True, ca_file = stop_path\<rparr>)) =
      Some (Inr out)"
    "map cr_status (ex_checks out) = map (\<lambda>a. if assertion_holds stop_program a then Pass else Fail) (assertions stop_program)"
    "ex_exit_code out = (if \<forall>a \<in> set (assertions stop_program). assertion_holds stop_program a then 0 else 1)"
    using check_all_assertions_correct [OF stop_options _ stop_readable stop_parses ne] fin by (auto simp: stop_cli_def)
  with holds show ?thesis by auto
qed

text \<open>C37: on two readable programs that compile to finite systems, \<^verbatim>\<open>refine\<close> exits with 0 when the second
  refines the first in the chosen model, and with 1 otherwise.\<close>

theorem refine_command_correct:
  assumes "options_ok c" and "cli_command c = RefineCommand \<lparr>ra_model = md, ra_spec = p, ra_impl = q\<rparr>"
    and "readable env p src" and "parse_and_typecheck_module src p = Some (Inr m)" and "from_module m = Some (Inr sp)"
    and "readable env q src'" and "parse_and_typecheck_module src' q = Some (Inr m')" and "from_module m' = Some (Inr ip)"
    and "coded_lts (provider_of sp)" and "coded_lts (provider_of ip)"
  shows "\<exists>out. execute env c = Some (Inr out) \<and>
    ex_exit_code out = (if refines (model_of_arg md) (provider_of sp) (provider_of ip) then 0 else 1)"
  by (rule refine_run [OF assms])

theorem refine_command_correct_witness:
  "\<exists>out. execute stop_env (stop_cli (RefineCommand \<lparr>ra_model = ArgFD, ra_spec = stop_path, ra_impl = stop_path\<rparr>)) =
      Some (Inr out) \<and> ex_exit_code out = 0"
proof -
  have "refines (model_of_arg ArgFD) (provider_of stop_provider) (provider_of stop_provider)"
    by (simp add: refines_def refines_FD_def)
  with refine_command_correct [OF stop_options _ stop_readable stop_parses stop_program_module stop_readable stop_parses
      stop_program_module stop_coded stop_coded, of _ ArgFD]
  show ?thesis by (auto simp: stop_cli_def)
qed


end
