(* ===== verification/Cspx_Report.thy ===== *)
theory Cspx_Report
  imports Cspx_Cli Cspx_Disk_Crash
begin

text \<open>
  What the command line tool reports (\<^verbatim>\<open>crates/cspx-cli/src/main.rs\<close>): the metrics, the summary, and the files it
  writes. The results: the totals are the saturated sums of the checks, the text of the summary is cut at a character
  boundary, and a crash or an error of the operating system while the reports are written leaves in each file the
  previous report or the whole new one. The calls of the operating system that fail are a parameter. Not modelled:
  the clock, the serialisation to JSON (a parameter) and the division of floating-point numbers. Two texts of a path
  are two files.
\<close>

section \<open>Metrics\<close>

record hotspot_times =
  state_generation_ns :: u64
  visited_insert_ns :: u64
  frontier_maintenance_ns :: u64
  estimated_wait_ns :: u64

text \<open>The ratio of an entry is kept as its two terms, the time of the phase and the total.\<close>

record hotspot_entry =
  he_priority :: u8
  he_phase :: string
  he_time_ms :: u64
  he_ratio :: "u64 \<times> u64"

definition ns_to_ms :: "u64 \<Rightarrow> u64" where
  "ns_to_ms v = (if v = 0 then 0 else sat_add v 999999 div 1000000)"

definition hotspot_phases :: "hotspot_times \<Rightarrow> (string \<times> u64) list" where
  "hotspot_phases t =
     sort_key (\<lambda>(_, ns). - 1 - ns)
       (filter (\<lambda>(_, ns). ns > 0)
         [(''state_generation'', state_generation_ns t), (''visited_insert'', visited_insert_ns t),
          (''frontier_maintenance'', frontier_maintenance_ns t), (''estimated_wait'', estimated_wait_ns t)])"

definition build_hotspots :: "hotspot_times \<Rightarrow> hotspot_entry list" where
  "build_hotspots t =
     (let phases = hotspot_phases t; total_ns = foldl (\<lambda>sum (_, ns). sat_add sum ns) 0 phases
      in map (\<lambda>(i, (phase, ns)).
           \<lparr>he_priority = of_nat (i + 1), he_phase = phase, he_time_ms = ns_to_ms ns, he_ratio = (ns, total_ns)\<rparr>)
         (enumerate 0 phases))"

fun explore_mode_name :: "explore_profile_mode \<Rightarrow> string" where
  "explore_mode_name SerialMode = ''serial''"
| "explore_mode_name ParallelMode = ''parallel''"
| "explore_mode_name ParallelDeterministicMode = ''parallel_deterministic''"

record result_metrics =
  rm_states :: "u64 option"
  rm_transitions :: "u64 option"
  rm_wall_time_ms :: u64
  rm_threads :: nat
  rm_deterministic :: bool
  rm_seed :: u64

definition build_metrics :: "check_result list \<Rightarrow> u64 \<Rightarrow> invocation \<Rightarrow> result_metrics" where
  "build_metrics checks duration_ms iv =
     \<lparr>rm_states = aggregate_stats checks st_states, rm_transitions = aggregate_stats checks st_transitions,
      rm_wall_time_ms = duration_ms, rm_threads = iv_parallel iv, rm_deterministic = iv_deterministic iv,
      rm_seed = iv_seed iv\<rparr>"

record result_json =
  rj_schema_version :: string
  rj_invocation :: invocation
  rj_inputs :: "input_info list"
  rj_status :: status
  rj_exit_code :: int
  rj_finished_at :: string
  rj_checks :: "check_result list"
  rj_metrics :: result_metrics

section \<open>The summary\<close>

fun status_label :: "status \<Rightarrow> string" where
  "status_label Pass = ''pass''"
| "status_label Fail = ''fail''"
| "status_label Unsupported = ''unsupported''"
| "status_label Timeout = ''timeout''"
| "status_label OutOfMemory = ''out_of_memory''"
| "status_label ErrorStatus = ''error''"

fun summary_status_label :: "status \<Rightarrow> string" where
  "summary_status_label Pass = ''ran''"
| "summary_status_label Fail = ''failed''"
| "summary_status_label Unsupported = ''unsupported''"
| "summary_status_label Timeout = ''timeout''"
| "summary_status_label OutOfMemory = ''out_of_memory''"
| "summary_status_label ErrorStatus = ''error''"

fun reason_kind_label :: "reason_kind \<Rightarrow> string" where
  "reason_kind_label NotImplemented = ''not_implemented''"
| "reason_kind_label UnsupportedSyntaxReason = ''unsupported_syntax''"
| "reason_kind_label InvalidInputReason = ''invalid_input''"
| "reason_kind_label InternalError = ''internal_error''"
| "reason_kind_label TimeoutReason = ''timeout''"
| "reason_kind_label OutOfMemoryReason = ''out_of_memory''"

definition summary_mode :: "string \<Rightarrow> string" where
  "summary_mode name =
     (if name = ''typecheck'' then ''typecheck''
      else if name = ''check'' then ''assertions''
      else if name = ''refine'' then ''refine''
      else ''unknown'')"

text \<open>The characters of a text: a byte that starts one and the continuation bytes after it.\<close>

function utf8_chars :: "string \<Rightarrow> string list" where
  "utf8_chars [] = []"
| "utf8_chars (c # cs) = (c # takeWhile utf8_cont cs) # utf8_chars (dropWhile utf8_cont cs)"
  by pat_completeness auto

termination
  by (relation "measure length") (simp_all add: le_imp_less_Suc length_dropWhile_le)

definition ellipsis :: string where
  "ellipsis = [CHR 0xE2, CHR 0x80, CHR 0xA6]"

fun clamp_loop :: "nat \<Rightarrow> nat \<Rightarrow> string list \<Rightarrow> string \<Rightarrow> string" where
  "clamp_loop max_chars idx [] out = out"
| "clamp_loop max_chars idx (ch # chs) out =
     (if idx \<ge> max_chars then out @ ellipsis else clamp_loop max_chars (idx + 1) chs (out @ ch))"

definition clamp_text :: "string \<Rightarrow> nat \<Rightarrow> string" where
  "clamp_text text max_chars = clamp_loop max_chars 0 (utf8_chars text) ''''"

definition reason_suffix :: "check_result list \<Rightarrow> string" where
  "reason_suffix checks =
     (case List.map_filter cr_reason checks of
        [] \<Rightarrow> ''''
      | r # _ \<Rightarrow>
          '' reason='' @ reason_kind_label (reason_kind r) @
          (case reason_message r of None \<Rightarrow> '''' | Some message \<Rightarrow> '':'' @ concat (take 120 (utf8_chars message))))"

definition summarize_result_for_summary :: "result_json \<Rightarrow> string" where
  "summarize_result_for_summary r =
     (let checks_line =
            (if rj_checks r = [] then ''checks=n/a''
             else ''checks='' @ join '','' (map (\<lambda>check. cr_name check @ '':'' @ status_label (cr_status check)) (rj_checks r)))
      in ''cspx schema='' @ rj_schema_version r @ '' status='' @ status_label (rj_status r) @ '' exit_code='' @
         show_nat (nat (rj_exit_code r)) @ '' '' @ checks_line @ reason_suffix (rj_checks r))"

record csp_summary =
  cs_tool :: string
  cs_file :: string
  cs_backend :: string
  cs_details_file :: "string option"
  cs_result_status :: "string option"
  cs_ran :: bool
  cs_status :: string
  cs_exit_code :: int
  cs_timestamp :: string
  cs_output :: string

definition build_summary :: "result_json \<Rightarrow> string option \<Rightarrow> output_format \<Rightarrow> csp_summary" where
  "build_summary r output_path format =
     \<lparr>cs_tool = ''csp'', cs_file = (case rj_inputs r of [] \<Rightarrow> '''' | i # _ \<Rightarrow> ii_path i),
      cs_backend = ''cspx:'' @ summary_mode (iv_command (rj_invocation r)),
      cs_details_file = (if format = Json then output_path else None),
      cs_result_status = Some (status_label (rj_status r)), cs_ran = True,
      cs_status = summary_status_label (rj_status r), cs_exit_code = rj_exit_code r,
      cs_timestamp = rj_finished_at r, cs_output = clamp_text (summarize_result_for_summary r) 4000\<rparr>"

section \<open>Paths\<close>

text \<open>\<^verbatim>\<open>Path::components\<close> from the end: separators and components \<^verbatim>\<open>.\<close> at the end of a path are passed over, down
  to a root or a leading \<^verbatim>\<open>.\<close>, which are no part of the body.\<close>

definition before_body :: "string \<Rightarrow> nat" where
  "before_body p = (if take 1 p = ''/'' \<or> p = ''.'' \<or> take 2 p = ''./'' then 1 else 0)"

lemma split_name_length: "split_name p = (dir, name) \<Longrightarrow> length dir + length name = length p"
proof -
  assume p: "split_name p = (dir, name)"
  have "length (takeWhile (\<lambda>c. c \<noteq> CHR ''/'') (rev p)) \<le> length p" by (metis length_rev length_takeWhile_le)
  with p show ?thesis by (auto simp: split_name_def Let_def)
qed

function trim_right :: "string \<Rightarrow> string" where
  "trim_right body =
     (if body = '''' then ''''
      else case split_name body of
             (dir, name) \<Rightarrow> if name = '''' \<or> name = ''.'' then trim_right (butlast dir) else body)"
  by auto

termination
  by (relation "measure length") (auto dest!: split_name_length [OF sym])

declare trim_right.simps [simp del]

text \<open>\<^verbatim>\<open>Path::file_name\<close> and \<^verbatim>\<open>Path::parent\<close> as the last name and what is before it.\<close>

definition split_path :: "string \<Rightarrow> string \<times> string" where
  "split_path p =
     (let n = before_body p
      in case split_name (trim_right (drop n p)) of (dir, name) \<Rightarrow> (take n p @ trim_right dir, name))"

definition path_file_name :: "string \<Rightarrow> string option" where
  "path_file_name p = (let name = snd (split_path p) in if name = '''' \<or> name = ''..'' then None else Some name)"

definition path_push :: "string \<Rightarrow> string \<Rightarrow> string" where
  "path_push p name = (if p = '''' \<or> last p = CHR ''/'' then p @ name else p @ ''/'' @ name)"

definition with_file_name :: "string \<Rightarrow> string \<Rightarrow> string" where
  "with_file_name p name =
     (case path_file_name p of None \<Rightarrow> path_push p name | Some _ \<Rightarrow> path_push (fst (split_path p)) name)"

section \<open>Writing the reports\<close>

text \<open>What the operating system lets happen of a write through a temporary file: the file cannot be created, its text
  is cut short, it cannot be renamed (as to a path that ends with a separator), or nothing fails.\<close>

datatype write_fault = NoWriteFault | CreateFails | WriteFails nat | RenameFails

text \<open>The name of the temporary file has the process and the time.\<close>

definition temp_name :: "u32 \<Rightarrow> nat \<Rightarrow> string \<Rightarrow> string" where
  "temp_name pid nanos name = name @ ''.tmp.'' @ show_u32 pid @ ''.'' @ show_nat nanos"

definition write_atomic ::
  "u32 \<Rightarrow> nat \<Rightarrow> write_fault \<Rightarrow> string \<Rightarrow> string \<Rightarrow> (string + unit) \<times> fs_action list" where
  "write_atomic pid nanos fault p contents =
     (case path_file_name p of
        None \<Rightarrow> (Inl ''output path must include a file name'', [])
      | Some file_name \<Rightarrow>
          (let tmp = with_file_name p (temp_name pid nanos file_name)
           in case fault of
                CreateFails \<Rightarrow> (Inl (''write '' @ tmp), [])
              | WriteFails j \<Rightarrow> (Inl (''write '' @ tmp), [CreateTruncate tmp, WriteEnd tmp (take j contents)])
              | RenameFails \<Rightarrow> (Inl (''rename '' @ p), [CreateTruncate tmp, WriteEnd tmp contents])
              | NoWriteFault \<Rightarrow> (Inr (), [CreateTruncate tmp, WriteEnd tmp contents, RenameFile tmp p])))"

definition emit_text_line :: "result_json \<Rightarrow> string" where
  "emit_text_line r = ''status='' @ status_label (rj_status r) @ '' exit_code='' @ show_nat (nat (rj_exit_code r))"

text \<open>Standard output and the actions on files.\<close>

record emission =
  em_stdout :: string
  em_actions :: "fs_action list"

definition emit :: "u32 \<Rightarrow> nat \<Rightarrow> write_fault \<Rightarrow> string option \<Rightarrow> string \<Rightarrow> (string + unit) \<times> emission" where
  "emit pid nanos fault output payload =
     (case output of
        Some p \<Rightarrow>
          (case write_atomic pid nanos fault p payload of (r, acts) \<Rightarrow> (r, \<lparr>em_stdout = '''', em_actions = acts\<rparr>))
      | None \<Rightarrow> (Inr (), \<lparr>em_stdout = payload @ [newline], em_actions = []\<rparr>))"

record report_env =
  result_to_json :: "result_json \<Rightarrow> string"
  summary_to_json :: "csp_summary \<Rightarrow> string"
  now :: string
  elapsed_ms :: u64
  process_id :: u32
  nanos_result :: nat
  nanos_summary :: nat
  fault_result :: write_fault
  fault_summary :: write_fault

definition build_result :: "report_env \<Rightarrow> execute_output \<Rightarrow> result_json" where
  "build_result renv out =
     \<lparr>rj_schema_version = ''0.1'', rj_invocation = ex_invocation out, rj_inputs = ex_inputs out,
      rj_status = ex_status out, rj_exit_code = ex_exit_code out, rj_finished_at = now renv, rj_checks = ex_checks out,
      rj_metrics = build_metrics (ex_checks out) (elapsed_ms renv) (ex_invocation out)\<rparr>"

text \<open>An error leaves what was written before it.\<close>

definition run :: "cli_env \<Rightarrow> report_env \<Rightarrow> cli \<Rightarrow> ((string + int) \<times> emission) option" where
  "run env renv c =
     map_option (\<lambda>r. case r of
         Inl e \<Rightarrow> (Inl e, \<lparr>em_stdout = '''', em_actions = []\<rparr>)
       | Inr out \<Rightarrow>
           (let result = build_result renv out;
                payload = (case cli_format c of Json \<Rightarrow> result_to_json renv result | Text \<Rightarrow> emit_text_line result)
            in case emit (process_id renv) (nanos_result renv) (fault_result renv) (cli_output c) payload of
                 (Inl e, e1) \<Rightarrow> (Inl e, e1)
               | (Inr _, e1) \<Rightarrow>
                   (case cli_summary_json c of
                      None \<Rightarrow> (Inr (ex_exit_code out), e1)
                    | Some p \<Rightarrow>
                        (case write_atomic (process_id renv) (nanos_summary renv) (fault_summary renv) p
                            (summary_to_json renv (build_summary result (cli_output c) (cli_format c))) of
                           (r2, acts) \<Rightarrow>
                             (and_then r2 (\<lambda>_. Inr (ex_exit_code out)),
                              e1\<lparr>em_actions := em_actions e1 @ acts\<rparr>)))))
       (execute env c)"

text \<open>The exit code of the process.\<close>

definition main_exit_code :: "cli_env \<Rightarrow> report_env \<Rightarrow> cli \<Rightarrow> int option" where
  "main_exit_code env renv c = map_option (\<lambda>(r, _). case r of Inr code \<Rightarrow> code | Inl e \<Rightarrow> 2) (run env renv c)"

section \<open>Totals\<close>

text \<open>The totals of the metrics.\<close>

lemma aggregate_stats_loop_sum:
  "aggregate_stats_loop select checks (sat_of_nat n) =
     (if \<forall>c \<in> set checks. \<exists>st. cr_stats c = Some st \<and> select st \<noteq> None
      then Some (sat_of_nat (n + (\<Sum>c \<leftarrow> checks. unat (the (select (the (cr_stats c)))))))
      else None)"
proof (induction checks arbitrary: n)
  case (Cons c checks)
  show ?case
  proof (cases "\<exists>st v. cr_stats c = Some st \<and> select st = Some v")
    case True
    then obtain st v where st: "cr_stats c = Some st" "select st = Some v" by blast
    have "sat_add (sat_of_nat n) v = sat_of_nat (n + unat v)"
      using sat_add_sat_of_nat [of "unat v" n] unsigned_less [of v, where ?'a = nat] by simp
    with Cons.IH [of "n + unat v"] st show ?thesis by (simp add: add.assoc)
  qed (auto split: option.splits)
qed simp

lemma aggregate_stats_sum:
  "aggregate_stats checks select =
     (if \<forall>c \<in> set checks. \<exists>st. cr_stats c = Some st \<and> select st \<noteq> None
      then Some (sat_of_nat (\<Sum>c \<leftarrow> checks. unat (the (select (the (cr_stats c)))))) else None)"
  using aggregate_stats_loop_sum [of select checks 0] by (simp add: aggregate_stats_def)

section \<open>Characters\<close>

lemma concat_utf8_chars: "concat (utf8_chars s) = s"
  by (induction s rule: utf8_chars.induct) simp_all

lemma utf8_chars_append:
  "t = [] \<or> \<not> utf8_cont (hd t) \<Longrightarrow> utf8_chars (s @ t) = utf8_chars s @ utf8_chars t"
proof (induction s rule: utf8_chars.induct)
  case (2 c cs)
  have "takeWhile utf8_cont (cs @ t) = takeWhile utf8_cont cs"
  proof (cases "\<forall>x \<in> set cs. utf8_cont x")
    case True
    then have w: "takeWhile utf8_cont cs = cs" by (simp add: takeWhile_eq_all_conv)
    from 2(2) True show ?thesis unfolding w by (cases t) (simp_all add: takeWhile_append2)
  next
    case False
    then show ?thesis by (metis takeWhile_append1)
  qed
  moreover have "dropWhile utf8_cont (cs @ t) = dropWhile utf8_cont cs @ t"
  proof (cases "\<forall>x \<in> set cs. utf8_cont x")
    case True
    then have w: "dropWhile utf8_cont cs = []" by (simp add: dropWhile_eq_Nil_conv)
    from 2(2) True show ?thesis unfolding w by (cases t) (simp_all add: dropWhile_append2)
  next
    case False
    then show ?thesis by (metis dropWhile_append1)
  qed
  ultimately show ?case using 2 by simp
qed simp

lemma utf8_chars_char: "list_all utf8_cont ks \<Longrightarrow> utf8_chars (c # ks) = [c # ks]"
proof -
  assume "list_all utf8_cont ks"
  then have "takeWhile utf8_cont ks = ks" "dropWhile utf8_cont ks = []"
    by (simp_all add: list_all_iff takeWhile_eq_all_conv dropWhile_eq_Nil_conv)
  then show ?thesis by (simp only: utf8_chars.simps)
qed

lemma utf8_chars_prefix: "utf8_chars (concat (take n (utf8_chars s))) = take n (utf8_chars s)"
proof (induction s arbitrary: n rule: utf8_chars.induct)
  case (2 c cs)
  show ?case
  proof (cases n)
    case (Suc k)
    let ?t = "concat (take k (utf8_chars (dropWhile utf8_cont cs)))"
    have "?t = [] \<or> \<not> utf8_cont (hd ?t)"
    proof (cases "dropWhile utf8_cont cs")
      case (Cons d ds)
      then have "\<not> utf8_cont d" by (metis hd_dropWhile list.discI list.sel(1))
      with Cons show ?thesis by (cases k) simp_all
    next
      case Nil
      show ?thesis unfolding Nil by simp
    qed
    then have "utf8_chars ((c # takeWhile utf8_cont cs) @ ?t) = utf8_chars (c # takeWhile utf8_cont cs) @ utf8_chars ?t"
      by (rule utf8_chars_append)
    moreover have "utf8_chars (c # takeWhile utf8_cont cs) = [c # takeWhile utf8_cont cs]"
      by (rule utf8_chars_char) (auto simp: list_all_iff dest: set_takeWhileD)
    ultimately show ?thesis using 2 Suc by simp
  qed simp
qed simp

lemma clamp_loop_eq:
  "clamp_loop n i chs out = out @ (if length chs \<le> n - i then concat chs else concat (take (n - i) chs) @ ellipsis)"
proof (induction chs arbitrary: i out)
  case (Cons ch chs)
  show ?case
  proof (cases "i < n")
    case True
    then obtain k where "n - i = Suc k" "n - (i + 1) = k" by (metis Suc_diff_Suc Suc_eq_plus1)
    with Cons.IH [of "i + 1" "out @ ch"] True show ?thesis by simp
  qed simp
qed simp

lemma clamp_text_chars:
  "utf8_chars (clamp_text s n) =
     (if length (utf8_chars s) \<le> n then utf8_chars s else take n (utf8_chars s) @ [ellipsis])"
proof -
  have e: "utf8_chars ellipsis = [ellipsis]" "\<not> utf8_cont (hd ellipsis)"
    by (simp_all add: ellipsis_def utf8_cont_def)
  then have "utf8_chars (concat (take n (utf8_chars s)) @ ellipsis) = take n (utf8_chars s) @ [ellipsis]"
    by (simp add: utf8_chars_append utf8_chars_prefix)
  then show ?thesis by (simp add: clamp_text_def clamp_loop_eq concat_utf8_chars)
qed

section \<open>Reports\<close>

text \<open>The names of the temporary files.\<close>

lemma split_name_join: "dir = '''' \<or> last dir = CHR ''/'' \<Longrightarrow> CHR ''/'' \<notin> set name \<Longrightarrow> split_name (dir @ name) = (dir, name)"
proof -
  assume dir: "dir = '''' \<or> last dir = CHR ''/''" and name: "CHR ''/'' \<notin> set name"
  have "\<forall>c \<in> set (rev name). c \<noteq> CHR ''/''" using name by auto
  moreover have "takeWhile (\<lambda>c. c \<noteq> CHR ''/'') (rev dir) = []"
    using dir by (cases dir rule: rev_cases) auto
  ultimately have "takeWhile (\<lambda>c. c \<noteq> CHR ''/'') (rev (dir @ name)) = rev name"
    unfolding rev_append by (subst takeWhile_append2) auto
  then show ?thesis by (simp add: split_name_def Let_def)
qed

lemma split_name_no_slash: "CHR ''/'' \<notin> set (snd (split_name p))"
  by (auto simp: split_name_def Let_def dest: set_takeWhileD)

lemma file_name_push:
  assumes n: "CHR ''/'' \<notin> set name" "name \<noteq> ''''" "name \<noteq> ''.''" "name \<noteq> ''..''"
  shows "path_file_name (path_push p name) = Some name"
proof -
  obtain d where d: "path_push p name = d @ name" "d = '''' \<or> last d = CHR ''/''"
    unfolding path_push_def by (metis append.assoc append_Nil last_snoc)
  let ?n = "before_body (d @ name)"
  have drop: "drop ?n (d @ name) = drop ?n d @ name"
  proof (cases d)
    case Nil
    with n show ?thesis by (cases name; cases "tl name") (auto simp: before_body_def)
  qed (simp add: before_body_def)
  have "drop ?n d = '''' \<or> last (drop ?n d) = CHR ''/''" using d(2) by (cases "length d \<le> ?n") auto
  from split_name_join [OF this n(1)] have split: "split_name (drop ?n d @ name) = (drop ?n d, name)" .
  then have "trim_right (drop ?n d @ name) = drop ?n d @ name" using n by (simp add: trim_right.simps)
  with split n(2,4) show ?thesis unfolding d(1) path_file_name_def split_path_def Let_def drop by simp
qed

lemma show_nat_no_slash: "CHR ''/'' \<notin> set (show_nat n)"
  using show_nat_digits [of n] by (auto simp: list_all_iff is_digit_def char_between_def)

lemma temp_name_fresh:
  assumes "path_file_name p = Some name"
  shows "path_file_name (with_file_name p (temp_name pid nanos name)) = Some (temp_name pid nanos name)"
    and "with_file_name p (temp_name pid nanos name) \<noteq> p"
proof -
  have "CHR ''/'' \<notin> set name"
    using assms split_name_no_slash [of "trim_right (drop (before_body p) p)"]
    by (auto simp: path_file_name_def split_path_def Let_def split: if_splits prod.splits)
  then have n: "CHR ''/'' \<notin> set (temp_name pid nanos name)"
    using show_nat_no_slash by (auto simp: temp_name_def show_u32_def)
  show t: "path_file_name (with_file_name p (temp_name pid nanos name)) = Some (temp_name pid nanos name)"
    using file_name_push [OF n, of "fst (split_path p)"] assms
    by (auto simp: with_file_name_def temp_name_def append_eq_Cons_conv)
  show "with_file_name p (temp_name pid nanos name) \<noteq> p"
  proof
    assume "with_file_name p (temp_name pid nanos name) = p"
    with t assms have "length (temp_name pid nanos name) = length name" by simp
    then show False by (simp add: temp_name_def)
  qed
qed

definition temp_file :: "u32 \<Rightarrow> nat \<Rightarrow> string \<Rightarrow> string" where
  "temp_file pid nanos p = with_file_name p (temp_name pid nanos (the (path_file_name p)))"

lemma path_file_name_examples:
  "path_file_name ''dir/'' = Some ''dir''" "path_file_name ''a/dir//./'' = Some ''dir''" "path_file_name ''./f.json'' = Some ''f.json''"
  "path_file_name ''.'' = None" "path_file_name ''/.'' = None" "path_file_name ''a/..'' = None" "path_file_name '''' = None"
  "with_file_name ''a/./f'' ''g'' = ''a/g''" "with_file_name ''/f'' ''g'' = ''/g''" "with_file_name ''f/'' ''g'' = ''g''"
  by code_simp+

text \<open>The reports of a run with their files, and its temporary files.\<close>

definition reports :: "report_env \<Rightarrow> cli \<Rightarrow> execute_output \<Rightarrow> (string \<times> string) list" where
  "reports renv c out =
     (let result = build_result renv out
      in (case cli_output c of None \<Rightarrow> []
          | Some p \<Rightarrow> [(p, case cli_format c of Json \<Rightarrow> result_to_json renv result | Text \<Rightarrow> emit_text_line result)]) @
         (case cli_summary_json c of None \<Rightarrow> []
          | Some p \<Rightarrow> [(p, summary_to_json renv (build_summary result (cli_output c) (cli_format c)))]))"

definition temp_files :: "report_env \<Rightarrow> cli \<Rightarrow> string set" where
  "temp_files renv c =
     temp_file (process_id renv) (nanos_result renv) ` set_option (cli_output c) \<union>
     temp_file (process_id renv) (nanos_summary renv) ` set_option (cli_summary_json c)"

text \<open>Outside the temporary files \<open>T\<close>, every file is as it was or holds one of the reports \<open>R\<close>.\<close>

definition old_or_complete :: "string set \<Rightarrow> (string \<times> string) set \<Rightarrow> fs \<Rightarrow> fs \<Rightarrow> bool" where
  "old_or_complete T R fs fs' \<longleftrightarrow> (\<forall>q. q \<notin> T \<longrightarrow> fs' q = fs q \<or> (\<exists>t. (q, t) \<in> R \<and> fs' q = Some t))"

lemma old_or_complete_same: "old_or_complete T R fs fs"
  by (simp add: old_or_complete_def)

lemma old_or_complete_trans:
  "old_or_complete T R fs fs1 \<Longrightarrow> old_or_complete T' R' fs1 fs' \<Longrightarrow> old_or_complete (T \<union> T') (R \<union> R') fs fs'"
  unfolding old_or_complete_def by (metis UnCI)

lemma old_or_complete_mono:
  "old_or_complete T R fs fs' \<Longrightarrow> T \<subseteq> T' \<Longrightarrow> R \<subseteq> R' \<Longrightarrow> old_or_complete T' R' fs fs'"
  unfolding old_or_complete_def by blast

lemma write_atomic_crash:
  assumes w: "write_atomic pid nanos fault p contents = (r, acts)"
  shows "crash_all (old_or_complete {temp_file pid nanos p} {(p, contents)} fs) acts fs"
    and "r = Inr () \<Longrightarrow> q \<noteq> temp_file pid nanos p \<Longrightarrow>
      run_actions acts fs q = (if q = p then Some contents else fs q)"
proof -
  let ?t = "temp_file pid nanos p"
  have all: "crash_all (old_or_complete {?t} {(p, contents)} fs) acts fs \<and>
      (r = Inr () \<longrightarrow> q \<noteq> ?t \<longrightarrow> run_actions acts fs q = (if q = p then Some contents else fs q))"
  proof (cases "path_file_name p")
    case None
    then show ?thesis using w by (auto simp: write_atomic_def crash_all_Nil old_or_complete_same)
  next
    case (Some name)
    then have t: "with_file_name p (temp_name pid nanos name) = ?t" "?t \<noteq> p"
      using temp_name_fresh(2) [OF Some] by (simp_all add: temp_file_def)
    have step: "crash_all (old_or_complete {?t} {(p, contents)} fs) as fs"
      if "as \<in> {[], [CreateTruncate ?t, WriteEnd ?t u], [CreateTruncate ?t, WriteEnd ?t contents, RenameFile ?t p]}" for as u
      using that t(2)
      by (elim insertE emptyE; simp only:)
        (intro crash_all_Cons crash_all_Nil, auto simp: old_or_complete_def file_of_def)+
    with w t show ?thesis
      by (cases fault) (auto simp: write_atomic_def Some Let_def file_of_def)
  qed
  show "crash_all (old_or_complete {?t} {(p, contents)} fs) acts fs" using all by blast
  assume "r = Inr ()" "q \<noteq> ?t"
  with all show "run_actions acts fs q = (if q = p then Some contents else fs q)" by blast
qed

text \<open>A report that is not asked for is no action.\<close>

definition writes_reports :: "string set \<Rightarrow> (string \<times> string) list \<Rightarrow> (string + 'a) \<Rightarrow> fs_action list \<Rightarrow> bool" where
  "writes_reports T R r acts \<longleftrightarrow> (\<forall>fs.
     crash_all (old_or_complete T (set R) fs) acts fs \<and>
     (\<forall>x q. r = Inr x \<longrightarrow> q \<notin> T \<longrightarrow>
        run_actions acts fs q = (case map_of (rev R) q of None \<Rightarrow> fs q | Some t \<Rightarrow> Some t)))"

lemma writes_reports_none: "writes_reports {} [] r []"
  by (simp add: writes_reports_def crash_all_Nil old_or_complete_same)

lemma writes_reports_one:
  assumes "write_atomic pid nanos fault p contents = (r, acts)"
  shows "writes_reports {temp_file pid nanos p} [(p, contents)] r acts"
  using write_atomic_crash [OF assms] by (auto simp: writes_reports_def)

lemma writes_reports_error: "writes_reports T R (Inl m) acts \<Longrightarrow> T \<subseteq> T' \<Longrightarrow> set R \<subseteq> set R' \<Longrightarrow> writes_reports T' R' (Inl m') acts"
  by (auto simp: writes_reports_def elim!: crash_all_mono old_or_complete_mono)

lemma writes_reports_result: "writes_reports T R (Inr x) acts \<Longrightarrow> writes_reports T R (Inr y) acts"
  by (simp add: writes_reports_def)

lemma writes_reports_append:
  assumes a: "writes_reports T R (Inr x) as" and b: "writes_reports T' R' r bs"
  shows "writes_reports (T \<union> T') (R @ R') r (as @ bs)"
  unfolding writes_reports_def
proof (intro allI conjI impI)
  fix fs
  have c: "crash_all (old_or_complete T (set R) fs) as fs"
    "crash_all (old_or_complete T' (set R') (run_actions as fs)) bs (run_actions as fs)"
    using a b by (auto simp: writes_reports_def)
  have "crash_all (old_or_complete (T \<union> T') (set (R @ R')) fs) as fs"
    by (rule crash_all_mono [OF c(1)]) (auto elim: old_or_complete_mono)
  moreover have "crash_all (old_or_complete (T \<union> T') (set (R @ R')) fs) bs (run_actions as fs)"
    by (rule crash_all_mono [OF c(2)]) (use old_or_complete_trans [OF crash_all_run [OF c(1)]] in simp)
  ultimately show "crash_all (old_or_complete (T \<union> T') (set (R @ R')) fs) (as @ bs) fs" by (rule crash_all_append)
  fix y q
  assume "r = Inr y" "q \<notin> T \<union> T'"
  with a b show "run_actions (as @ bs) fs q = (case map_of (rev (R @ R')) q of None \<Rightarrow> fs q | Some t \<Rightarrow> Some t)"
    by (simp add: writes_reports_def map_add_def split: option.split)
qed

lemma emit_reports:
  assumes "emit pid nanos fault output payload = (r, e)"
  shows "writes_reports (temp_file pid nanos ` set_option output)
    (case output of None \<Rightarrow> [] | Some p \<Rightarrow> [(p, payload)]) r (em_actions e)"
  using assms writes_reports_one by (auto simp: emit_def writes_reports_none split: option.splits prod.splits)

lemma run_reports:
  assumes ex: "execute env c = Some (Inr out)" and r: "run env renv c = Some (r, e)"
  shows "writes_reports (temp_files renv c) (reports renv c out) r (em_actions e)"
    and "r = Inr code \<Longrightarrow> code = ex_exit_code out"
proof -
  let ?result = "build_result renv out"
  define payload where "payload = (case cli_format c of Json \<Rightarrow> result_to_json renv ?result | Text \<Rightarrow> emit_text_line ?result)"
  define summary where "summary = summary_to_json renv (build_summary ?result (cli_output c) (cli_format c))"
  obtain r1 e1 where e1: "emit (process_id renv) (nanos_result renv) (fault_result renv) (cli_output c) payload = (r1, e1)"
    by fastforce
  note w1 = emit_reports [OF e1]
  have R: "reports renv c out = (case cli_output c of None \<Rightarrow> [] | Some p \<Rightarrow> [(p, payload)]) @
      (case cli_summary_json c of None \<Rightarrow> [] | Some p \<Rightarrow> [(p, summary)])"
    by (simp only: reports_def Let_def payload_def summary_def)
  have "writes_reports (temp_files renv c) (reports renv c out) r (em_actions e) \<and> (r = Inr code \<longrightarrow> code = ex_exit_code out)"
  proof (cases r1)
    case (Inl m)
    with r ex e1 have "r = Inl m" "e = e1" by (simp_all add: run_def Let_def payload_def)
    with w1 Inl show ?thesis by (auto simp: R temp_files_def elim: writes_reports_error)
  next
    case (Inr u)
    note one = w1 [unfolded Inr]
    show ?thesis
    proof (cases "cli_summary_json c")
      case None
      with r ex e1 Inr have "r = Inr (ex_exit_code out)" "e = e1" by (simp_all add: run_def Let_def payload_def)
      with writes_reports_result [OF one] None show ?thesis by (simp add: R temp_files_def)
    next
      case (Some p2)
      obtain r2 acts where w: "write_atomic (process_id renv) (nanos_summary renv) (fault_summary renv) p2 summary = (r2, acts)"
        by fastforce
      with r ex e1 Inr Some have "r = and_then r2 (\<lambda>_. Inr (ex_exit_code out))"
        "em_actions e = em_actions e1 @ acts"
        by (auto simp: run_def Let_def payload_def summary_def)
      moreover note writes_reports_append [OF one writes_reports_one [OF w]]
      ultimately show ?thesis using Some
        by (cases r2) (auto simp: R temp_files_def elim: writes_reports_error writes_reports_result)
    qed
  qed
  then show "writes_reports (temp_files renv c) (reports renv c out) r (em_actions e)"
    and "r = Inr code \<Longrightarrow> code = ex_exit_code out" by blast+
qed

section \<open>Properties\<close>

text \<open>The text of the summary has at most 4000 characters, and an ellipsis when it was cut.\<close>

lemma summary_clamped:
  "utf8_chars (cs_output (build_summary r output_path format)) =
     (let chars = utf8_chars (summarize_result_for_summary r)
      in if length chars \<le> 4000 then chars else take 4000 chars @ [ellipsis])"
  by (simp add: build_summary_def clamp_text_chars Let_def)

text \<open>C38: the reports of a run are the result, in the format that is asked for, at the output path and the summary
  at its path. Whatever the operating system refuses, a crash at any moment leaves every file as it was or with one
  complete report that belongs there, except for the temporary files of the process; so does the end of the run, and when the run succeeds every report is complete in its file, no other file has changed, and
  the exit code is that of the checks.\<close>

theorem report_atomic:
  assumes "execute env c = Some (Inr out)" and "run env renv c = Some (r, e)" and "q \<notin> temp_files renv c"
  shows "(crash_state (em_actions e) k j fs q = fs q \<or>
      (\<exists>text. (q, text) \<in> set (reports renv c out) \<and> crash_state (em_actions e) k j fs q = Some text)) \<and>
    (run_actions (em_actions e) fs q = fs q \<or>
      (\<exists>text. (q, text) \<in> set (reports renv c out) \<and> run_actions (em_actions e) fs q = Some text)) \<and>
    (\<forall>code. r = Inr code \<longrightarrow> code = ex_exit_code out \<and>
      run_actions (em_actions e) fs q =
        (case map_of (rev (reports renv c out)) q of None \<Rightarrow> fs q | Some text \<Rightarrow> Some text))"
proof -
  have w: "crash_all (old_or_complete (temp_files renv c) (set (reports renv c out)) fs) (em_actions e) fs"
    and ends: "\<forall>x q. r = Inr x \<longrightarrow> q \<notin> temp_files renv c \<longrightarrow> run_actions (em_actions e) fs q =
      (case map_of (rev (reports renv c out)) q of None \<Rightarrow> fs q | Some text \<Rightarrow> Some text)"
    using run_reports(1) [OF assms(1,2)] by (simp_all add: writes_reports_def)
  show ?thesis
    using crash_allD [OF w, of k j] crash_all_run [OF w] ends run_reports(2) [OF assms(1,2)] assms(3)
    by (simp add: old_or_complete_def)
qed

definition demo_report :: report_env where
  "demo_report = \<lparr>result_to_json = (\<lambda>r. status_label (rj_status r)), summary_to_json = (\<lambda>s. cs_status s),
     now = ''t'', elapsed_ms = 3, process_id = 7, nanos_result = 1, nanos_summary = 2, fault_result = NoWriteFault,
     fault_summary = NoWriteFault\<rparr>"

theorem report_atomic_witness:
  "\<exists>e. run stop_env demo_report
      ((stop_cli (RefineCommand \<lparr>ra_model = ArgT, ra_spec = stop_path, ra_impl = ''none''\<rparr>))
        \<lparr>cli_output := Some ''out.json'', cli_summary_json := Some ''sum/s.json''\<rparr>) = Some (Inr 2, e) \<and>
    crash_state (em_actions e) 1 2 (\<lambda>_. None) ''out.json'' \<in> {None, Some ''error''} \<and>
    run_actions (em_actions e) (\<lambda>_. None) ''out.json'' = Some ''error''"
proof -
  let ?c = "(stop_cli (RefineCommand \<lparr>ra_model = ArgT, ra_spec = stop_path, ra_impl = ''none''\<rparr>))
    \<lparr>cli_output := Some ''out.json'', cli_summary_json := Some ''sum/s.json''\<rparr>"
  obtain out where out: "execute stop_env ?c = Some (Inr out)" "ex_status out = ErrorStatus" "ex_exit_code out = 2"
    by (simp add: execute_def stop_cli_def stop_env_def build_inputs_def compute_sha256_def run_refine_check_def
        error_check_def aggregate_status_def stop_path_def)
  have paths: "cli_summary_json ?c = Some ''sum/s.json''" "cli_output ?c = Some ''out.json''" "cli_format ?c = Json"
    by (simp_all add: stop_cli_def)
  have names: "path_file_name ''out.json'' = Some ''out.json''" "path_file_name ''sum/s.json'' = Some ''s.json''"
    by code_simp+
  have "\<exists>e. run stop_env demo_report ?c = Some (Inr 2, e)"
    by (simp add: run_def out emit_def paths Let_def write_atomic_def names demo_report_def)
  then obtain e where r: "run stop_env demo_report ?c = Some (Inr 2, e)" by blast
  have reports: "reports demo_report ?c out =
      [(''out.json'', ''error''), (''sum/s.json'', summary_to_json demo_report
        (build_summary (build_result demo_report out) (Some ''out.json'') Json))]"
    by (simp add: reports_def paths Let_def) (simp add: demo_report_def build_result_def out(2))
  have "''out.json'' \<notin> temp_files demo_report ?c"
    unfolding temp_files_def paths demo_report_def by code_simp
  from report_atomic [OF out(1) r this, of 1 2 "\<lambda>_. None"] r show ?thesis
    unfolding reports by (simp del: run_actions_simps)
qed

end
