(* ===== verification/Cspx_Json.thy ===== *)
theory Cspx_Json
  imports Cspx_Disk "HOL-Library.Sublist"
begin

text \<open>
  JSON values as the problem runner (\<^verbatim>\<open>crates/cspx-problems/src/main.rs\<close>) sees them through \<^verbatim>\<open>serde_json\<close>, and its
  normalisation, which drops the fields that differ from run to run. The results: a path removes exactly the
  places whose keys contain it in order, at every depth, and two results have the same normal form if and only if they
  agree everywhere else.
\<close>

section \<open>Values\<close>

text \<open>\<^verbatim>\<open>serde_json::Value\<close>. An object is a \<^verbatim>\<open>BTreeMap\<close>: a list of entries with ascending keys. A number is a \<^verbatim>\<open>u64\<close>, a
  negative \<^verbatim>\<open>i64\<close> or a float; a float is kept as its bits, the two zeros as one; the runner
  only compares them.\<close>

datatype number = PosInt u64 | NegInt int | Float u64

datatype json =
    JNull
  | JBool bool
  | JNumber number
  | JString string
  | JArray "json list"
  | JObject "(string \<times> json) list"

fun number_as_i64 :: "number \<Rightarrow> int option" where
  "number_as_i64 (PosInt n) = (if uint n < 2 ^ 63 then Some (uint n) else None)"
| "number_as_i64 (NegInt i) = Some i"
| "number_as_i64 (Float b) = None"

fun as_i64 :: "json \<Rightarrow> int option" where
  "as_i64 (JNumber n) = number_as_i64 n"
| "as_i64 _ = None"

fun as_u64 :: "json \<Rightarrow> u64 option" where
  "as_u64 (JNumber (PosInt n)) = Some n"
| "as_u64 _ = None"

fun as_str :: "json \<Rightarrow> string option" where
  "as_str (JString s) = Some s"
| "as_str _ = None"

fun as_bool :: "json \<Rightarrow> bool option" where
  "as_bool (JBool b) = Some b"
| "as_bool _ = None"

fun as_array :: "json \<Rightarrow> json list option" where
  "as_array (JArray xs) = Some xs"
| "as_array _ = None"

fun as_object :: "json \<Rightarrow> (string \<times> json) list option" where
  "as_object (JObject es) = Some es"
| "as_object _ = None"

text \<open>\<^verbatim>\<open>Value::get\<close> with a string.\<close>

fun json_get :: "string \<Rightarrow> json \<Rightarrow> json option" where
  "json_get k (JObject es) = map_of es k"
| "json_get k _ = None"

section \<open>Removing paths\<close>

text \<open>\<^verbatim>\<open>str::split('.')\<close>.\<close>

fun split_dots_acc :: "string \<Rightarrow> string \<Rightarrow> string list" where
  "split_dots_acc acc [] = [rev acc]"
| "split_dots_acc acc (c # cs) =
     (if c = CHR ''.'' then rev acc # split_dots_acc '''' cs else split_dots_acc (c # acc) cs)"

definition split_dots :: "string \<Rightarrow> string list" where
  "split_dots s = split_dots_acc '''' s"

text \<open>At an object: the field named by the path is removed, or the rest of the path is removed from it; then the
  path is removed from every remaining field.\<close>

fun json_nodes :: "json \<Rightarrow> nat" where
  "json_nodes (JObject es) = Suc (\<Sum>e \<leftarrow> es. json_nodes (snd e))"
| "json_nodes (JArray xs) = Suc (\<Sum>v \<leftarrow> xs. json_nodes v)"
| "json_nodes _ = 1"

lemma json_nodes_field: "(k, v) \<in> set es \<Longrightarrow> json_nodes v < json_nodes (JObject es)"
  by (induction es) auto

lemma json_nodes_item: "v \<in> set xs \<Longrightarrow> json_nodes v < json_nodes (JArray xs)"
  by (induction xs) auto

lemma sum_list_filter_le: "(\<Sum>x \<leftarrow> filter P xs. f x :: nat) \<le> (\<Sum>x \<leftarrow> xs. f x)"
  by (induction xs) auto

function remove_path_recursive :: "string list \<Rightarrow> json \<Rightarrow> json" where
  "remove_path_recursive [] (JObject es) = JObject (map (\<lambda>(k, v). (k, remove_path_recursive [] v)) es)"
| "remove_path_recursive [first] (JObject es) =
     JObject (map (\<lambda>(k, v). (k, remove_path_recursive [first] v)) (filter (\<lambda>(k, v). k \<noteq> first) es))"
| "remove_path_recursive (first # part # rest) (JObject es) =
     JObject (map (\<lambda>(k, v). (k, remove_path_recursive (first # part # rest)
                                (if k = first then remove_path_recursive (part # rest) v else v))) es)"
| "remove_path_recursive parts (JArray xs) = JArray (map (remove_path_recursive parts) xs)"
| "remove_path_recursive parts JNull = JNull"
| "remove_path_recursive parts (JBool b) = JBool b"
| "remove_path_recursive parts (JNumber n) = JNumber n"
| "remove_path_recursive parts (JString s) = JString s"
  by pat_completeness auto
termination
proof (relation "measure (\<lambda>(_, v). json_nodes v)", goal_cases)
  have shrinks: "json_nodes (remove_path_recursive parts v) \<le> json_nodes v"
    if "remove_path_recursive_dom (parts, v)" for parts v
    using that
  proof (induction parts v rule: remove_path_recursive.pinduct)
    case (1 es)
    then show ?case
      by (simp add: remove_path_recursive.psimps comp_def case_prod_beta) (fastforce intro: sum_list_mono)
  next
    case (2 first es)
    have "(\<Sum>e \<leftarrow> filter (\<lambda>(k, v). k \<noteq> first) es. json_nodes (remove_path_recursive [first] (snd e)))
        \<le> (\<Sum>e \<leftarrow> filter (\<lambda>(k, v). k \<noteq> first) es. json_nodes (snd e))"
      using 2 by (intro sum_list_mono) auto
    also have "\<dots> \<le> (\<Sum>e \<leftarrow> es. json_nodes (snd e))" by (rule sum_list_filter_le)
    finally show ?case using 2 by (simp add: remove_path_recursive.psimps comp_def case_prod_beta)
  next
    case (3 first part rest es)
    have "(\<Sum>e \<leftarrow> es. json_nodes (remove_path_recursive (first # part # rest)
             (if fst e = first then remove_path_recursive (part # rest) (snd e) else snd e)))
        \<le> (\<Sum>e \<leftarrow> es. json_nodes (snd e))"
      using 3 by (intro sum_list_mono) (force intro: le_trans)
    then show ?case using 3 by (simp add: remove_path_recursive.psimps comp_def case_prod_beta)
  next
    case (4 parts xs)
    then show ?case by (simp add: remove_path_recursive.psimps comp_def sum_list_mono)
  qed (simp_all add: remove_path_recursive.psimps)
  case (5 first part rest es e k v)
  then show ?case using shrinks [of "part # rest" v] json_nodes_field [of k v es] by auto
qed (auto dest: json_nodes_field json_nodes_item)

definition remove_path :: "json \<Rightarrow> string \<Rightarrow> json" where
  "remove_path value p = remove_path_recursive (split_dots p) value"

definition ignored_fields :: "string list" where
  "ignored_fields =
     [''started_at'', ''finished_at'', ''duration_ms'', ''tool.git_sha'', ''metrics.wall_time_ms'',
      ''metrics.cpu_time_ms'', ''metrics.peak_rss_bytes'', ''metrics.disk_bytes'', ''metrics.states_per_sec'',
      ''metrics.transitions_per_sec'']"

definition normalize_json :: "json \<Rightarrow> string list \<Rightarrow> json" where
  "normalize_json value extra_ignore = foldl remove_path value (ignored_fields @ extra_ignore)"

section \<open>What a value says\<close>

text \<open>A value as the set of its facts: at each place, reached by the keys and indexes on the way, a scalar, an
  object, or an array of some length.\<close>

datatype place_step = Key string | Index nat

datatype shape = ObjectShape | ArrayShape nat | ScalarShape json

fun json_facts :: "json \<Rightarrow> (place_step list \<times> shape) set" where
  "json_facts (JObject es) =
     insert ([], ObjectShape) (\<Union>e \<in> set es. apfst (Cons (Key (fst e))) ` json_facts (snd e))"
| "json_facts (JArray xs) =
     insert ([], ArrayShape (length xs)) (\<Union>(i, F) \<in> set (enumerate 0 (map json_facts xs)). apfst (Cons (Index i)) ` F)"
| "json_facts v = {([], ScalarShape v)}"

fun json_ok :: "json \<Rightarrow> bool" where
  "json_ok (JObject es) \<longleftrightarrow> sorted_wrt (<) (map fst es) \<and> (\<forall>e \<in> set es. json_ok (snd e))"
| "json_ok (JArray xs) \<longleftrightarrow> (\<forall>x \<in> set xs. json_ok x)"
| "json_ok _ \<longleftrightarrow> True"

lemma facts_object [simp]:
  "([], s) \<in> json_facts (JObject es) \<longleftrightarrow> s = ObjectShape"
  "(Key k # q, s) \<in> json_facts (JObject es) \<longleftrightarrow> (\<exists>v. (k, v) \<in> set es \<and> (q, s) \<in> json_facts v)"
  "(Index i # q, s) \<notin> json_facts (JObject es)"
  by (force simp: image_iff)+

lemma facts_array [simp]:
  "([], s) \<in> json_facts (JArray xs) \<longleftrightarrow> s = ArrayShape (length xs)"
  "(Index i # q, s) \<in> json_facts (JArray xs) \<longleftrightarrow> i < length xs \<and> (q, s) \<in> json_facts (xs ! i)"
  "(Key k # q, s) \<notin> json_facts (JArray xs)"
  by (auto simp: image_iff in_set_enumerate_eq intro!: bexI [of _ "(i, json_facts (xs ! i))"] bexI [of _ "(q, s)"])

lemma facts_object_map:
  "(Key k # q, s) \<in> json_facts (JObject (map (\<lambda>(k, v). (k, f k v)) es)) \<longleftrightarrow>
     (\<exists>v. (k, v) \<in> set es \<and> (q, s) \<in> json_facts (f k v))"
  by (force simp: image_iff)

declare json_facts.simps (1,2) [simp del]

lemma place_cases:
  obtains "q = []" | k r where "q = Key k # r" | i r where "q = Index i # r"
  by (metis list.exhaust place_step.exhaust)

lemma remove_path_facts:
  "ps \<noteq> [] \<Longrightarrow> (q, s) \<in> json_facts (remove_path_recursive ps v) \<longleftrightarrow>
     (q, s) \<in> json_facts v \<and> \<not> subseq (map Key ps) q"
proof (induction ps v arbitrary: q rule: remove_path_recursive.induct)
  case (2 first es)
  have IH: "(r, s) \<in> json_facts (remove_path_recursive [first] v) \<longleftrightarrow>
      (r, s) \<in> json_facts v \<and> \<not> subseq [Key first] r" if "(k, v) \<in> set es" "k \<noteq> first" for k v r
    using 2 that by auto
  show ?case
  proof (cases q rule: place_cases)
    case (2 k r)
    then show ?thesis
      unfolding remove_path_recursive.simps 2 facts_object_map unfolding facts_object(2)
      by (cases "k = first") (auto simp: IH)
  qed auto
next
  case (3 first part rest es)
  let ?ps = "first # part # rest"
  have IH: "(r, s) \<in> json_facts (remove_path_recursive ?ps
       (if k = first then remove_path_recursive (part # rest) v else v)) \<longleftrightarrow>
      (r, s) \<in> json_facts v \<and> \<not> subseq (map Key ?ps) (Key k # r)" if "(k, v) \<in> set es" for k v r
  proof -
    have "(r, s) \<in> json_facts (remove_path_recursive (part # rest) v) \<longleftrightarrow>
        (r, s) \<in> json_facts v \<and> \<not> subseq (map Key (part # rest)) r" if "k = first"
      using "3.IH"(1) [of "(k, v)" k v r] that \<open>(k, v) \<in> set es\<close> by simp
    with "3.IH"(2) [of "(k, v)" k v r] that show ?thesis
      by (cases "k = first") (auto dest: subseq_Cons')
  qed
  show ?case
  proof (cases q rule: place_cases)
    case (2 k r)
    then show ?thesis
      unfolding remove_path_recursive.simps 2 facts_object_map unfolding facts_object(2)
      by (simp add: IH cong: conj_cong split del: if_split) blast
  qed auto
next
  case (4 parts xs)
  then show ?case
    by (cases q rule: place_cases; cases parts) auto
qed (auto simp: neq_Nil_conv)

lemma split_dots_nonempty [simp]: "split_dots p \<noteq> []"
proof -
  have "split_dots_acc acc p \<noteq> []" for acc
    by (induction p arbitrary: acc) auto
  then show ?thesis by (simp add: split_dots_def)
qed

text \<open>A place is ignored when the keys on the way to it have the keys of an ignored path among them, in this order.\<close>

definition ignored_place :: "string list \<Rightarrow> place_step list \<Rightarrow> bool" where
  "ignored_place paths q \<longleftrightarrow> (\<exists>p \<in> set paths. subseq (map Key (split_dots p)) q)"

lemma normalize_facts:
  "(q, s) \<in> json_facts (normalize_json v extra) \<longleftrightarrow>
     (q, s) \<in> json_facts v \<and> \<not> ignored_place (ignored_fields @ extra) q"
proof -
  have "(q, s) \<in> json_facts (foldl remove_path v ps) \<longleftrightarrow> (q, s) \<in> json_facts v \<and> \<not> ignored_place ps q" for ps
    by (induction ps arbitrary: v) (auto simp: ignored_place_def remove_path_def remove_path_facts)
  then show ?thesis by (simp add: normalize_json_def del: foldl_append)
qed

lemma remove_path_ok: "json_ok v \<Longrightarrow> json_ok (remove_path_recursive ps v)"
proof (induction ps v rule: remove_path_recursive.induct)
  case (2 first es)
  have "sorted_wrt (<) (map fst (filter (\<lambda>(k, v). k \<noteq> first) es))"
    using 2 by (simp add: sorted_wrt_map sorted_wrt_filter)
  with 2 show ?case by (auto simp: comp_def case_prod_beta)
next
  case (3 first part rest es)
  have "json_ok (remove_path_recursive (first # part # rest)
      (if k = first then remove_path_recursive (part # rest) v else v))" if "(k, v) \<in> set es" for k v
    using "3.IH"(1) [of "(k, v)" k v] "3.IH"(2) [of "(k, v)" k v] "3.prems" that by (cases "k = first") auto
  then show ?case
    using "3.prems" unfolding remove_path_recursive.simps
    by (simp add: comp_def case_prod_beta del: remove_path_recursive.simps split del: if_split)
qed (auto simp: comp_def case_prod_beta)

lemma normalize_ok: "json_ok v \<Longrightarrow> json_ok (normalize_json v extra)"
proof -
  have "json_ok v \<Longrightarrow> json_ok (foldl remove_path v ps)" for ps
    by (induction ps arbitrary: v) (auto simp: remove_path_def remove_path_ok)
  moreover assume "json_ok v"
  ultimately show ?thesis by (simp add: normalize_json_def del: foldl_append)
qed

text \<open>The facts determine the value.\<close>

lemma fact_here: "\<exists>s. ([], s) \<in> json_facts v"
  by (cases v) auto

lemma facts_keys: "fst ` set es = {k. \<exists>r s. (Key k # r, s) \<in> json_facts (JObject es)}"
proof -
  have "k \<in> fst ` set es \<longleftrightarrow> (\<exists>v. (k, v) \<in> set es)" for k by force
  then show ?thesis using fact_here by auto meson
qed

lemma facts_field:
  assumes "btm_ok es" "i < length es"
  shows "json_facts (snd (es ! i)) = {(r, s). (Key (fst (es ! i)) # r, s) \<in> json_facts (JObject es)}"
proof -
  have "v = snd (es ! i)" if "(fst (es ! i), v) \<in> set es" for v
    using that assms eq_key_imp_eq_value [OF btm_ok_distinct [OF assms(1)]] by (metis nth_mem prod.collapse)
  then have "(fst (es ! i), v) \<in> set es \<longleftrightarrow> v = snd (es ! i)" for v
    using assms(2) by (metis nth_mem prod.collapse)
  then show ?thesis by auto
qed

lemma json_facts_inj:
  "json_ok v \<Longrightarrow> json_ok w \<Longrightarrow> json_facts v = json_facts w \<Longrightarrow> v = w"
proof (induction v arbitrary: w)
  case (JArray xs)
  have "([], ArrayShape (length xs)) \<in> json_facts w" using JArray.prems(3) by (metis facts_array(1))
  then obtain ys where w: "w = JArray ys" and len: "length ys = length xs" by (cases w) auto
  have "xs ! i = ys ! i" if "i < length xs" for i
  proof (rule JArray.IH)
    show "json_facts (xs ! i) = json_facts (ys ! i)"
      using JArray.prems(3) that len facts_array(2) [of i] unfolding w set_eq_iff split_paired_All by metis
  qed (use that len JArray.prems w in auto)
  then show ?case using w len by (auto intro: nth_equalityI)
next
  case (JObject es)
  have "([], ObjectShape) \<in> json_facts w" using JObject.prems(3) by (metis facts_object(1))
  then obtain es' where w: "w = JObject es'" by (cases w) auto
  have ok: "btm_ok es" "btm_ok es'" using JObject.prems w by auto
  have keys: "map fst es = map fst es'"
    using ok JObject.prems(3) facts_keys [of es] facts_keys [of es']
    by (intro sorted_distinct_set_unique) (auto simp: strict_sorted_iff w)
  then have len: "length es' = length es" by (metis length_map)
  have "es ! i = es' ! i" if i: "i < length es" for i
  proof -
    have k: "fst (es ! i) = fst (es' ! i)" using keys i len by (metis nth_map)
    have "json_facts (snd (es ! i)) = json_facts (snd (es' ! i))"
      using facts_field [OF ok(1) i] facts_field [OF ok(2), of i] i len k JObject.prems(3) w by simp
    then have "snd (es ! i) = snd (es' ! i)"
      using JObject.IH [of "es ! i" "snd (es ! i)" "snd (es' ! i)"] JObject.prems(1,2) i len w
      by (simp add: prod_set_defs)
    with k show ?thesis by (simp add: prod_eq_iff)
  qed
  then show ?case using w len by (auto intro: nth_equalityI)
qed (case_tac w; auto dest: equalityD1)+

text \<open>C40: two JSON results have the same normal form if and only if they say the same at every place that is not
  ignored. A place is ignored when the keys on the way to it contain the keys of an ignored path in this order: a
  dotted path is removed at every depth, and also where other keys or array items lie between its parts.\<close>

theorem normal_form_iff:
  assumes "json_ok v" "json_ok w"
  shows "normalize_json v extra = normalize_json w extra \<longleftrightarrow>
    (\<forall>q s. ignored_place (ignored_fields @ extra) q \<or> ((q, s) \<in> json_facts v \<longleftrightarrow> (q, s) \<in> json_facts w))"
proof
  assume "normalize_json v extra = normalize_json w extra"
  then show "\<forall>q s. ignored_place (ignored_fields @ extra) q \<or> ((q, s) \<in> json_facts v \<longleftrightarrow> (q, s) \<in> json_facts w)"
    using normalize_facts by metis
next
  assume "\<forall>q s. ignored_place (ignored_fields @ extra) q \<or> ((q, s) \<in> json_facts v \<longleftrightarrow> (q, s) \<in> json_facts w)"
  then have "json_facts (normalize_json v extra) = json_facts (normalize_json w extra)"
    by (auto simp: normalize_facts)
  then show "normalize_json v extra = normalize_json w extra"
    using assms by (intro json_facts_inj normalize_ok)
qed

theorem normal_form_iff_witness:
  "normalize_json (JObject [(''duration_ms'', JNumber (PosInt 5)), (''status'', JString ''pass'')]) [] =
     normalize_json (JObject [(''duration_ms'', JNumber (PosInt 7)), (''status'', JString ''pass'')]) []"
  by (subst normal_form_iff) 
     (auto simp: ignored_place_def ignored_fields_def split_dots_def json_facts.simps)

end
