(* ===== verification/Cspx_Expect.thy ===== *)
theory Cspx_Expect
  imports Cspx_Json
begin

text \<open>
  What the problem runner (\<^verbatim>\<open>crates/cspx-problems/src/main.rs\<close>) expects of a run: the constraints of \<^verbatim>\<open>expect.yaml\<close>, the
  functions that match a result against them, and the comparison of repeated runs. The result: the list of errors
  is empty exactly when the declared expectations hold. The engine of regular expressions and the text of a JSON
  value are parameters.
\<close>

section \<open>Expectations\<close>

record reason_expect =
  re_kind :: "json option"
  re_message :: "json option"

record tag_constraint =
  tc_contains :: "string list option"
  tc_equals :: "string list option"

record span_constraint =
  sc_path :: "json option"
  sc_start_line :: "json option"
  sc_start_col :: "json option"
  sc_end_line :: "json option"
  sc_end_col :: "json option"

record span_match =
  sm_any :: "span_constraint list option"

record counterexample_expect =
  ct_present :: "bool option"
  ct_trace_len :: "json option"
  ct_tags :: "tag_constraint option"
  ct_is_minimized :: "json option"
  ct_source_spans :: "span_match option"

record stats_expect =
  se_states :: "json option"
  se_transitions :: "json option"

record check_expect =
  ce_name :: "json option"
  ce_target :: "json option"
  ce_model :: "json option"
  ce_status :: "json option"
  ce_reason :: "reason_expect option"
  ce_counterexample :: "counterexample_expect option"
  ce_stats :: "stats_expect option"

record compare_expect =
  cp_kind :: string
  cp_ignore_fields :: "string list option"

record expect_spec =
  ex_exit_code :: "json option"
  ex_status :: "json option"
  ex_checks :: "check_expect list option"
  ex_repeat :: "u32 option"
  ex_compare :: "compare_expect option"

text \<open>What one execution of the command gave; the exit code is an \<^verbatim>\<open>i32\<close>.\<close>

record run_outcome =
  ro_exit_code :: int
  ro_stdout :: string
  ro_stderr :: string
  ro_result_json :: "json option"
  ro_result_status :: "string option"

text \<open>Libraries: \<open>regex_is_match r s\<close> is \<^const>\<open>None\<close> when \<open>r\<close> is no regular expression; \<open>display_json\<close> is the text of a
  value.\<close>

record match_lib =
  regex_is_match :: "string \<Rightarrow> string \<Rightarrow> bool option"
  display_json :: "json \<Rightarrow> string"

section \<open>Values\<close>

text \<open>\<^verbatim>\<open>map.get(key).and_then(read)\<close>.\<close>

definition get_as :: "(json \<Rightarrow> 'a option) \<Rightarrow> string \<Rightarrow> (string \<times> json) list \<Rightarrow> 'a option" where
  "get_as read k es = Option.bind (map_of es k) read"

definition when_some :: "'a option \<Rightarrow> ('a \<Rightarrow> bool) \<Rightarrow> bool" where
  "when_some x P = (case x of None \<Rightarrow> True | Some y \<Rightarrow> P y)"

lemma when_some_simps [simp]: "when_some None P" "when_some (Some y) P = P y"
  by (simp_all add: when_some_def)

definition unwrap_or :: "'a \<Rightarrow> 'a option \<Rightarrow> 'a" where
  "unwrap_or d x = (case x of None \<Rightarrow> d | Some y \<Rightarrow> y)"

lemma unwrap_or_simps [simp]: "unwrap_or d None = d" "unwrap_or d (Some y) = y"
  by (simp_all add: unwrap_or_def)

fun match_int :: "int \<Rightarrow> json \<Rightarrow> bool" where
  "match_int actual (JNumber n) = (number_as_i64 n = Some actual)"
| "match_int actual (JObject es) =
     (when_some (get_as as_i64 ''eq'' es) (\<lambda>eq. actual = eq) \<and>
      when_some (get_as as_i64 ''min'' es) (\<lambda>min. min \<le> actual) \<and>
      when_some (get_as as_i64 ''max'' es) (\<lambda>max. actual \<le> max) \<and>
      when_some (get_as as_array ''in'' es) (\<lambda>xs. actual \<in> set (List.map_filter as_i64 xs)))"
| "match_int actual _ = False"

fun match_bool :: "bool \<Rightarrow> json \<Rightarrow> bool" where
  "match_bool actual (JBool v) = (actual = v)"
| "match_bool actual (JObject es) =
     (case get_as as_bool ''eq'' es of Some eq \<Rightarrow> actual = eq | None \<Rightarrow> es = [])"
| "match_bool actual _ = False"

text \<open>\<^verbatim>\<open>str::contains\<close>.\<close>

fun str_contains :: "string \<Rightarrow> string \<Rightarrow> bool" where
  "str_contains [] pat = (pat = [])"
| "str_contains (c # cs) pat = (take (length pat) (c # cs) = pat \<or> str_contains cs pat)"

lemma str_contains_iff: "str_contains s pat \<longleftrightarrow> sublist pat s"
proof (induction s)
  case (Cons c cs)
  have "take (length pat) (c # cs) = pat \<longleftrightarrow> prefix pat (c # cs)"
    by (metis append_eq_conv_conj prefix_def)
  then show ?case using Cons by (simp add: sublist_Cons_right)
qed simp

fun match_string :: "match_lib \<Rightarrow> string \<Rightarrow> json \<Rightarrow> bool" where
  "match_string lib actual (JString v) = (actual = v)"
| "match_string lib actual (JObject es) =
     (when_some (get_as as_str ''eq'' es) (\<lambda>eq. actual = eq) \<and>
      when_some (get_as as_str ''contains'' es) (str_contains actual) \<and>
      when_some (get_as as_str ''regex'' es) (\<lambda>r. case regex_is_match lib r actual of None \<Rightarrow> False | Some b \<Rightarrow> b) \<and>
      when_some (get_as as_array ''in'' es) (\<lambda>xs. actual \<in> set (List.map_filter as_str xs)))"
| "match_string lib actual _ = False"

text \<open>The two tests that every structure repeats: a string field that must be present and not empty, and a number
  field that must be present and not negative.\<close>

definition string_field_ok :: "match_lib \<Rightarrow> (string \<times> json) list \<Rightarrow> string \<Rightarrow> json option \<Rightarrow> bool" where
  "string_field_ok lib obj k expect =
     when_some expect (\<lambda>e. let actual = unwrap_or '''' (get_as as_str k obj)
                           in actual \<noteq> '''' \<and> match_string lib actual e)"

definition int_field_ok :: "(string \<times> json) list \<Rightarrow> string \<Rightarrow> json option \<Rightarrow> bool" where
  "int_field_ok obj k expect =
     when_some expect (\<lambda>e. let actual = unwrap_or (- 1) (get_as as_i64 k obj)
                           in \<not> actual < 0 \<and> match_int actual e)"

section \<open>Structures\<close>

definition tags_matches :: "tag_constraint \<Rightarrow> string list \<Rightarrow> bool" where
  "tags_matches expect actual \<longleftrightarrow>
     when_some (tc_contains expect) (\<lambda>contains. list_all (\<lambda>tag. tag \<in> set actual) contains) \<and>
     when_some (tc_equals expect) (\<lambda>equals. sort actual = sort equals)"

definition span_matches :: "match_lib \<Rightarrow> span_constraint \<Rightarrow> json \<Rightarrow> bool" where
  "span_matches lib expect actual =
     (case as_object actual of
        None \<Rightarrow> False
      | Some obj \<Rightarrow>
          string_field_ok lib obj ''path'' (sc_path expect) \<and>
          int_field_ok obj ''start_line'' (sc_start_line expect) \<and>
          int_field_ok obj ''start_col'' (sc_start_col expect) \<and>
          int_field_ok obj ''end_line'' (sc_end_line expect) \<and>
          int_field_ok obj ''end_col'' (sc_end_col expect))"

definition spans_matches :: "match_lib \<Rightarrow> span_match \<Rightarrow> json list option \<Rightarrow> bool" where
  "spans_matches lib expect actual =
     (case actual of
        None \<Rightarrow> False
      | Some spans \<Rightarrow>
          (case sm_any expect of
             None \<Rightarrow> False
           | Some any \<Rightarrow> list_ex (\<lambda>constraint. list_ex (span_matches lib constraint) spans) any))"

definition counterexample_matches :: "match_lib \<Rightarrow> counterexample_expect \<Rightarrow> json option \<Rightarrow> bool" where
  "counterexample_matches lib expect actual =
     (let is_null = (case actual of None \<Rightarrow> True | Some v \<Rightarrow> v = JNull)
      in if \<not> when_some (ct_present expect) (\<lambda>present. present \<noteq> is_null) then False
         else if ct_trace_len expect = None \<and> ct_tags expect = None \<and> ct_is_minimized expect = None \<and>
                 ct_source_spans expect = None then True
         else
           (case Option.bind actual as_object of
              None \<Rightarrow> False
            | Some obj \<Rightarrow>
                when_some (ct_trace_len expect)
                  (\<lambda>e. let len = (case get_as as_array ''events'' obj of None \<Rightarrow> - 1 | Some xs \<Rightarrow> int (length xs))
                        in \<not> len < 0 \<and> match_int len e) \<and>
                when_some (ct_tags expect)
                  (\<lambda>e. tags_matches e (case get_as as_array ''tags'' obj of
                                          None \<Rightarrow> [] | Some xs \<Rightarrow> List.map_filter as_str xs)) \<and>
                when_some (ct_is_minimized expect)
                  (match_bool (unwrap_or False (get_as as_bool ''is_minimized'' obj))) \<and>
                when_some (ct_source_spans expect)
                  (\<lambda>e. spans_matches lib e (get_as as_array ''source_spans'' obj))))"

definition stats_matches :: "stats_expect \<Rightarrow> json option \<Rightarrow> bool" where
  "stats_matches expect actual =
     (case Option.bind actual as_object of
        None \<Rightarrow> False
      | Some obj \<Rightarrow>
          int_field_ok obj ''states'' (se_states expect) \<and>
          int_field_ok obj ''transitions'' (se_transitions expect))"

definition reason_matches :: "match_lib \<Rightarrow> reason_expect \<Rightarrow> json option \<Rightarrow> bool" where
  "reason_matches lib expect actual =
     (case Option.bind actual as_object of
        None \<Rightarrow> False
      | Some obj \<Rightarrow>
          string_field_ok lib obj ''kind'' (re_kind expect) \<and>
          string_field_ok lib obj ''message'' (re_message expect))"

definition check_matches :: "match_lib \<Rightarrow> check_expect \<Rightarrow> json \<Rightarrow> bool" where
  "check_matches lib expect actual =
     (case as_object actual of
        None \<Rightarrow> False
      | Some obj \<Rightarrow>
          string_field_ok lib obj ''name'' (ce_name expect) \<and>
          string_field_ok lib obj ''target'' (ce_target expect) \<and>
          string_field_ok lib obj ''model'' (ce_model expect) \<and>
          string_field_ok lib obj ''status'' (ce_status expect) \<and>
          when_some (ce_reason expect) (\<lambda>e. reason_matches lib e (map_of obj ''reason'')) \<and>
          when_some (ce_counterexample expect) (\<lambda>e. counterexample_matches lib e (map_of obj ''counterexample'')) \<and>
          when_some (ce_stats expect) (\<lambda>e. stats_matches e (map_of obj ''stats'')))"

definition describe_check_expect :: "match_lib \<Rightarrow> check_expect \<Rightarrow> string" where
  "describe_check_expect lib expect =
     (case ce_name expect of Some v \<Rightarrow> ''name='' @ display_json lib v
      | None \<Rightarrow>
     (case ce_target expect of Some v \<Rightarrow> ''target='' @ display_json lib v
      | None \<Rightarrow>
     (case ce_model expect of Some v \<Rightarrow> ''model='' @ display_json lib v
      | None \<Rightarrow>
     (case ce_status expect of Some v \<Rightarrow> ''status='' @ display_json lib v
      | None \<Rightarrow> ''unspecified''))))"

section \<open>One run\<close>

definition show_int :: "int \<Rightarrow> string" where
  "show_int i = (if i < 0 then CHR ''-'' # show_nat (nat (- i)) else show_nat (nat i))"

definition run_error :: "nat \<Rightarrow> string \<Rightarrow> string" where
  "run_error run_index what = ''run '' @ show_nat run_index @ '': '' @ what"

definition exit_errors :: "expect_spec \<Rightarrow> run_outcome \<Rightarrow> nat \<Rightarrow> string list" where
  "exit_errors expect outcome run_index =
     (if when_some (ex_exit_code expect) (match_int (ro_exit_code outcome)) then []
      else [run_error run_index (''exit_code mismatch (actual '' @ show_int (ro_exit_code outcome) @ '')'')])"

definition status_errors :: "match_lib \<Rightarrow> expect_spec \<Rightarrow> json \<Rightarrow> nat \<Rightarrow> string list" where
  "status_errors lib expect result run_index =
     (case ex_status expect of
        None \<Rightarrow> []
      | Some status_expect \<Rightarrow>
          (let actual = unwrap_or '''' (Option.bind (json_get ''status'' result) as_str)
           in if actual = '''' \<or> \<not> match_string lib actual status_expect
              then [run_error run_index (''status mismatch (actual '' @ actual @ '')'')] else []))"

fun unmatched_checks :: "match_lib \<Rightarrow> nat \<Rightarrow> nat \<Rightarrow> check_expect list \<Rightarrow> json list \<Rightarrow> string list" where
  "unmatched_checks lib run_index idx [] actual = []"
| "unmatched_checks lib run_index idx (e # es) actual =
     (if list_ex (check_matches lib e) actual then []
      else [run_error run_index (''checks['' @ show_nat idx @ ''] not matched (expect '' @
              describe_check_expect lib e @ '')'')])
     @ unmatched_checks lib run_index (idx + 1) es actual"

definition checks_errors :: "match_lib \<Rightarrow> expect_spec \<Rightarrow> json \<Rightarrow> nat \<Rightarrow> string list" where
  "checks_errors lib expect result run_index =
     (case ex_checks expect of
        None \<Rightarrow> []
      | Some checks_expect \<Rightarrow>
          (case Option.bind (json_get ''checks'' result) as_array of
             None \<Rightarrow> [run_error run_index ''checks missing'']
           | Some checks_actual \<Rightarrow> unmatched_checks lib run_index 0 checks_expect checks_actual))"

definition evaluate_run :: "match_lib \<Rightarrow> expect_spec \<Rightarrow> run_outcome \<Rightarrow> nat \<Rightarrow> string list" where
  "evaluate_run lib expect outcome run_index =
     exit_errors expect outcome run_index @
     (case ro_result_json outcome of
        None \<Rightarrow> if ex_status expect \<noteq> None \<or> ex_checks expect \<noteq> None
                then [run_error run_index ''result JSON missing''] else []
      | Some result \<Rightarrow> status_errors lib expect result run_index @ checks_errors lib expect result run_index)"

section \<open>All runs\<close>

text \<open>The index of the first value that differs from the given one.\<close>

fun first_mismatch :: "'a \<Rightarrow> nat \<Rightarrow> 'a list \<Rightarrow> nat option" where
  "first_mismatch x idx [] = None"
| "first_mismatch x idx (y # ys) = (if y \<noteq> x then Some idx else first_mismatch x (idx + 1) ys)"

fun normalize_outcomes :: "string list \<Rightarrow> nat \<Rightarrow> run_outcome list \<Rightarrow> json list \<times> string list" where
  "normalize_outcomes ignore idx [] = ([], [])"
| "normalize_outcomes ignore idx (outcome # rest) =
     (case normalize_outcomes ignore (idx + 1) rest of
        (normalized, errors) \<Rightarrow>
          (case ro_result_json outcome of
             None \<Rightarrow> (normalized, (''compare: run '' @ show_nat (idx + 1) @ '' result JSON missing'') # errors)
           | Some json \<Rightarrow> (normalize_json json ignore # normalized, errors)))"

definition evaluate_compare :: "expect_spec \<Rightarrow> run_outcome list \<Rightarrow> string \<Rightarrow> string list" where
  "evaluate_compare expect outcomes problem_id =
     (case ex_compare expect of
        None \<Rightarrow> []
      | Some compare \<Rightarrow>
          if cp_kind compare \<noteq> ''normalized_json_equal''
          then [''compare: unsupported kind '' @ cp_kind compare]
          else if length outcomes < 2 then [''compare: repeat must be >= 2'']
          else
            (case normalize_outcomes (unwrap_or [] (cp_ignore_fields compare)) 0 outcomes of
               (normalized, errors) \<Rightarrow>
                 if errors \<noteq> [] then errors
                 else
                   (case first_mismatch (hd normalized) 1 (tl normalized) of
                      None \<Rightarrow> []
                    | Some idx \<Rightarrow>
                        [''compare: normalized_json_equal mismatch (run 1 vs run '' @ show_nat (idx + 1) @
                         '') (see problems/.out/'' @ problem_id @ ''/run-*/normalized.json)''])))"

record deterministic_check_summary =
  dc_evaluated :: bool
  dc_passed :: "bool option"
  dc_reason :: "string option"

definition deterministic_run :: "json \<Rightarrow> bool" where
  "deterministic_run result \<longleftrightarrow>
     Option.bind (Option.bind (json_get ''invocation'' result) (json_get ''deterministic'')) as_bool = Some True"

definition evaluate_deterministic_consistency ::
  "run_outcome list \<Rightarrow> string list \<Rightarrow> deterministic_check_summary \<times> string list" where
  "evaluate_deterministic_consistency outcomes compare_ignore =
     (if length outcomes < 2
      then (\<lparr>dc_evaluated = False, dc_passed = None, dc_reason = Some ''measured runs < 2''\<rparr>, [])
      else
        (case those (map ro_result_json outcomes) of
           None \<Rightarrow> (\<lparr>dc_evaluated = False, dc_passed = None,
                     dc_reason = Some ''some runs do not have result JSON''\<rparr>, [])
         | Some results \<Rightarrow>
             if \<not> list_all deterministic_run results
             then (\<lparr>dc_evaluated = False, dc_passed = None,
                    dc_reason = Some ''invocation.deterministic is not true for all runs''\<rparr>, [])
             else
               (let normalized = map (\<lambda>result. normalize_json result compare_ignore) results
                in case first_mismatch (hd normalized) 1 (tl normalized) of
                     Some idx \<Rightarrow>
                       (\<lparr>dc_evaluated = True, dc_passed = Some False,
                         dc_reason = Some (''mismatch between run 1 and run '' @ show_nat (idx + 1))\<rparr>,
                        [''deterministic consistency mismatch (run 1 vs run '' @ show_nat (idx + 1) @ '')''])
                   | None \<Rightarrow> (\<lparr>dc_evaluated = True, dc_passed = Some True, dc_reason = None\<rparr>, []))))"

section \<open>What the errors mean\<close>

text \<open>A run meets the expectations: the exit code matches, and when a status or checks are expected there is a
  result whose status matches, and in which every expected check has a reported check that matches it.\<close>

definition run_ok :: "match_lib \<Rightarrow> expect_spec \<Rightarrow> run_outcome \<Rightarrow> bool" where
  "run_ok lib expect outcome \<longleftrightarrow>
     (\<forall>e. ex_exit_code expect = Some e \<longrightarrow> match_int (ro_exit_code outcome) e) \<and>
     (\<forall>e. ex_status expect = Some e \<longrightarrow>
        (\<exists>result status. ro_result_json outcome = Some result \<and> json_get ''status'' result = Some (JString status) \<and>
           status \<noteq> '''' \<and> match_string lib status e)) \<and>
     (\<forall>es. ex_checks expect = Some es \<longrightarrow>
        (\<exists>result checks. ro_result_json outcome = Some result \<and> json_get ''checks'' result = Some (JArray checks) \<and>
           (\<forall>e \<in> set es. \<exists>c \<in> set checks. check_matches lib e c)))"

text \<open>All runs have a result, and all results have the same normal form.\<close>

definition same_results :: "string list \<Rightarrow> run_outcome list \<Rightarrow> bool" where
  "same_results ignore outcomes \<longleftrightarrow>
     (\<exists>n. \<forall>outcome \<in> set outcomes. \<exists>result. ro_result_json outcome = Some result \<and> normalize_json result ignore = n)"

definition compare_ok :: "expect_spec \<Rightarrow> run_outcome list \<Rightarrow> bool" where
  "compare_ok expect outcomes \<longleftrightarrow>
     (\<forall>c. ex_compare expect = Some c \<longrightarrow>
        cp_kind c = ''normalized_json_equal'' \<and> 2 \<le> length outcomes \<and>
        same_results (unwrap_or [] (cp_ignore_fields c)) outcomes)"

definition consistency_ok :: "run_outcome list \<Rightarrow> string list \<Rightarrow> bool" where
  "consistency_ok outcomes ignore \<longleftrightarrow>
     (2 \<le> length outcomes \<and>
      (\<forall>outcome \<in> set outcomes. \<exists>result. ro_result_json outcome = Some result \<and> deterministic_run result) \<longrightarrow>
      same_results ignore outcomes)"

lemma as_str_iff: "as_str v = Some s \<longleftrightarrow> v = JString s"
  by (cases v) auto

lemma as_array_iff: "as_array v = Some xs \<longleftrightarrow> v = JArray xs"
  by (cases v) auto

lemma unmatched_checks_nil:
  "unmatched_checks lib i idx es actual = [] \<longleftrightarrow> (\<forall>e \<in> set es. \<exists>c \<in> set actual. check_matches lib e c)"
  by (induction es arbitrary: idx) (auto simp: list_ex_iff)

lemma unwrap_or_nonempty: "unwrap_or [] x \<noteq> [] \<longleftrightarrow> (\<exists>s. x = Some s \<and> s \<noteq> [])"
  by (cases x) auto

lemma status_errors_nil:
  "status_errors lib expect result i = [] \<longleftrightarrow>
     (\<forall>e. ex_status expect = Some e \<longrightarrow> (\<exists>status. json_get ''status'' result = Some (JString status) \<and>
        status \<noteq> '''' \<and> match_string lib status e))"
proof (cases "Option.bind (json_get ''status'' result) as_str")
  case (Some s)
  then have "json_get ''status'' result = Some (JString s)" by (auto simp: bind_eq_Some_conv as_str_iff)
  with Some show ?thesis by (auto simp: status_errors_def Let_def split: option.splits)
next
  case None
  then have "json_get ''status'' result \<noteq> Some (JString s)" for s by (cases "json_get ''status'' result") auto
  with None show ?thesis by (auto simp: status_errors_def Let_def split: option.splits)
qed

lemma checks_errors_nil:
  "checks_errors lib expect result i = [] \<longleftrightarrow>
     (\<forall>es. ex_checks expect = Some es \<longrightarrow> (\<exists>checks. json_get ''checks'' result = Some (JArray checks) \<and>
        (\<forall>e \<in> set es. \<exists>c \<in> set checks. check_matches lib e c)))"
proof (cases "Option.bind (json_get ''checks'' result) as_array")
  case (Some xs)
  then have "json_get ''checks'' result = Some (JArray xs)" by (auto simp: bind_eq_Some_conv as_array_iff)
  with Some show ?thesis by (auto simp: checks_errors_def unmatched_checks_nil split: option.splits)
next
  case None
  then have "json_get ''checks'' result \<noteq> Some (JArray s)" for s by (cases "json_get ''checks'' result") auto
  with None show ?thesis by (auto simp: checks_errors_def split: option.splits)
qed

lemma evaluate_run_nil: "evaluate_run lib expect outcome i = [] \<longleftrightarrow> run_ok lib expect outcome"
  by (cases "ro_result_json outcome")
    (auto simp: evaluate_run_def run_ok_def exit_errors_def status_errors_nil checks_errors_nil when_some_def
       split: option.splits)

lemma first_mismatch_None: "first_mismatch x i ys = None \<longleftrightarrow> (\<forall>y \<in> set ys. y = x)"
  by (induction ys arbitrary: i) auto

lemma normalize_outcomes_eq:
  "normalize_outcomes ignore i outcomes = (normalized, []) \<longleftrightarrow>
     map (\<lambda>outcome. map_option (\<lambda>r. normalize_json r ignore) (ro_result_json outcome)) outcomes = map Some normalized"
proof (induction outcomes arbitrary: i normalized)
  case (Cons outcome rest)
  show ?case
    by (cases normalized; cases "normalize_outcomes ignore (i + 1) rest")
      (use Cons [of "i + 1"] in \<open>auto split: option.splits\<close>)
qed auto

lemma same_results_list:
  assumes "map (\<lambda>outcome. map_option (\<lambda>r. normalize_json r ignore) (ro_result_json outcome)) outcomes = map Some (n # ns)"
  shows "same_results ignore outcomes \<longleftrightarrow> (\<forall>m \<in> set ns. m = n)"
proof -
  have "(\<exists>result. ro_result_json outcome = Some result \<and> normalize_json result ignore = m) \<longleftrightarrow>
      map_option (\<lambda>r. normalize_json r ignore) (ro_result_json outcome) = Some m" for outcome m by auto
  then have "same_results ignore outcomes \<longleftrightarrow>
      (\<exists>m. \<forall>x \<in> set (map (\<lambda>outcome. map_option (\<lambda>r. normalize_json r ignore) (ro_result_json outcome)) outcomes). x = Some m)"
    by (simp add: same_results_def)
  then show ?thesis unfolding assms by auto
qed

lemma normalize_outcomes_missing:
  "snd (normalize_outcomes ignore i outcomes) \<noteq> [] \<longleftrightarrow> (\<exists>outcome \<in> set outcomes. ro_result_json outcome = None)"
proof (induction outcomes arbitrary: i)
  case (Cons outcome rest)
  then show ?case
    using Cons [of "i + 1"]
    by (cases "normalize_outcomes ignore (i + 1) rest"; cases "ro_result_json outcome") auto
qed simp

lemma evaluate_compare_nil: "evaluate_compare expect outcomes pid = [] \<longleftrightarrow> compare_ok expect outcomes"
proof (cases "ex_compare expect")
  case (Some c)
  let ?ignore = "unwrap_or [] (cp_ignore_fields c)"
  obtain normalized errors where no: "normalize_outcomes ?ignore 0 outcomes = (normalized, errors)" by fastforce
  consider "cp_kind c \<noteq> ''normalized_json_equal'' \<or> length outcomes < 2"
    | "cp_kind c = ''normalized_json_equal''" "2 \<le> length outcomes" "errors \<noteq> []"
    | "cp_kind c = ''normalized_json_equal''" "2 \<le> length outcomes" "errors = []" by linarith
  then show ?thesis
  proof cases
    case 2
    then have "\<exists>outcome \<in> set outcomes. ro_result_json outcome = None"
      using normalize_outcomes_missing [of ?ignore 0 outcomes] no by simp
    then have "\<not> same_results ?ignore outcomes" by (force simp: same_results_def)
    then show ?thesis using 2 Some no by (simp add: evaluate_compare_def compare_ok_def)
  next
    case 3
    then have m: "map (\<lambda>outcome. map_option (\<lambda>r. normalize_json r ?ignore) (ro_result_json outcome)) outcomes
        = map Some normalized" using normalize_outcomes_eq no by metis
    then have "length normalized = length outcomes" by (metis length_map)
    then obtain n ns where n: "normalized = n # ns" using 3 by (cases normalized) auto
    have same: "same_results ?ignore outcomes \<longleftrightarrow> (\<forall>m \<in> set ns. m = n)" using same_results_list m n by simp
    show ?thesis
      by (cases "first_mismatch n 1 ns")
        (use 3 Some no same n first_mismatch_None [of n 1 ns] in \<open>auto simp: evaluate_compare_def compare_ok_def\<close>)
  qed (use Some in \<open>auto simp: evaluate_compare_def compare_ok_def\<close>)
qed (simp add: evaluate_compare_def compare_ok_def)

lemma those_Some: "those xs = Some ys \<longleftrightarrow> xs = map Some ys"
proof (induction xs arbitrary: ys)
  case (Cons x xs)
  then show ?case by (cases ys) (auto split: option.splits)
qed auto

lemma those_None: "those xs = None \<longleftrightarrow> None \<in> set xs"
  by (induction xs) (auto split: option.splits)

lemma deterministic_consistency_nil:
  "snd (evaluate_deterministic_consistency outcomes ignore) = [] \<longleftrightarrow> consistency_ok outcomes ignore"
proof (cases "2 \<le> length outcomes")
  case long: True
  show ?thesis
  proof (cases "those (map ro_result_json outcomes)")
    case None
    then have "None \<in> ro_result_json ` set outcomes" by (simp add: those_None)
    then have "consistency_ok outcomes ignore" by (force simp: consistency_ok_def)
    with None long show ?thesis by (simp add: evaluate_deterministic_consistency_def)
  next
    case (Some results)
    then have r: "map ro_result_json outcomes = map Some results" by (simp add: those_Some)
    then have len: "length results = length outcomes" by (metis length_map)
    then obtain x xs where x: "results = x # xs" using long by (cases results) auto
    have m: "map (\<lambda>outcome. map_option (\<lambda>r. normalize_json r ignore) (ro_result_json outcome)) outcomes
        = map Some (normalize_json x ignore # map (\<lambda>r. normalize_json r ignore) xs)"
      using arg_cong [OF r, of "map (map_option (\<lambda>r. normalize_json r ignore))"] x by (simp add: comp_def)
    have "(\<forall>outcome \<in> set outcomes. \<exists>result. ro_result_json outcome = Some result \<and> deterministic_run result)
        \<longleftrightarrow> (\<forall>y \<in> set (map ro_result_json outcomes). \<exists>result. y = Some result \<and> deterministic_run result)" by simp
    also have "\<dots> \<longleftrightarrow> list_all deterministic_run results" unfolding r by (auto simp: list_all_iff)
    finally have d: "(\<forall>outcome \<in> set outcomes. \<exists>result. ro_result_json outcome = Some result \<and> deterministic_run result)
        \<longleftrightarrow> list_all deterministic_run results" .
    let ?fm = "first_mismatch (normalize_json x ignore) 1 (map (\<lambda>r. normalize_json r ignore) xs)"
    have "?fm = None \<longleftrightarrow> same_results ignore outcomes"
      using same_results_list [OF m] by (simp add: first_mismatch_None)
    then show ?thesis
      by (cases ?fm) (use long Some d x in \<open>auto simp: evaluate_deterministic_consistency_def consistency_ok_def Let_def\<close>)
  qed
qed (simp add: evaluate_deterministic_consistency_def consistency_ok_def)

end
