(* ===== verification/Cspx_Measure.thy ===== *)
theory Cspx_Measure
  imports Cspx_Expect "HOL-Library.Multiset"
begin

text \<open>
  The measurements the problem runner takes from the results of a problem
  (\<^verbatim>\<open>crates/cspx-problems/src/main.rs\<close>): the numbers read from each result, and their minimum, median and maximum.
  The results: the median halves the values, it does not overflow, and the order of the runs does not matter; the
  states and transitions of a result without metrics are the saturated sums over its checks.
\<close>

section \<open>Aggregates\<close>

record aggregate_value =
  av_min :: "u64 option"
  av_median :: "u64 option"
  av_max :: "u64 option"

text \<open>The sum of the two middle values is taken at 128 bits.\<close>

definition midpoint :: "u64 \<Rightarrow> u64 \<Rightarrow> u64" where
  "midpoint a b = ucast ((ucast a + ucast b :: 128 word) div 2)"

definition median_sorted :: "u64 list \<Rightarrow> u64" where
  "median_sorted xs =
     (if length xs mod 2 = 1 then xs ! (length xs div 2)
      else (let upper = length xs div 2; lower = upper - 1 in midpoint (xs ! lower) (xs ! upper)))"

definition aggregate_u64 :: "u64 list \<Rightarrow> aggregate_value" where
  "aggregate_u64 values =
     (if values = [] then \<lparr>av_min = None, av_median = None, av_max = None\<rparr>
      else (let xs = sort values
            in \<lparr>av_min = Some (hd xs), av_median = Some (median_sorted xs), av_max = Some (last xs)\<rparr>))"

section \<open>Reading a result\<close>

fun sum_stats_loop :: "string \<Rightarrow> u64 \<Rightarrow> json list \<Rightarrow> u64 option" where
  "sum_stats_loop k acc [] = Some acc"
| "sum_stats_loop k acc (check # checks) =
     (case Option.bind (Option.bind (json_get ''stats'' check) (json_get k)) as_u64 of
        None \<Rightarrow> None
      | Some v \<Rightarrow> sum_stats_loop k (sat_add acc v) checks)"

definition sum_check_stats :: "json \<Rightarrow> string \<Rightarrow> u64 option" where
  "sum_check_stats result k =
     Option.bind (Option.bind (json_get ''checks'' result) as_array) (sum_stats_loop k 0)"

text \<open>The first tag \<^verbatim>\<open>key:number\<close> of a counterexample.\<close>

definition tag_value :: "string \<Rightarrow> json \<Rightarrow> u64 option" where
  "tag_value pre tag =
     Option.bind (as_str tag) (\<lambda>text. Option.bind (strip_prefix pre text) u64_from_str)"

fun first_tag_value :: "string \<Rightarrow> json list \<Rightarrow> u64 option" where
  "first_tag_value pre [] = None"
| "first_tag_value pre (tag # tags) =
     (case tag_value pre tag of Some v \<Rightarrow> Some v | None \<Rightarrow> first_tag_value pre tags)"

definition check_tags :: "json \<Rightarrow> json list option" where
  "check_tags check =
     Option.bind (Option.bind (json_get ''counterexample'' check) (json_get ''tags'')) as_array"

fun first_check_value :: "string \<Rightarrow> json list \<Rightarrow> u64 option" where
  "first_check_value pre [] = None"
| "first_check_value pre (check # checks) =
     (case check_tags check of
        None \<Rightarrow> first_check_value pre checks
      | Some tags \<Rightarrow>
          (case first_tag_value pre tags of Some v \<Rightarrow> Some v | None \<Rightarrow> first_check_value pre checks))"

definition extract_fd_tag_metric :: "json \<Rightarrow> string \<Rightarrow> u64 option" where
  "extract_fd_tag_metric result k =
     Option.bind (Option.bind (json_get ''checks'' result) as_array) (first_check_value (k @ '':''))"

record 'v divergence_metrics =
  fd_nodes :: 'v
  fd_edges :: 'v
  fd_divergence_checks :: 'v
  fd_pruned_nodes :: 'v
  fd_impl_closure_max :: 'v
  fd_spec_closure_max :: 'v
  fd_closure_cache_hits :: 'v
  fd_closure_cache_misses :: 'v
  fd_divergence_cache_hits :: 'v
  fd_divergence_cache_misses :: 'v

text \<open>The run summary and the aggregate have the same fields, at \<^typ>\<open>u64 option\<close> and at \<^typ>\<open>aggregate_value\<close>.\<close>

type_synonym divergence_run_summary = "u64 option divergence_metrics"
type_synonym divergence_aggregate_summary = "aggregate_value divergence_metrics"

definition extract_divergence_metrics :: "json \<Rightarrow> divergence_run_summary option" where
  "extract_divergence_metrics result =
     (let summary =
        \<lparr>fd_nodes = extract_fd_tag_metric result ''fd_nodes'',
         fd_edges = extract_fd_tag_metric result ''fd_edges'',
         fd_divergence_checks = extract_fd_tag_metric result ''fd_divergence_checks'',
         fd_pruned_nodes = extract_fd_tag_metric result ''fd_pruned_nodes'',
         fd_impl_closure_max = extract_fd_tag_metric result ''fd_impl_closure_max'',
         fd_spec_closure_max = extract_fd_tag_metric result ''fd_spec_closure_max'',
         fd_closure_cache_hits = extract_fd_tag_metric result ''fd_closure_cache_hits'',
         fd_closure_cache_misses = extract_fd_tag_metric result ''fd_closure_cache_misses'',
         fd_divergence_cache_hits = extract_fd_tag_metric result ''fd_divergence_cache_hits'',
         fd_divergence_cache_misses = extract_fd_tag_metric result ''fd_divergence_cache_misses''\<rparr>
      in if fd_nodes summary = None \<and> fd_edges summary = None \<and> fd_divergence_checks summary = None \<and>
            fd_pruned_nodes summary = None \<and> fd_impl_closure_max summary = None \<and>
            fd_spec_closure_max summary = None \<and> fd_closure_cache_hits summary = None \<and>
            fd_closure_cache_misses summary = None \<and> fd_divergence_cache_hits summary = None \<and>
            fd_divergence_cache_misses summary = None
         then None else Some summary)"

definition or_else :: "'a option \<Rightarrow> 'a option \<Rightarrow> 'a option" where
  "or_else x y = (case x of None \<Rightarrow> y | Some v \<Rightarrow> Some v)"

definition extract_measurement_fields ::
  "json option \<Rightarrow> u64 option \<times> u64 option \<times> u64 option \<times> divergence_run_summary option" where
  "extract_measurement_fields result_json =
     (case result_json of
        None \<Rightarrow> (None, None, None, None)
      | Some result \<Rightarrow>
          (let metric = (\<lambda>k. Option.bind (Option.bind (json_get ''metrics'' result) (json_get k)) as_u64)
           in (Option.bind (json_get ''duration_ms'' result) as_u64,
               or_else (metric ''states'') (sum_check_stats result ''states''),
               or_else (metric ''transitions'') (sum_check_stats result ''transitions''),
               extract_divergence_metrics result)))"

section \<open>The summary of a problem\<close>

record measurement_invocation =
  mi_threads :: "u64 option"
  mi_deterministic :: "bool option"
  mi_seed :: "u64 option"

record measured_run_summary =
  mr_run :: u32
  mr_exit_code :: int
  mr_status :: "string option"
  mr_duration_ms :: "u64 option"
  mr_states :: "u64 option"
  mr_transitions :: "u64 option"
  mr_divergence :: "divergence_run_summary option"

record measurement_aggregate_summary =
  ma_duration_ms :: aggregate_value
  ma_states :: aggregate_value
  ma_transitions :: aggregate_value
  ma_divergence :: "divergence_aggregate_summary option"

record measurement_summary =
  ms_problem_id :: string
  ms_suite :: string
  ms_warmup_runs :: u32
  ms_measured_runs :: u32
  ms_aggregation :: string
  ms_outlier_policy :: string
  ms_invocation :: measurement_invocation
  ms_deterministic_check :: deterministic_check_summary
  ms_runs :: "measured_run_summary list"
  ms_aggregate :: measurement_aggregate_summary

definition extract_invocation_summary :: "run_outcome list \<Rightarrow> measurement_invocation" where
  "extract_invocation_summary outcomes =
     (case (case outcomes of [] \<Rightarrow> None | outcome # _ \<Rightarrow> ro_result_json outcome) of
        None \<Rightarrow> \<lparr>mi_threads = None, mi_deterministic = None, mi_seed = None\<rparr>
      | Some first_json \<Rightarrow>
          (let field = (\<lambda>k. Option.bind (json_get ''invocation'' first_json) (json_get k))
           in \<lparr>mi_threads = Option.bind (field ''parallel'') as_u64,
               mi_deterministic = Option.bind (field ''deterministic'') as_bool,
               mi_seed = Option.bind (field ''seed'') as_u64\<rparr>))"

definition divergence_values ::
  "(divergence_run_summary \<Rightarrow> u64 option) \<Rightarrow> measured_run_summary list \<Rightarrow> u64 list" where
  "divergence_values f runs = List.map_filter (\<lambda>run. Option.bind (mr_divergence run) f) runs"

definition build_divergence_aggregate :: "measured_run_summary list \<Rightarrow> divergence_aggregate_summary option" where
  "build_divergence_aggregate runs =
     (if divergence_values fd_nodes runs = [] \<and> divergence_values fd_edges runs = [] \<and>
         divergence_values fd_divergence_checks runs = [] \<and> divergence_values fd_pruned_nodes runs = [] \<and>
         divergence_values fd_impl_closure_max runs = [] \<and> divergence_values fd_spec_closure_max runs = [] \<and>
         divergence_values fd_closure_cache_hits runs = [] \<and> divergence_values fd_closure_cache_misses runs = [] \<and>
         divergence_values fd_divergence_cache_hits runs = [] \<and> divergence_values fd_divergence_cache_misses runs = []
      then None
      else Some
        \<lparr>fd_nodes = aggregate_u64 (divergence_values fd_nodes runs),
         fd_edges = aggregate_u64 (divergence_values fd_edges runs),
         fd_divergence_checks = aggregate_u64 (divergence_values fd_divergence_checks runs),
         fd_pruned_nodes = aggregate_u64 (divergence_values fd_pruned_nodes runs),
         fd_impl_closure_max = aggregate_u64 (divergence_values fd_impl_closure_max runs),
         fd_spec_closure_max = aggregate_u64 (divergence_values fd_spec_closure_max runs),
         fd_closure_cache_hits = aggregate_u64 (divergence_values fd_closure_cache_hits runs),
         fd_closure_cache_misses = aggregate_u64 (divergence_values fd_closure_cache_misses runs),
         fd_divergence_cache_hits = aggregate_u64 (divergence_values fd_divergence_cache_hits runs),
         fd_divergence_cache_misses = aggregate_u64 (divergence_values fd_divergence_cache_misses runs)\<rparr>)"

definition measured_run :: "nat \<times> run_outcome \<Rightarrow> measured_run_summary" where
  "measured_run io =
     (case io of (idx, outcome) \<Rightarrow>
        (case extract_measurement_fields (ro_result_json outcome) of
           (duration, states, transn, divergence) \<Rightarrow>
             \<lparr>mr_run = of_nat (idx + 1), mr_exit_code = ro_exit_code outcome, mr_status = ro_result_status outcome,
              mr_duration_ms = duration, mr_states = states, mr_transitions = transn,
              mr_divergence = divergence\<rparr>))"

text \<open>The suite is a parameter here: the caller reads it from the specification of the problem.\<close>

definition build_measurement_summary ::
  "string \<Rightarrow> string \<Rightarrow> u32 \<Rightarrow> u32 \<Rightarrow> run_outcome list \<Rightarrow> deterministic_check_summary \<Rightarrow> measurement_summary" where
  "build_measurement_summary problem_id suite warmup_runs repeat outcomes deterministic_check =
     (let runs = map measured_run (enumerate 0 outcomes)
      in \<lparr>ms_problem_id = problem_id, ms_suite = suite, ms_warmup_runs = warmup_runs, ms_measured_runs = repeat,
          ms_aggregation = ''median'', ms_outlier_policy = ''none'',
          ms_invocation = extract_invocation_summary outcomes, ms_deterministic_check = deterministic_check,
          ms_runs = runs,
          ms_aggregate =
            \<lparr>ma_duration_ms = aggregate_u64 (List.map_filter mr_duration_ms runs),
             ma_states = aggregate_u64 (List.map_filter mr_states runs),
             ma_transitions = aggregate_u64 (List.map_filter mr_transitions runs),
             ma_divergence = build_divergence_aggregate runs\<rparr>\<rparr>)"

section \<open>Lemmas\<close>

lemma unat_midpoint: "unat (midpoint a b) = (unat a + unat b) div 2"
proof -
  have a: "unat a < 2 ^ 64" "unat b < 2 ^ 64"
    using unsigned_less [of a, where ?'a = nat] unsigned_less [of b, where ?'a = nat] by simp_all
  have "unat (ucast a + ucast b :: 128 word) = unat a + unat b"
    using a unat_add_lem [of "ucast a :: 128 word" "ucast b"] by (simp add: unsigned_ucast_eq take_bit_nat_eq_self)
  then show ?thesis using a by (simp add: midpoint_def unsigned_ucast_eq unat_div take_bit_nat_eq_self)
qed

lemma aggregate_order: "mset values = mset values' \<Longrightarrow> aggregate_u64 values = aggregate_u64 values'"
proof -
  assume m: "mset values = mset values'"
  then have "sort values = sort values'" by (metis properties_for_sort sorted_sort mset_sort)
  then show ?thesis using m by (auto simp: aggregate_u64_def)
qed

lemma midpoint_between: "a \<le> b \<Longrightarrow> a \<le> midpoint a b \<and> midpoint a b \<le> b"
proof -
  have "m \<le> n \<Longrightarrow> m \<le> (m + n) div 2 \<and> (m + n) div 2 \<le> n" for m n :: nat by presburger
  then show "a \<le> b \<Longrightarrow> ?thesis" by (simp add: word_le_nat_alt unat_midpoint)
qed

lemma median_between:
  assumes "sorted xs" "xs \<noteq> []"
  shows "hd xs \<le> median_sorted xs \<and> median_sorted xs \<le> last xs"
proof -
  have le: "hd xs \<le> xs ! i \<and> xs ! i \<le> last xs" if "i < length xs" for i
    using assms that by (simp add: hd_conv_nth last_conv_nth sorted_nth_mono)
  define m where "m = length xs div 2"
  have m: "m < length xs" "m - 1 < length xs" using length_greater_0_conv [of xs] assms(2) unfolding m_def by linarith+
  have "xs ! (m - 1) \<le> xs ! m" using assms m by (simp add: sorted_nth_mono)
  then have "xs ! (m - 1) \<le> midpoint (xs ! (m - 1)) (xs ! m) \<and> midpoint (xs ! (m - 1)) (xs ! m) \<le> xs ! m"
    by (rule midpoint_between)
  then show ?thesis
    using le [OF m(1)] le [OF m(2)] by (auto simp: median_sorted_def Let_def m_def [symmetric] intro: order_trans)
qed

text \<open>At least half of the values are at most the median, and at least half of them are at least the median.\<close>

lemma median_halves:
  assumes "sorted xs" "xs \<noteq> []"
  shows "length xs \<le> 2 * length (filter (\<lambda>x. x \<le> median_sorted xs) xs)"
    and "length xs \<le> 2 * length (filter (\<lambda>x. median_sorted xs \<le> x) xs)"
proof -
  define m where "m = length xs div 2"
  have lower: "median_sorted xs \<ge> xs ! (length xs - 1 - m)" and upper: "median_sorted xs \<le> xs ! m"
  proof -
    have m: "m < length xs" using assms by (simp add: m_def)
    have "xs ! (m - 1) \<le> xs ! m" using assms m by (simp add: sorted_nth_mono)
    note mid = midpoint_between [OF this]
    have "length xs - 1 - m = (if length xs mod 2 = 1 then m else m - 1)" unfolding m_def by presburger
    then show "median_sorted xs \<ge> xs ! (length xs - 1 - m)" "median_sorted xs \<le> xs ! m"
      using mid by (auto simp: median_sorted_def Let_def m_def)
  qed
  have half: "m < length xs" "length xs \<le> 2 * (length xs - m)" using assms by (auto simp: m_def)
  have "xs ! i \<le> xs ! (length xs - 1 - m)" if "i < length xs - m" for i
    using that half assms(1) by (intro sorted_nth_mono) auto
  then have "\<forall>x \<in> set (take (length xs - m) xs). x \<le> median_sorted xs"
    using lower by (fastforce simp: in_set_conv_nth)
  then have "filter (\<lambda>x. x \<le> median_sorted xs) (take (length xs - m) xs) = take (length xs - m) xs"
    by (intro filter_True) simp
  then have "length xs - m \<le> length (filter (\<lambda>x. x \<le> median_sorted xs) (take (length xs - m) xs @ drop (length xs - m) xs))"
    by (simp only: filter_append) simp
  then show "length xs \<le> 2 * length (filter (\<lambda>x. x \<le> median_sorted xs) xs)" using half by simp
  have "xs ! m \<le> xs ! (m + i)" if "i < length xs - m" for i
    using that half assms(1) by (intro sorted_nth_mono) auto
  then have "\<forall>x \<in> set (drop m xs). median_sorted xs \<le> x"
    using upper by (fastforce simp: in_set_conv_nth)
  then have "filter (\<lambda>x. median_sorted xs \<le> x) (drop m xs) = drop m xs"
    by (intro filter_True) simp
  then have "length xs - m \<le> length (filter (\<lambda>x. median_sorted xs \<le> x) (take m xs @ drop m xs))"
    by (simp only: filter_append) simp
  then show "length xs \<le> 2 * length (filter (\<lambda>x. median_sorted xs \<le> x) xs)" using half by simp
qed

lemma sum_stats_loop_eq:
  "sum_stats_loop k (sat_of_nat n) checks =
     map_option (\<lambda>vs. sat_of_nat (n + sum_list (map unat vs)))
       (those (map (\<lambda>check. Option.bind (Option.bind (json_get ''stats'' check) (json_get k)) as_u64) checks))"
proof (induction checks arbitrary: n)
  case (Cons check checks)
  show ?case
  proof (cases "Option.bind (Option.bind (json_get ''stats'' check) (json_get k)) as_u64")
    case (Some v)
    have "sat_add (sat_of_nat n) v = sat_of_nat (n + unat v)"
      using sat_add_sat_of_nat [of "unat v" n] unsigned_less [of v, where ?'a = nat] by simp
    then show ?thesis using Some Cons [of "n + unat v"] by (auto simp: option.map_comp comp_def add.assoc)
  qed simp
qed simp

end
