(* ===== verification/Cspx_Problems.thy ===== *)
theory Cspx_Problems
  imports Cspx_Measure
begin

text \<open>
  The problem runner (\<^verbatim>\<open>crates/cspx-problems/src/main.rs\<close>): loading and selecting problems, running the command of a
  problem, its verdict, and the program, one problem after the other or on a thread pool. The results: a problem
  passes exactly when every run and the comparisons meet what is declared, and the exit code and the printed lines
  do not depend on the number of jobs. Parameters are the YAML and JSON libraries, the schemas, the child processes
  and the thread pool. Directories, failing writes, the warnings on the error stream and the chain of causes
  below an error message are not modelled.
\<close>

section \<open>Problems and arguments\<close>

record run_spec =
  rn_cmd :: "string list"
  rn_cwd :: "string option"
  rn_env :: "(string \<rightharpoonup> string) option"
  rn_timeout_ms :: "u64 option"
  rn_repeat :: "u32 option"

record problem_spec =
  ps_id :: string
  ps_title :: string
  ps_suite :: "string option"
  ps_tags :: "string list option"
  ps_timeout_ms :: "u64 option"
  ps_run :: run_spec

record problem =
  pb_dir :: string
  pb_spec :: problem_spec

datatype suite = Fast | Bench

record runner_args =
  ra_suite :: suite
  ra_list :: bool
  ra_only :: "string list"
  ra_only_dir :: "string list"
  ra_cspx :: "string option"
  ra_jobs :: nat
  ra_measure_runs :: u32
  ra_warmup_runs :: u32

datatype problem_result = ProblemPass | ProblemFail

text \<open>A child process: what is started, and how it ends. An exit by a signal has no code.\<close>

record spawn_request =
  sp_program :: string
  sp_args :: "string list"
  sp_cwd :: string
  sp_env :: "string \<rightharpoonup> string"

datatype waited = Exited "int option" | TimedOut

datatype child_result =
    SpawnFailed
  | ChildError string
  | Finished waited string string

text \<open>\<open>run_child\<close> is given the request, the time limit and the number of executions of the same command before.
  \<open>validate\<close> lists the violations of the schema with the given text, and is \<^const>\<open>None\<close> when the text is no schema.\<close>

record runner_lib =
  rl_match :: match_lib
  yaml_json :: "string \<Rightarrow> json option"
  yaml_problem :: "string \<Rightarrow> problem_spec option"
  yaml_expect :: "string \<Rightarrow> expect_spec option"
  validate :: "string \<Rightarrow> (json \<Rightarrow> string list) option"
  json_from_slice :: "string \<Rightarrow> json option"
  json_pretty :: "json \<Rightarrow> string"
  summary_pretty :: "measurement_summary \<Rightarrow> string"
  canonicalize :: "string \<Rightarrow> string option"
  run_child :: "spawn_request \<Rightarrow> u64 option \<Rightarrow> nat \<Rightarrow> child_result"
  thread_pool :: "nat \<Rightarrow> bool"

section \<open>Paths\<close>

definition is_absolute :: "string \<Rightarrow> bool" where
  "is_absolute p \<longleftrightarrow> p \<noteq> '''' \<and> hd p = CHR ''/''"

text \<open>\<^verbatim>\<open>Path::join\<close>.\<close>

definition path_join :: "string \<Rightarrow> string \<Rightarrow> string" where
  "path_join base p =
     (if is_absolute p then p
      else if base = '''' \<or> last base = CHR ''/'' then base @ p
      else base @ ''/'' @ p)"

definition canonicalize_for_match :: "runner_lib \<Rightarrow> string \<Rightarrow> string \<Rightarrow> string" where
  "canonicalize_for_match lib root input =
     (let abs = (if is_absolute input then input else path_join root input)
      in unwrap_or abs (canonicalize lib abs))"

section \<open>Loading\<close>

text \<open>\<^verbatim>\<open>fs::read_to_string\<close> with the context \<^verbatim>\<open>read path\<close>.\<close>

definition read_text :: "fs \<Rightarrow> string \<Rightarrow> string + string" where
  "read_text fs p =
     (case fs p of
        None \<Rightarrow> Inl (''read '' @ p)
      | Some text \<Rightarrow> if utf8_valid text then Inr text else Inl (''read '' @ p))"

definition load_schema :: "runner_lib \<Rightarrow> fs \<Rightarrow> string \<Rightarrow> string \<Rightarrow> string + (json \<Rightarrow> string list)" where
  "load_schema lib fs p what =
     and_then (read_text fs p) (\<lambda>text.
       if json_from_slice lib text = None then Inl (''parse '' @ what)
       else ok_or (''compile '' @ what) (validate lib text))"

definition load_problem_schema :: "runner_lib \<Rightarrow> fs \<Rightarrow> string \<Rightarrow> string + (json \<Rightarrow> string list)" where
  "load_problem_schema lib fs root =
     load_schema lib fs (path_join (path_join root ''schemas'') ''problem.schema.json'') ''problem schema''"

definition load_expect_schema :: "runner_lib \<Rightarrow> fs \<Rightarrow> string \<Rightarrow> string + (json \<Rightarrow> string list)" where
  "load_expect_schema lib fs root =
     load_schema lib fs (path_join (path_join root ''schemas'') ''expect.schema.json'') ''expect schema''"

text \<open>A file is read as a JSON value, which must satisfy the schema, and again as the structure.\<close>

definition load_yaml ::
  "runner_lib \<Rightarrow> fs \<Rightarrow> (json \<Rightarrow> string list) \<Rightarrow> string \<Rightarrow> string \<Rightarrow> string \<Rightarrow> (string \<Rightarrow> 'a option) \<Rightarrow> string + 'a" where
  "load_yaml lib fs schema p name what from_yaml =
     and_then (read_text fs p) (\<lambda>text.
     and_then (ok_or (''parse '' @ name @ '' as json'') (yaml_json lib text)) (\<lambda>raw_json.
       if schema raw_json \<noteq> []
       then Inl (what @ '' schema validation failed: '' @ p @ [newline] @ join [newline] (schema raw_json))
       else ok_or (''parse '' @ name) (from_yaml text)))"

text \<open>The entries of the directory are its paths, with a mark for the directories among them.\<close>

fun load_problems_loop ::
  "runner_lib \<Rightarrow> fs \<Rightarrow> (json \<Rightarrow> string list) \<Rightarrow> (string \<times> bool) list \<Rightarrow> problem list \<Rightarrow> string + problem list" where
  "load_problems_loop lib fs schema [] problems = Inr problems"
| "load_problems_loop lib fs schema ((dir, is_dir) # entries) problems =
     (if \<not> is_dir then load_problems_loop lib fs schema entries problems
      else
        (let problem_yaml = path_join dir ''problem.yaml''
         in if fs problem_yaml = None then load_problems_loop lib fs schema entries problems
            else and_then (load_yaml lib fs schema problem_yaml ''problem.yaml'' ''problem'' (yaml_problem lib)) (\<lambda>spec.
                   load_problems_loop lib fs schema entries (problems @ [\<lparr>pb_dir = dir, pb_spec = spec\<rparr>]))))"

definition load_problems ::
  "runner_lib \<Rightarrow> fs \<Rightarrow> (json \<Rightarrow> string list) \<Rightarrow> (string \<times> bool) list option \<Rightarrow> string + problem list" where
  "load_problems lib fs schema entries =
     (case entries of None \<Rightarrow> Inr [] | Some es \<Rightarrow> load_problems_loop lib fs schema es [])"

definition load_expect :: "runner_lib \<Rightarrow> fs \<Rightarrow> (json \<Rightarrow> string list) \<Rightarrow> problem \<Rightarrow> string + expect_spec" where
  "load_expect lib fs schema problem =
     (let expect_path = path_join (pb_dir problem) ''expect.yaml''
      in if fs expect_path = None then Inl (''expect.yaml is required: '' @ expect_path)
         else load_yaml lib fs schema expect_path ''expect.yaml'' ''expect'' (yaml_expect lib))"

section \<open>Selecting\<close>

definition effective_suite :: "problem_spec \<Rightarrow> string" where
  "effective_suite spec =
     (case ps_suite spec of
        Some s \<Rightarrow> s
      | None \<Rightarrow>
          (case ps_tags spec of
             None \<Rightarrow> ''fast''
           | Some tags \<Rightarrow>
               if ''bench'' \<in> set tags then ''bench'' else if ''fast'' \<in> set tags then ''fast'' else ''fast''))"

fun suite_name :: "suite \<Rightarrow> string" where
  "suite_name Fast = ''fast''"
| "suite_name Bench = ''bench''"

definition filter_problems :: "runner_lib \<Rightarrow> problem list \<Rightarrow> runner_args \<Rightarrow> string \<Rightarrow> problem list" where
  "filter_problems lib problems args root =
     (let use_only = (ra_only args \<noteq> [] \<or> ra_only_dir args \<noteq> []);
          only_dirs = set (map (canonicalize_for_match lib root) (ra_only_dir args))
      in filter (\<lambda>problem.
           if use_only
           then ps_id (pb_spec problem) \<in> set (ra_only args) \<or>
                canonicalize_for_match lib root (pb_dir problem) \<in> only_dirs
           else effective_suite (pb_spec problem) = suite_name (ra_suite args)) problems)"

section \<open>Running\<close>

text \<open>The first word \<^verbatim>\<open>cspx\<close> of a command stands for the tool under test.\<close>

definition resolve_cmd :: "string \<Rightarrow> string option \<Rightarrow> string list \<Rightarrow> string list" where
  "resolve_cmd root cspx cmd =
     (case cspx of
        None \<Rightarrow> cmd
      | Some tool \<Rightarrow>
          if cmd \<noteq> [] \<and> hd cmd = ''cspx''
          then (if is_absolute tool then tool else path_join root tool) # tl cmd else cmd)"

definition run_cwd :: "problem \<Rightarrow> string" where
  "run_cwd problem =
     (case rn_cwd (ps_run (pb_spec problem)) of
        Some cwd \<Rightarrow> if is_absolute cwd then cwd else path_join (pb_dir problem) cwd
      | None \<Rightarrow> pb_dir problem)"

definition run_timeout :: "problem \<Rightarrow> u64 option" where
  "run_timeout problem = or_else (rn_timeout_ms (ps_run (pb_spec problem))) (ps_timeout_ms (pb_spec problem))"

fun exit_code_of :: "waited \<Rightarrow> int" where
  "exit_code_of (Exited (Some code)) = code"
| "exit_code_of (Exited None) = 1"
| "exit_code_of TimedOut = 124"

definition result_status_of :: "json option \<Rightarrow> string option" where
  "result_status_of result_json = Option.bind (Option.bind result_json (json_get ''status'')) as_str"

text \<open>\<^const>\<open>None\<close> is the panic of an empty command. The number of earlier executions tells repetitions apart.\<close>

definition execute_run :: "runner_lib \<Rightarrow> string \<Rightarrow> runner_args \<Rightarrow> problem \<Rightarrow> nat \<Rightarrow> (string + run_outcome) option" where
  "execute_run lib root args problem k =
     (let cmd = resolve_cmd root (ra_cspx args) (rn_cmd (ps_run (pb_spec problem)));
          cwd = run_cwd problem
      in case cmd of
           [] \<Rightarrow> None
         | program # words \<Rightarrow>
             Some
               (case run_child lib
                       \<lparr>sp_program = program, sp_args = words, sp_cwd = cwd,
                        sp_env = unwrap_or (\<lambda>_. None) (rn_env (ps_run (pb_spec problem)))\<rparr> (run_timeout problem) k of
                  SpawnFailed \<Rightarrow> Inl (''spawn command: '' @ join '' '' cmd @ '' (cwd='' @ cwd @ '')'')
                | ChildError e \<Rightarrow> Inl e
                | Finished waited out err \<Rightarrow>
                    (let result_json = json_from_slice lib out
                     in Inr \<lparr>ro_exit_code = exit_code_of waited, ro_stdout = out, ro_stderr = err,
                             ro_result_json = result_json, ro_result_status = result_status_of result_json\<rparr>)))"

definition run_line :: "string \<Rightarrow> string \<Rightarrow> nat \<Rightarrow> run_outcome \<Rightarrow> string" where
  "run_line what pid idx outcome =
     what @ '' '' @ pid @ '' run='' @ show_nat idx @ '' exit='' @ show_int (ro_exit_code outcome) @
     '' status='' @ unwrap_or ''unknown'' (ro_result_status outcome)"

fun run_warmups ::
  "(nat \<Rightarrow> (string + run_outcome) option) \<Rightarrow> string \<Rightarrow> nat \<Rightarrow> nat \<Rightarrow> string list
     \<Rightarrow> (string option \<times> string list) option" where
  "run_warmups exec pid idx 0 logs = Some (None, logs)"
| "run_warmups exec pid idx (Suc n) logs =
     (case exec (idx - 1) of
        None \<Rightarrow> None
      | Some (Inl e) \<Rightarrow> Some (Some e, logs)
      | Some (Inr outcome) \<Rightarrow> run_warmups exec pid (idx + 1) n (logs @ [run_line ''WARMUP'' pid idx outcome]))"

text \<open>\<^verbatim>\<open>fs::write\<close>.\<close>

definition write_file :: "string \<Rightarrow> string \<Rightarrow> fs_action list" where
  "write_file p content = [CreateTruncate p, WriteEnd p content]"

definition outcome_files :: "runner_lib \<Rightarrow> string \<Rightarrow> string list \<Rightarrow> run_outcome \<Rightarrow> fs_action list" where
  "outcome_files lib out_dir ignore outcome =
     write_file (path_join out_dir ''stdout.txt'') (ro_stdout outcome) @
     write_file (path_join out_dir ''stderr.txt'') (ro_stderr outcome) @
     write_file (path_join out_dir ''exit_code.txt'') (show_int (ro_exit_code outcome)) @
     (case ro_result_json outcome of
        None \<Rightarrow> []
      | Some result \<Rightarrow>
          write_file (path_join out_dir ''result.json'') (json_pretty lib result) @
          write_file (path_join out_dir ''normalized.json'') (json_pretty lib (normalize_json result ignore)))"

fun run_measured ::
  "runner_lib \<Rightarrow> (nat \<Rightarrow> (string + run_outcome) option) \<Rightarrow> string \<Rightarrow> string \<Rightarrow> string list \<Rightarrow> nat \<Rightarrow> nat \<Rightarrow> string list
     \<Rightarrow> fs_action list \<Rightarrow> run_outcome list
     \<Rightarrow> ((string + run_outcome list) \<times> string list \<times> fs_action list) option" where
  "run_measured lib exec out_root pid ignore idx 0 logs acts outcomes = Some (Inr outcomes, logs, acts)"
| "run_measured lib exec out_root pid ignore idx (Suc n) logs acts outcomes =
     (case exec (idx - 1) of
        None \<Rightarrow> None
      | Some (Inl e) \<Rightarrow> Some (Inl e, logs, acts)
      | Some (Inr outcome) \<Rightarrow>
          (let out_dir = path_join (path_join out_root pid) (''run-'' @ show_nat idx)
           in run_measured lib exec out_root pid ignore (idx + 1) n (logs @ [run_line ''DONE'' pid idx outcome])
                (acts @ outcome_files lib out_dir ignore outcome) (outcomes @ [outcome])))"

definition problem_repeat :: "expect_spec \<Rightarrow> problem \<Rightarrow> runner_args \<Rightarrow> u32" where
  "problem_repeat expect problem args =
     max (unwrap_or 1 (or_else (ex_repeat expect) (rn_repeat (ps_run (pb_spec problem))))) (ra_measure_runs args)"

definition compare_ignore :: "expect_spec \<Rightarrow> string list" where
  "compare_ignore expect = unwrap_or [] (Option.bind (ex_compare expect) cp_ignore_fields)"

definition all_errors :: "runner_lib \<Rightarrow> expect_spec \<Rightarrow> string \<Rightarrow> run_outcome list \<Rightarrow> string list" where
  "all_errors lib expect pid outcomes =
     concat (map (\<lambda>(idx, outcome). evaluate_run (rl_match lib) expect outcome (idx + 1)) (enumerate 0 outcomes)) @
     evaluate_compare expect outcomes pid @
     snd (evaluate_deterministic_consistency outcomes (compare_ignore expect))"

definition run_problem ::
  "runner_lib \<Rightarrow> fs \<Rightarrow> (json \<Rightarrow> string list) \<Rightarrow> string \<Rightarrow> string \<Rightarrow> runner_args \<Rightarrow> problem
     \<Rightarrow> ((string + problem_result) \<times> string list \<times> fs_action list) option" where
  "run_problem lib fs expect_schema root out_root args problem =
     (let pid = ps_id (pb_spec problem); exec = execute_run lib root args problem;
          warmups = unat (ra_warmup_runs args)
      in case load_expect lib fs expect_schema problem of
           Inl e \<Rightarrow> Some (Inl e, [], [])
         | Inr expect \<Rightarrow>
             (let repeat = problem_repeat expect problem args
              in case run_warmups exec pid 1 warmups [] of
                   None \<Rightarrow> None
                 | Some (Some e, logs) \<Rightarrow> Some (Inl e, logs, [])
                 | Some (None, logs) \<Rightarrow>
                     (case run_measured lib (\<lambda>k. exec (warmups + k)) out_root pid (compare_ignore expect) 1
                             (unat repeat) logs [] [] of
                        None \<Rightarrow> None
                      | Some (Inl e, logs, acts) \<Rightarrow> Some (Inl e, logs, acts)
                      | Some (Inr outcomes, logs, acts) \<Rightarrow>
                          (let errors = all_errors lib expect pid outcomes;
                               summary = build_measurement_summary pid (effective_suite (pb_spec problem))
                                 (ra_warmup_runs args) repeat outcomes
                                 (fst (evaluate_deterministic_consistency outcomes (compare_ignore expect)));
                               dir = path_join out_root pid;
                               acts' = acts @ write_file (path_join dir ''metrics-summary.json'') (summary_pretty lib summary);
                               report_path = path_join dir ''report.txt''
                           in if errors = []
                              then Some (Inr ProblemPass, logs, acts' @ write_file report_path (''PASS'' @ [newline]))
                              else Some (Inr ProblemFail,
                                     logs @ [''FAIL '' @ pid @ '' report='' @ report_path],
                                     acts' @ write_file report_path
                                       (''FAIL'' @ [newline] @ join [newline] errors @ [newline]))))))"

section \<open>The program\<close>

text \<open>What the program has printed and found so far.\<close>

record tally =
  ta_any_fail :: bool
  ta_any_error :: bool
  ta_stdout :: "string list"
  ta_stderr :: "string list"
  ta_files :: "(string \<times> fs_action list) list"

definition no_results :: tally where
  "no_results = \<lparr>ta_any_fail = False, ta_any_error = False, ta_stdout = [], ta_stderr = [], ta_files = []\<rparr>"

definition record_result ::
  "string \<Rightarrow> (string + problem_result) \<times> string list \<times> fs_action list \<Rightarrow> tally \<Rightarrow> tally" where
  "record_result pid r ta =
     (case r of (result, logs, acts) \<Rightarrow>
        (let ta1 = ta\<lparr>ta_stdout := ta_stdout ta @ logs, ta_files := ta_files ta @ [(pid, acts)]\<rparr>
         in case result of
              Inr ProblemPass \<Rightarrow> ta1
            | Inr ProblemFail \<Rightarrow> ta1\<lparr>ta_any_fail := True\<rparr>
            | Inl e \<Rightarrow> ta1\<lparr>ta_any_error := True, ta_stderr := ta_stderr ta1 @ [''ERROR '' @ pid @ '': '' @ e]\<rparr>))"

type_synonym runner = "problem \<Rightarrow> ((string + problem_result) \<times> string list \<times> fs_action list) option"

fun run_serial :: "runner \<Rightarrow> problem list \<Rightarrow> tally \<Rightarrow> tally option" where
  "run_serial run [] ta = Some ta"
| "run_serial run (problem # problems) ta =
     (case run problem of
        None \<Rightarrow> None
      | Some r \<Rightarrow> run_serial run problems (record_result (ps_id (pb_spec problem)) r ta))"

text \<open>The pool hands over the records of the finished problems as \<open>collect\<close> puts them together; they are sorted by the
  index of the problem before they are printed.\<close>

type_synonym run_record = "nat \<times> string \<times> (string + problem_result) \<times> string list \<times> fs_action list"

definition problem_record :: "runner \<Rightarrow> nat \<times> problem \<Rightarrow> run_record option" where
  "problem_record run ip = map_option (\<lambda>r. (fst ip, ps_id (pb_spec (snd ip)), r)) (run (snd ip))"

definition run_pooled :: "(run_record list \<Rightarrow> run_record list) \<Rightarrow> runner \<Rightarrow> problem list \<Rightarrow> tally \<Rightarrow> tally option" where
  "run_pooled collect run problems ta =
     map_option (\<lambda>records. fold (\<lambda>(_, pid, r). record_result pid r) (sort_key fst (collect records)) ta)
       (those (map (problem_record run) (enumerate 0 problems)))"

definition tally_exit :: "tally \<Rightarrow> int" where
  "tally_exit ta = (if ta_any_error ta then 2 else if ta_any_fail ta then 1 else 0)"

text \<open>The exit code and what was printed and written; an error of \<open>main\<close> itself exits with 1.\<close>

definition failed_main :: "string \<Rightarrow> int \<times> tally" where
  "failed_main e = (1, no_results\<lparr>ta_stderr := [''Error: '' @ e]\<rparr>)"

definition problems_main ::
  "runner_lib \<Rightarrow> fs \<Rightarrow> (string \<times> bool) list option \<Rightarrow> string \<Rightarrow> (run_record list \<Rightarrow> run_record list) \<Rightarrow> runner_args
     \<Rightarrow> (int \<times> tally) option" where
  "problems_main lib fs entries root collect args =
     (if ra_jobs args = 0 then Some (failed_main ''--jobs must be >= 1'')
      else if ra_measure_runs args = 0 then Some (failed_main ''--measure-runs must be >= 1'')
      else
        (let problems_dir = path_join root ''problems''
         in case and_then (load_problem_schema lib fs root) (\<lambda>problem_schema.
                 and_then (load_expect_schema lib fs root) (\<lambda>expect_schema.
                 and_then (load_problems lib fs problem_schema entries) (\<lambda>problems.
                   Inr (expect_schema, sort_key (\<lambda>p. ps_id (pb_spec p)) problems)))) of
              Inl e \<Rightarrow> Some (failed_main e)
            | Inr (expect_schema, problems) \<Rightarrow>
                (let filtered = filter_problems lib problems args root;
                     run = run_problem lib fs expect_schema root (path_join problems_dir ''.out'') args
                 in if ra_list args
                    then Some (0, no_results\<lparr>ta_stdout :=
                           map (\<lambda>p. ps_id (pb_spec p) @ '' '' @ ps_title (pb_spec p)) filtered\<rparr>)
                    else if ra_jobs args = 1
                    then map_option (\<lambda>ta. (tally_exit ta, ta)) (run_serial run filtered no_results)
                    else if \<not> thread_pool lib (ra_jobs args) then Some (failed_main ''build thread pool'')
                    else map_option (\<lambda>ta. (tally_exit ta, ta)) (run_pooled collect run filtered no_results))))"

section \<open>The verdict of a problem\<close>

text \<open>All executions give an outcome, and the outcomes after the warm-up meet the declared expectations.\<close>

definition problem_passes ::
  "runner_lib \<Rightarrow> fs \<Rightarrow> (json \<Rightarrow> string list) \<Rightarrow> string \<Rightarrow> runner_args \<Rightarrow> problem \<Rightarrow> bool" where
  "problem_passes lib fs expect_schema root args problem \<longleftrightarrow>
     (\<exists>expect outcomes. load_expect lib fs expect_schema problem = Inr expect \<and>
        length outcomes = unat (problem_repeat expect problem args) \<and>
        (\<forall>i < unat (ra_warmup_runs args). \<exists>outcome. execute_run lib root args problem i = Some (Inr outcome)) \<and>
        (\<forall>i < length outcomes.
           execute_run lib root args problem (unat (ra_warmup_runs args) + i) = Some (Inr (outcomes ! i))) \<and>
        (\<forall>outcome \<in> set outcomes. run_ok (rl_match lib) expect outcome) \<and>
        compare_ok expect outcomes \<and> consistency_ok outcomes (compare_ignore expect))"

definition problem_unrunnable ::
  "runner_lib \<Rightarrow> fs \<Rightarrow> (json \<Rightarrow> string list) \<Rightarrow> string \<Rightarrow> string \<Rightarrow> runner_args \<Rightarrow> problem \<Rightarrow> bool" where
  "problem_unrunnable lib fs expect_schema root out_root args problem \<longleftrightarrow>
     (\<exists>e logs acts. run_problem lib fs expect_schema root out_root args problem = Some (Inl e, logs, acts))"

lemma all_less_Suc_shift: "(\<forall>i < Suc n. P i) \<longleftrightarrow> P 0 \<and> (\<forall>i < n. P (Suc i))"
  by (metis less_Suc_eq_0_disj not0_implies_Suc zero_less_Suc Suc_less_eq)

lemma run_warmups_done:
  "(\<exists>logs'. run_warmups exec pid (Suc k) n logs = Some (None, logs')) \<longleftrightarrow>
     (\<forall>i < n. \<exists>outcome. exec (k + i) = Some (Inr outcome))"
proof (induction n arbitrary: k logs)
  case (Suc n)
  then show ?case
    using Suc [of "Suc k"] by (auto simp: all_less_Suc_shift split: option.splits sum.splits)
qed simp

lemma run_warmups_returns:
  "\<forall>k. exec k \<noteq> None \<Longrightarrow> run_warmups exec pid idx n logs \<noteq> None"
  by (induction n arbitrary: idx logs) (auto split: option.splits sum.splits)

lemma run_measured_done:
  "(\<exists>logs' acts'. run_measured lib exec out pid ignore (Suc k) n logs acts outcomes = Some (Inr outs, logs', acts')) \<longleftrightarrow>
     (\<exists>new. length new = n \<and> outs = outcomes @ new \<and> (\<forall>i < n. exec (k + i) = Some (Inr (new ! i))))"
proof (induction n arbitrary: k logs acts outcomes)
  case (Suc n)
  have shift: "(\<exists>new. length new = Suc n \<and> outs = outcomes @ new \<and> (\<forall>i < Suc n. exec (k + i) = Some (Inr (new ! i)))) \<longleftrightarrow>
      (\<exists>x new. exec k = Some (Inr x) \<and> length new = n \<and> outs = (outcomes @ [x]) @ new \<and>
         (\<forall>i < n. exec (Suc k + i) = Some (Inr (new ! i))))"
  proof
    assume "\<exists>new. length new = Suc n \<and> outs = outcomes @ new \<and> (\<forall>i < Suc n. exec (k + i) = Some (Inr (new ! i)))"
    then obtain x new where "length new = n" "outs = outcomes @ x # new"
      "\<forall>i < Suc n. exec (k + i) = Some (Inr ((x # new) ! i))" by (auto simp: length_Suc_conv)
    then show "\<exists>x new. exec k = Some (Inr x) \<and> length new = n \<and> outs = (outcomes @ [x]) @ new \<and>
        (\<forall>i < n. exec (Suc k + i) = Some (Inr (new ! i)))"
      by (intro exI [of _ x] exI [of _ new]) (simp add: all_less_Suc_shift)
  next
    assume "\<exists>x new. exec k = Some (Inr x) \<and> length new = n \<and> outs = (outcomes @ [x]) @ new \<and>
        (\<forall>i < n. exec (Suc k + i) = Some (Inr (new ! i)))"
    then obtain x new where "exec k = Some (Inr x)" "length new = n" "outs = outcomes @ x # new"
      "\<forall>i < n. exec (Suc k + i) = Some (Inr (new ! i))" by auto
    then show "\<exists>new. length new = Suc n \<and> outs = outcomes @ new \<and> (\<forall>i < Suc n. exec (k + i) = Some (Inr (new ! i)))"
      by (intro exI [of _ "x # new"]) (simp add: all_less_Suc_shift)
  qed
  show ?case
    unfolding shift using Suc [of "Suc k"]
    by (cases "exec k") (auto simp: Let_def split: sum.splits)
qed auto

lemma run_measured_returns:
  "\<forall>k. exec k \<noteq> None \<Longrightarrow> run_measured lib exec out pid ignore idx n logs acts outcomes \<noteq> None"
  by (induction n arbitrary: idx logs acts outcomes) (auto simp: Let_def split: option.splits sum.splits)

lemma all_errors_nil:
  "all_errors lib expect pid outcomes = [] \<longleftrightarrow>
     (\<forall>outcome \<in> set outcomes. run_ok (rl_match lib) expect outcome) \<and>
     compare_ok expect outcomes \<and> consistency_ok outcomes (compare_ignore expect)"
proof -
  have "(\<forall>x \<in> set (enumerate 0 outcomes). run_ok (rl_match lib) expect (snd x)) \<longleftrightarrow>
      (\<forall>y \<in> snd ` set (enumerate 0 outcomes). run_ok (rl_match lib) expect y)" by simp
  also have "snd ` set (enumerate 0 outcomes) = set outcomes" by (metis list.set_map map_snd_enumerate)
  finally show ?thesis
    by (simp add: all_errors_def evaluate_run_nil evaluate_compare_nil deterministic_consistency_nil case_prod_beta)
qed

lemma run_problem_pass_iff:
  "(\<exists>logs acts. run_problem lib fs expect_schema root out_root args problem = Some (Inr ProblemPass, logs, acts)) \<longleftrightarrow>
     problem_passes lib fs expect_schema root args problem"
proof (cases "load_expect lib fs expect_schema problem")
  case (Inr expect)
  let ?exec = "execute_run lib root args problem"
  let ?pid = "ps_id (pb_spec problem)"
  let ?w = "unat (ra_warmup_runs args)"
  let ?n = "unat (problem_repeat expect problem args)"
  have w: "(\<exists>logs'. run_warmups ?exec ?pid 1 ?w [] = Some (None, logs')) \<longleftrightarrow>
      (\<forall>i < ?w. \<exists>outcome. ?exec i = Some (Inr outcome))"
    using run_warmups_done [of ?exec ?pid 0 ?w "[]"] by simp
  have m: "(\<exists>logs' acts'. run_measured lib (\<lambda>k. ?exec (?w + k)) out_root ?pid (compare_ignore expect) 1 ?n logs [] [] =
        Some (Inr outs, logs', acts')) \<longleftrightarrow>
      length outs = ?n \<and> (\<forall>i < ?n. ?exec (?w + i) = Some (Inr (outs ! i)))" for outs logs
    using run_measured_done [of lib "\<lambda>k. ?exec (?w + k)" out_root ?pid "compare_ignore expect" 0 ?n logs "[]" "[]" outs]
    by simp
  have "(\<exists>logs acts. run_problem lib fs expect_schema root out_root args problem = Some (Inr ProblemPass, logs, acts)) \<longleftrightarrow>
      (\<exists>logs outs logs' acts'. run_warmups ?exec ?pid 1 ?w [] = Some (None, logs) \<and>
         run_measured lib (\<lambda>k. ?exec (?w + k)) out_root ?pid (compare_ignore expect) 1 ?n logs [] [] =
           Some (Inr outs, logs', acts') \<and> all_errors lib expect ?pid outs = [])"
    by (auto simp: run_problem_def Inr Let_def split: option.splits sum.splits prod.splits if_splits)
  also have "\<dots> \<longleftrightarrow> (\<forall>i < ?w. \<exists>outcome. ?exec i = Some (Inr outcome)) \<and>
      (\<exists>outs. length outs = ?n \<and> (\<forall>i < ?n. ?exec (?w + i) = Some (Inr (outs ! i))) \<and> all_errors lib expect ?pid outs = [])"
    using w m by metis
  also have "\<dots> \<longleftrightarrow> problem_passes lib fs expect_schema root args problem"
    unfolding problem_passes_def Inr all_errors_nil by auto
  finally show ?thesis .
qed (simp add: run_problem_def problem_passes_def)

section \<open>The exit code\<close>

lemma execute_run_returns: "rn_cmd (ps_run (pb_spec problem)) \<noteq> [] \<Longrightarrow> execute_run lib root args problem k \<noteq> None"
  by (auto simp: execute_run_def resolve_cmd_def Let_def split: option.splits list.splits if_splits)

lemma run_problem_returns:
  assumes "rn_cmd (ps_run (pb_spec problem)) \<noteq> []"
  shows "run_problem lib fs expect_schema root out_root args problem \<noteq> None"
proof -
  have e: "\<forall>k. execute_run lib root args problem k \<noteq> None" using execute_run_returns [OF assms] by blast
  note w = run_warmups_returns [OF e]
  have "\<forall>k. execute_run lib root args problem (unat (ra_warmup_runs args) + k) \<noteq> None" using e by blast
  note m = run_measured_returns [OF this]
  show ?thesis
    unfolding run_problem_def Let_def
    by (simp split: sum.split option.split prod.split) (use w m in blast)
qed

definition serial_tally :: "runner \<Rightarrow> problem list \<Rightarrow> tally \<Rightarrow> tally" where
  "serial_tally run = fold (\<lambda>p. record_result (ps_id (pb_spec p)) (the (run p)))"

lemma run_serial_tally: "\<forall>p \<in> set ps. run p \<noteq> None \<Longrightarrow> run_serial run ps ta = Some (serial_tally run ps ta)"
  by (induction ps arbitrary: ta) (auto simp: serial_tally_def)

lemma run_pooled_tally:
  assumes "\<forall>p \<in> set ps. run p \<noteq> None" and "\<forall>rs. mset (collect rs) = mset rs"
  shows "run_pooled collect run ps ta = Some (serial_tally run ps ta)"
proof -
  define rec where "rec = (\<lambda>ip :: nat \<times> problem. (fst ip, ps_id (pb_spec (snd ip)), the (run (snd ip))))"
  have "problem_record run ip = Some (rec ip)" if "ip \<in> set (enumerate 0 ps)" for ip
  proof -
    have "fst ip < length ps" "snd ip = ps ! fst ip" using that by (simp_all add: in_set_enumerate_eq)
    then have "run (snd ip) \<noteq> None" using assms(1) nth_mem by metis
    then obtain r where "run (snd ip) = Some r" by blast
    then show ?thesis by (simp add: problem_record_def rec_def)
  qed
  then have "map (problem_record run) (enumerate 0 ps) = map Some (map rec (enumerate 0 ps))" by simp
  then have those: "those (map (problem_record run) (enumerate 0 ps)) = Some (map rec (enumerate 0 ps))"
    by (simp add: those_Some)
  have fst: "map fst (map rec (enumerate 0 ps)) = [0..<length ps]"
    by (simp add: rec_def comp_def enumerate_eq_zip)
  have "sort_key fst (collect (map rec (enumerate 0 ps))) = map rec (enumerate 0 ps)"
  proof (rule sort_key_inj_key_eq)
    show "mset (collect (map rec (enumerate 0 ps))) = mset (map rec (enumerate 0 ps))" using assms(2) by blast
    then have "set (collect (map rec (enumerate 0 ps))) = set (map rec (enumerate 0 ps))" by (rule mset_eq_setD)
    moreover have "inj_on fst (set (map rec (enumerate 0 ps)))"
      using distinct_map [of fst "map rec (enumerate 0 ps)"] fst by (metis distinct_upt)
    ultimately show "inj_on fst (set (collect (map rec (enumerate 0 ps))))" by simp
    show "sorted (map fst (map rec (enumerate 0 ps)))" unfolding fst by (rule sorted_upt)
  qed
  moreover have "fold (\<lambda>(_, pid, r). record_result pid r) (map rec (enumerate n ps)) ta = serial_tally run ps ta" for n
    unfolding rec_def serial_tally_def by (induction ps arbitrary: n ta) simp_all
  ultimately show ?thesis by (simp only: run_pooled_def those option.map)
qed

lemma serial_tally_flags:
  "ta_any_fail (serial_tally run ps ta) \<longleftrightarrow> ta_any_fail ta \<or> (\<exists>p \<in> set ps. fst (the (run p)) = Inr ProblemFail)"
  "ta_any_error (serial_tally run ps ta) \<longleftrightarrow> ta_any_error ta \<or> (\<exists>p \<in> set ps. \<exists>e. fst (the (run p)) = Inl e)"
proof -
  have "serial_tally run (p # ps) ta = serial_tally run ps (record_result (ps_id (pb_spec p)) (the (run p)) ta)" for p ps ta
    by (simp add: serial_tally_def)
  moreover have "ta_any_fail (record_result pid r ta) \<longleftrightarrow> ta_any_fail ta \<or> fst r = Inr ProblemFail"
    "ta_any_error (record_result pid r ta) \<longleftrightarrow> ta_any_error ta \<or> (\<exists>e. fst r = Inl e)" for pid r ta
    by (auto simp: record_result_def Let_def split: prod.splits sum.splits problem_result.splits)
  ultimately show "ta_any_fail (serial_tally run ps ta) \<longleftrightarrow> ta_any_fail ta \<or> (\<exists>p \<in> set ps. fst (the (run p)) = Inr ProblemFail)"
    "ta_any_error (serial_tally run ps ta) \<longleftrightarrow> ta_any_error ta \<or> (\<exists>p \<in> set ps. \<exists>e. fst (the (run p)) = Inl e)"
    by (induction ps arbitrary: ta) (auto simp: serial_tally_def)
qed

lemma run_problem_jobs:
  "run_problem lib fs expect_schema root out_root (args\<lparr>ra_jobs := j\<rparr>) problem =
     run_problem lib fs expect_schema root out_root args problem"
proof -
  have e: "execute_run lib root (args\<lparr>ra_jobs := j\<rparr>) problem = execute_run lib root args problem"
    by (rule ext) (simp add: execute_run_def)
  have r: "problem_repeat expect problem (args\<lparr>ra_jobs := j\<rparr>) = problem_repeat expect problem args" for expect
    by (simp add: problem_repeat_def)
  have w: "ra_warmup_runs (args\<lparr>ra_jobs := j\<rparr>) = ra_warmup_runs args" by simp
  show ?thesis unfolding run_problem_def e r w by (rule refl)
qed

lemma filter_problems_jobs: "filter_problems lib ps (args\<lparr>ra_jobs := j\<rparr>) root = filter_problems lib ps args root"
  by (simp add: filter_problems_def)

text \<open>The arguments are valid, the schemas and the problems load, the pool starts and hands over every record.\<close>

definition runner_ready ::
  "runner_lib \<Rightarrow> fs \<Rightarrow> (string \<times> bool) list option \<Rightarrow> string \<Rightarrow> runner_args \<Rightarrow> (json \<Rightarrow> string list) \<Rightarrow> problem list \<Rightarrow> bool" where
  "runner_ready lib fs entries root args expect_schema problems \<longleftrightarrow>
     ra_jobs args \<noteq> 0 \<and> ra_measure_runs args \<noteq> 0 \<and> \<not> ra_list args \<and> thread_pool lib (ra_jobs args) \<and>
     (\<exists>schema. load_problem_schema lib fs root = Inr schema \<and> load_problems lib fs schema entries = Inr problems) \<and>
     load_expect_schema lib fs root = Inr expect_schema"

lemma problems_main_tally:
  assumes "runner_ready lib fs entries root args expect_schema problems"
    and "\<forall>p \<in> set problems. rn_cmd (ps_run (pb_spec p)) \<noteq> []"
    and "\<forall>rs. mset (collect rs) = mset rs"
  defines "selected \<equiv> filter_problems lib (sort_key (\<lambda>p. ps_id (pb_spec p)) problems) args root"
    and "run \<equiv> run_problem lib fs expect_schema root (path_join (path_join root ''problems'') ''.out'') args"
  shows "problems_main lib fs entries root collect args =
    Some (tally_exit (serial_tally run selected no_results), serial_tally run selected no_results)"
proof -
  have "\<forall>p \<in> set selected. run p \<noteq> None"
    using assms(2) run_problem_returns unfolding selected_def run_def filter_problems_def Let_def by auto
  note tally = run_serial_tally [OF this] run_pooled_tally [OF this assms(3)]
  show ?thesis
    using assms(1) tally
    by (auto simp: problems_main_def runner_ready_def Let_def selected_def [symmetric] run_def [symmetric])
qed

lemma problems_main_serial:
  assumes "runner_ready lib fs entries root args expect_schema problems"
    and "\<forall>p \<in> set problems. rn_cmd (ps_run (pb_spec p)) \<noteq> []"
  defines "selected \<equiv> filter_problems lib (sort_key (\<lambda>p. ps_id (pb_spec p)) problems) args root"
    and "run \<equiv> run_problem lib fs expect_schema root (path_join (path_join root ''problems'') ''.out'') args"
  shows "problems_main lib fs entries root (\<lambda>rs. rs) (args\<lparr>ra_jobs := 1\<rparr>) =
    Some (tally_exit (serial_tally run selected no_results), serial_tally run selected no_results)"
proof -
  have "\<forall>p \<in> set selected. run p \<noteq> None"
    using assms(2) run_problem_returns unfolding selected_def run_def filter_problems_def Let_def by auto
  note tally = run_serial_tally [OF this]
  have jobs: "run_problem lib fs expect_schema root out (args\<lparr>ra_jobs := Suc 0\<rparr>) = run_problem lib fs expect_schema root out args"
    for out by (rule ext) (rule run_problem_jobs)
  show ?thesis
    using assms(1) tally
    by (auto simp: problems_main_def runner_ready_def Let_def jobs filter_problems_jobs
        selected_def [symmetric] run_def [symmetric])
qed

lemma selected_set:
  "set (filter_problems lib (sort_key f ps) args root) = set (filter_problems lib ps args root)"
  by (simp add: filter_problems_def Let_def)

text \<open>C39: when the arguments are valid, the schemas and problems load and no command is empty, the runner returns, and
  its exit code is 0 exactly when every selected problem passes (all runs give a result that meets the expectations,
  the declared comparison holds, and deterministic runs agree), 2 exactly when one of them cannot be run, and 1
  otherwise. The exit code and everything that is printed are the same with a thread pool of any size, in whatever
  order it finishes the problems, as without one.\<close>

theorem problems_main_correct:
  assumes "runner_ready lib fs entries root args expect_schema problems"
    and "\<forall>p \<in> set problems. rn_cmd (ps_run (pb_spec p)) \<noteq> []"
    and "\<forall>rs. mset (collect rs) = mset rs"
  shows "\<exists>code ta. problems_main lib fs entries root collect args = Some (code, ta) \<and>
    problems_main lib fs entries root (\<lambda>rs. rs) (args\<lparr>ra_jobs := 1\<rparr>) = Some (code, ta) \<and>
    (code = 0 \<longleftrightarrow>
       (\<forall>p \<in> set (filter_problems lib problems args root). problem_passes lib fs expect_schema root args p)) \<and>
    (code = 2 \<longleftrightarrow>
       (\<exists>p \<in> set (filter_problems lib problems args root).
          problem_unrunnable lib fs expect_schema root (path_join (path_join root ''problems'') ''.out'') args p)) \<and>
    code \<in> {0, 1, 2}"
proof -
  let ?out = "path_join (path_join root ''problems'') ''.out''"
  let ?run = "run_problem lib fs expect_schema root ?out args"
  let ?selected = "filter_problems lib (sort_key (\<lambda>p. ps_id (pb_spec p)) problems) args root"
  let ?ta = "serial_tally ?run ?selected no_results"
  have serial: "problems_main lib fs entries root (\<lambda>rs. rs) (args\<lparr>ra_jobs := 1\<rparr>) = Some (tally_exit ?ta, ?ta)"
    by (rule problems_main_serial [OF assms(1,2)])
  have some: "?run p \<noteq> None" if "p \<in> set ?selected" for p
    using assms(2) that run_problem_returns unfolding filter_problems_def Let_def by auto
  have verdict: "fst (the (?run p)) = Inr ProblemPass \<longleftrightarrow> problem_passes lib fs expect_schema root args p"
    "(\<exists>e. fst (the (?run p)) = Inl e) \<longleftrightarrow> problem_unrunnable lib fs expect_schema root ?out args p"
    if "p \<in> set ?selected" for p
    using some [OF that] run_problem_pass_iff [of lib fs expect_schema root ?out args p]
    by (auto simp: problem_unrunnable_def)
  have result: "x = Inr ProblemPass \<longleftrightarrow> x \<noteq> Inr ProblemFail \<and> (\<nexists>e. x = Inl e)" for x :: "string + problem_result"
    by (cases x; cases "projr x") auto
  have zero: "tally_exit ?ta = 0 \<longleftrightarrow> (\<forall>p \<in> set ?selected. fst (the (?run p)) = Inr ProblemPass)"
    unfolding result tally_exit_def serial_tally_flags by (simp add: no_results_def) blast
  have two: "tally_exit ?ta = 2 \<longleftrightarrow> (\<exists>p \<in> set ?selected. \<exists>e. fst (the (?run p)) = Inl e)"
    unfolding tally_exit_def serial_tally_flags by (simp add: no_results_def)
  show ?thesis
  proof (intro exI conjI)
    show "problems_main lib fs entries root collect args = Some (tally_exit ?ta, ?ta)"
      by (rule problems_main_tally [OF assms])
    show "problems_main lib fs entries root (\<lambda>rs. rs) (args\<lparr>ra_jobs := 1\<rparr>) = Some (tally_exit ?ta, ?ta)"
      by (rule serial)
    show "tally_exit ?ta = 0 \<longleftrightarrow>
        (\<forall>p \<in> set (filter_problems lib problems args root). problem_passes lib fs expect_schema root args p)"
      unfolding zero by (simp only: verdict(1) selected_set cong: ball_cong)
    show "tally_exit ?ta = 2 \<longleftrightarrow> (\<exists>p \<in> set (filter_problems lib problems args root).
        problem_unrunnable lib fs expect_schema root ?out args p)"
      unfolding two by (simp only: verdict(2) selected_set cong: bex_cong)
    show "tally_exit ?ta \<in> {0, 1, 2}" by (simp add: tally_exit_def)
  qed
qed

text \<open>Two problems that expect the exit code 0, and a tool that returns it.\<close>

definition sample_spec :: "string \<Rightarrow> problem_spec" where
  "sample_spec pid =
     \<lparr>ps_id = pid, ps_title = ''sample'', ps_suite = None, ps_tags = None, ps_timeout_ms = None,
      ps_run = \<lparr>rn_cmd = [''cspx''], rn_cwd = None, rn_env = None, rn_timeout_ms = None, rn_repeat = None\<rparr>\<rparr>"

definition sample_runner_lib :: runner_lib where
  "sample_runner_lib =
     \<lparr>rl_match = \<lparr>regex_is_match = (\<lambda>_ _. None), display_json = (\<lambda>_. '''')\<rparr>,
      yaml_json = (\<lambda>_. Some JNull), yaml_problem = (\<lambda>text. Some (sample_spec text)),
      yaml_expect = (\<lambda>_. Some \<lparr>ex_exit_code = Some (JNumber (PosInt 0)), ex_status = None, ex_checks = None,
                                ex_repeat = None, ex_compare = None\<rparr>),
      validate = (\<lambda>_. Some (\<lambda>_. [])), json_from_slice = (\<lambda>text. if text = ''{}'' then Some (JObject []) else None),
      json_pretty = (\<lambda>_. ''''), summary_pretty = (\<lambda>_. ''''), canonicalize = (\<lambda>_. None),
      run_child = (\<lambda>_ _ _. Finished (Exited (Some 0)) '''' ''''), thread_pool = (\<lambda>_. True)\<rparr>"

definition sample_files :: fs where
  "sample_files =
     [''/r/schemas/problem.schema.json'' \<mapsto> ''{}'', ''/r/schemas/expect.schema.json'' \<mapsto> ''{}'',
      ''/r/problems/B/problem.yaml'' \<mapsto> ''B'', ''/r/problems/A/problem.yaml'' \<mapsto> ''A'',
      ''/r/problems/B/expect.yaml'' \<mapsto> '''', ''/r/problems/A/expect.yaml'' \<mapsto> '''']"

definition sample_entries :: "(string \<times> bool) list option" where
  "sample_entries = Some [(''/r/problems/B'', True), (''/r/problems/README.md'', False), (''/r/problems/A'', True)]"

definition sample_runner_args :: runner_args where
  "sample_runner_args =
     \<lparr>ra_suite = Fast, ra_list = False, ra_only = [], ra_only_dir = [], ra_cspx = None, ra_jobs = 4,
      ra_measure_runs = 1, ra_warmup_runs = 0\<rparr>"

definition sample_problems :: "problem list" where
  "sample_problems = [\<lparr>pb_dir = ''/r/problems/B'', pb_spec = sample_spec ''B''\<rparr>,
                      \<lparr>pb_dir = ''/r/problems/A'', pb_spec = sample_spec ''A''\<rparr>]"

lemma sample_texts: "utf8_valid ''{}''" "utf8_valid ''A''" "utf8_valid ''B''"
  by code_simp+

lemma sample_ready:
  "runner_ready sample_runner_lib sample_files sample_entries ''/r'' sample_runner_args (\<lambda>_. []) sample_problems"
  unfolding runner_ready_def
  by (simp add: sample_runner_args_def sample_runner_lib_def load_problem_schema_def load_expect_schema_def
      load_schema_def read_text_def sample_texts path_join_def is_absolute_def sample_files_def sample_entries_def
      load_problems_def load_yaml_def Let_def sample_problems_def ok_or_def del: utf8_valid.simps)

theorem problems_main_correct_witness:
  "problems_main sample_runner_lib sample_files sample_entries ''/r'' rev sample_runner_args =
     problems_main sample_runner_lib sample_files sample_entries ''/r'' (\<lambda>rs. rs) (sample_runner_args\<lparr>ra_jobs := 1\<rparr>) \<and>
   map_option fst
     (problems_main sample_runner_lib sample_files sample_entries ''/r'' (\<lambda>rs. rs) (sample_runner_args\<lparr>ra_jobs := 1\<rparr>)) =
     Some 0"
proof
  have "\<forall>p \<in> set sample_problems. rn_cmd (ps_run (pb_spec p)) \<noteq> []"
    by (simp add: sample_problems_def sample_spec_def)
  from problems_main_correct [OF sample_ready this, of rev]
  show "problems_main sample_runner_lib sample_files sample_entries ''/r'' rev sample_runner_args =
     problems_main sample_runner_lib sample_files sample_entries ''/r'' (\<lambda>rs. rs) (sample_runner_args\<lparr>ra_jobs := 1\<rparr>)"
    by auto
  show "map_option fst
     (problems_main sample_runner_lib sample_files sample_entries ''/r'' (\<lambda>rs. rs) (sample_runner_args\<lparr>ra_jobs := 1\<rparr>)) =
     Some 0"
    by code_simp
qed

section \<open>Problems that do not load\<close>

text \<open>The manual of the problems says that a failure to load makes the runner exit with 2 and that the exit code 1
  means an expectation that was not met. A \<^verbatim>\<open>problem.yaml\<close> that does not load is an error of \<^verbatim>\<open>main\<close>, which exits
  with 1; only \<^verbatim>\<open>expect.yaml\<close> and the start of the command are covered by the exit code 2.\<close>

lemma load_failure_exits_1:
  assumes "ra_jobs args \<noteq> 0" "ra_measure_runs args \<noteq> 0"
    and "load_problem_schema lib fs root = Inr schema" "load_expect_schema lib fs root = Inr expect_schema"
    and "load_problems lib fs schema entries = Inl e"
  shows "map_option fst (problems_main lib fs entries root collect args) = Some 1"
  using assms by (simp add: problems_main_def failed_main_def Let_def)

lemma load_failure_exits_1_witness:
  "map_option fst (problems_main (sample_runner_lib\<lparr>yaml_problem := (\<lambda>_. None)\<rparr>) sample_files sample_entries ''/r''
     (\<lambda>rs. rs) sample_runner_args) = Some 1"
  by code_simp

end
