(* ===== verification/Spec2Isabelle.thy ===== *)
theory Spec2Isabelle
  imports Cspx_Sound Cspx_Hybrid Cspx_Report Cspx_Problems
begin

text \<open>
  \<^bold>\<open>A verification library of cspx\<close>, a model checker for a subset of CSPm written in Rust.

  \<^bold>\<open>The program.\<close> The library \<^verbatim>\<open>crates/cspx-core\<close> reads a source text (\<^verbatim>\<open>frontend_simple.rs\<close>: lexer, parser, type
  checker) into modules (\<^verbatim>\<open>ir.rs\<close>), compiles a module to a table of expression nodes with a transition function on
  states (\<^verbatim>\<open>lts_cspm.rs\<close>), and runs on this transition system an explorer (\<^verbatim>\<open>explore.rs\<close>) with interchangeable state
  stores and work queues (\<^verbatim>\<open>store*.rs\<close>, \<^verbatim>\<open>disk_store.rs\<close>, \<^verbatim>\<open>queue*.rs\<close>), three property checkers
  (\<^verbatim>\<open>check_deadlock.rs\<close>, \<^verbatim>\<open>check_divergence.rs\<close>, \<^verbatim>\<open>check_determinism.rs\<close>) and a refinement checker (\<^verbatim>\<open>check_refine.rs\<close>),
  whose counterexamples are minimised (\<^verbatim>\<open>minimize_simple.rs\<close>) and explained (\<^verbatim>\<open>explain_simple.rs\<close>). The command line
  tool \<^verbatim>\<open>crates/cspx-cli\<close> composes them and reports status, exit code and files; the problem runner
  \<^verbatim>\<open>crates/cspx-problems\<close> runs the tool on a collection of problems and compares its results with expectations.

  \<^bold>\<open>Theories.\<close> Definitions keep the names of the source; each theory opens with what it holds.
  \<^item> \<^verbatim>\<open>Cspx_Prelude\<close>: what is used of Rust's standard library: saturating arithmetic on 64-bit words, decimal text,
    big-endian bytes, UTF-8, ordered sets and maps as strictly ascending lists, the question mark operator.
  \<^item> \<^verbatim>\<open>Cspx_Types\<close>, \<^verbatim>\<open>Cspx_IR\<close>: \<^verbatim>\<open>types.rs\<close>, \<^verbatim>\<open>check.rs\<close>, \<^verbatim>\<open>ir.rs\<close>, \<^verbatim>\<open>assertion_select.rs\<close>, \<^verbatim>\<open>counterexample_span.rs\<close>.
  \<^item> \<^verbatim>\<open>Cspx_State\<close>: \<^verbatim>\<open>lts.rs\<close>, \<^verbatim>\<open>state_codec.rs\<close> (the locale \<^verbatim>\<open>state_codec\<close>), the states of \<^verbatim>\<open>lts_cspm.rs\<close>, their order
    and their binary codec.
  \<^item> \<^verbatim>\<open>Cspx_Lts\<close>: the transition function of \<^verbatim>\<open>lts_cspm.rs\<close> and an inductive operational semantics it computes.
    \<^verbatim>\<open>Cspx_Compile\<close>: from modules to programs, resolution of references, the initial state.
  \<^item> \<^verbatim>\<open>Cspx_Store\<close>: the interfaces \<^verbatim>\<open>StateStore\<close> and \<^verbatim>\<open>WorkQueue\<close> as the locales \<^verbatim>\<open>state_store\<close>, \<^verbatim>\<open>total_store\<close>,
    \<^verbatim>\<open>work_queue\<close>, and the implementations in memory. \<^verbatim>\<open>Cspx_Reach\<close>: reachability and the invariant that all
    breadth-first loops share. \<^verbatim>\<open>Cspx_Explore\<close>: \<^verbatim>\<open>explore.rs\<close>, proved in the locales \<^verbatim>\<open>explorer\<close>, \<^verbatim>\<open>ordered_store\<close>.
  \<^item> \<^verbatim>\<open>Cspx_Trace\<close>, \<^verbatim>\<open>Cspx_Minimize\<close>: traces of counterexamples; \<^verbatim>\<open>minimize*.rs\<close>, \<^verbatim>\<open>explain*.rs\<close>.
  \<^item> \<^verbatim>\<open>Cspx_Deadlock\<close>, \<^verbatim>\<open>Cspx_Tarjan\<close>, \<^verbatim>\<open>Cspx_Divergence\<close>, \<^verbatim>\<open>Cspx_Determinism\<close>: the property checkers.
  \<^item> \<^verbatim>\<open>Cspx_Semantics\<close>: traces, stable failures and divergences, the specification of refinement. \<^verbatim>\<open>Cspx_Closure\<close>,
    \<^verbatim>\<open>Cspx_Refine_Bfs\<close> (locale \<^verbatim>\<open>node_checker\<close>), \<^verbatim>\<open>Cspx_Refine\<close>, \<^verbatim>\<open>Cspx_Refine_Check\<close>: \<^verbatim>\<open>check_refine.rs\<close>.
  \<^item> \<^verbatim>\<open>Cspx_Lexer\<close>, \<^verbatim>\<open>Cspx_Parser\<close>, \<^verbatim>\<open>Cspx_Typecheck\<close>: \<^verbatim>\<open>frontend_simple.rs\<close>. \<^verbatim>\<open>Cspx_Printer\<close>, \<^verbatim>\<open>Cspx_Frontend\<close>: a
    printer, the round trip, and the composition. \<^verbatim>\<open>Cspx_Sound\<close>: what type checking guarantees of the transitions.
  \<^item> \<^verbatim>\<open>Cspx_Disk\<close>, \<^verbatim>\<open>Cspx_Disk_Crash\<close>, \<^verbatim>\<open>Cspx_Disk_Spec\<close>, \<^verbatim>\<open>Cspx_Hybrid\<close>: the persistent stores, as lists of file system
    actions, with crashes between and inside them, and with any of their calls of the operating system failing
    (records of faults such as \<^verbatim>\<open>open_faults\<close>, \<^verbatim>\<open>insert_faults\<close>).
  \<^item> \<^verbatim>\<open>Cspx_Simple\<close>: \<^verbatim>\<open>lts_simple.rs\<close>. \<^verbatim>\<open>Cspx_Cli\<close>, \<^verbatim>\<open>Cspx_Report\<close>: \<^verbatim>\<open>crates/cspx-cli/src/main.rs\<close>.
  \<^item> \<^verbatim>\<open>Cspx_Json\<close>, \<^verbatim>\<open>Cspx_Expect\<close>, \<^verbatim>\<open>Cspx_Measure\<close>, \<^verbatim>\<open>Cspx_Problems\<close>: \<^verbatim>\<open>crates/cspx-problems/src/main.rs\<close>.

  \<^bold>\<open>What is shown.\<close>
  \<^item> \<^emph>\<open>Front end.\<close> Lexer, parser and type checker return on every input; what the lexer refuses is no text of a token;
    lexing and parsing undo printing; the type checker decides the typing rules; what it accepts compiles, up to cyclic references, to a system in which
    every event is typed and no event is lost.
  \<^item> \<^emph>\<open>Transition system.\<close> Compilation denotes the source and never fails on its tables, and the initial state is missing
    only when the source can be entered without end; the transition function lists exactly the derivable
    transitions, in a canonical order, and returns when recursion is guarded; states survive encoding.
  \<^item> \<^emph>\<open>Exploration.\<close> On a finite system the explorers return, find exactly the reachable states, and agree with
    each other for every worker count, seed and store, on the disk store as well.
  \<^item> \<^emph>\<open>Checkers.\<close> Each checker returns on finite systems and its verdict is equivalent to the declarative
    property; traces of counterexamples are traces of the system. Trace, failures and failures-divergences
    refinement are decided, with caches and pruning. Minimised counterexamples are one-minimal.
  \<^item> \<^emph>\<open>Stores.\<close> The stores implement their interface, whatever calls fail. After any sequence of openings, insertions,
    closings, errors and crashes a disk store whose lock file is there refuses to open; once no store runs and the
    lock file is gone (after a crash somebody has to remove it: the step \<^verbatim>\<open>life_unlock\<close> and \<^verbatim>\<open>remove_lock\<close> are not
    the program's) it opens with every acknowledged insertion and nothing that was never inserted. An insertion
    into the hybrid store that fails leaves its memory as it was, though perhaps not its disk.
  \<^item> \<^emph>\<open>Tools.\<close> Status and exit codes of the command line tool reflect the worst check and, on accepted finite
    programs, the truth of the assertions; result and summary are replaced atomically, whatever fails; the problem runner passes exactly
    what meets its expectations, independently of the number of jobs.

  \<^bold>\<open>Flaws.\<close> Some theorems state what the code does where it departs from CSP or from its documents:
  \<^verbatim>\<open>external_choice_resolved_by_tau\<close> and \<^verbatim>\<open>unguarded_choice_diverges\<close> (\<^verbatim>\<open>Cspx_Lts\<close>),
  \<^verbatim>\<open>divergence_counterexample_spurious\<close> (\<^verbatim>\<open>Cspx_Refine_Check\<close>), \<^verbatim>\<open>nondeterministic_choice_passes\<close>
  (\<^verbatim>\<open>Cspx_Determinism\<close>), \<^verbatim>\<open>corrupt_index_refused\<close>, \<^verbatim>\<open>idx_extension_collides\<close> and \<^verbatim>\<open>torn_line_corrupts\<close>
  (\<^verbatim>\<open>Cspx_Disk_Spec\<close>), \<^verbatim>\<open>load_failure_exits_1\<close> (\<^verbatim>\<open>Cspx_Problems\<close>). The kinds of error that \<^verbatim>\<open>lex_errors\<close> and
  \<^verbatim>\<open>parse_module_returns\<close> state are those of the code, not those of \<^verbatim>\<open>docs/frontend.md\<close>, and \<^verbatim>\<open>hybrid_insert_correct\<close>
  states that the disk keeps a state whose insertion has failed after the append.

  \<^bold>\<open>Bounds, fuel and non-termination.\<close> Machine integers are words of their width; counters saturate or wrap as in
  the source. A loop that may run forever is a partial function whose value \<^const>\<open>None\<close> means that it does not
  return (or, for the tables of a program and an empty command, that it panics); the theorems prove that it
  returns. The transition function recurses through references and is of this kind: unguarded recursion has no
  value. The expression parser has fuel \<^verbatim>\<open>5 * remaining tokens + 5\<close>, enough because at most five levels are
  entered between two tokens (\<^verbatim>\<open>parse_module_returns\<close> shows that it never runs out). Tarjan's recursion has the
  number of nodes as fuel, enough because every nested call marks a new node. Results on the disk store hold as
  long as the log is shorter than \<^verbatim>\<open>2^64\<close> bytes, those on the codec for lengths below \<^verbatim>\<open>2^32\<close>.

  \<^bold>\<open>Parameters.\<close> Third-party code is an argument: rayon (a parallel map that keeps the order, a pool that may fail to
  start), the \<^verbatim>\<open>hex\<close> crate (decoding undoes encoding, two digits per byte), SHA-256, the libraries of JSON, YAML,
  JSON schema and regular expressions, child processes, the outcome of calls of the operating system.

  \<^bold>\<open>Not modelled.\<close> The parsing of arguments (\<^verbatim>\<open>clap\<close>) and the text of JSON output (\<^verbatim>\<open>serde\<close>); clocks, durations and
  floating-point rates; directories and file permissions, and in the problem runner the errors of the operating system;
  \<^verbatim>\<open>lib.rs\<close>, which only re-exports; tests, examples and benchmarks.
\<close>

end
